(* ===== verification/Prelude.thy ===== *)
theory Prelude
  imports Main "HOL-Library.Word" "HOL-Library.Multiset"
begin

text \<open>
  Shared vocabulary of the Phlox kernel library: the machine types of
  \<^verbatim>\<open>include/phlox/types.h\<close> and \<^verbatim>\<open>include/arch/i386/types.h\<close>, the status codes of
  \<^verbatim>\<open>include/phlox/errors.h\<close> the modelled components return, the outcome type of code
  that can panic, and the generic list, option and word lemmas the component proofs use.
\<close>

unbundle bit_operations_syntax

section \<open>Machine types\<close>

text \<open>
  The target is i386: \<^verbatim>\<open>int\<close> and \<^verbatim>\<open>long\<close> are 32 bits wide, \<^verbatim>\<open>bigtime_t\<close> is a signed
  64-bit integer. Unsigned types are words (arithmetic wraps). Signed fields whose range
  the code keeps small are \<^typ>\<open>int\<close>; where a signed value could overflow the model says so.
\<close>

type_synonym uint8 = "8 word"
type_synonym uint16 = "16 word"
type_synonym uint32 = "32 word"
type_synonym uint64 = "64 word"
type_synonym uint = "32 word"
type_synonym addr_t = "32 word"
type_synonym size_t = "32 word"

text \<open>A C string: the bytes before the first NUL, whose number is \<^verbatim>\<open>strlen\<close>.\<close>

definition cstr :: "uint8 list \<Rightarrow> uint8 list" where
  "cstr s = takeWhile (\<lambda>c. c \<noteq> 0) s"

section \<open>Status codes\<close>

text \<open>
  The status codes as an enumeration. \<^verbatim>\<open>errors.h\<close> gives every code a distinct negative number
  and success is zero; the model keeps the names and \<open>status_code\<close> gives the numbers.
\<close>

datatype status =
    NO_ERROR
  | ERR_GENERAL | ERR_INVALID_ARGS | ERR_NO_MEMORY | ERR_OUT_OF_RANGE
  | ERR_NAME_NOT_UNIQUE | ERR_NO_OBJECT | ERR_NO_PERM
  | ERR_VM_GENERAL | ERR_VM_INVALID_ASPACE | ERR_VM_INVALID_OBJECT | ERR_VM_BAD_ADDRESS
  | ERR_VM_BAD_OFFSET | ERR_VM_NO_MAPPING | ERR_VM_NO_MAPPING_GAP | ERR_VM_NO_UPAGE
  | ERR_VM_UPAGE_EXISTS | ERR_VM_PAGE_NOT_PRESENT | ERR_VM_NO_PERMISSION | ERR_VM_NO_USR_ASPACE
  | ERR_MT_GENERAL | ERR_MT_INVALID_HANDLE | ERR_MT_INVALID_STATE
  | ERR_SEM_GENERAL | ERR_SEM_INVALID_HANDLE | ERR_SEM_INVALID_VALUE | ERR_SEM_DELETED
  | ERR_SEM_TIMEOUT | ERR_SEM_TRY_FAILED
  | ERR_MTX_GENERAL | ERR_MTX_INVALID_MUTEX | ERR_MTX_SEM_FAILURE | ERR_MTX_NOT_AN_OWNER
  | ERR_MTX_TRY_FAILED

primrec status_code :: "status \<Rightarrow> 32 word" where
  "status_code NO_ERROR = 0"
| "status_code ERR_GENERAL = 0x80000000"
| "status_code ERR_INVALID_ARGS = 0x80000001"
| "status_code ERR_NO_MEMORY = 0x80000002"
| "status_code ERR_OUT_OF_RANGE = 0x80000003"
| "status_code ERR_NAME_NOT_UNIQUE = 0x80000004"
| "status_code ERR_NO_OBJECT = 0x80000005"
| "status_code ERR_NO_PERM = 0x80000006"
| "status_code ERR_VM_GENERAL = 0x81000000"
| "status_code ERR_VM_INVALID_ASPACE = 0x81000001"
| "status_code ERR_VM_INVALID_OBJECT = 0x81000002"
| "status_code ERR_VM_BAD_ADDRESS = 0x81000003"
| "status_code ERR_VM_BAD_OFFSET = 0x81000004"
| "status_code ERR_VM_NO_MAPPING = 0x81000005"
| "status_code ERR_VM_NO_MAPPING_GAP = 0x81000006"
| "status_code ERR_VM_NO_UPAGE = 0x81000007"
| "status_code ERR_VM_UPAGE_EXISTS = 0x81000008"
| "status_code ERR_VM_PAGE_NOT_PRESENT = 0x81000009"
| "status_code ERR_VM_NO_PERMISSION = 0x8100000A"
| "status_code ERR_VM_NO_USR_ASPACE = 0x8100000B"
| "status_code ERR_MT_GENERAL = 0x82000000"
| "status_code ERR_MT_INVALID_HANDLE = 0x82000001"
| "status_code ERR_MT_INVALID_STATE = 0x82000002"
| "status_code ERR_SEM_GENERAL = 0x83000000"
| "status_code ERR_SEM_INVALID_HANDLE = 0x83000001"
| "status_code ERR_SEM_INVALID_VALUE = 0x83000002"
| "status_code ERR_SEM_DELETED = 0x83000003"
| "status_code ERR_SEM_TIMEOUT = 0x83000004"
| "status_code ERR_SEM_TRY_FAILED = 0x83000005"
| "status_code ERR_MTX_GENERAL = 0x83100000"
| "status_code ERR_MTX_INVALID_MUTEX = 0x83100001"
| "status_code ERR_MTX_SEM_FAILURE = 0x83100002"
| "status_code ERR_MTX_NOT_AN_OWNER = 0x83100003"
| "status_code ERR_MTX_TRY_FAILED = 0x83100004"

section \<open>Sequencing of steps that can fail\<close>

definition and_then :: "'e + 'a \<Rightarrow> ('a \<Rightarrow> 'e + 'b) \<Rightarrow> 'e + 'b" where
  "and_then m f = (case m of Inl e \<Rightarrow> Inl e | Inr x \<Rightarrow> f x)"

lemma and_then_simps [simp]: "and_then (Inl e) f = Inl e" "and_then (Inr x) f = f x"
  by (simp_all add: and_then_def)

lemma and_then_Inr: "and_then m f = Inr y \<longleftrightarrow> (\<exists>x. m = Inr x \<and> f x = Inr y)"
  by (cases m) auto

section \<open>Shared lemma collections and lemmas\<close>

named_theorems seg_simps "rewriting of heap segments under pointer updates"

text \<open>The first and the last element of a list as nullable pointers, with a default.\<close>

definition first_ptr :: "'a list \<Rightarrow> 'a option \<Rightarrow> 'a option" where
  "first_ptr xs q = (case xs of [] \<Rightarrow> q | x # _ \<Rightarrow> Some x)"

definition last_ptr :: "'a list \<Rightarrow> 'a option \<Rightarrow> 'a option" where
  "last_ptr xs p = (if xs = [] then p else Some (last xs))"

lemma first_ptr_simps [simp]:
  "first_ptr [] q = q"
  "first_ptr (x # xs) q = Some x"
  by (simp_all add: first_ptr_def)

lemma last_ptr_simps [simp]:
  "last_ptr [] p = p"
  "last_ptr (xs @ [x]) p = Some x"
  "last_ptr (x # xs) p = last_ptr xs (Some x)"
  by (simp_all add: last_ptr_def)

lemma first_ptr_append [simp]: "first_ptr (xs @ ys) q = first_ptr xs (first_ptr ys q)"
  by (cases xs) simp_all

lemma last_ptr_append [simp]: "last_ptr (xs @ ys) p = last_ptr ys (last_ptr xs p)"
  by (auto simp: last_ptr_def)

lemma first_ptr_None_iff [simp]: "first_ptr xs None = None \<longleftrightarrow> xs = []"
  by (cases xs) simp_all

lemma last_ptr_None_iff [simp]: "last_ptr xs None = None \<longleftrightarrow> xs = []"
  by (simp add: last_ptr_def)

lemma first_ptr_Some_iff: "first_ptr xs None = Some x \<longleftrightarrow> (\<exists>ys. xs = x # ys)"
  by (cases xs) auto

lemma last_ptr_Some_iff: "last_ptr xs None = Some x \<longleftrightarrow> (\<exists>ys. xs = ys @ [x])"
  by (cases xs rule: rev_cases) auto

lemma unat_of_nat_small: "n < 2 ^ 32 \<Longrightarrow> unat (of_nat n :: 32 word) = n"
  by (simp add: unat_of_nat take_bit_nat_eq_self)

lemma unat_lt32: "unat (w :: 32 word) < 2 ^ 32"
  using unsigned_less [of w] by simp

lemma unat_pred: "n \<noteq> 0 \<Longrightarrow> unat (n - 1) = unat n - 1" for n :: "'a::len word"
  by (subst unat_sub) (simp_all add: word_le_nat_alt Suc_le_eq unat_gt_0)

lemma word_eq_of_nat: "unat w = n \<Longrightarrow> w = of_nat n" for w :: "'a::len word"
  by auto

lemma of_nat_word32_eq_0 [simp]:
  "n < 2 ^ 32 \<Longrightarrow> (of_nat n :: 32 word) = 0 \<longleftrightarrow> n = 0"
  by (simp add: word_of_nat_eq_0_iff) (metis dvd_imp_le linorder_not_less neq0_conv dvd_0_right)

lemma unat_Suc_lt:
  fixes w v :: "'a::len word"
  assumes "unat w < unat v"
  shows "unat (w + 1) = Suc (unat w)"
proof -
  have "unat v < 2 ^ LENGTH('a)" by (rule unsigned_less)
  with assms have "Suc (unat w) < 2 ^ LENGTH('a)" by linarith
  then show ?thesis by (cases "LENGTH('a) = 1") (auto simp: unat_word_ariths)
qed

text \<open>Replacing one entry of a list of lists, or of a list under a filter.\<close>

lemma mset_concat_update:
  "i < length bs \<Longrightarrow> mset (concat (bs[i := b])) + mset (bs ! i) = mset (concat bs) + mset b"
proof (induction bs arbitrary: i)
  case (Cons x bs)
  then show ?case by (cases i) (auto simp: ac_simps)
qed simp

lemma length_filter_update:
  "i < length bs \<Longrightarrow>
   length (filter P (bs[i := b])) + (if P (bs ! i) then 1 else 0) =
   length (filter P bs) + (if P b then 1 else 0)"
proof (induction bs arbitrary: i)
  case (Cons x bs)
  then show ?case by (cases i) auto
qed simp

lemma concat_drop_Suc: "i < length bs \<Longrightarrow> concat (drop i bs) = bs ! i @ concat (drop (Suc i) bs)"
  by (metis Cons_nth_drop_Suc concat.simps(2))

end
