(* ===== verification/Fifo.thy ===== *)
theory Fifo
  imports Prelude
begin

text \<open>
  The contract of a FIFO queue of distinct elements, as a locale. Two components of the
  kernel provide it: the queue macros over the doubly linked list
  (\<^verbatim>\<open>xlist_enqueue\<close>, \<^verbatim>\<open>xlist_dequeue\<close>) and the singly linked queue of
  \<^verbatim>\<open>kernel/util/queue.c\<close>. The conservation lemma is proved once, for any interleaving of
  the two operations.
\<close>

datatype 'e fifo_op = Enq 'e | Deq

fun enqueued :: "'e fifo_op list \<Rightarrow> 'e list" where
  "enqueued [] = []"
| "enqueued (Enq e # ops) = e # enqueued ops"
| "enqueued (Deq # ops) = enqueued ops"

text \<open>
  A run of operations over given enqueue and dequeue functions: the elements that the
  dequeues returned, in order (a dequeue of an empty queue returns none), and the final state.
\<close>

fun fifo_run ::
  "('s \<Rightarrow> 'e \<Rightarrow> 's) \<Rightarrow> ('s \<Rightarrow> 's \<times> 'e option) \<Rightarrow> 's \<Rightarrow> 'e fifo_op list \<Rightarrow> 'e list \<times> 's" where
  "fifo_run enq deq s [] = ([], s)"
| "fifo_run enq deq s (Enq e # ops) = fifo_run enq deq (enq s e) ops"
| "fifo_run enq deq s (Deq # ops) =
     (case deq s of
        (s', None) \<Rightarrow> fifo_run enq deq s' ops
      | (s', Some e) \<Rightarrow> (let (es, s'') = fifo_run enq deq s' ops in (e # es, s'')))"

locale fifo_queue =
  fixes enq :: "'s \<Rightarrow> 'e \<Rightarrow> 's"
    and deq :: "'s \<Rightarrow> 's \<times> 'e option"
    and rep :: "'s \<Rightarrow> 'e list \<Rightarrow> bool"
  assumes enq_rep: "rep s xs \<Longrightarrow> e \<notin> set xs \<Longrightarrow> rep (enq s e) (xs @ [e])"
    and deq_empty: "rep s [] \<Longrightarrow> deq s = (s, None)"
    and deq_rep: "rep s (x # xs) \<Longrightarrow> \<exists>s'. deq s = (s', Some x) \<and> rep s' xs"
begin

lemma run_conserves:
  assumes "rep s xs" "distinct (xs @ enqueued ops)" "fifo_run enq deq s ops = (out, s')"
  shows "\<exists>ys. rep s' ys \<and> xs @ enqueued ops = out @ ys"
  using assms
proof (induction ops arbitrary: s xs out)
  case Nil
  then show ?case by auto
next
  case (Cons op ops)
  show ?case
  proof (cases op)
    case (Enq e)
    with Cons.prems have "rep (enq s e) (xs @ [e])" by (simp add: enq_rep)
    with Cons.IH [of "enq s e" "xs @ [e]"] Cons.prems Enq show ?thesis by simp
  next
    case Deq
    show ?thesis
    proof (cases xs)
      case Nil
      with Cons.IH [of s "[]"] Cons.prems Deq show ?thesis by (simp add: deq_empty)
    next
      case (Cons x xs')
      with Cons.prems(1) obtain s1 where s1: "deq s = (s1, Some x)" "rep s1 xs'"
        by (auto dest: deq_rep)
      with Cons.prems Cons Deq obtain out1
        where o: "fifo_run enq deq s1 ops = (out1, s')" "out = x # out1"
        by (auto split: prod.splits)
      with Cons.IH [OF s1(2) _ o(1)] Cons.prems Cons Deq show ?thesis by auto
    qed
  qed
qed

end

end
