(* ===== verification/Xlist.thy ===== *)
theory Xlist
  imports Prelude Fifo
begin

text \<open>
  The multi-purpose doubly linked list of \<^verbatim>\<open>kernel/util/list.c\<close> and
  \<^verbatim>\<open>include/phlox/list.h\<close>, at the level of its pointers. Nodes are embedded in the
  structures that are linked, so a node address stands for the structure; the store maps
  every node address to its two links. \<open>dseg\<close> and \<open>xlist_rep\<close> relate a store and a list
  header to the sequence of nodes; the refinement lemmas give the effect of every
  operation on that sequence, and \<open>xlist_run\<close> composes them into runs of operations.
\<close>

section \<open>Data\<close>

record 'n list_elem =
  le_prev :: "'n option"
  le_next :: "'n option"

record 'n xlist =
  xl_first :: "'n option"
  xl_last :: "'n option"
  xl_count :: uint

type_synonym 'n nodes = "'n \<Rightarrow> 'n list_elem"

text \<open>A store of nodes in their initial state and an empty header, for concrete runs.\<close>

abbreviation blank_nodes :: "'n nodes" where
  "blank_nodes \<equiv> (\<lambda>_. \<lparr>le_prev = None, le_next = None\<rparr>)"

abbreviation empty_xlist :: "'n xlist" where
  "empty_xlist \<equiv> \<lparr>xl_first = None, xl_last = None, xl_count = 0\<rparr>"

text \<open>Assignments through a node pointer.\<close>

definition set_prev :: "'n nodes \<Rightarrow> 'n \<Rightarrow> 'n option \<Rightarrow> 'n nodes" where
  "set_prev h e p = h(e := (h e)\<lparr>le_prev := p\<rparr>)"

definition set_next :: "'n nodes \<Rightarrow> 'n \<Rightarrow> 'n option \<Rightarrow> 'n nodes" where
  "set_next h e p = h(e := (h e)\<lparr>le_next := p\<rparr>)"

section \<open>Operations\<close>

text \<open>
  Every operation takes the store and the header and returns them updated with the value
  the C function returns (\<^verbatim>\<open>uint\<close> 1 and 0 for success and failure, or a node pointer).
\<close>

definition xlist_init :: "'n xlist \<Rightarrow> 'n xlist \<times> uint" where
  "xlist_init l = (l\<lparr>xl_first := None, xl_last := None, xl_count := 0\<rparr>, 1)"

definition xlist_elem_init :: "'n nodes \<Rightarrow> 'n \<Rightarrow> 'n nodes \<times> uint" where
  "xlist_elem_init h e = (set_prev (set_next h e None) e None, 1)"

definition xlist_isempty :: "'n xlist \<Rightarrow> uint" where
  "xlist_isempty l = (if xl_count l = 0 then 1 else 0)"

text \<open>
  The search loop shared by the checked operations: it follows \<^verbatim>\<open>next\<close> from a node
  pointer until it meets the item or NULL. It does not return on a cyclic chain.
\<close>

partial_function (option) xlist_search :: "'n nodes \<Rightarrow> 'n option \<Rightarrow> 'n \<Rightarrow> bool option" where
  "xlist_search h temp e =
     (case temp of
        None \<Rightarrow> Some False
      | Some t \<Rightarrow> if t = e then Some True else xlist_search h (le_next (h t)) e)"

definition xlist_remove_unsafe ::
  "'n nodes \<Rightarrow> 'n xlist \<Rightarrow> 'n \<Rightarrow> 'n nodes \<times> 'n xlist \<times> uint" where
  "xlist_remove_unsafe h l e =
     (let (h1, l1) = (case le_prev (h e) of
                        Some p \<Rightarrow> (set_next h p (le_next (h e)), l)
                      | None \<Rightarrow> (h, l\<lparr>xl_first := le_next (h e)\<rparr>));
          (h2, l2) = (case le_next (h1 e) of
                        Some q \<Rightarrow> (set_prev h1 q (le_prev (h1 e)), l1)
                      | None \<Rightarrow> (h1, l1\<lparr>xl_last := le_prev (h1 e)\<rparr>));
          l3 = l2\<lparr>xl_count := xl_count l2 - 1\<rparr>;
          h3 = set_next (set_prev h2 e None) e None
      in (h3, l3, 1))"

definition xlist_remove ::
  "'n nodes \<Rightarrow> 'n xlist \<Rightarrow> 'n \<Rightarrow> ('n nodes \<times> 'n xlist \<times> uint) option" where
  "xlist_remove h l e =
     (case xlist_search h (xl_first l) e of
        None \<Rightarrow> None
      | Some found \<Rightarrow> Some (if found then xlist_remove_unsafe h l e else (h, l, 0)))"

definition xlist_add_first ::
  "'n nodes \<Rightarrow> 'n xlist \<Rightarrow> 'n \<Rightarrow> 'n nodes \<times> 'n xlist \<times> uint" where
  "xlist_add_first h l e =
     (let (h1, l1) =
        (case xl_first l of
           None \<Rightarrow> (set_prev (set_next h e None) e None,
                     l\<lparr>xl_last := Some e, xl_first := Some e\<rparr>)
         | Some f \<Rightarrow>
             (let h1 = set_prev h f (Some e);
                  h2 = set_next h1 e (Some f);
                  h3 = set_prev h2 e None
              in (h3, l\<lparr>xl_first := Some e\<rparr>)))
      in (h1, l1\<lparr>xl_count := xl_count l1 + 1\<rparr>, 1))"

definition xlist_add_last ::
  "'n nodes \<Rightarrow> 'n xlist \<Rightarrow> 'n \<Rightarrow> 'n nodes \<times> 'n xlist \<times> uint" where
  "xlist_add_last h l e =
     (let (h1, l1) =
        (case xl_last l of
           None \<Rightarrow> (set_prev (set_next h e None) e None,
                     l\<lparr>xl_last := Some e, xl_first := Some e\<rparr>)
         | Some la \<Rightarrow>
             (let h1 = set_next h la (Some e);
                  h2 = set_prev h1 e (Some la);
                  h3 = set_next h2 e None
              in (h3, l\<lparr>xl_last := Some e\<rparr>)))
      in (h1, l1\<lparr>xl_count := xl_count l1 + 1\<rparr>, 1))"

definition xlist_extract_first ::
  "'n nodes \<Rightarrow> 'n xlist \<Rightarrow> 'n nodes \<times> 'n xlist \<times> 'n option" where
  "xlist_extract_first h l =
     (case xl_first l of
        None \<Rightarrow> (h, l, None)
      | Some e \<Rightarrow>
          (let l1 = l\<lparr>xl_first := le_next (h e)\<rparr>;
               (h2, l2) = (case xl_first l1 of
                             Some f \<Rightarrow> (set_prev h f None, l1)
                           | None \<Rightarrow> (h, l1\<lparr>xl_last := None\<rparr>));
               l3 = l2\<lparr>xl_count := xl_count l2 - 1\<rparr>;
               h3 = set_next (set_prev h2 e None) e None
           in (h3, l3, Some e)))"

definition xlist_extract_last ::
  "'n nodes \<Rightarrow> 'n xlist \<Rightarrow> 'n nodes \<times> 'n xlist \<times> 'n option" where
  "xlist_extract_last h l =
     (case xl_last l of
        None \<Rightarrow> (h, l, None)
      | Some e \<Rightarrow>
          (let l1 = l\<lparr>xl_last := le_prev (h e)\<rparr>;
               (h2, l2) = (case xl_last l1 of
                             Some f \<Rightarrow> (set_next h f None, l1)
                           | None \<Rightarrow> (h, l1\<lparr>xl_first := None\<rparr>));
               l3 = l2\<lparr>xl_count := xl_count l2 - 1\<rparr>;
               h3 = set_next (set_prev h2 e None) e None
           in (h3, l3, Some e)))"

definition xlist_insert_after_unsafe ::
  "'n nodes \<Rightarrow> 'n xlist \<Rightarrow> 'n \<Rightarrow> 'n \<Rightarrow> 'n nodes \<times> 'n xlist \<times> uint" where
  "xlist_insert_after_unsafe h l item e =
     (let h1 = set_prev h e (Some item);
          h2 = set_next h1 e (le_next (h1 item));
          (h3, l3) = (case le_next (h2 e) of
                        None \<Rightarrow> (h2, l\<lparr>xl_last := Some e\<rparr>)
                      | Some q \<Rightarrow> (set_prev h2 q (Some e), l));
          h4 = set_next h3 item (Some e)
      in (h4, l3\<lparr>xl_count := xl_count l3 + 1\<rparr>, 1))"

definition xlist_insert_after ::
  "'n nodes \<Rightarrow> 'n xlist \<Rightarrow> 'n \<Rightarrow> 'n \<Rightarrow> ('n nodes \<times> 'n xlist \<times> uint) option" where
  "xlist_insert_after h l item e =
     (case xlist_search h (xl_first l) item of
        None \<Rightarrow> None
      | Some found \<Rightarrow>
          Some (if found then xlist_insert_after_unsafe h l item e else (h, l, 0)))"

definition xlist_insert_before_unsafe ::
  "'n nodes \<Rightarrow> 'n xlist \<Rightarrow> 'n \<Rightarrow> 'n \<Rightarrow> 'n nodes \<times> 'n xlist \<times> uint" where
  "xlist_insert_before_unsafe h l item e =
     (let h1 = set_prev h e (le_prev (h item));
          h2 = set_next h1 e (Some item);
          (h3, l3) = (case le_prev (h2 e) of
                        None \<Rightarrow> (h2, l\<lparr>xl_first := Some e\<rparr>)
                      | Some p \<Rightarrow> (set_next h2 p (Some e), l));
          h4 = set_prev h3 item (Some e)
      in (h4, l3\<lparr>xl_count := xl_count l3 + 1\<rparr>, 1))"

definition xlist_insert_before ::
  "'n nodes \<Rightarrow> 'n xlist \<Rightarrow> 'n \<Rightarrow> 'n \<Rightarrow> ('n nodes \<times> 'n xlist \<times> uint) option" where
  "xlist_insert_before h l item e =
     (case xlist_search h (xl_first l) item of
        None \<Rightarrow> None
      | Some found \<Rightarrow>
          Some (if found then xlist_insert_before_unsafe h l item e else (h, l, 0)))"

definition xlist_peek_first :: "'n xlist \<Rightarrow> 'n option" where
  "xlist_peek_first l = xl_first l"

definition xlist_peek_last :: "'n xlist \<Rightarrow> 'n option" where
  "xlist_peek_last l = xl_last l"

definition xlist_peek_next :: "'n nodes \<Rightarrow> 'n \<Rightarrow> 'n option" where
  "xlist_peek_next h item = le_next (h item)"

definition xlist_peek_prev :: "'n nodes \<Rightarrow> 'n \<Rightarrow> 'n option" where
  "xlist_peek_prev h item = le_prev (h item)"

text \<open>The array written by the dump loop, in order of the index \<^verbatim>\<open>i\<close>.\<close>

partial_function (option) xlist_dump_from :: "'n nodes \<Rightarrow> 'n option \<Rightarrow> 'n list \<Rightarrow> 'n list option" where
  "xlist_dump_from h temp elements =
     (case temp of
        None \<Rightarrow> Some elements
      | Some t \<Rightarrow> xlist_dump_from h (le_next (h t)) (elements @ [t]))"

definition xlist_dump_elements :: "'n nodes \<Rightarrow> 'n xlist \<Rightarrow> ('n list \<times> uint) option" where
  "xlist_dump_elements h l =
     (case xlist_dump_from h (xl_first l) [] of None \<Rightarrow> None | Some es \<Rightarrow> Some (es, 1))"

text \<open>The default add and the queue operations are macros over these.\<close>

abbreviation xlist_add :: "'n nodes \<Rightarrow> 'n xlist \<Rightarrow> 'n \<Rightarrow> 'n nodes \<times> 'n xlist \<times> uint" where
  "xlist_add \<equiv> xlist_add_last"

abbreviation xlist_enqueue :: "'n nodes \<Rightarrow> 'n xlist \<Rightarrow> 'n \<Rightarrow> 'n nodes \<times> 'n xlist \<times> uint" where
  "xlist_enqueue \<equiv> xlist_add_last"

abbreviation xlist_dequeue :: "'n nodes \<Rightarrow> 'n xlist \<Rightarrow> 'n nodes \<times> 'n xlist \<times> 'n option" where
  "xlist_dequeue \<equiv> xlist_extract_first"

section \<open>Abstraction\<close>

text \<open>
  \<open>dseg h p xs q\<close>: the nodes \<open>xs\<close> are chained in both directions, the first one
  points back to \<open>p\<close> and the last one forward to \<open>q\<close>.
\<close>

fun dseg :: "'n nodes \<Rightarrow> 'n option \<Rightarrow> 'n list \<Rightarrow> 'n option \<Rightarrow> bool" where
  "dseg h p [] q = True"
| "dseg h p (x # xs) q =
     (le_prev (h x) = p \<and> le_next (h x) = first_ptr xs q \<and> dseg h (Some x) xs q)"

definition xlist_rep :: "'n nodes \<Rightarrow> 'n xlist \<Rightarrow> 'n list \<Rightarrow> bool" where
  "xlist_rep h l xs \<longleftrightarrow>
     xl_first l = first_ptr xs None \<and> xl_last l = last_ptr xs None \<and>
     xl_count l = of_nat (length xs) \<and> distinct xs \<and> dseg h None xs None"

section \<open>Segments under pointer updates\<close>

lemma set_prev_apply [simp]:
  "le_prev (set_prev h e p x) = (if x = e then p else le_prev (h x))"
  "le_next (set_prev h e p x) = le_next (h x)"
  by (simp_all add: set_prev_def)

lemma set_next_apply [simp]:
  "le_next (set_next h e p x) = (if x = e then p else le_next (h x))"
  "le_prev (set_next h e p x) = le_prev (h x)"
  by (simp_all add: set_next_def)

lemma set_link_other [simp]:
  "x \<noteq> e \<Longrightarrow> set_prev h e p x = h x"
  "x \<noteq> e \<Longrightarrow> set_next h e p x = h x"
  by (simp_all add: set_prev_def set_next_def)

lemma dseg_append [simp]:
  "dseg h p (xs @ ys) q \<longleftrightarrow> dseg h p xs (first_ptr ys q) \<and> dseg h (last_ptr xs p) ys q"
  by (induction xs arbitrary: p) auto

lemma dseg_cong:
  "\<lbrakk>dseg h p xs q; \<And>x. x \<in> set xs \<Longrightarrow> h' x = h x\<rbrakk> \<Longrightarrow> dseg h' p xs q"
  by (induction xs arbitrary: p) auto

lemma dseg_upd [seg_simps]:
  "e \<notin> set xs \<Longrightarrow> dseg (set_prev h e v) p xs q = dseg h p xs q"
  "e \<notin> set xs \<Longrightarrow> dseg (set_next h e v) p xs q = dseg h p xs q"
  by (induction xs arbitrary: p) auto

text \<open>
  What an operation may touch: the stores agree outside a set of nodes; and an extracted
  node is left with both links NULL.
\<close>

definition same_outside :: "'n set \<Rightarrow> 'n nodes \<Rightarrow> 'n nodes \<Rightarrow> bool" where
  "same_outside S h h' \<longleftrightarrow> (\<forall>x. x \<notin> S \<longrightarrow> h' x = h x)"

definition unlinked :: "'n nodes \<Rightarrow> 'n \<Rightarrow> bool" where
  "unlinked h e \<longleftrightarrow> le_prev (h e) = None \<and> le_next (h e) = None"

lemma same_outside_simps [simp]:
  "same_outside S h h"
  "e \<in> S \<Longrightarrow> same_outside S h (set_prev h' e p) = same_outside S h h'"
  "e \<in> S \<Longrightarrow> same_outside S h (set_next h' e p) = same_outside S h h'"
  unfolding same_outside_def by (simp, metis set_link_other(1), metis set_link_other(2))

lemma same_outsideD: "same_outside S h h' \<Longrightarrow> x \<notin> S \<Longrightarrow> h' x = h x"
  by (simp add: same_outside_def)

lemma same_outside_mono: "same_outside S h h' \<Longrightarrow> S \<subseteq> T \<Longrightarrow> same_outside T h h'"
  by (auto simp: same_outside_def)

lemma same_outside_trans:
  "same_outside S h h' \<Longrightarrow> same_outside S h' h'' \<Longrightarrow> same_outside S h h''"
  by (simp add: same_outside_def)

text \<open>A list whose nodes an operation does not touch is unchanged by it.\<close>

lemma xlist_rep_frame:
  "\<lbrakk>xlist_rep h l xs; same_outside S h h'; S \<inter> set xs = {}\<rbrakk> \<Longrightarrow> xlist_rep h' l xs"
  unfolding xlist_rep_def same_outside_def by (blast intro: dseg_cong)

lemma unlinked_frame: "\<lbrakk>unlinked h e; same_outside S h h'; e \<notin> S\<rbrakk> \<Longrightarrow> unlinked h' e"
  by (simp add: unlinked_def same_outside_def)

lemma xlist_rep_distinct: "xlist_rep h l xs \<Longrightarrow> distinct xs"
  by (simp add: xlist_rep_def)

text \<open>A store and a header determine the sequence they represent.\<close>

lemma dseg_unique:
  "\<lbrakk>dseg h p xs None; dseg h p' ys None; first_ptr xs None = first_ptr ys None\<rbrakk> \<Longrightarrow> xs = ys"
proof (induction xs arbitrary: p p' ys)
  case Nil
  then show ?case by (metis first_ptr_None_iff first_ptr_simps(1))
next
  case (Cons x xs)
  then obtain zs where ys: "ys = x # zs" by (metis first_ptr_Some_iff first_ptr_simps(2))
  with Cons show ?case by simp metis
qed

lemma xlist_rep_unique: "\<lbrakk>xlist_rep h l xs; xlist_rep h l ys\<rbrakk> \<Longrightarrow> xs = ys"
  unfolding xlist_rep_def by (metis dseg_unique)

section \<open>Refinement of each operation\<close>

lemma xlist_init_rep: "xlist_init l = (l', r) \<Longrightarrow> xlist_rep h l' [] \<and> r = 1"
  by (auto simp: xlist_init_def xlist_rep_def)

lemma xlist_isempty_rep:
  "\<lbrakk>xlist_rep h l xs; length xs < 2 ^ 32\<rbrakk> \<Longrightarrow> xlist_isempty l = (if xs = [] then 1 else 0)"
  by (auto simp: xlist_isempty_def xlist_rep_def)

lemma xlist_peek_rep:
  assumes "xlist_rep h l xs"
  shows "xlist_peek_first l = first_ptr xs None" "xlist_peek_last l = last_ptr xs None"
  using assms by (simp_all add: xlist_peek_first_def xlist_peek_last_def xlist_rep_def)

lemma xlist_add_last_rep:
  assumes "xlist_rep h l xs" "e \<notin> set xs" "xlist_add_last h l e = (h', l', r)"
  shows "xlist_rep h' l' (xs @ [e]) \<and> r = 1 \<and> same_outside (insert e (set xs)) h h'"
  using assms
  by (cases xs rule: rev_cases)
     (auto simp: xlist_add_last_def xlist_rep_def Let_def seg_simps)

lemma xlist_add_first_rep:
  assumes "xlist_rep h l xs" "e \<notin> set xs" "xlist_add_first h l e = (h', l', r)"
  shows "xlist_rep h' l' (e # xs) \<and> r = 1 \<and> same_outside (insert e (set xs)) h h'"
  using assms
  by (cases xs) (auto simp: xlist_add_first_def xlist_rep_def Let_def seg_simps)

lemma xlist_extract_first_empty:
  "xlist_rep h l [] \<Longrightarrow> xlist_extract_first h l = (h, l, None)"
  by (simp add: xlist_extract_first_def xlist_rep_def)

lemma xlist_extract_first_rep:
  assumes "xlist_rep h l (x # xs)" "xlist_extract_first h l = (h', l', r)"
  shows "xlist_rep h' l' xs \<and> r = Some x \<and> unlinked h' x \<and> same_outside (insert x (set xs)) h h'"
  using assms
  by (cases xs)
     (auto simp: xlist_extract_first_def xlist_rep_def Let_def seg_simps unlinked_def)

lemma xlist_extract_last_empty:
  "xlist_rep h l [] \<Longrightarrow> xlist_extract_last h l = (h, l, None)"
  by (simp add: xlist_extract_last_def xlist_rep_def)

lemma xlist_extract_last_rep:
  assumes "xlist_rep h l (xs @ [x])" "xlist_extract_last h l = (h', l', r)"
  shows "xlist_rep h' l' xs \<and> r = Some x \<and> unlinked h' x \<and> same_outside (insert x (set xs)) h h'"
  using assms
  by (cases xs rule: rev_cases)
     (auto simp: xlist_extract_last_def xlist_rep_def Let_def seg_simps unlinked_def)

lemma xlist_remove_unsafe_rep:
  assumes "xlist_rep h l (xs @ e # ys)" "xlist_remove_unsafe h l e = (h', l', r)"
  shows "xlist_rep h' l' (xs @ ys) \<and> r = 1 \<and> unlinked h' e \<and>
         same_outside (insert e (set xs \<union> set ys)) h h'"
  using assms
  by (cases xs rule: rev_cases; cases ys)
     (auto simp: xlist_remove_unsafe_def xlist_rep_def Let_def seg_simps unlinked_def)

lemma xlist_insert_after_unsafe_rep:
  assumes "xlist_rep h l (xs @ item # ys)" "e \<notin> set xs \<union> set ys \<union> {item}"
    and "xlist_insert_after_unsafe h l item e = (h', l', r)"
  shows "xlist_rep h' l' (xs @ item # e # ys) \<and> r = 1 \<and>
         same_outside (insert e (insert item (set xs \<union> set ys))) h h'"
  using assms
  by (cases ys) (auto simp: xlist_insert_after_unsafe_def xlist_rep_def Let_def seg_simps)

lemma xlist_insert_before_unsafe_rep:
  assumes "xlist_rep h l (xs @ item # ys)" "e \<notin> set xs \<union> set ys \<union> {item}"
    and "xlist_insert_before_unsafe h l item e = (h', l', r)"
  shows "xlist_rep h' l' (xs @ e # item # ys) \<and> r = 1 \<and>
         same_outside (insert e (insert item (set xs \<union> set ys))) h h'"
  using assms
  by (cases xs rule: rev_cases)
     (auto simp: xlist_insert_before_unsafe_def xlist_rep_def Let_def seg_simps)

section \<open>The search and dump loops terminate\<close>

lemma xlist_search_seg:
  "dseg h p xs None \<Longrightarrow> xlist_search h (first_ptr xs None) e = Some (e \<in> set xs)"
proof (induction xs arbitrary: p)
  case Nil
  then show ?case by (simp add: xlist_search.simps)
next
  case (Cons x xs)
  then have "xlist_search h (first_ptr xs None) e = Some (e \<in> set xs)"
    using Cons.IH [of "Some x"] by simp
  with Cons.prems show ?case
    by (subst xlist_search.simps) (simp add: eq_commute)
qed

lemma xlist_search_rep:
  "xlist_rep h l xs \<Longrightarrow> xlist_search h (xl_first l) e = Some (e \<in> set xs)"
  by (auto simp: xlist_rep_def xlist_search_seg)

lemma xlist_dump_seg:
  "dseg h p xs None \<Longrightarrow> xlist_dump_from h (first_ptr xs None) acc = Some (acc @ xs)"
proof (induction xs arbitrary: p acc)
  case Nil
  then show ?case by (simp add: xlist_dump_from.simps)
next
  case (Cons x xs)
  then have "xlist_dump_from h (first_ptr xs None) (acc @ [x]) = Some ((acc @ [x]) @ xs)"
    using Cons.IH [of "Some x"] by simp
  with Cons.prems show ?case by (subst xlist_dump_from.simps) simp
qed

lemma xlist_dump_rep: "xlist_rep h l xs \<Longrightarrow> xlist_dump_elements h l = Some (xs, 1)"
  using xlist_dump_seg [of h None xs "[]"] by (simp add: xlist_rep_def xlist_dump_elements_def)

lemma xlist_remove_rep:
  assumes "xlist_rep h l xs"
  shows "\<exists>h' l' r. xlist_remove h l e = Some (h', l', r) \<and> xlist_rep h' l' (remove1 e xs) \<and>
           r = (if e \<in> set xs then 1 else 0) \<and> (e \<in> set xs \<longrightarrow> unlinked h' e) \<and>
           same_outside (set xs) h h'"
proof (cases "e \<in> set xs")
  case True
  then obtain ys zs where xs: "xs = ys @ e # zs" "e \<notin> set ys" by (meson split_list_first)
  obtain h' l' r where u: "xlist_remove_unsafe h l e = (h', l', r)" by (metis prod_cases3)
  with assms xs have "xlist_rep h' l' (ys @ zs) \<and> r = 1 \<and> unlinked h' e \<and>
      same_outside (insert e (set ys \<union> set zs)) h h'"
    using xlist_remove_unsafe_rep [of h l ys e zs] by simp
  with assms True u xs show ?thesis
    by (simp add: xlist_remove_def xlist_search_rep remove1_append)
next
  case False
  with assms show ?thesis
    by (simp add: xlist_remove_def xlist_search_rep remove1_idem)
qed

section \<open>The reference behaviour on sequences\<close>

fun list_insert_after :: "'n \<Rightarrow> 'n \<Rightarrow> 'n list \<Rightarrow> 'n list" where
  "list_insert_after item e [] = []"
| "list_insert_after item e (x # xs) =
     (if x = item then x # e # xs else x # list_insert_after item e xs)"

fun list_insert_before :: "'n \<Rightarrow> 'n \<Rightarrow> 'n list \<Rightarrow> 'n list" where
  "list_insert_before item e [] = []"
| "list_insert_before item e (x # xs) =
     (if x = item then e # x # xs else x # list_insert_before item e xs)"

lemma list_insert_split:
  assumes "item \<notin> set xs"
  shows "list_insert_after item e (xs @ item # ys) = xs @ item # e # ys"
    and "list_insert_before item e (xs @ item # ys) = xs @ e # item # ys"
  using assms by (induction xs) auto

lemma list_insert_notin:
  "item \<notin> set xs \<Longrightarrow> list_insert_after item e xs = xs"
  "item \<notin> set xs \<Longrightarrow> list_insert_before item e xs = xs"
  by (induction xs) auto

lemma xlist_insert_after_rep:
  assumes "xlist_rep h l xs" "e \<notin> set xs"
  shows "\<exists>h' l' r. xlist_insert_after h l item e = Some (h', l', r) \<and>
           xlist_rep h' l' (list_insert_after item e xs) \<and>
           r = (if item \<in> set xs then 1 else 0) \<and> same_outside (insert e (set xs)) h h'"
proof (cases "item \<in> set xs")
  case True
  then obtain ys zs where xs: "xs = ys @ item # zs" "item \<notin> set ys" by (meson split_list_first)
  obtain h' l' r where u: "xlist_insert_after_unsafe h l item e = (h', l', r)"
    by (metis prod_cases3)
  with assms xs have "xlist_rep h' l' (ys @ item # e # zs) \<and> r = 1 \<and>
      same_outside (insert e (insert item (set ys \<union> set zs))) h h'"
    by (intro xlist_insert_after_unsafe_rep) auto
  with assms True u xs show ?thesis
    by (simp add: xlist_insert_after_def xlist_search_rep list_insert_split)
next
  case False
  with assms show ?thesis
    by (simp add: xlist_insert_after_def xlist_search_rep list_insert_notin)
qed

lemma xlist_insert_before_rep:
  assumes "xlist_rep h l xs" "e \<notin> set xs"
  shows "\<exists>h' l' r. xlist_insert_before h l item e = Some (h', l', r) \<and>
           xlist_rep h' l' (list_insert_before item e xs) \<and>
           r = (if item \<in> set xs then 1 else 0) \<and> same_outside (insert e (set xs)) h h'"
proof (cases "item \<in> set xs")
  case True
  then obtain ys zs where xs: "xs = ys @ item # zs" "item \<notin> set ys" by (meson split_list_first)
  obtain h' l' r where u: "xlist_insert_before_unsafe h l item e = (h', l', r)"
    by (metis prod_cases3)
  with assms xs have "xlist_rep h' l' (ys @ e # item # zs) \<and> r = 1 \<and>
      same_outside (insert e (insert item (set ys \<union> set zs))) h h'"
    by (intro xlist_insert_before_unsafe_rep) auto
  with assms True u xs show ?thesis
    by (simp add: xlist_insert_before_def xlist_search_rep list_insert_split)
next
  case False
  with assms show ?thesis
    by (simp add: xlist_insert_before_def xlist_search_rep list_insert_notin)
qed

section \<open>Runs of operations\<close>

text \<open>
  The interface of the list as a datatype of calls, the calls on the pointer level
  (\<open>xlist_exec\<close>) and their reference meaning on sequences (\<open>xlist_spec\<close>).
\<close>

datatype 'n xlist_op =
    Op_add_first 'n | Op_add_last 'n
  | Op_extract_first | Op_extract_last
  | Op_remove 'n | Op_insert_after 'n 'n | Op_insert_before 'n 'n

datatype 'n xlist_ret = Ret uint | Node "'n option"

fun xlist_exec ::
  "'n nodes \<Rightarrow> 'n xlist \<Rightarrow> 'n xlist_op \<Rightarrow> ('n nodes \<times> 'n xlist \<times> 'n xlist_ret) option" where
  "xlist_exec h l (Op_add_first e) =
     (let (h', l', r) = xlist_add_first h l e in Some (h', l', Ret r))"
| "xlist_exec h l (Op_add_last e) =
     (let (h', l', r) = xlist_add_last h l e in Some (h', l', Ret r))"
| "xlist_exec h l Op_extract_first =
     (let (h', l', r) = xlist_extract_first h l in Some (h', l', Node r))"
| "xlist_exec h l Op_extract_last =
     (let (h', l', r) = xlist_extract_last h l in Some (h', l', Node r))"
| "xlist_exec h l (Op_remove e) =
     map_option (\<lambda>(h', l', r). (h', l', Ret r)) (xlist_remove h l e)"
| "xlist_exec h l (Op_insert_after item e) =
     map_option (\<lambda>(h', l', r). (h', l', Ret r)) (xlist_insert_after h l item e)"
| "xlist_exec h l (Op_insert_before item e) =
     map_option (\<lambda>(h', l', r). (h', l', Ret r)) (xlist_insert_before h l item e)"

fun xlist_run ::
  "'n nodes \<Rightarrow> 'n xlist \<Rightarrow> 'n xlist_op list \<Rightarrow> ('n nodes \<times> 'n xlist \<times> 'n xlist_ret list) option" where
  "xlist_run h l [] = Some (h, l, [])"
| "xlist_run h l (op # ops) =
     (case xlist_exec h l op of
        None \<Rightarrow> None
      | Some (h', l', r) \<Rightarrow>
          map_option (\<lambda>(h'', l'', rs). (h'', l'', r # rs)) (xlist_run h' l' ops))"

fun xlist_spec :: "'n list \<Rightarrow> 'n xlist_op \<Rightarrow> 'n list \<times> 'n xlist_ret" where
  "xlist_spec xs (Op_add_first e) = (e # xs, Ret 1)"
| "xlist_spec xs (Op_add_last e) = (xs @ [e], Ret 1)"
| "xlist_spec xs Op_extract_first = (tl xs, Node (first_ptr xs None))"
| "xlist_spec xs Op_extract_last = (butlast xs, Node (last_ptr xs None))"
| "xlist_spec xs (Op_remove e) = (remove1 e xs, Ret (if e \<in> set xs then 1 else 0))"
| "xlist_spec xs (Op_insert_after item e) =
     (list_insert_after item e xs, Ret (if item \<in> set xs then 1 else 0))"
| "xlist_spec xs (Op_insert_before item e) =
     (list_insert_before item e xs, Ret (if item \<in> set xs then 1 else 0))"

fun xlist_spec_run :: "'n list \<Rightarrow> 'n xlist_op list \<Rightarrow> 'n list \<times> 'n xlist_ret list" where
  "xlist_spec_run xs [] = (xs, [])"
| "xlist_spec_run xs (op # ops) =
     (let (xs', r) = xlist_spec xs op; (ys, rs) = xlist_spec_run xs' ops in (ys, r # rs))"

text \<open>The callers' obligation: a node that is linked in is not in the list already.\<close>

fun op_fresh :: "'n list \<Rightarrow> 'n xlist_op \<Rightarrow> bool" where
  "op_fresh xs (Op_add_first e) = (e \<notin> set xs)"
| "op_fresh xs (Op_add_last e) = (e \<notin> set xs)"
| "op_fresh xs (Op_insert_after item e) = (e \<notin> set xs)"
| "op_fresh xs (Op_insert_before item e) = (e \<notin> set xs)"
| "op_fresh xs _ = True"

fun ops_fresh :: "'n list \<Rightarrow> 'n xlist_op list \<Rightarrow> bool" where
  "ops_fresh xs [] = True"
| "ops_fresh xs (op # ops) = (op_fresh xs op \<and> ops_fresh (fst (xlist_spec xs op)) ops)"

lemma xlist_exec_refines:
  assumes rep: "xlist_rep h l xs" and ok: "op_fresh xs op"
  shows "\<exists>h' l'. xlist_exec h l op = Some (h', l', snd (xlist_spec xs op)) \<and>
           xlist_rep h' l' (fst (xlist_spec xs op))"
proof (cases op)
  case (Op_add_first e)
  with assms xlist_add_first_rep [OF rep, of e] show ?thesis
    by (auto split: prod.splits)
next
  case (Op_add_last e)
  with assms xlist_add_last_rep [OF rep, of e] show ?thesis
    by (auto split: prod.splits)
next
  case Op_extract_first
  with rep show ?thesis
    by (cases xs) (auto simp: xlist_extract_first_empty split: prod.splits
                        dest: xlist_extract_first_rep)
next
  case Op_extract_last
  with rep show ?thesis
    by (cases xs rule: rev_cases)
       (auto simp: xlist_extract_last_empty split: prod.splits dest: xlist_extract_last_rep)
next
  case (Op_remove e)
  with xlist_remove_rep [OF rep, of e] show ?thesis by auto
next
  case (Op_insert_after item e)
  with xlist_insert_after_rep [OF rep, of e item] ok show ?thesis by auto
next
  case (Op_insert_before item e)
  with xlist_insert_before_rep [OF rep, of e item] ok show ?thesis by auto
qed

lemma xlist_run_simulation:
  "\<lbrakk>xlist_rep h l xs; ops_fresh xs ops\<rbrakk> \<Longrightarrow>
   \<exists>h' l'. xlist_run h l ops = Some (h', l', snd (xlist_spec_run xs ops)) \<and>
     xlist_rep h' l' (fst (xlist_spec_run xs ops))"
proof (induction ops arbitrary: h l xs)
  case Nil
  then show ?case by simp
next
  case (Cons op ops)
  from Cons.prems xlist_exec_refines [of h l xs op] obtain h1 l1
    where e: "xlist_exec h l op = Some (h1, l1, snd (xlist_spec xs op))"
      and r: "xlist_rep h1 l1 (fst (xlist_spec xs op))" by auto
  from Cons.IH [OF r] Cons.prems e show ?case by (auto split: prod.splits)
qed

section \<open>The list as a FIFO queue\<close>

definition xq_enq :: "'n nodes \<times> 'n xlist \<Rightarrow> 'n \<Rightarrow> 'n nodes \<times> 'n xlist" where
  "xq_enq s e = (case xlist_enqueue (fst s) (snd s) e of (h, l, _) \<Rightarrow> (h, l))"

definition xq_deq :: "'n nodes \<times> 'n xlist \<Rightarrow> ('n nodes \<times> 'n xlist) \<times> 'n option" where
  "xq_deq s = (case xlist_dequeue (fst s) (snd s) of (h, l, r) \<Rightarrow> ((h, l), r))"

interpretation xlist_fifo: fifo_queue xq_enq xq_deq "\<lambda>s. xlist_rep (fst s) (snd s)"
proof unfold_locales
  fix s :: "'a nodes \<times> 'a xlist" and xs e
  assume "xlist_rep (fst s) (snd s) xs" "e \<notin> set xs"
  then show "xlist_rep (fst (xq_enq s e)) (snd (xq_enq s e)) (xs @ [e])"
    by (auto simp: xq_enq_def dest: xlist_add_last_rep split: prod.splits)
next
  fix s :: "'a nodes \<times> 'a xlist"
  assume "xlist_rep (fst s) (snd s) []"
  then show "xq_deq s = (s, None)" by (simp add: xq_deq_def xlist_extract_first_empty)
next
  fix s :: "'a nodes \<times> 'a xlist" and x xs
  assume "xlist_rep (fst s) (snd s) (x # xs)"
  then show "\<exists>s'. xq_deq s = (s', Some x) \<and> xlist_rep (fst s') (snd s') xs"
    by (auto simp: xq_deq_def dest: xlist_extract_first_rep split: prod.splits)
qed

section \<open>Properties\<close>

text \<open>
  C12. Any run of list calls that links only nodes not yet in the list returns, gives the
  return values of the same calls on plain sequences, and leaves a well-linked list whose
  nodes are the resulting sequence.
\<close>

theorem xlist_run_refines_sequences:
  assumes "xlist_rep h l xs" "ops_fresh xs ops" "xlist_spec_run xs ops = (ys, rs)"
  shows "\<exists>h' l'. xlist_run h l ops = Some (h', l', rs) \<and> xlist_rep h' l' ys"
  using xlist_run_simulation [OF assms(1,2)] assms(3) by simp

theorem xlist_run_refines_sequences_witness:
  "\<exists>h' l'. xlist_run blank_nodes empty_xlist
     [Op_add_last (1::nat), Op_add_first 2, Op_insert_after 2 3, Op_remove 1, Op_remove 9,
      Op_extract_last]
     = Some (h', l', [Ret 1, Ret 1, Ret 1, Ret 1, Ret 0, Node (Some 3)]) \<and> xlist_rep h' l' [2]"
  by (rule xlist_run_refines_sequences [where xs = "[]"]) (simp_all add: xlist_rep_def)

text \<open>
  The list used through its queue macros is a FIFO queue: over any interleaving of
  enqueues of distinct nodes and dequeues, the nodes that came out followed by the nodes that
  are still linked are exactly the nodes that were linked or enqueued, in that order.
\<close>

theorem xlist_queue_conserves_order:
  assumes "xlist_rep h l xs" "distinct (xs @ enqueued ops)"
  shows "\<exists>out h' l' ys. fifo_run xq_enq xq_deq (h, l) ops = (out, (h', l')) \<and>
           xlist_rep h' l' ys \<and> xs @ enqueued ops = out @ ys"
proof -
  obtain out h' l' where run: "fifo_run xq_enq xq_deq (h, l) ops = (out, (h', l'))"
    by (metis prod.exhaust_sel)
  with xlist_fifo.run_conserves [of "(h, l)" xs ops out "(h', l')"] assms show ?thesis by auto
qed

theorem xlist_queue_conserves_order_witness:
  "\<exists>out h' l' ys. fifo_run xq_enq xq_deq (blank_nodes, empty_xlist)
        [Enq (1::nat), Enq 2, Deq, Enq 3] = (out, (h', l')) \<and>
      xlist_rep h' l' ys \<and> [] @ enqueued [Enq (1::nat), Enq 2, Deq, Enq 3] = out @ ys"
  by (rule xlist_queue_conserves_order) (simp_all add: xlist_rep_def)

end
