(* ===== verification/Clist.thy ===== *)
theory Clist
  imports Xlist
begin

text \<open>
  The circular doubly linked list of \<^verbatim>\<open>include/phlox/list.h\<close> (ported from NewOS): a header
  node that is linked to itself when the list is empty. The operations dereference link
  fields without a check, so they are partial: \<open>None\<close> is the access through a NULL
  pointer (or, for the two loops, a chain that never comes back to the header). The
  lemmas show that on a well-formed ring neither happens.
\<close>

section \<open>Operations\<close>

definition clist_init :: "'n nodes \<Rightarrow> 'n \<Rightarrow> 'n nodes" where
  "clist_init h l = set_prev (set_next h l (Some l)) l (Some l)"

definition clist_elem_clear :: "'n nodes \<Rightarrow> 'n \<Rightarrow> 'n nodes" where
  "clist_elem_clear h e = set_prev (set_next h e None) e None"

definition clist_add_head :: "'n nodes \<Rightarrow> 'n \<Rightarrow> 'n \<Rightarrow> 'n nodes option" where
  "clist_add_head h l e =
     (let h1 = set_next h e (le_next (h l));
          h2 = set_prev h1 e (Some l)
      in case le_next (h2 l) of
           None \<Rightarrow> None
         | Some n \<Rightarrow> Some (set_next (set_prev h2 n (Some e)) l (Some e)))"

definition clist_add_tail :: "'n nodes \<Rightarrow> 'n \<Rightarrow> 'n \<Rightarrow> 'n nodes option" where
  "clist_add_tail h l e =
     (let h1 = set_prev h e (le_prev (h l));
          h2 = set_next h1 e (Some l)
      in case le_prev (h2 l) of
           None \<Rightarrow> None
         | Some p \<Rightarrow> Some (set_prev (set_next h2 p (Some e)) l (Some e)))"

definition clist_remove :: "'n nodes \<Rightarrow> 'n \<Rightarrow> 'n nodes option" where
  "clist_remove h e =
     (case le_next (h e) of
        None \<Rightarrow> None
      | Some n \<Rightarrow>
          (let h1 = set_prev h n (le_prev (h e))
           in case le_prev (h1 e) of
                None \<Rightarrow> None
              | Some p \<Rightarrow>
                  (let h2 = set_next h1 p (le_next (h1 e))
                   in Some (set_prev (set_next h2 e None) e None))))"

definition clist_extract_head :: "'n nodes \<Rightarrow> 'n \<Rightarrow> ('n nodes \<times> 'n option) option" where
  "clist_extract_head h l =
     (if le_next (h l) \<noteq> Some l
      then (case le_next (h l) of
              None \<Rightarrow> None
            | Some item \<Rightarrow> map_option (\<lambda>h'. (h', Some item)) (clist_remove h item))
      else Some (h, None))"

definition clist_extract_tail :: "'n nodes \<Rightarrow> 'n \<Rightarrow> ('n nodes \<times> 'n option) option" where
  "clist_extract_tail h l =
     (if le_prev (h l) \<noteq> Some l
      then (case le_prev (h l) of
              None \<Rightarrow> None
            | Some item \<Rightarrow> map_option (\<lambda>h'. (h', Some item)) (clist_remove h item))
      else Some (h, None))"

definition clist_peek_head :: "'n nodes \<Rightarrow> 'n \<Rightarrow> 'n option" where
  "clist_peek_head h l = (if le_next (h l) \<noteq> Some l then le_next (h l) else None)"

definition clist_peek_tail :: "'n nodes \<Rightarrow> 'n \<Rightarrow> 'n option" where
  "clist_peek_tail h l = (if le_prev (h l) \<noteq> Some l then le_prev (h l) else None)"

definition clist_next :: "'n nodes \<Rightarrow> 'n \<Rightarrow> 'n \<Rightarrow> 'n option" where
  "clist_next h l item = (if le_next (h item) \<noteq> Some l then le_next (h item) else None)"

definition clist_next_wrap :: "'n nodes \<Rightarrow> 'n \<Rightarrow> 'n \<Rightarrow> 'n option" where
  "clist_next_wrap h l item =
     (if le_next (h item) \<noteq> Some l then le_next (h item)
      else if le_next (h l) \<noteq> Some l then le_next (h l)
      else None)"

definition clist_isempty :: "'n nodes \<Rightarrow> 'n \<Rightarrow> bool" where
  "clist_isempty h l = (le_next (h l) = Some l)"

text \<open>The two \<^verbatim>\<open>do\<close>-\<^verbatim>\<open>while\<close> loops visit the header before they test.\<close>

partial_function (option) clist_count_from :: "'n nodes \<Rightarrow> 'n \<Rightarrow> 'n \<Rightarrow> uint \<Rightarrow> uint option" where
  "clist_count_from h l temp res =
     (case le_next (h temp) of
        None \<Rightarrow> None
      | Some t \<Rightarrow> if t \<noteq> l then clist_count_from h l t (res + 1) else Some (res + 1))"

definition clist_count :: "'n nodes \<Rightarrow> 'n \<Rightarrow> uint option" where
  "clist_count h l = clist_count_from h l l 0"

partial_function (option) clist_dump_from :: "'n nodes \<Rightarrow> 'n \<Rightarrow> 'n \<Rightarrow> 'n list \<Rightarrow> 'n list option" where
  "clist_dump_from h l temp elements =
     (case le_next (h temp) of
        None \<Rightarrow> None
      | Some t \<Rightarrow>
          if t \<noteq> l then clist_dump_from h l t (elements @ [temp]) else Some (elements @ [temp]))"

definition clist_dump_elements :: "'n nodes \<Rightarrow> 'n \<Rightarrow> 'n list option" where
  "clist_dump_elements h l = clist_dump_from h l l []"

section \<open>Abstraction and refinement\<close>

definition clist_rep :: "'n nodes \<Rightarrow> 'n \<Rightarrow> 'n list \<Rightarrow> bool" where
  "clist_rep h l xs \<longleftrightarrow>
     l \<notin> set xs \<and> distinct xs \<and> dseg h (Some l) xs (Some l) \<and>
     le_next (h l) = first_ptr xs (Some l) \<and> le_prev (h l) = last_ptr xs (Some l)"

lemma clist_init_rep: "clist_rep (clist_init h l) l []"
  by (simp add: clist_rep_def clist_init_def)

lemma clist_add_head_rep:
  assumes "clist_rep h l xs" "e \<notin> set xs" "e \<noteq> l"
  shows "\<exists>h'. clist_add_head h l e = Some h' \<and> clist_rep h' l (e # xs) \<and>
           same_outside (insert e (insert l (set xs))) h h'"
  using assms
  by (cases xs) (auto simp: clist_add_head_def clist_rep_def Let_def seg_simps last_ptr_def)

lemma clist_add_tail_rep:
  assumes "clist_rep h l xs" "e \<notin> set xs" "e \<noteq> l"
  shows "\<exists>h'. clist_add_tail h l e = Some h' \<and> clist_rep h' l (xs @ [e]) \<and>
           same_outside (insert e (insert l (set xs))) h h'"
  using assms
  by (cases xs rule: rev_cases)
     (auto simp: clist_add_tail_def clist_rep_def Let_def seg_simps)

lemma clist_remove_rep:
  assumes "clist_rep h l (xs @ e # ys)"
  shows "\<exists>h'. clist_remove h e = Some h' \<and> clist_rep h' l (xs @ ys) \<and> unlinked h' e \<and>
           same_outside (insert e (insert l (set xs \<union> set ys))) h h'"
  using assms
  by (cases xs rule: rev_cases; cases ys)
     (auto simp: clist_remove_def clist_rep_def Let_def seg_simps unlinked_def)

lemma clist_extract_head_rep:
  assumes "clist_rep h l xs"
  shows "\<exists>h'. clist_extract_head h l = Some (h', first_ptr xs None) \<and> clist_rep h' l (tl xs)"
proof (cases xs)
  case Nil
  with assms show ?thesis by (auto simp: clist_extract_head_def clist_rep_def)
next
  case (Cons x ys)
  from assms Cons clist_remove_rep [of h l "[]" x ys] obtain h'
    where "clist_remove h x = Some h'" "clist_rep h' l ys" by auto
  with assms Cons show ?thesis by (auto simp: clist_extract_head_def clist_rep_def)
qed

lemma clist_extract_tail_rep:
  assumes "clist_rep h l xs"
  shows "\<exists>h'. clist_extract_tail h l = Some (h', last_ptr xs None) \<and> clist_rep h' l (butlast xs)"
proof (cases xs rule: rev_cases)
  case Nil
  with assms show ?thesis by (auto simp: clist_extract_tail_def clist_rep_def)
next
  case (snoc ys x)
  from assms snoc clist_remove_rep [of h l ys x "[]"] obtain h'
    where "clist_remove h x = Some h'" "clist_rep h' l ys" by auto
  with assms snoc show ?thesis by (auto simp: clist_extract_tail_def clist_rep_def)
qed

lemma clist_isempty_rep: "clist_rep h l xs \<Longrightarrow> clist_isempty h l = (xs = [])"
  by (cases xs) (auto simp: clist_isempty_def clist_rep_def)

lemma clist_peek_rep:
  assumes "clist_rep h l xs"
  shows "clist_peek_head h l = first_ptr xs None" "clist_peek_tail h l = last_ptr xs None"
  using assms
  by (cases xs, auto simp: clist_peek_head_def clist_rep_def)
     (cases xs rule: rev_cases, auto simp: clist_peek_tail_def clist_rep_def)

lemma clist_next_rep:
  assumes "clist_rep h l (xs @ x # ys)"
  shows "clist_next h l x = first_ptr ys None"
    and "clist_next_wrap h l x = first_ptr (ys @ xs @ [x]) None"
  using assms by (cases ys; cases xs; auto simp: clist_next_def clist_next_wrap_def clist_rep_def)+

lemma clist_count_seg:
  assumes "dseg h p (x # xs) (Some l)" "l \<notin> set xs"
  shows "clist_count_from h l x n = Some (n + of_nat (length xs) + 1)"
  using assms
  by (induction xs arbitrary: p x n) (subst clist_count_from.simps, auto simp: algebra_simps)+

lemma clist_dump_seg:
  assumes "dseg h p (x # xs) (Some l)" "l \<notin> set xs"
  shows "clist_dump_from h l x acc = Some (acc @ x # xs)"
  using assms
  by (induction xs arbitrary: p x acc) (subst clist_dump_from.simps, auto)+

lemma clist_rep_seg: "clist_rep h l xs \<Longrightarrow> dseg h (le_prev (h l)) (l # xs) (Some l) \<and> l \<notin> set xs"
  by (simp add: clist_rep_def)

section \<open>Runs of operations\<close>

datatype 'n clist_op =
    C_add_head 'n | C_add_tail 'n | C_extract_head | C_extract_tail | C_remove 'n

fun clist_exec :: "'n nodes \<Rightarrow> 'n \<Rightarrow> 'n clist_op \<Rightarrow> ('n nodes \<times> 'n option) option" where
  "clist_exec h l (C_add_head e) = map_option (\<lambda>h'. (h', None)) (clist_add_head h l e)"
| "clist_exec h l (C_add_tail e) = map_option (\<lambda>h'. (h', None)) (clist_add_tail h l e)"
| "clist_exec h l C_extract_head = clist_extract_head h l"
| "clist_exec h l C_extract_tail = clist_extract_tail h l"
| "clist_exec h l (C_remove e) = map_option (\<lambda>h'. (h', None)) (clist_remove h e)"

fun clist_run :: "'n nodes \<Rightarrow> 'n \<Rightarrow> 'n clist_op list \<Rightarrow> ('n nodes \<times> 'n option list) option" where
  "clist_run h l [] = Some (h, [])"
| "clist_run h l (op # ops) =
     (case clist_exec h l op of
        None \<Rightarrow> None
      | Some (h', r) \<Rightarrow> map_option (\<lambda>(h'', rs). (h'', r # rs)) (clist_run h' l ops))"

fun clist_spec :: "'n list \<Rightarrow> 'n clist_op \<Rightarrow> 'n list \<times> 'n option" where
  "clist_spec xs (C_add_head e) = (e # xs, None)"
| "clist_spec xs (C_add_tail e) = (xs @ [e], None)"
| "clist_spec xs C_extract_head = (tl xs, first_ptr xs None)"
| "clist_spec xs C_extract_tail = (butlast xs, last_ptr xs None)"
| "clist_spec xs (C_remove e) = (remove1 e xs, None)"

fun clist_spec_run :: "'n list \<Rightarrow> 'n clist_op list \<Rightarrow> 'n list \<times> 'n option list" where
  "clist_spec_run xs [] = (xs, [])"
| "clist_spec_run xs (op # ops) =
     (let (xs', r) = clist_spec xs op; (ys, rs) = clist_spec_run xs' ops in (ys, r # rs))"

text \<open>
  The callers' obligations: a node that is added is neither the header nor in the ring, and
  a node that is removed is in it (\<^verbatim>\<open>clist_remove\<close> does not check).
\<close>

fun cop_ok :: "'n \<Rightarrow> 'n list \<Rightarrow> 'n clist_op \<Rightarrow> bool" where
  "cop_ok l xs (C_add_head e) = (e \<noteq> l \<and> e \<notin> set xs)"
| "cop_ok l xs (C_add_tail e) = (e \<noteq> l \<and> e \<notin> set xs)"
| "cop_ok l xs (C_remove e) = (e \<in> set xs)"
| "cop_ok l xs _ = True"

fun cops_ok :: "'n \<Rightarrow> 'n list \<Rightarrow> 'n clist_op list \<Rightarrow> bool" where
  "cops_ok l xs [] = True"
| "cops_ok l xs (op # ops) = (cop_ok l xs op \<and> cops_ok l (fst (clist_spec xs op)) ops)"

lemma clist_exec_refines:
  assumes rep: "clist_rep h l xs" and ok: "cop_ok l xs op"
  shows "\<exists>h'. clist_exec h l op = Some (h', snd (clist_spec xs op)) \<and>
           clist_rep h' l (fst (clist_spec xs op))"
proof (cases op)
  case (C_remove e)
  with ok obtain ys zs where xs: "xs = ys @ e # zs" "e \<notin> set ys"
    by (metis cop_ok.simps(3) split_list_first)
  with rep C_remove clist_remove_rep [of h l ys e zs] show ?thesis
    by (auto simp: remove1_append)
qed (use assms clist_add_head_rep clist_add_tail_rep clist_extract_head_rep
       clist_extract_tail_rep in \<open>fastforce+\<close>)

lemma clist_run_simulation:
  "\<lbrakk>clist_rep h l xs; cops_ok l xs ops\<rbrakk> \<Longrightarrow>
   \<exists>h'. clist_run h l ops = Some (h', snd (clist_spec_run xs ops)) \<and>
     clist_rep h' l (fst (clist_spec_run xs ops))"
proof (induction ops arbitrary: h xs)
  case Nil
  then show ?case by simp
next
  case (Cons op ops)
  from Cons.prems clist_exec_refines [of h l xs op] obtain h1
    where e: "clist_exec h l op = Some (h1, snd (clist_spec xs op))"
      and r: "clist_rep h1 l (fst (clist_spec xs op))" by auto
  from Cons.IH [OF r] Cons.prems e show ?case by (auto split: prod.splits)
qed

section \<open>Properties\<close>

text \<open>
  C27. On a well-formed ring, any run of adds at either end, extractions and removals that
  meets the callers' obligations performs no NULL access, returns the nodes the same calls
  return on a plain sequence, and leaves a well-formed ring of the resulting sequence.
\<close>

theorem clist_run_refines_sequences:
  assumes "clist_rep h l xs" "cops_ok l xs ops" "clist_spec_run xs ops = (ys, rs)"
  shows "\<exists>h'. clist_run h l ops = Some (h', rs) \<and> clist_rep h' l ys"
  using clist_run_simulation [OF assms(1,2)] assms(3) by simp

theorem clist_run_refines_sequences_witness:
  "\<exists>h'. clist_run (clist_init blank_nodes 0) (0::nat)
      [C_add_tail 1, C_add_head 2, C_add_tail 3, C_remove 1, C_extract_head, C_extract_head,
       C_extract_tail]
      = Some (h', [None, None, None, None, Some 2, Some 3, None]) \<and> clist_rep h' 0 []"
  by (rule clist_run_refines_sequences [where xs = "[]"]) (simp_all add: clist_init_rep)

text \<open>
  \<^verbatim>\<open>clist_count\<close> and \<^verbatim>\<open>clist_dump_elements\<close> terminate on every well-formed ring,
  and both include the header: the count is one more than the number of items (an empty list
  counts 1) and the dump starts with the header itself.
\<close>

theorem clist_count_includes_header:
  assumes "clist_rep h l xs"
  shows "clist_count h l = Some (of_nat (length xs) + 1) \<and>
         clist_dump_elements h l = Some (l # xs)"
  using clist_rep_seg [OF assms] clist_count_seg [of h "le_prev (h l)" l xs l 0]
    clist_dump_seg [of h "le_prev (h l)" l xs l "[]"]
  by (simp add: clist_count_def clist_dump_elements_def)

theorem clist_count_includes_header_witness:
  "clist_count (clist_init blank_nodes 0) (0::nat) = Some (of_nat (length ([]::nat list)) + 1) \<and>
   clist_dump_elements (clist_init blank_nodes 0) (0::nat) = Some [0]"
  by (rule clist_count_includes_header) (rule clist_init_rep)

end
