(* ===== verification/Kqueue.thy ===== *)
theory Kqueue
  imports Prelude Fifo
begin

text \<open>
  The singly linked queue of \<^verbatim>\<open>kernel/util/queue.c\<close> and \<^verbatim>\<open>include/phlox/queue.h\<close>: a head
  and a tail pointer, an element count and one link per element. The store maps an element
  to its \<^verbatim>\<open>next\<close> pointer.
\<close>

section \<open>Data\<close>

record 'n queue_elem =
  qe_next :: "'n option"

record 'n kqueue =
  q_head :: "'n option"
  q_tail :: "'n option"
  q_count :: uint

type_synonym 'n qnodes = "'n \<Rightarrow> 'n queue_elem"

definition set_qnext :: "'n qnodes \<Rightarrow> 'n \<Rightarrow> 'n option \<Rightarrow> 'n qnodes" where
  "set_qnext h e p = h(e := (h e)\<lparr>qe_next := p\<rparr>)"

section \<open>Operations\<close>

definition queue_init :: "'n kqueue \<Rightarrow> 'n kqueue \<times> uint" where
  "queue_init q = (q\<lparr>q_tail := None, q_head := None, q_count := 0\<rparr>, 1)"

definition queue_elem_init :: "'n qnodes \<Rightarrow> 'n \<Rightarrow> 'n qnodes \<times> uint" where
  "queue_elem_init h e = (set_qnext h e None, 1)"

text \<open>The removal loop, with the running pointers \<^verbatim>\<open>temp\<close> and \<^verbatim>\<open>last\<close> (\<open>prev_e\<close>).\<close>

partial_function (option) queue_remove_loop ::
  "'n qnodes \<Rightarrow> 'n kqueue \<Rightarrow> 'n \<Rightarrow> 'n option \<Rightarrow> 'n option \<Rightarrow> ('n qnodes \<times> 'n kqueue \<times> uint) option" where
  "queue_remove_loop h q e temp prev_e =
     (case temp of
        None \<Rightarrow> Some (h, q, 0)
      | Some t \<Rightarrow>
          if t = e then
            (let (h1, q1) = (case prev_e of
                               Some la \<Rightarrow> (set_qnext h la (qe_next (h t)), q)
                             | None \<Rightarrow> (h, q\<lparr>q_head := qe_next (h t)\<rparr>));
                 q2 = (if q_tail q1 = Some t then q1\<lparr>q_tail := prev_e\<rparr> else q1);
                 q3 = q2\<lparr>q_count := q_count q2 - 1\<rparr>
             in Some (set_qnext h1 e None, q3, 1))
          else queue_remove_loop h q e (qe_next (h t)) (Some t))"

definition queue_remove ::
  "'n qnodes \<Rightarrow> 'n kqueue \<Rightarrow> 'n \<Rightarrow> ('n qnodes \<times> 'n kqueue \<times> uint) option" where
  "queue_remove h q e = queue_remove_loop h q e (q_head q) None"

definition queue_enqueue :: "'n qnodes \<Rightarrow> 'n kqueue \<Rightarrow> 'n \<Rightarrow> 'n qnodes \<times> 'n kqueue \<times> uint" where
  "queue_enqueue h q e =
     (let (h1, q1) = (case q_tail q of
                        None \<Rightarrow> (h, q\<lparr>q_tail := Some e, q_head := Some e\<rparr>)
                      | Some t \<Rightarrow> (set_qnext h t (Some e), q\<lparr>q_tail := Some e\<rparr>))
      in (set_qnext h1 e None, q1\<lparr>q_count := q_count q1 + 1\<rparr>, 1))"

definition queue_dequeue :: "'n qnodes \<Rightarrow> 'n kqueue \<Rightarrow> 'n kqueue \<times> 'n option" where
  "queue_dequeue h q =
     (let e = q_head q;
          q1 = (case q_head q of Some t \<Rightarrow> q\<lparr>q_head := qe_next (h t)\<rparr> | None \<Rightarrow> q);
          q2 = (if q_tail q1 = e then q1\<lparr>q_tail := None\<rparr> else q1);
          q3 = (if e \<noteq> None then q2\<lparr>q_count := q_count q2 - 1\<rparr> else q2)
      in (q3, e))"

definition queue_peek :: "'n kqueue \<Rightarrow> 'n option" where
  "queue_peek q = q_head q"

definition queue_isempty :: "'n kqueue \<Rightarrow> bool" where
  "queue_isempty q = (q_count q = 0)"

section \<open>Abstraction\<close>

fun sseg :: "'n qnodes \<Rightarrow> 'n list \<Rightarrow> 'n option \<Rightarrow> bool" where
  "sseg h [] r = True"
| "sseg h (x # xs) r = (qe_next (h x) = first_ptr xs r \<and> sseg h xs r)"

definition queue_rep :: "'n qnodes \<Rightarrow> 'n kqueue \<Rightarrow> 'n list \<Rightarrow> bool" where
  "queue_rep h q xs \<longleftrightarrow>
     q_head q = first_ptr xs None \<and> q_tail q = last_ptr xs None \<and>
     q_count q = of_nat (length xs) \<and> distinct xs \<and> sseg h xs None"

lemma set_qnext_apply [simp]:
  "qe_next (set_qnext h e p x) = (if x = e then p else qe_next (h x))"
  by (simp add: set_qnext_def)

lemma sseg_append [simp]: "sseg h (xs @ ys) r \<longleftrightarrow> sseg h xs (first_ptr ys r) \<and> sseg h ys r"
  by (induction xs) auto

lemma sseg_upd [simp]: "e \<notin> set xs \<Longrightarrow> sseg (set_qnext h e v) xs r = sseg h xs r"
  by (induction xs) auto

lemma queue_enqueue_rep:
  assumes "queue_rep h q xs" "e \<notin> set xs" "queue_enqueue h q e = (h', q', r)"
  shows "queue_rep h' q' (xs @ [e]) \<and> r = 1"
  using assms
  by (cases xs rule: rev_cases) (auto simp: queue_enqueue_def queue_rep_def Let_def)

lemma queue_dequeue_empty: "queue_rep h q [] \<Longrightarrow> queue_dequeue h q = (q, None)"
  by (simp add: queue_dequeue_def queue_rep_def)

lemma queue_dequeue_rep:
  assumes "queue_rep h q (x # xs)"
  shows "\<exists>q'. queue_dequeue h q = (q', Some x) \<and> queue_rep h q' xs"
  using assms
  by (cases xs rule: rev_cases) (auto simp: queue_dequeue_def queue_rep_def Let_def)

lemma queue_remove_loop_seg:
  assumes "queue_rep h q (ps @ xs)"
  shows "\<exists>h' q'. queue_remove_loop h q e (first_ptr xs None) (last_ptr ps None) =
           Some (h', q', if e \<in> set xs then 1 else 0) \<and>
           queue_rep h' q' (ps @ remove1 e xs)"
  using assms
proof (induction xs arbitrary: ps)
  case Nil
  then show ?case by (simp add: queue_remove_loop.simps)
next
  case (Cons x xs)
  show ?case
  proof (cases "x = e")
    case True
    with Cons.prems show ?thesis
      by (subst queue_remove_loop.simps)
         (cases ps rule: rev_cases; cases xs rule: rev_cases; auto simp: queue_rep_def Let_def)
  next
    case False
    with Cons.prems have "queue_remove_loop h q e (first_ptr (x # xs) None) (last_ptr ps None) =
        queue_remove_loop h q e (first_ptr xs None) (last_ptr (ps @ [x]) None)"
      by (subst queue_remove_loop.simps) (simp add: queue_rep_def)
    with Cons.IH [of "ps @ [x]"] Cons.prems False show ?thesis by auto
  qed
qed

section \<open>The queue as a FIFO\<close>

definition kq_enq :: "'n qnodes \<times> 'n kqueue \<Rightarrow> 'n \<Rightarrow> 'n qnodes \<times> 'n kqueue" where
  "kq_enq s e = (case queue_enqueue (fst s) (snd s) e of (h, q, _) \<Rightarrow> (h, q))"

definition kq_deq :: "'n qnodes \<times> 'n kqueue \<Rightarrow> ('n qnodes \<times> 'n kqueue) \<times> 'n option" where
  "kq_deq s = (case queue_dequeue (fst s) (snd s) of (q, r) \<Rightarrow> ((fst s, q), r))"

interpretation kqueue_fifo: fifo_queue kq_enq kq_deq "\<lambda>s. queue_rep (fst s) (snd s)"
proof unfold_locales
  fix s :: "'a qnodes \<times> 'a kqueue" and xs e
  assume "queue_rep (fst s) (snd s) xs" "e \<notin> set xs"
  then show "queue_rep (fst (kq_enq s e)) (snd (kq_enq s e)) (xs @ [e])"
    by (auto simp: kq_enq_def dest: queue_enqueue_rep split: prod.splits)
next
  fix s :: "'a qnodes \<times> 'a kqueue"
  assume "queue_rep (fst s) (snd s) []"
  then show "kq_deq s = (s, None)" by (simp add: kq_deq_def queue_dequeue_empty)
next
  fix s :: "'a qnodes \<times> 'a kqueue" and x xs
  assume "queue_rep (fst s) (snd s) (x # xs)"
  then show "\<exists>s'. kq_deq s = (s', Some x) \<and> queue_rep (fst s') (snd s') xs"
    by (auto simp: kq_deq_def dest!: queue_dequeue_rep split: prod.splits)
qed

section \<open>Properties\<close>



text \<open>
  \<^verbatim>\<open>queue_remove\<close> terminates on every well-formed queue, unlinks the element wherever it
  is (head, middle or tail), reports whether it was queued, and keeps the queue well-formed.
\<close>

theorem queue_remove_correct:
  assumes "queue_rep h q xs"
  shows "\<exists>h' q'. queue_remove h q e = Some (h', q', if e \<in> set xs then 1 else 0) \<and>
           queue_rep h' q' (remove1 e xs)"
  using queue_remove_loop_seg [of h q "[]" xs e] assms
  by (simp add: queue_remove_def queue_rep_def)

theorem queue_remove_correct_witness:
  "\<exists>h' q'. queue_remove (\<lambda>n. \<lparr>qe_next = (if n = 1 then Some (2::nat) else None)\<rparr>)
        \<lparr>q_head = Some 1, q_tail = Some 2, q_count = 2\<rparr> 2 =
        Some (h', q', if (2::nat) \<in> set [1, 2] then 1 else 0) \<and> queue_rep h' q' (remove1 2 [1, 2])"
  by (rule queue_remove_correct) (simp add: queue_rep_def)

end
