(* ===== verification/Elem_Set.thy ===== *)
theory Elem_Set
  imports Prelude
begin

text \<open>
  The contract of a mutable set of elements, as a locale: insertion and deletion report
  whether they changed the set, and an operation that does not return or faults is
  \<open>None\<close>. The behaviour of every run of calls follows from the three laws.
\<close>

datatype 'e set_op = Ins 'e | Del 'e | Mem 'e

fun set_spec :: "'e set \<Rightarrow> 'e set_op \<Rightarrow> 'e set \<times> bool" where
  "set_spec A (Ins e) = (insert e A, e \<notin> A)"
| "set_spec A (Del e) = (A - {e}, e \<in> A)"
| "set_spec A (Mem e) = (A, e \<in> A)"

fun set_spec_run :: "'e set \<Rightarrow> 'e set_op list \<Rightarrow> 'e set \<times> bool list" where
  "set_spec_run A [] = (A, [])"
| "set_spec_run A (op # ops) =
     (let (A', r) = set_spec A op; (B, rs) = set_spec_run A' ops in (B, r # rs))"

fun set_exec ::
  "('s \<Rightarrow> 'e \<Rightarrow> ('s \<times> bool) option) \<Rightarrow> ('s \<Rightarrow> 'e \<Rightarrow> ('s \<times> bool) option) \<Rightarrow>
   ('s \<Rightarrow> 'e \<Rightarrow> bool option) \<Rightarrow> 's \<Rightarrow> 'e set_op \<Rightarrow> ('s \<times> bool) option" where
  "set_exec ins del mem s (Ins e) = ins s e"
| "set_exec ins del mem s (Del e) = del s e"
| "set_exec ins del mem s (Mem e) = map_option (Pair s) (mem s e)"

fun set_run ::
  "('s \<Rightarrow> 'e \<Rightarrow> ('s \<times> bool) option) \<Rightarrow> ('s \<Rightarrow> 'e \<Rightarrow> ('s \<times> bool) option) \<Rightarrow>
   ('s \<Rightarrow> 'e \<Rightarrow> bool option) \<Rightarrow> 's \<Rightarrow> 'e set_op list \<Rightarrow> ('s \<times> bool list) option" where
  "set_run ins del mem s [] = Some (s, [])"
| "set_run ins del mem s (op # ops) =
     (case set_exec ins del mem s op of
        None \<Rightarrow> None
      | Some (s', r) \<Rightarrow> map_option (\<lambda>(s'', rs). (s'', r # rs)) (set_run ins del mem s' ops))"

locale elem_set =
  fixes ins :: "'s \<Rightarrow> 'e \<Rightarrow> ('s \<times> bool) option"
    and del :: "'s \<Rightarrow> 'e \<Rightarrow> ('s \<times> bool) option"
    and mem :: "'s \<Rightarrow> 'e \<Rightarrow> bool option"
    and rep :: "'s \<Rightarrow> 'e set \<Rightarrow> bool"
  assumes ins_rep: "rep s A \<Longrightarrow> \<exists>s'. ins s e = Some (s', e \<notin> A) \<and> rep s' (insert e A)"
    and del_rep: "rep s A \<Longrightarrow> \<exists>s'. del s e = Some (s', e \<in> A) \<and> rep s' (A - {e})"
    and mem_rep: "rep s A \<Longrightarrow> mem s e = Some (e \<in> A)"
begin

lemma exec_refines:
  assumes "rep s A"
  shows "\<exists>s'. set_exec ins del mem s op = Some (s', snd (set_spec A op)) \<and>
           rep s' (fst (set_spec A op))"
  using assms by (cases op) (auto simp: mem_rep dest: ins_rep del_rep)

lemma run_refines:
  "rep s A \<Longrightarrow> \<exists>s'. set_run ins del mem s ops = Some (s', snd (set_spec_run A ops)) \<and>
     rep s' (fst (set_spec_run A ops))"
proof (induction ops arbitrary: s A)
  case Nil
  then show ?case by simp
next
  case (Cons op ops)
  from exec_refines [OF Cons.prems, of op] obtain s1
    where e: "set_exec ins del mem s op = Some (s1, snd (set_spec A op))"
      and r: "rep s1 (fst (set_spec A op))" by auto
  from Cons.IH [OF r] e show ?case by (auto split: prod.splits)
qed

end

end
