(* ===== verification/Hash_Table.thy ===== *)
theory Hash_Table
  imports Prelude Elem_Set
begin

text \<open>
  The chained hash table of \<^verbatim>\<open>kernel/util/hash_table.c\<close>. Elements are linked through a word
  embedded in them (\<^verbatim>\<open>NEXT\<close> and \<^verbatim>\<open>PUT_IN_NEXT\<close> at \<^verbatim>\<open>node_offset\<close>), which the store
  \<open>'e links\<close> holds per element. The hasher and the comparison are callbacks of the user, so
  they are fields of the table and their contract is stated where it is used. An access to
  \<^verbatim>\<open>table[hash]\<close> outside the bucket array is \<open>None\<close>; so is a walk that never ends.
\<close>

section \<open>Data\<close>

type_synonym 'e links = "'e \<Rightarrow> 'e option"

record ('e, 'k) hash_table =
  ht_table :: "'e option list"
  ht_node_offset :: uint
  ht_table_size :: uint
  ht_num_elems :: uint
  ht_num_buckets :: uint
  ht_flags :: uint
  ht_compare_func :: "('e \<Rightarrow> 'k \<Rightarrow> int) option"
  ht_hash_func :: "'e option \<Rightarrow> 'k option \<Rightarrow> uint \<Rightarrow> uint32"

record 'e hash_table_iterator =
  it_bucket :: uint
  it_node :: "'e option"

definition HASH_TABLE_FLAG_STATIC :: uint where
  "HASH_TABLE_FLAG_STATIC = 1"

definition TEST_FLAGS :: "uint \<Rightarrow> uint \<Rightarrow> bool" where
  "TEST_FLAGS a flags = (a AND flags = flags)"

text \<open>Sizes on i386: eight words of control fields, one word per bucket.\<close>

definition sizeof_hash_table :: size_t where
  "sizeof_hash_table = 32"

definition sizeof_hash_node :: size_t where
  "sizeof_hash_node = 4"

definition HASH_TABLE_STATIC_SIZE :: "size_t \<Rightarrow> size_t" where
  "HASH_TABLE_STATIC_SIZE a = sizeof_hash_table + a * sizeof_hash_node"

section \<open>Creation\<close>

text \<open>The two allocations of \<^verbatim>\<open>hash_table_init\<close> may fail: their outcomes are arguments.\<close>

definition hash_table_init ::
  "bool \<Rightarrow> bool \<Rightarrow> uint \<Rightarrow> uint \<Rightarrow> ('e \<Rightarrow> 'k \<Rightarrow> int) option \<Rightarrow>
   ('e option \<Rightarrow> 'k option \<Rightarrow> uint \<Rightarrow> uint32) \<Rightarrow> ('e, 'k) hash_table option" where
  "hash_table_init struct_ok table_ok table_size node_offset compare_func hash_func =
     (if \<not> struct_ok then None
      else if \<not> table_ok then None
      else Some \<lparr>ht_table = replicate (unat table_size) None,
                 ht_node_offset = node_offset,
                 ht_table_size = table_size,
                 ht_num_elems = 0,
                 ht_num_buckets = 0,
                 ht_flags = 0,
                 ht_compare_func = compare_func,
                 ht_hash_func = hash_func\<rparr>)"

definition hash_table_init_static ::
  "size_t \<Rightarrow> uint \<Rightarrow> ('e \<Rightarrow> 'k \<Rightarrow> int) option \<Rightarrow>
   ('e option \<Rightarrow> 'k option \<Rightarrow> uint \<Rightarrow> uint32) \<Rightarrow> ('e, 'k) hash_table option" where
  "hash_table_init_static area_size node_offset compare_func hash_func =
     (if area_size < HASH_TABLE_STATIC_SIZE 1 then None
      else
        (let table_size = (area_size - sizeof_hash_table) div sizeof_hash_node
         in Some \<lparr>ht_table = replicate (unat table_size) None,
                  ht_node_offset = node_offset,
                  ht_table_size = table_size,
                  ht_num_elems = 0,
                  ht_num_buckets = 0,
                  ht_flags = HASH_TABLE_FLAG_STATIC,
                  ht_compare_func = compare_func,
                  ht_hash_func = hash_func\<rparr>))"

definition hash_table_uninit :: "('e, 'k) hash_table \<Rightarrow> int" where
  "hash_table_uninit ht = (if TEST_FLAGS (ht_flags ht) HASH_TABLE_FLAG_STATIC then 1 else 0)"

section \<open>Insertion, removal and search\<close>

definition bucket_at :: "('e, 'k) hash_table \<Rightarrow> uint32 \<Rightarrow> 'e option option" where
  "bucket_at ht hash =
     (if unat hash < length (ht_table ht) then Some (ht_table ht ! unat hash) else None)"

definition hash_table_insert ::
  "'e links \<Rightarrow> ('e, 'k) hash_table \<Rightarrow> 'e \<Rightarrow> ('e links \<times> ('e, 'k) hash_table \<times> int) option" where
  "hash_table_insert nx ht elem =
     (let hash = ht_hash_func ht (Some elem) None (ht_table_size ht)
      in case bucket_at ht hash of
           None \<Rightarrow> None
         | Some head \<Rightarrow>
             (let nx' = nx(elem := head);
                  ht1 = (if head = None then ht\<lparr>ht_num_buckets := ht_num_buckets ht + 1\<rparr> else ht);
                  ht2 = ht1\<lparr>ht_table := (ht_table ht1)[unat hash := Some elem]\<rparr>;
                  ht3 = ht2\<lparr>ht_num_elems := ht_num_elems ht2 + 1\<rparr>
              in Some (nx', ht3, 0)))"

text \<open>The walk along a chain that looks for an address.\<close>

partial_function (option) chain_search :: "'e links \<Rightarrow> 'e option \<Rightarrow> 'e \<Rightarrow> bool option" where
  "chain_search nx i elem =
     (case i of
        None \<Rightarrow> Some False
      | Some n \<Rightarrow> if n = elem then Some True else chain_search nx (nx n) elem)"

definition hash_table_insert_safe ::
  "'e links \<Rightarrow> ('e, 'k) hash_table \<Rightarrow> 'e \<Rightarrow> ('e links \<times> ('e, 'k) hash_table \<times> int) option" where
  "hash_table_insert_safe nx ht elem =
     (let hash = ht_hash_func ht (Some elem) None (ht_table_size ht)
      in case bucket_at ht hash of
           None \<Rightarrow> None
         | Some head \<Rightarrow>
             (case chain_search nx head elem of
                None \<Rightarrow> None
              | Some True \<Rightarrow> Some (nx, ht, 1)
              | Some False \<Rightarrow>
                  (let nx' = nx(elem := head);
                       ht1 = (if head = None
                              then ht\<lparr>ht_num_buckets := ht_num_buckets ht + 1\<rparr> else ht);
                       ht2 = ht1\<lparr>ht_table := (ht_table ht1)[unat hash := Some elem]\<rparr>;
                       ht3 = ht2\<lparr>ht_num_elems := ht_num_elems ht2 + 1\<rparr>
                   in Some (nx', ht3, 0))))"

partial_function (option) hash_table_remove_loop ::
  "'e links \<Rightarrow> ('e, 'k) hash_table \<Rightarrow> nat \<Rightarrow> 'e \<Rightarrow> 'e option \<Rightarrow> 'e option \<Rightarrow>
   ('e links \<times> ('e, 'k) hash_table \<times> int) option" where
  "hash_table_remove_loop nx ht hash elem i last_i =
     (case i of
        None \<Rightarrow> Some (nx, ht, 1)
      | Some n \<Rightarrow>
          if n = elem then
            (let (nx1, ht1) = (case last_i of
                                 Some la \<Rightarrow> (nx(la := nx n), ht)
                               | None \<Rightarrow> (nx, ht\<lparr>ht_table := (ht_table ht)[hash := nx n]\<rparr>));
                 ht2 = (if ht_table ht1 ! hash = None
                        then ht1\<lparr>ht_num_buckets := ht_num_buckets ht1 - 1\<rparr> else ht1);
                 ht3 = ht2\<lparr>ht_num_elems := ht_num_elems ht2 - 1\<rparr>
             in Some (nx1, ht3, 0))
          else hash_table_remove_loop nx ht hash elem (nx n) (Some n))"

definition hash_table_remove ::
  "'e links \<Rightarrow> ('e, 'k) hash_table \<Rightarrow> 'e \<Rightarrow> ('e links \<times> ('e, 'k) hash_table \<times> int) option" where
  "hash_table_remove nx ht elem =
     (let hash = ht_hash_func ht (Some elem) None (ht_table_size ht)
      in case bucket_at ht hash of
           None \<Rightarrow> None
         | Some head \<Rightarrow> hash_table_remove_loop nx ht (unat hash) elem head None)"

definition hash_table_find :: "'e links \<Rightarrow> ('e, 'k) hash_table \<Rightarrow> 'e \<Rightarrow> 'e option option" where
  "hash_table_find nx ht elem =
     (let hash = ht_hash_func ht (Some elem) None (ht_table_size ht)
      in case bucket_at ht hash of
           None \<Rightarrow> None
         | Some head \<Rightarrow>
             (case chain_search nx head elem of
                None \<Rightarrow> None
              | Some found \<Rightarrow> Some (if found then Some elem else None)))"

partial_function (option) chain_lookup ::
  "'e links \<Rightarrow> ('e \<Rightarrow> 'k \<Rightarrow> int) \<Rightarrow> 'e option \<Rightarrow> 'k \<Rightarrow> 'e option option" where
  "chain_lookup nx cmp i key =
     (case i of
        None \<Rightarrow> Some None
      | Some n \<Rightarrow> if cmp n key = 0 then Some (Some n) else chain_lookup nx cmp (nx n) key)"

definition hash_table_lookup :: "'e links \<Rightarrow> ('e, 'k) hash_table \<Rightarrow> 'k \<Rightarrow> 'e option option" where
  "hash_table_lookup nx ht key =
     (case ht_compare_func ht of
        None \<Rightarrow> Some None
      | Some cmp \<Rightarrow>
          (let hash = ht_hash_func ht None (Some key) (ht_table_size ht)
           in case bucket_at ht hash of
                None \<Rightarrow> None
              | Some head \<Rightarrow> chain_lookup nx cmp head key))"

section \<open>Iteration\<close>

definition hash_table_rewind :: "'e hash_table_iterator \<Rightarrow> 'e hash_table_iterator" where
  "hash_table_rewind i = i\<lparr>it_node := None, it_bucket := - 1\<rparr>"

definition hash_table_open :: "bool \<Rightarrow> 'e hash_table_iterator option" where
  "hash_table_open alloc_ok =
     (if alloc_ok then Some (hash_table_rewind \<lparr>it_bucket = 0, it_node = None\<rparr>) else None)"

text \<open>The \<^verbatim>\<open>for\<close> loop that looks for the next used bucket: the index it stops at.\<close>

function hash_next_bucket :: "'e option list \<Rightarrow> nat \<Rightarrow> nat \<Rightarrow> nat" where
  "hash_next_bucket table tsize index =
     (if index < tsize
      then (if table ! index \<noteq> None then index else hash_next_bucket table tsize (Suc index))
      else index)"
  by pat_completeness auto
termination by (relation "measure (\<lambda>(table, tsize, index). tsize - index)") auto

declare hash_next_bucket.simps [simp del]

partial_function (option) hash_table_next_loop ::
  "'e links \<Rightarrow> ('e, 'k) hash_table \<Rightarrow> 'e hash_table_iterator \<Rightarrow> 'e hash_table_iterator option" where
  "hash_table_next_loop nx ht i =
     (let i1 = (case it_node i of
                  None \<Rightarrow>
                    (let index = hash_next_bucket (ht_table ht) (unat (ht_table_size ht))
                                   (unat (it_bucket i + 1));
                         i0 = (if index < unat (ht_table_size ht)
                               then i\<lparr>it_node := ht_table ht ! index\<rparr> else i)
                     in i0\<lparr>it_bucket := of_nat index\<rparr>)
                | Some n \<Rightarrow> i\<lparr>it_node := nx n\<rparr>)
      in if it_node i1 = None \<and> it_bucket i1 < ht_table_size ht
         then hash_table_next_loop nx ht i1
         else Some i1)"

definition hash_table_next ::
  "'e links \<Rightarrow> ('e, 'k) hash_table \<Rightarrow> 'e hash_table_iterator \<Rightarrow>
   ('e hash_table_iterator \<times> 'e option) option" where
  "hash_table_next nx ht i =
     (case hash_table_next_loop nx ht i of None \<Rightarrow> None | Some i' \<Rightarrow> Some (i', it_node i'))"

text \<open>
  \<^verbatim>\<open>hash_table_foreach\<close> calls the callback on one element after the other; the model gives
  the elements in the order of the calls, for callbacks that leave the table alone.
\<close>

partial_function (option) hash_table_foreach_from ::
  "'e links \<Rightarrow> ('e, 'k) hash_table \<Rightarrow> 'e hash_table_iterator \<Rightarrow> 'e list \<Rightarrow> 'e list option" where
  "hash_table_foreach_from nx ht i calls =
     (case hash_table_next nx ht i of
        None \<Rightarrow> None
      | Some (i', None) \<Rightarrow> Some calls
      | Some (i', Some elem) \<Rightarrow> hash_table_foreach_from nx ht i' (calls @ [elem]))"

definition hash_table_foreach :: "'e links \<Rightarrow> ('e, 'k) hash_table \<Rightarrow> 'e list option" where
  "hash_table_foreach nx ht =
     hash_table_foreach_from nx ht (hash_table_rewind \<lparr>it_bucket = 0, it_node = None\<rparr>) []"

section \<open>Resizing\<close>

text \<open>
  The copy loop: the iterator walks the old table while every element it returns is inserted
  into the new one. The insertion overwrites the very link the iterator follows next.
\<close>

partial_function (option) hash_table_copy_loop ::
  "'e links \<Rightarrow> ('e, 'k) hash_table \<Rightarrow> ('e, 'k) hash_table \<Rightarrow> 'e hash_table_iterator \<Rightarrow>
   ('e links \<times> ('e, 'k) hash_table) option" where
  "hash_table_copy_loop nx ht tmp itr =
     (case hash_table_next nx ht itr of
        None \<Rightarrow> None
      | Some (itr', None) \<Rightarrow> Some (nx, tmp)
      | Some (itr', Some elem) \<Rightarrow>
          (case hash_table_insert nx tmp elem of
             None \<Rightarrow> None
           | Some (nx', tmp', _) \<Rightarrow> hash_table_copy_loop nx' ht tmp' itr'))"

definition hash_table_resize ::
  "bool \<Rightarrow> 'e links \<Rightarrow> ('e, 'k) hash_table \<Rightarrow> uint \<Rightarrow>
   ('e links \<times> ('e, 'k) hash_table \<times> int) option" where
  "hash_table_resize table_ok nx ht new_size =
     (if new_size = 0 \<or> ht_table_size ht = new_size \<or>
         TEST_FLAGS (ht_flags ht) HASH_TABLE_FLAG_STATIC
      then Some (nx, ht, 1)
      else if \<not> table_ok then Some (nx, ht, 1)
      else
        (let tmp = ht\<lparr>ht_num_elems := 0, ht_num_buckets := 0, ht_table_size := new_size,
                      ht_table := replicate (unat new_size) None\<rparr>
         in case hash_table_copy_loop nx ht tmp
                   (hash_table_rewind \<lparr>it_bucket = 0, it_node = None\<rparr>) of
              None \<Rightarrow> None
            | Some (nx', tmp') \<Rightarrow> Some (nx', tmp', 0)))"

definition hash_table_size :: "('e, 'k) hash_table \<Rightarrow> uint" where
  "hash_table_size ht = ht_table_size ht"

definition hash_table_count :: "('e, 'k) hash_table \<Rightarrow> uint" where
  "hash_table_count ht = ht_num_elems ht"

definition hash_table_buckets :: "('e, 'k) hash_table \<Rightarrow> uint" where
  "hash_table_buckets ht = ht_num_buckets ht"

section \<open>Abstraction\<close>

text \<open>
  \<open>chain nx p xs\<close>: the links lead from \<open>p\<close> through exactly the elements \<open>xs\<close> to NULL.
  \<open>ht_rep nx ht bs\<close>: the table holds the bucket contents \<open>bs\<close>, every element is in the
  bucket of its hash, no element occurs twice, and the two counters are right.
\<close>

fun chain :: "'e links \<Rightarrow> 'e option \<Rightarrow> 'e list \<Rightarrow> bool" where
  "chain nx p [] = (p = None)"
| "chain nx p (x # xs) = (p = Some x \<and> chain nx (nx x) xs)"

definition elem_hash :: "('e, 'k) hash_table \<Rightarrow> 'e \<Rightarrow> nat" where
  "elem_hash ht e = unat (ht_hash_func ht (Some e) None (ht_table_size ht))"

definition ht_rep :: "'e links \<Rightarrow> ('e, 'k) hash_table \<Rightarrow> 'e list list \<Rightarrow> bool" where
  "ht_rep nx ht bs \<longleftrightarrow>
     length bs = unat (ht_table_size ht) \<and> length (ht_table ht) = length bs \<and>
     (\<forall>i < length bs. chain nx (ht_table ht ! i) (bs ! i)) \<and>
     (\<forall>i < length bs. \<forall>e \<in> set (bs ! i). elem_hash ht e = i) \<and>
     distinct (concat bs) \<and>
     (\<forall>e. elem_hash ht e < length bs) \<and>
     ht_num_elems ht = of_nat (length (concat bs)) \<and>
     ht_num_buckets ht = of_nat (length (filter (\<lambda>b. b \<noteq> []) bs))"

section \<open>Chains\<close>

lemma chain_upd [simp]: "e \<notin> set xs \<Longrightarrow> chain (nx(e := v)) p xs = chain nx p xs"
  by (induction xs arbitrary: p) auto

lemma chain_unlink:
  "\<lbrakk>chain nx p (ps @ la # x # xs); distinct (ps @ la # x # xs)\<rbrakk> \<Longrightarrow>
   chain (nx(la := nx x)) p (ps @ la # xs)"
  by (induction ps arbitrary: p) auto

lemma chain_None_iff: "chain nx None xs \<longleftrightarrow> xs = []"
  by (cases xs) auto

lemma chain_nonempty: "chain nx p xs \<Longrightarrow> p = None \<longleftrightarrow> xs = []"
  by (cases xs) auto

lemma chain_search_correct: "chain nx p xs \<Longrightarrow> chain_search nx p e = Some (e \<in> set xs)"
proof (induction xs arbitrary: p)
  case Nil
  then show ?case by (simp add: chain_search.simps)
next
  case (Cons x xs)
  then show ?case by (subst chain_search.simps) auto
qed

lemma find_Some_imp: "List.find P xs = Some x \<Longrightarrow> x \<in> set xs \<and> P x"
  by (induction xs) (auto split: if_splits)

lemma chain_lookup_correct:
  "chain nx p xs \<Longrightarrow> chain_lookup nx cmp p key = Some (List.find (\<lambda>n. cmp n key = 0) xs)"
proof (induction xs arbitrary: p)
  case Nil
  then show ?case by (simp add: chain_lookup.simps)
next
  case (Cons x xs)
  then show ?case by (subst chain_lookup.simps) auto
qed

section \<open>Refinement of the operations\<close>

lemma ht_rep_chain: "\<lbrakk>ht_rep nx ht bs; i < length bs\<rbrakk> \<Longrightarrow> chain nx (ht_table ht ! i) (bs ! i)"
  by (simp add: ht_rep_def)

lemma ht_rep_hash: "ht_rep nx ht bs \<Longrightarrow> elem_hash ht e < length bs"
  unfolding ht_rep_def by blast

lemma ht_rep_elem_bucket:
  "\<lbrakk>ht_rep nx ht bs; i < length bs; x \<in> set (bs ! i)\<rbrakk> \<Longrightarrow> elem_hash ht x = i"
  unfolding ht_rep_def by blast

lemma ht_rep_bucket_at:
  "ht_rep nx ht bs \<Longrightarrow>
   bucket_at ht (ht_hash_func ht (Some e) None (ht_table_size ht)) =
   Some (ht_table ht ! elem_hash ht e)"
  by (auto simp: ht_rep_def bucket_at_def elem_hash_def)

lemma ht_rep_member:
  assumes "ht_rep nx ht bs"
  shows "e \<in> set (concat bs) \<longleftrightarrow> e \<in> set (bs ! elem_hash ht e)"
proof
  assume "e \<in> set (concat bs)"
  then obtain i where "i < length bs" "e \<in> set (bs ! i)" by (auto simp: in_set_conv_nth) metis
  with assms show "e \<in> set (bs ! elem_hash ht e)" unfolding ht_rep_def by auto
next
  assume "e \<in> set (bs ! elem_hash ht e)"
  with nth_mem [OF ht_rep_hash [OF assms]] show "e \<in> set (concat bs)" by auto
qed

lemma elem_hash_update [simp]:
  "elem_hash (ht\<lparr>ht_table := t\<rparr>) e = elem_hash ht e"
  "elem_hash (ht\<lparr>ht_num_elems := n\<rparr>) e = elem_hash ht e"
  "elem_hash (ht\<lparr>ht_num_buckets := n\<rparr>) e = elem_hash ht e"
  by (simp_all add: elem_hash_def)

lemma concat_insert_bucket:
  assumes "i < length bs" "e \<notin> set (concat bs)" "distinct (concat bs)"
  shows "distinct (concat (bs[i := e # bs ! i]))"
    and "length (concat (bs[i := e # bs ! i])) = Suc (length (concat bs))"
    and "set (concat (bs[i := e # bs ! i])) = insert e (set (concat bs))"
proof -
  have "mset (concat (bs[i := e # bs ! i])) + mset (bs ! i) = mset (e # concat bs) + mset (bs ! i)"
    using mset_concat_update [OF assms(1), of "e # bs ! i"] by simp
  then have m: "mset (concat (bs[i := e # bs ! i])) = mset (e # concat bs)" by simp
  show "distinct (concat (bs[i := e # bs ! i]))"
    using mset_eq_imp_distinct_iff [OF m] assms by simp
  show "length (concat (bs[i := e # bs ! i])) = Suc (length (concat bs))"
    using mset_eq_length [OF m] by simp
  show "set (concat (bs[i := e # bs ! i])) = insert e (set (concat bs))"
    using mset_eq_setD [OF m] by simp
qed

lemma ht_rep_replace_bucket:
  assumes rep: "ht_rep nx ht bs" and i: "i < length bs"
    and new: "chain nx' (ht_table ht' ! i) b"
    and other: "\<And>j. j < length bs \<Longrightarrow> j \<noteq> i \<Longrightarrow> chain nx' (ht_table ht' ! j) (bs ! j)"
    and fields: "length (ht_table ht') = length bs" "ht_table_size ht' = ht_table_size ht"
      "ht_hash_func ht' = ht_hash_func ht"
    and hash: "\<And>x. x \<in> set b \<Longrightarrow> elem_hash ht x = i"
    and dist: "distinct (concat (bs[i := b]))"
    and cnt: "ht_num_elems ht' = of_nat (length (concat (bs[i := b])))"
      "ht_num_buckets ht' = of_nat (length (filter (\<lambda>b. b \<noteq> []) (bs[i := b])))"
  shows "ht_rep nx' ht' (bs[i := b])"
proof -
  have eh: "elem_hash ht' x = elem_hash ht x" for x
    using fields by (simp add: elem_hash_def)
  have "chain nx' (ht_table ht' ! j) (bs[i := b] ! j)" if "j < length bs" for j
    using that new other i by (cases "j = i") simp_all
  moreover have "elem_hash ht' x = j" if "j < length bs" "x \<in> set (bs[i := b] ! j)" for x j
    using that hash rep eh by (cases "j = i") (auto simp: ht_rep_def)
  moreover have "elem_hash ht' x < length bs" for x
    using ht_rep_hash [OF rep] eh by simp
  moreover have "length bs = unat (ht_table_size ht')" using rep fields by (simp add: ht_rep_def)
  ultimately show ?thesis unfolding ht_rep_def using fields(1) dist cnt by simp
qed

lemma ht_rep_insert:
  assumes rep: "ht_rep nx ht bs" and fresh: "e \<notin> set (concat bs)"
    and ins: "hash_table_insert nx ht e = Some (nx', ht', r)"
  shows "ht_rep nx' ht' (bs[elem_hash ht e := e # bs ! elem_hash ht e]) \<and> r = 0"
proof -
  let ?i = "elem_hash ht e"
  have i: "?i < length bs" by (rule ht_rep_hash [OF rep])
  have notin: "e \<notin> set (bs ! j)" if "j < length bs" for j
    using fresh that by auto
  have empty: "ht_table ht ! ?i = None \<longleftrightarrow> bs ! ?i = []"
    using chain_nonempty [OF ht_rep_chain [OF rep i]] .
  have nb: "length (filter (\<lambda>b. b \<noteq> []) (bs[?i := e # bs ! ?i])) =
      length (filter (\<lambda>b. b \<noteq> []) bs) + (if bs ! ?i = [] then 1 else 0)"
    using length_filter_update [OF i, of "\<lambda>b. b \<noteq> []" "e # bs ! ?i"] by (auto split: if_splits)
  have nx': "nx' = nx(e := ht_table ht ! ?i)" and r: "r = 0" and
    ht': "ht' = ht\<lparr>ht_num_buckets := ht_num_buckets ht + (if bs ! ?i = [] then 1 else 0),
                    ht_table := (ht_table ht)[?i := Some e], ht_num_elems := ht_num_elems ht + 1\<rparr>"
    using ins unfolding hash_table_insert_def Let_def ht_rep_bucket_at [OF rep]
    by (auto simp: empty elem_hash_def [symmetric])
  have len: "length (ht_table ht) = length bs" "length bs = unat (ht_table_size ht)"
    using rep by (simp_all add: ht_rep_def)
  have ch: "chain nx' (ht_table ht' ! j) (bs ! j)" if j: "j < length bs" "j \<noteq> ?i" for j
    using ht_rep_chain [OF rep j(1)] notin [OF j(1)] j by (simp add: nx' ht')
  have "ht_num_elems ht = of_nat (length (concat bs))"
    "ht_num_buckets ht = of_nat (length (filter (\<lambda>b. b \<noteq> []) bs))" "distinct (concat bs)"
    using rep by (simp_all add: ht_rep_def)
  note base = this concat_insert_bucket [OF i fresh this(3)]
  have cnt: "ht_num_elems ht' = of_nat (length (concat (bs[?i := e # bs ! ?i])))"
    "ht_num_buckets ht' = of_nat (length (filter (\<lambda>b. b \<noteq> []) (bs[?i := e # bs ! ?i])))"
    unfolding nb base(5) by (simp_all add: ht' base(1,2) del: length_concat)
  have "ht_rep nx' ht' (bs[?i := e # bs ! ?i])"
  proof (rule ht_rep_replace_bucket [OF rep i _ ch _ _ _ _ base(4) cnt])
    show "chain nx' (ht_table ht' ! ?i) (e # bs ! ?i)"
      using ht_rep_chain [OF rep i] notin [OF i] i len(1) by (simp add: nx' ht')
    show "elem_hash ht x = ?i" if "x \<in> set (e # bs ! ?i)" for x
      using that rep i by (auto simp: ht_rep_def)
  qed (use len in \<open>simp_all add: ht'\<close>)
  with r show ?thesis by blast
qed

lemma hash_table_insert_returns:
  assumes "ht_rep nx ht bs"
  shows "\<exists>nx' ht'. hash_table_insert nx ht e = Some (nx', ht', 0)"
  unfolding hash_table_insert_def Let_def ht_rep_bucket_at [OF assms] by simp

lemma hash_table_insert_safe_eq:
  assumes rep: "ht_rep nx ht bs"
  shows "hash_table_insert_safe nx ht e =
     (if e \<in> set (concat bs) then Some (nx, ht, 1) else hash_table_insert nx ht e)"
  unfolding ht_rep_member [OF rep]
  using chain_search_correct [OF ht_rep_chain [OF rep ht_rep_hash [OF rep]], of e e]
  by (simp add: hash_table_insert_safe_def hash_table_insert_def Let_def ht_rep_bucket_at [OF rep])

lemma hash_table_find_rep:
  assumes rep: "ht_rep nx ht bs"
  shows "hash_table_find nx ht e = Some (if e \<in> set (concat bs) then Some e else None)"
  unfolding ht_rep_member [OF rep]
  using chain_search_correct [OF ht_rep_chain [OF rep ht_rep_hash [OF rep]], of e e]
  by (simp add: hash_table_find_def Let_def ht_rep_bucket_at [OF rep])

lemma remove_loop_absent:
  "\<lbrakk>chain nx p xs; e \<notin> set xs\<rbrakk> \<Longrightarrow> hash_table_remove_loop nx ht i e p la = Some (nx, ht, 1)"
proof (induction xs arbitrary: p la)
  case Nil
  then show ?case by (simp add: hash_table_remove_loop.simps)
next
  case (Cons x xs)
  then show ?case by (subst hash_table_remove_loop.simps) auto
qed

lemma remove_loop_skip:
  "\<lbrakk>chain nx p (qs @ e # rs); e \<notin> set qs\<rbrakk> \<Longrightarrow>
   hash_table_remove_loop nx ht i e p la =
   hash_table_remove_loop nx ht i e (Some e) (last_ptr qs la)"
proof (induction qs arbitrary: p la)
  case Nil
  then show ?case by simp
next
  case (Cons x qs)
  then show ?case by (subst hash_table_remove_loop.simps) auto
qed

lemma concat_remove_bucket:
  assumes "i < length bs" "e \<in> set (bs ! i)" "distinct (concat bs)"
  shows "distinct (concat (bs[i := remove1 e (bs ! i)]))"
    and "Suc (length (concat (bs[i := remove1 e (bs ! i)]))) = length (concat bs)"
    and "set (concat (bs[i := remove1 e (bs ! i)])) = set (concat bs) - {e}"
proof -
  have "mset (concat (bs[i := remove1 e (bs ! i)])) + mset (bs ! i) =
      mset (concat bs) + (mset (bs ! i) - {#e#})"
    using mset_concat_update [OF assms(1), of "remove1 e (bs ! i)"] by simp
  moreover have "mset (bs ! i) = add_mset e (mset (bs ! i) - {#e#})" using assms(2) by simp
  ultimately have m: "mset (e # concat (bs[i := remove1 e (bs ! i)])) = mset (concat bs)"
    by (metis add_right_cancel mset.simps(2) union_mset_add_mset_left union_mset_add_mset_right)
  from mset_eq_imp_distinct_iff [OF m] assms(3)
  have d: "e \<notin> set (concat (bs[i := remove1 e (bs ! i)]))"
    "distinct (concat (bs[i := remove1 e (bs ! i)]))" by simp_all
  then show "distinct (concat (bs[i := remove1 e (bs ! i)]))" by simp
  show "Suc (length (concat (bs[i := remove1 e (bs ! i)]))) = length (concat bs)"
    using mset_eq_length [OF m] by simp
  show "set (concat (bs[i := remove1 e (bs ! i)])) = set (concat bs) - {e}"
    using mset_eq_setD [OF m] d(1) by auto
qed

lemma ht_rep_remove:
  assumes rep: "ht_rep nx ht bs" and mem: "e \<in> set (bs ! elem_hash ht e)"
  shows "\<exists>nx' ht'. hash_table_remove nx ht e = Some (nx', ht', 0) \<and>
     ht_rep nx' ht' (bs[elem_hash ht e := remove1 e (bs ! elem_hash ht e)])"
proof -
  let ?i = "elem_hash ht e" let ?bs = "bs[?i := remove1 e (bs ! ?i)]"
  have i: "?i < length bs" by (rule ht_rep_hash [OF rep])
  have c: "chain nx (ht_table ht ! ?i) (bs ! ?i)" by (rule ht_rep_chain [OF rep i])
  from mem obtain qs rs where split: "bs ! ?i = qs @ e # rs" "e \<notin> set qs"
    by (meson split_list_first)
  have rem: "remove1 e (bs ! ?i) = qs @ rs" using split by (simp add: remove1_append)
  have len: "length (ht_table ht) = length bs" "length bs = unat (ht_table_size ht)"
    and dist: "distinct (concat bs)"
    and cnt: "ht_num_elems ht = of_nat (length (concat bs))"
      "ht_num_buckets ht = of_nat (length (filter (\<lambda>b. b \<noteq> []) bs))"
    using rep by (simp_all add: ht_rep_def)
  have di: "distinct (bs ! ?i)" using dist i by (simp add: distinct_concat_iff)
  define nx' where "nx' = (if qs = [] then nx else nx(last qs := nx e))"
  define ht' where "ht' = (let ht1 = (if qs = [] then ht\<lparr>ht_table := (ht_table ht)[?i := nx e]\<rparr> else ht);
     ht2 = (if ht_table ht1 ! ?i = None then ht1\<lparr>ht_num_buckets := ht_num_buckets ht1 - 1\<rparr> else ht1)
     in ht2\<lparr>ht_num_elems := ht_num_elems ht2 - 1\<rparr>)"
  have res: "hash_table_remove nx ht e = Some (nx', ht', 0)"
    unfolding hash_table_remove_def Let_def ht_rep_bucket_at [OF rep]
    using remove_loop_skip [of nx "ht_table ht ! ?i" qs e rs ht ?i None] c split
    by (simp add: elem_hash_def [symmetric] hash_table_remove_loop.simps [of _ _ _ _ "Some e"]
        nx'_def ht'_def Let_def last_ptr_def)
  have newc: "chain nx' (ht_table ht' ! ?i) (qs @ rs)"
  proof (cases qs rule: rev_cases)
    case Nil
    with c split(1) i len show ?thesis by (auto simp: nx'_def ht'_def Let_def)
  next
    case (snoc ps la)
    with chain_unlink [of nx "ht_table ht ! ?i" ps la e rs] c split(1) di show ?thesis
      by (auto simp: nx'_def ht'_def Let_def)
  qed
  have other: "chain nx' (ht_table ht' ! j) (bs ! j)" if j: "j < length bs" "j \<noteq> ?i" for j
  proof -
    have "qs \<noteq> [] \<Longrightarrow> last qs \<notin> set (bs ! j)"
      using ht_rep_elem_bucket [OF rep j(1)] ht_rep_elem_bucket [OF rep i, of "last qs"] j split(1)
      by auto
    with ht_rep_chain [OF rep j(1)] j show ?thesis by (simp add: nx'_def ht'_def Let_def)
  qed
  have nb: "length (filter (\<lambda>b. b \<noteq> []) bs) =
      length (filter (\<lambda>b. b \<noteq> []) (bs[?i := qs @ rs])) + (if qs @ rs = [] then 1 else 0)"
    using length_filter_update [OF i, of "\<lambda>b. b \<noteq> []" "qs @ rs"] split by (auto split: if_splits)
  note cr = concat_remove_bucket [OF i mem dist, unfolded rem]
  have ne: "ht_num_elems ht' = of_nat (length (concat (bs[?i := qs @ rs])))"
    unfolding ht'_def Let_def using cnt(1) cr(2) [symmetric] by (simp del: length_concat)
  have nbk: "ht_num_buckets ht' = of_nat (length (filter (\<lambda>b. b \<noteq> []) (bs[?i := qs @ rs])))"
    using chain_nonempty [OF newc] cnt(2) nb by (auto simp: ht'_def Let_def split: if_splits)
  have "ht_rep nx' ht' (bs[?i := qs @ rs])"
  proof (rule ht_rep_replace_bucket [OF rep i newc other _ _ _ _ cr(1) ne nbk])
    show "elem_hash ht x = ?i" if "x \<in> set (qs @ rs)" for x
      using that split ht_rep_elem_bucket [OF rep i, of x] by auto
  qed (use len in \<open>simp_all add: ht'_def Let_def\<close>)
  with res rem show ?thesis by auto
qed

section \<open>The table as a set of elements\<close>

definition htab_ins ::
  "'e links \<times> ('e, 'k) hash_table \<Rightarrow> 'e \<Rightarrow> (('e links \<times> ('e, 'k) hash_table) \<times> bool) option" where
  "htab_ins s e =
     map_option (\<lambda>(nx, ht, r). ((nx, ht), r = 0)) (hash_table_insert_safe (fst s) (snd s) e)"

definition htab_del ::
  "'e links \<times> ('e, 'k) hash_table \<Rightarrow> 'e \<Rightarrow> (('e links \<times> ('e, 'k) hash_table) \<times> bool) option" where
  "htab_del s e =
     map_option (\<lambda>(nx, ht, r). ((nx, ht), r = 0)) (hash_table_remove (fst s) (snd s) e)"

definition htab_mem :: "'e links \<times> ('e, 'k) hash_table \<Rightarrow> 'e \<Rightarrow> bool option" where
  "htab_mem s e = map_option (\<lambda>r. r \<noteq> None) (hash_table_find (fst s) (snd s) e)"

definition htab_rep :: "'e links \<times> ('e, 'k) hash_table \<Rightarrow> 'e set \<Rightarrow> bool" where
  "htab_rep s A \<longleftrightarrow> (\<exists>bs. ht_rep (fst s) (snd s) bs \<and> set (concat bs) = A)"

lemma htab_rep_ins:
  assumes "htab_rep s A"
  shows "\<exists>s'. htab_ins s e = Some (s', e \<notin> A) \<and> htab_rep s' (insert e A)"
proof -
  from assms obtain bs where rep: "ht_rep (fst s) (snd s) bs" and A: "set (concat bs) = A"
    by (auto simp: htab_rep_def)
  show ?thesis
  proof (cases "e \<in> A")
    case True
    with rep A have "htab_ins s e = Some (s, False)"
      by (simp add: htab_ins_def hash_table_insert_safe_eq)
    with True assms show ?thesis by (simp add: insert_absorb)
  next
    case False
    obtain nx' ht' where ins: "hash_table_insert (fst s) (snd s) e = Some (nx', ht', 0)"
      using hash_table_insert_returns [OF rep] by blast
    then have "htab_ins s e = Some ((nx', ht'), True)"
      using False A rep by (simp add: htab_ins_def hash_table_insert_safe_eq)
    moreover have "distinct (concat bs)" using rep by (simp add: ht_rep_def)
    moreover have "e \<notin> set (concat bs)" using False A by simp
    ultimately have "htab_ins s e = Some ((nx', ht'), True)" "htab_rep (nx', ht') (insert e A)"
      using ht_rep_insert [OF rep _ ins] A
        concat_insert_bucket(3) [OF ht_rep_hash [OF rep, of e], of e]
      unfolding htab_rep_def by (blast, metis fst_conv snd_conv)
    with False show ?thesis by auto
  qed
qed

lemma htab_rep_del:
  assumes "htab_rep s A"
  shows "\<exists>s'. htab_del s e = Some (s', e \<in> A) \<and> htab_rep s' (A - {e})"
proof -
  from assms obtain bs where rep: "ht_rep (fst s) (snd s) bs" and A: "set (concat bs) = A"
    by (auto simp: htab_rep_def)
  let ?i = "elem_hash (snd s) e"
  have i: "?i < length bs" by (rule ht_rep_hash [OF rep])
  show ?thesis
  proof (cases "e \<in> A")
    case True
    then have mem: "e \<in> set (bs ! ?i)" using ht_rep_member [OF rep] A by blast
    from ht_rep_remove [OF rep mem] obtain nx' ht'
      where r: "hash_table_remove (fst s) (snd s) e = Some (nx', ht', 0)"
        and rep': "ht_rep nx' ht' (bs[?i := remove1 e (bs ! ?i)])" by blast
    have "distinct (concat bs)" using rep by (simp add: ht_rep_def)
    from concat_remove_bucket(3) [OF i mem this] rep' A have "htab_rep (nx', ht') (A - {e})"
      unfolding htab_rep_def by auto
    with r True show ?thesis by (auto simp: htab_del_def)
  next
    case False
    then have "e \<notin> set (bs ! ?i)" using ht_rep_member [OF rep] A by blast
    from remove_loop_absent [OF ht_rep_chain [OF rep i] this]
    have "hash_table_remove (fst s) (snd s) e = Some (fst s, snd s, 1)"
      by (simp add: hash_table_remove_def Let_def ht_rep_bucket_at [OF rep])
    with False assms show ?thesis by (auto simp: htab_del_def)
  qed
qed

lemma htab_rep_mem: "htab_rep s A \<Longrightarrow> htab_mem s e = Some (e \<in> A)"
  by (auto simp: htab_rep_def htab_mem_def hash_table_find_rep)

interpretation htab: elem_set htab_ins htab_del htab_mem htab_rep
  by unfold_locales (fact htab_rep_ins, fact htab_rep_del, fact htab_rep_mem)

lemma htab_rep_count:
  "htab_rep s A \<Longrightarrow> hash_table_count (snd s) = of_nat (card A)"
  by (auto simp: htab_rep_def ht_rep_def hash_table_count_def distinct_card [symmetric]
      simp del: set_concat length_concat)

section \<open>Iteration\<close>

lemma hash_next_bucket_spec:
  assumes "index \<le> tsize" "k = hash_next_bucket table tsize index"
  shows "index \<le> k \<and> k \<le> tsize \<and> (\<forall>j. index \<le> j \<and> j < k \<longrightarrow> table ! j = None) \<and>
     (k < tsize \<longrightarrow> table ! k \<noteq> None)"
  using assms
proof (induction table tsize index arbitrary: k rule: hash_next_bucket.induct)
  case (1 table tsize index)
  show ?case
  proof (cases "index < tsize \<and> table ! index = None")
    case True
    with "1" show ?thesis
      by (simp add: hash_next_bucket.simps [of table tsize index] Suc_le_eq)
         (metis Suc_leI le_eq_less_or_eq less_imp_le_nat)
  next
    case False
    with "1.prems" show ?thesis by (auto simp: hash_next_bucket.simps [of table tsize index])
  qed
qed

lemma concat_drop_empty:
  "\<lbrakk>i \<le> k; k \<le> length bs; \<And>j. i \<le> j \<Longrightarrow> j < k \<Longrightarrow> bs ! j = []\<rbrakk> \<Longrightarrow>
   concat (drop i bs) = concat (drop k bs)"
proof (induction "k - i" arbitrary: i)
  case (Suc n)
  then show ?case by (simp add: concat_drop_Suc [of i bs])
qed simp

text \<open>
  What the iterator has still to visit. Iteration relies on the chains alone, so its lemmas
  assume only them.
\<close>

definition ht_chains :: "'e links \<Rightarrow> ('e, 'k) hash_table \<Rightarrow> 'e list list \<Rightarrow> bool" where
  "ht_chains nx ht bs \<longleftrightarrow>
     length bs = unat (ht_table_size ht) \<and>
     (\<forall>i < length bs. chain nx (ht_table ht ! i) (bs ! i))"

definition it_rest :: "'e list list \<Rightarrow> 'e hash_table_iterator \<Rightarrow> 'e list \<Rightarrow> bool" where
  "it_rest bs i rest \<longleftrightarrow>
     (case it_node i of
        None \<Rightarrow> unat (it_bucket i + 1) \<le> length bs \<and> rest = concat (drop (unat (it_bucket i + 1)) bs)
      | Some n \<Rightarrow> \<exists>ys xs. unat (it_bucket i) < length bs \<and> bs ! unat (it_bucket i) = ys @ n # xs \<and>
                    rest = xs @ concat (drop (Suc (unat (it_bucket i))) bs))"

lemma ht_rep_chains: "ht_rep nx ht bs \<Longrightarrow> ht_chains nx ht bs"
  by (simp add: ht_rep_def ht_chains_def)

lemma it_rest_start: "it_rest bs (hash_table_rewind i) (concat bs)"
  by (simp add: it_rest_def hash_table_rewind_def)

lemma chain_middle: "chain nx p (ys @ n # xs) \<Longrightarrow> chain nx (nx n) xs"
  by (induction ys arbitrary: p) auto

lemma next_loop_from_bucket:
  assumes rep: "ht_chains nx ht bs" and i: "it_node i = None" "it_rest bs i rest"
  shows "\<exists>i'. hash_table_next_loop nx ht i = Some i' \<and> it_node i' = first_ptr rest None \<and>
     (\<forall>e es. rest = e # es \<longrightarrow> it_rest bs i' es)"
proof -
  let ?k = "hash_next_bucket (ht_table ht) (length bs) (unat (it_bucket i + 1))"
  have len: "unat (ht_table_size ht) = length bs" using rep by (simp add: ht_chains_def)
  have chains: "chain nx (ht_table ht ! j) (bs ! j)" if "j < length bs" for j
    using rep that by (simp add: ht_chains_def)
  from i have start: "unat (it_bucket i + 1) \<le> length bs"
    and rest: "rest = concat (drop (unat (it_bucket i + 1)) bs)" by (simp_all add: it_rest_def)
  note k = hash_next_bucket_spec [OF start refl, of "ht_table ht"]
  have empty: "bs ! j = []" if "unat (it_bucket i + 1) \<le> j" "j < ?k" for j
    using k that chains [of j] by (simp add: chain_None_iff)
  have restk: "rest = concat (drop ?k bs)"
    unfolding rest by (rule concat_drop_empty) (use k empty in auto)
  have kw: "unat (of_nat ?k :: uint) = ?k"
    using k len by (metis le_unat_uoi)
  show ?thesis
  proof (cases "?k < length bs")
    case True
    then obtain e es where be: "bs ! ?k = e # es" "ht_table ht ! ?k = Some e"
      using k chains [OF True] by (cases "bs ! ?k") auto
    with True restk have rest': "rest = e # es @ concat (drop (Suc ?k) bs)"
      by (simp add: concat_drop_Suc)
    show ?thesis unfolding rest' using True be kw i(1) len
      by (subst hash_table_next_loop.simps) (auto simp: Let_def it_rest_def)
  next
    case False
    with k have "?k = length bs" by simp
    with restk kw i len show ?thesis
      by (subst hash_table_next_loop.simps) (auto simp: Let_def word_less_nat_alt)
  qed
qed

lemma hash_table_next_rep:
  assumes rep: "ht_chains nx ht bs" and i: "it_rest bs i rest"
  shows "\<exists>i'. hash_table_next nx ht i = Some (i', first_ptr rest None) \<and>
     it_node i' = first_ptr rest None \<and> (\<forall>e es. rest = e # es \<longrightarrow> it_rest bs i' es)"
proof (cases "it_node i")
  case None
  from next_loop_from_bucket [OF rep None i] show ?thesis by (auto simp: hash_table_next_def)
next
  case (Some n)
  with i obtain ys xs where b: "unat (it_bucket i) < length bs"
    and bn: "bs ! unat (it_bucket i) = ys @ n # xs"
    and r: "rest = xs @ concat (drop (Suc (unat (it_bucket i))) bs)" by (auto simp: it_rest_def)
  have c: "chain nx (nx n) xs"
    using rep b bn chain_middle [of nx _ ys n xs] unfolding ht_chains_def by metis
  have len: "unat (ht_table_size ht) = length bs" using rep by (simp add: ht_chains_def)
  show ?thesis
  proof (cases xs)
    case (Cons e es)
    with bn have "bs ! unat (it_bucket i) = (ys @ [n]) @ e # es" by simp
    with Cons Some b c r show ?thesis
      by (simp add: hash_table_next_def hash_table_next_loop.simps [of _ _ i] it_rest_def Let_def)
  next
    case Nil
    let ?i1 = "i\<lparr>it_node := None\<rparr>"
    have suc: "unat (it_bucket i + 1) = Suc (unat (it_bucket i))"
      using b len unat_Suc_lt [of "it_bucket i" "ht_table_size ht"] by simp
    then have "it_rest bs ?i1 rest" using b r Nil by (simp add: it_rest_def)
    from next_loop_from_bucket [OF rep _ this] obtain i'
      where i': "hash_table_next_loop nx ht ?i1 = Some i'" "it_node i' = first_ptr rest None"
        "\<forall>e es. rest = e # es \<longrightarrow> it_rest bs i' es" by auto
    have "hash_table_next_loop nx ht i = hash_table_next_loop nx ht ?i1"
      using Some c Nil b len
      by (subst hash_table_next_loop.simps) (simp add: Let_def word_less_nat_alt)
    with i' show ?thesis by (auto simp: hash_table_next_def)
  qed
qed

lemma foreach_from_rep:
  "\<lbrakk>ht_chains nx ht bs; it_rest bs i rest\<rbrakk> \<Longrightarrow>
   hash_table_foreach_from nx ht i calls = Some (calls @ rest)"
proof (induction rest arbitrary: i calls)
  case Nil
  from hash_table_next_rep [OF Nil] show ?case
    by (subst hash_table_foreach_from.simps) auto
next
  case (Cons e rest)
  from hash_table_next_rep [OF Cons.prems] obtain i'
    where "hash_table_next nx ht i = Some (i', Some e)" "it_rest bs i' rest" by auto
  with Cons show ?case by (subst hash_table_foreach_from.simps) auto
qed

section \<open>Resizing\<close>

lemma ht_rep_empty_table:
  assumes "\<And>e. unat (ht_hash_func ht (Some e) None n) < unat n"
  shows "ht_rep nx (ht\<lparr>ht_num_elems := 0, ht_num_buckets := 0, ht_table_size := n,
                      ht_table := replicate (unat n) None\<rparr>) (replicate (unat n) [])"
  using assms by (simp add: ht_rep_def elem_hash_def concat_replicate_trivial)

text \<open>
  Copying a table whose elements share one bucket: the first insertion clears the link the
  iterator needs, so the loop ends with only the head of the chain in the new table.
\<close>

lemma copy_loop_one_chain:
  assumes rep: "ht_rep nx ht bs" and b: "b < length bs" "bs ! b = a # xs"
    and only: "\<And>i. i < length bs \<Longrightarrow> i \<noteq> b \<Longrightarrow> bs ! i = []"
    and tmp: "ht_rep nx tmp (replicate n [])"
  shows "\<exists>nx' tmp'. hash_table_copy_loop nx ht tmp (hash_table_rewind i) = Some (nx', tmp') \<and>
     htab_rep (nx', tmp') {a}"
proof -
  let ?h = "elem_hash tmp a" and ?bs = "bs[b := [a]]"
  have cb: "concat bs = a # xs"
    using b only concat_drop_empty [of 0 b bs] concat_drop_Suc [of b bs]
      concat_drop_empty [of "Suc b" "length bs" bs] by simp
  from hash_table_next_rep [OF ht_rep_chains [OF rep] it_rest_start [of bs i]] cb
  obtain i1 where i1: "hash_table_next nx ht (hash_table_rewind i) = Some (i1, Some a)"
    "it_node i1 = Some a" "it_rest bs i1 xs" by auto
  then have i1b: "unat (it_bucket i1) = b"
    using only by (fastforce simp: it_rest_def split: option.splits)
  obtain nx' tmp' where ins: "hash_table_insert nx tmp a = Some (nx', tmp', 0)"
    using hash_table_insert_returns [OF tmp] by blast
  have h: "?h < n" using ht_rep_hash [OF tmp, of a] by simp
  then have nx': "nx' = nx(a := None)"
    using ins chain_nonempty [OF ht_rep_chain [OF tmp, of ?h]]
    by (auto simp: hash_table_insert_def Let_def ht_rep_bucket_at [OF tmp] split: if_splits)
  have "ht_rep nx' tmp' ((replicate n [])[?h := [a]])"
    using ht_rep_insert [OF tmp _ ins] h by simp
  moreover have "set (concat ((replicate n [])[?h := [a]])) = {a}"
    using h concat_insert_bucket(3) [of ?h "replicate n []" a] by simp
  ultimately have res: "htab_rep (nx', tmp') {a}" by (auto simp: htab_rep_def)
  have "ht_chains nx' ht ?bs"
    using rep b only ht_rep_chain [OF rep b(1)]
    by (auto simp: ht_chains_def ht_rep_def nx' nth_list_update chain_None_iff)
  moreover have "it_rest ?bs i1 []"
    using i1(2) i1b b only concat_drop_empty [of "Suc b" "length bs" bs]
    by (auto simp: it_rest_def Cons_eq_append_conv)
  ultimately obtain i2 where "hash_table_next nx' ht i1 = Some (i2, None)"
    using hash_table_next_rep [of nx' ht ?bs i1 "[]"] by auto
  then have "hash_table_copy_loop nx ht tmp (hash_table_rewind i) = Some (nx', tmp')"
    using i1(1) ins by (simp add: hash_table_copy_loop.simps)
  with res show ?thesis by blast
qed

text \<open>A small table over natural numbers for concrete runs: two buckets, 3 in the second.\<close>

definition sample_table :: "(nat, nat) hash_table" where
  "sample_table = \<lparr>ht_table = [None, None], ht_node_offset = 0, ht_table_size = 2,
     ht_num_elems = 0, ht_num_buckets = 0, ht_flags = 0,
     ht_compare_func = Some (\<lambda>e k. int e - int k),
     ht_hash_func = (\<lambda>e k n. if e = Some 3 \<or> k = Some 3 then 1 else 0)\<rparr>"

lemma sample_table_rep: "ht_rep (\<lambda>_. None) sample_table [ [], [] ]"
  by (simp add: ht_rep_def sample_table_def elem_hash_def All_less_Suc)

section \<open>Properties\<close>



text \<open>
  C28. Lookup by key: if the hasher sends a key to a bucket in range, and to the bucket of
  every element that compares equal to it, then \<^verbatim>\<open>hash_table_lookup\<close> returns, its result is an
  element of the table that compares equal to the key, and it is NULL only if there is none.
\<close>

theorem hash_table_lookup_correct:
  assumes rep: "ht_rep nx ht bs" and cmp: "ht_compare_func ht = Some cmp"
    and range: "ht_hash_func ht None (Some key) (ht_table_size ht) < ht_table_size ht"
    and agree: "\<And>e. cmp e key = 0 \<Longrightarrow> ht_hash_func ht (Some e) None (ht_table_size ht) =
                  ht_hash_func ht None (Some key) (ht_table_size ht)"
  shows "\<exists>r. hash_table_lookup nx ht key = Some r \<and>
     (\<forall>e. r = Some e \<longrightarrow> e \<in> set (concat bs) \<and> cmp e key = 0) \<and>
     (r = None \<longrightarrow> (\<forall>e \<in> set (concat bs). cmp e key \<noteq> 0))"
proof -
  let ?hash = "ht_hash_func ht None (Some key) (ht_table_size ht)" let ?i = "unat ?hash"
  have len: "length bs = unat (ht_table_size ht)" "length (ht_table ht) = length bs"
    using rep by (simp_all add: ht_rep_def)
  have i: "?i < length bs" using range len by (simp add: word_less_nat_alt)
  have look: "hash_table_lookup nx ht key = Some (List.find (\<lambda>n. cmp n key = 0) (bs ! ?i))"
    using chain_lookup_correct [OF ht_rep_chain [OF rep i]] i len
    by (simp add: hash_table_lookup_def cmp Let_def bucket_at_def)
  have inb: "e \<in> set (bs ! ?i)" if "e \<in> set (concat bs)" "cmp e key = 0" for e
    using that ht_rep_member [OF rep, of e] agree [of e] by (simp add: elem_hash_def)
  have "set (bs ! ?i) \<subseteq> set (concat bs)" using nth_mem [OF i] by auto
  then have "e \<in> set (concat bs) \<and> cmp e key = 0"
    if "List.find (\<lambda>n. cmp n key = 0) (bs ! ?i) = Some e" for e
    using that find_Some_imp [OF that] by blast
  moreover have "cmp e key \<noteq> 0"
    if "List.find (\<lambda>n. cmp n key = 0) (bs ! ?i) = None" "e \<in> set (concat bs)" for e
    using that inb unfolding find_None_iff by blast
  ultimately show ?thesis
    by (intro exI [of _ "List.find (\<lambda>n. cmp n key = 0) (bs ! ?i)"] conjI look) blast+
qed

theorem hash_table_lookup_correct_witness:
  "\<exists>r. hash_table_lookup (\<lambda>_. None) sample_table 7 = Some r \<and>
     (\<forall>e. r = Some e \<longrightarrow> e \<in> set (concat [ [], [] ]) \<and> int e - int (7::nat) = 0) \<and>
     (r = None \<longrightarrow> (\<forall>e \<in> set (concat [ [], [] ]). int e - int (7::nat) \<noteq> 0))"
  by (rule hash_table_lookup_correct [OF sample_table_rep])
     (auto simp: sample_table_def)

text \<open>
  Iteration visits every element exactly once and terminates: \<^verbatim>\<open>hash_table_foreach\<close> makes
  its calls bucket by bucket, in chain order, without repetition.
\<close>

theorem hash_table_foreach_visits_once:
  assumes "ht_rep nx ht bs"
  shows "hash_table_foreach nx ht = Some (concat bs) \<and> distinct (concat bs) \<and>
         hash_table_count ht = of_nat (length (concat bs))"
  using foreach_from_rep [OF ht_rep_chains [OF assms] it_rest_start, where calls = "[]"] assms
  by (simp add: hash_table_foreach_def ht_rep_def hash_table_count_def)

theorem hash_table_foreach_visits_once_witness:
  "hash_table_foreach (\<lambda>_. None) sample_table = Some (concat [ [], [] ]) \<and>
   distinct (concat [ [], [] :: nat list]) \<and>
   hash_table_count sample_table = of_nat (length (concat [ [], [] :: nat list]))"
  by (rule hash_table_foreach_visits_once [OF sample_table_rep])

text \<open>
  C29. \<^verbatim>\<open>hash_table_resize\<close> loses elements: it reports success on every table whose elements
  collide in one bucket, and the resized table holds the head of the chain and nothing else,
  because each insertion overwrites the link the iterator follows next.
\<close>

theorem hash_table_resize_drops_chain:
  assumes rep: "ht_rep nx ht bs" and b: "b < length bs" "bs ! b = a # xs"
    and only: "\<And>i. i < length bs \<Longrightarrow> i \<noteq> b \<Longrightarrow> bs ! i = []"
    and size: "new_size \<noteq> 0" "ht_table_size ht \<noteq> new_size"
      "\<not> TEST_FLAGS (ht_flags ht) HASH_TABLE_FLAG_STATIC"
    and range: "\<And>e. unat (ht_hash_func ht (Some e) None new_size) < unat new_size"
  shows "\<exists>nx' ht'. hash_table_resize True nx ht new_size = Some (nx', ht', 0) \<and>
           htab_rep (nx', ht') {a} \<and> htab_rep (nx, ht) (set (a # xs))"
proof -
  have "concat bs = a # xs"
    using b only concat_drop_empty [of 0 b bs] concat_drop_Suc [of b bs]
      concat_drop_empty [of "Suc b" "length bs" bs] by simp
  then have "htab_rep (nx, ht) (set (a # xs))" using rep
    unfolding htab_rep_def by (metis fst_conv snd_conv)
  with copy_loop_one_chain [OF rep b only ht_rep_empty_table [of ht new_size nx, OF range],
      of "\<lparr>it_bucket = 0, it_node = None\<rparr>"] size
  show ?thesis by (auto simp: hash_table_resize_def Let_def)
qed

theorem hash_table_resize_drops_chain_witness:
  "\<exists>nx' ht'. hash_table_resize True (\<lambda>e. if e = 1 then Some 2 else None)
       (sample_table\<lparr>ht_table := [Some 1, None], ht_num_elems := 2, ht_num_buckets := 1\<rparr>) 4
       = Some (nx', ht', 0) \<and> htab_rep (nx', ht') {1::nat} \<and>
     htab_rep (\<lambda>e. if e = 1 then Some 2 else None,
       sample_table\<lparr>ht_table := [Some 1, None], ht_num_elems := 2, ht_num_buckets := 1\<rparr>)
       (set [1, 2])"
proof (rule hash_table_resize_drops_chain [where bs = "[ [1, 2], [] ]" and b = 0])
  show "ht_rep (\<lambda>e. if e = 1 then Some 2 else None)
     (sample_table\<lparr>ht_table := [Some 1, None], ht_num_elems := 2, ht_num_buckets := 1\<rparr>)
     [ [1, 2], [] ]"
    by (simp add: ht_rep_def sample_table_def elem_hash_def All_less_Suc)
qed (auto simp: sample_table_def TEST_FLAGS_def HASH_TABLE_FLAG_STATIC_def less_Suc_eq)

end
