(* ===== verification/Hash_Funcs.thy ===== *)
theory Hash_Funcs
  imports Prelude
begin

text \<open>
  The string and integer hash functions at the end of \<^verbatim>\<open>kernel/util/hash_table.c\<close>. Arithmetic is
  on 32-bit words. A string is the list of its bytes; the loops stop at the first NUL, and a
  \<^verbatim>\<open>char\<close> is signed on this target, so it is sign-extended when it is added to the hash.
\<close>

section \<open>Strings\<close>

definition char_value :: "uint8 \<Rightarrow> uint32" where
  "char_value c = scast c"

definition hash_func_str_rs :: "uint8 list \<Rightarrow> uint32" where
  "hash_func_str_rs str =
     (let b = 378551
      in snd (foldl (\<lambda>(a, hash) c. (a * b, hash * a + char_value c)) (63689, 0) (cstr str)))"

definition hash_func_str_js :: "uint8 list \<Rightarrow> uint32" where
  "hash_func_str_js str =
     foldl (\<lambda>hash c. hash XOR (push_bit 5 hash + char_value c + drop_bit 2 hash))
       1315423911 (cstr str)"

definition pjw_step :: "uint32 \<Rightarrow> uint8 \<Rightarrow> uint32" where
  "pjw_step hash0 c =
     (let HighBits = push_bit (32 - 4) 0xFFFFFFFF;
          hash = push_bit 4 hash0 + char_value c;
          test = hash AND HighBits
      in if test \<noteq> 0 then (hash XOR drop_bit 24 test) AND NOT HighBits else hash)"

definition hash_func_str_pjw :: "uint8 list \<Rightarrow> uint32" where
  "hash_func_str_pjw str = foldl pjw_step 0 (cstr str)"

definition elf_step :: "uint32 \<Rightarrow> uint8 \<Rightarrow> uint32" where
  "elf_step hash0 c =
     (let hash = push_bit 4 hash0 + char_value c;
          x = hash AND 0xF0000000;
          hash1 = (if x \<noteq> 0 then hash XOR drop_bit 24 x else hash)
      in hash1 AND NOT x)"

definition hash_func_str_elf :: "uint8 list \<Rightarrow> uint32" where
  "hash_func_str_elf str = foldl elf_step 0 (cstr str)"

definition hash_func_str_bkdr :: "uint8 list \<Rightarrow> uint32" where
  "hash_func_str_bkdr str = foldl (\<lambda>hash c. hash * 131 + char_value c) 0 (cstr str)"

definition hash_func_str_sdbm :: "uint8 list \<Rightarrow> uint32" where
  "hash_func_str_sdbm str =
     foldl (\<lambda>hash c. char_value c + push_bit 6 hash + push_bit 16 hash - hash) 0 (cstr str)"

definition hash_func_str_djb :: "uint8 list \<Rightarrow> uint32" where
  "hash_func_str_djb str = foldl (\<lambda>hash c. (push_bit 5 hash + hash) + char_value c) 5381 (cstr str)"

definition hash_func_str_dek :: "uint8 list \<Rightarrow> uint32" where
  "hash_func_str_dek str =
     foldl (\<lambda>hash c. (push_bit 5 hash XOR drop_bit 27 hash) XOR char_value c)
       (of_nat (length (cstr str))) (cstr str)"

definition hash_func_str_bp :: "uint8 list \<Rightarrow> uint32" where
  "hash_func_str_bp str = foldl (\<lambda>hash c. push_bit 7 hash XOR char_value c) 0 (cstr str)"

definition hash_func_str_fnv :: "uint8 list \<Rightarrow> uint32" where
  "hash_func_str_fnv str = foldl (\<lambda>hash c. (hash * 0x811C9DC5) XOR char_value c) 0 (cstr str)"

definition hash_func_str_ap :: "uint8 list \<Rightarrow> uint32" where
  "hash_func_str_ap str =
     snd (foldl (\<lambda>(i :: uint32, hash) c.
            (i + 1,
             hash XOR (if i AND 1 = 0
                       then push_bit 7 hash XOR (char_value c * drop_bit 3 hash)
                       else NOT ((push_bit 11 hash + char_value c) XOR drop_bit 5 hash))))
          (0, 0xAAAAAAAA) (cstr str))"

definition hash_func_str_newos :: "uint8 list \<Rightarrow> uint32" where
  "hash_func_str_newos str =
     foldl (\<lambda>hash c.
        (let hash = hash XOR drop_bit 28 hash;
             hash = push_bit 4 hash
         in hash XOR char_value c)) 0 (cstr str)"

section \<open>Integers\<close>

definition hash_func_int_32shift :: "uint32 \<Rightarrow> uint32" where
  "hash_func_int_32shift key =
     (let key = NOT key + push_bit 15 key;
          key = key XOR drop_bit 12 key;
          key = key + push_bit 2 key;
          key = key XOR drop_bit 4 key;
          key = key * 2057;
          key = key XOR drop_bit 16 key
      in key)"

definition hash_func_int_32shiftmult :: "uint32 \<Rightarrow> uint32" where
  "hash_func_int_32shiftmult key =
     (let c2 = 0x27d4eb2d;
          key = (key XOR 61) XOR drop_bit 16 key;
          key = key + push_bit 3 key;
          key = key XOR drop_bit 4 key;
          key = key * c2;
          key = key XOR drop_bit 15 key
      in key)"

definition hash_func_int_rj :: "uint32 \<Rightarrow> uint32" where
  "hash_func_int_rj key =
     (let key = (key + 0x7ed55d16) + push_bit 12 key;
          key = (key XOR 0xc761c23c) XOR drop_bit 19 key;
          key = (key + 0x165667b1) + push_bit 5 key;
          key = (key + 0xd3a2646c) XOR push_bit 9 key;
          key = (key + 0xfd7046c5) + push_bit 3 key;
          key = (key XOR 0xb55a4f09) XOR drop_bit 16 key
      in key)"

definition hash_func_int_java :: "uint32 \<Rightarrow> uint32" where
  "hash_func_int_java key =
     (let key = key XOR (drop_bit 20 key XOR drop_bit 12 key)
      in key XOR drop_bit 7 key XOR drop_bit 4 key)"

section \<open>Invertible steps\<close>

text \<open>
  A word is determined by its exclusive or with a word that depends on its higher bits only.
\<close>

lemma xor_high_eq:
  fixes x y :: "'a::len word"
  assumes dep: "\<And>k. (\<forall>j > k. bit x j = bit y j) \<Longrightarrow> bit u k = bit v k"
    and eq: "x XOR u = y XOR v"
  shows "x = y"
proof -
  have "bit x k = bit y k" if "LENGTH('a) \<le> k + n" for n k
    using that
  proof (induction n arbitrary: k)
    case 0
    then show ?case using bit_imp_le_length leD by fastforce
  next
    case (Suc n)
    then have "\<forall>j > k. bit x j = bit y j" by auto
    from dep [OF this] eq show ?case by (metis bit_xor_iff)
  qed
  from this [of _ "LENGTH('a)"] show ?thesis by (auto intro: bit_word_eqI)
qed

lemma xor_shift_eq_iff:
  fixes x y :: "'a::len word"
  assumes "0 < n"
  shows "x XOR drop_bit n x = y XOR drop_bit n y \<longleftrightarrow> x = y"
proof
  assume "x XOR drop_bit n x = y XOR drop_bit n y"
  then show "x = y" by (rule xor_high_eq [rotated]) (use assms in \<open>simp add: bit_drop_bit_eq\<close>)
qed simp

lemma xor_shift2_eq_iff:
  fixes x y :: "'a::len word"
  assumes "0 < m" "0 < n"
  shows "x XOR (drop_bit m x XOR drop_bit n x) = y XOR (drop_bit m y XOR drop_bit n y) \<longleftrightarrow> x = y"
proof
  assume "x XOR (drop_bit m x XOR drop_bit n x) = y XOR (drop_bit m y XOR drop_bit n y)"
  then show "x = y"
    by (rule xor_high_eq [rotated]) (use assms in \<open>simp add: bit_drop_bit_eq bit_xor_iff\<close>)
qed simp

text \<open>Adding a constant and exchanging bits upwards: determined from the low bits.\<close>

lemma take_bit_add_cong: "take_bit k x = take_bit k y \<Longrightarrow> take_bit k (x + c) = take_bit k (y + c)"
  for x y c :: "'a::len word"
proof (transfer, simp add: take_bit_take_bit)
  fix k :: nat and x y c :: int
  assume "take_bit (min LENGTH('a) k) x = take_bit (min LENGTH('a) k) y"
  then show "take_bit (min LENGTH('a) k) (x + c) = take_bit (min LENGTH('a) k) (y + c)"
    by (metis take_bit_add)
qed

lemma take_bit_Suc_cong:
  fixes x y :: "'a::len word"
  assumes "take_bit k x = take_bit k y" "bit x k = bit y k"
  shows "take_bit (Suc k) x = take_bit (Suc k) y"
proof (rule bit_word_eqI)
  fix j
  from assms(1) have "bit x j = bit y j" if "j < k" using that by (metis bit_take_bit_iff)
  with assms(2) show "bit (take_bit (Suc k) x) j = bit (take_bit (Suc k) y) j"
    by (auto simp: bit_take_bit_iff less_Suc_eq)
qed

lemma add_xor_push_eq_iff:
  fixes x y c :: "'a::len word"
  assumes n: "0 < n"
  shows "(x + c) XOR push_bit n x = (y + c) XOR push_bit n y \<longleftrightarrow> x = y"
proof
  assume eq: "(x + c) XOR push_bit n x = (y + c) XOR push_bit n y"
  have "take_bit k x = take_bit k y" for k
  proof (induction k)
    case 0
    show ?case by simp
  next
    case (Suc k)
    have low: "bit x j = bit y j" if "j < k" for j
      using Suc that by (metis bit_take_bit_iff)
    have "bit (push_bit n x) k = bit (push_bit n y) k"
      using low n by (auto simp: bit_push_bit_iff)
    with eq have "bit (x + c) k = bit (y + c) k" by (metis bit_xor_iff)
    moreover have "take_bit k (x + c) = take_bit k (y + c)"
      by (rule take_bit_add_cong) (rule Suc)
    ultimately have "take_bit (Suc k) (x + c) = take_bit (Suc k) (y + c)"
      by (intro take_bit_Suc_cong)
    then have "take_bit (Suc k) (x + c + - c) = take_bit (Suc k) (y + c + - c)"
      by (rule take_bit_add_cong)
    moreover have "z + c + - c = z" for z :: "'a word" by (simp only: add.assoc right_minus add_0_right)
    ultimately show ?case by metis
  qed
  from this [of "LENGTH('a)"] show "x = y" by simp
qed simp

text \<open>Multiplication by a constant that has an inverse.\<close>

lemma mult_eq_iff_of_inverse:
  fixes x y c d :: "'a::len word"
  assumes "c * d = 1"
  shows "x * c = y * c \<longleftrightarrow> x = y"
  using assms by (metis mult.assoc mult.right_neutral)

lemma push_add_eq: "k + push_bit n k = k * (2 ^ n + 1)" for k :: "'a::len word"
  by (simp add: push_bit_eq_mult algebra_simps)

lemma xor_const_eq_iff: "(x XOR c) XOR u = (y XOR c) XOR v \<longleftrightarrow> x XOR u = y XOR v"
  for x y c u v :: "'a::len word"
  by (metis (no_types, opaque_lifting) xor.commute xor.left_commute xor_self_eq xor.right_neutral)

section \<open>The integer hashes lose nothing\<close>

lemma push15_step: "NOT k + push_bit 15 k = k * 32767 - 1" for k :: uint32
  by (simp add: push_bit_eq_mult not_eq_complement)

lemma hash_func_int_32shift_inj: "inj hash_func_int_32shift"
proof (rule injI)
  fix x y :: uint32
  assume "hash_func_int_32shift x = hash_func_int_32shift y"
  then show "x = y"
    by (simp add: hash_func_int_32shift_def Let_def xor_shift_eq_iff push_add_eq push15_step
        mult_eq_iff_of_inverse [of 2057 3369993785] mult_eq_iff_of_inverse [of 5 3435973837]
        mult_eq_iff_of_inverse [of 32767 3221192703])
qed

lemma hash_func_int_32shiftmult_inj: "inj hash_func_int_32shiftmult"
proof (rule injI)
  fix x y :: uint32
  assume "hash_func_int_32shiftmult x = hash_func_int_32shiftmult y"
  then show "x = y"
    by (simp add: hash_func_int_32shiftmult_def Let_def xor_shift_eq_iff xor_const_eq_iff push_add_eq
        mult_eq_iff_of_inverse [of 668265261 4218002597] mult_eq_iff_of_inverse [of 9 954437177])
qed

lemma inj_mult_add: "c * d = 1 \<Longrightarrow> inj (\<lambda>k :: uint32. k + a + k * b)" if "b + 1 = c" for a b c d :: uint32
proof (rule injI)
  fix x y :: uint32
  assume inv: "c * d = 1" and "x + a + x * b = y + a + y * b"
  then have "x * (b + 1) = y * (b + 1)" by (simp add: algebra_simps)
  then show "x = y" using that inv mult_eq_iff_of_inverse by metis
qed

lemma inj_add_push: "(2 ^ n + 1) * d = 1 \<Longrightarrow> inj (\<lambda>k :: uint32. k + a + push_bit n k)" for a d :: uint32
  using inj_mult_add [OF refl, of "2 ^ n" d a] by (simp add: push_bit_eq_mult)

lemma inj_xor_drop: "0 < n \<Longrightarrow> inj (\<lambda>k :: uint32. (k XOR c) XOR drop_bit n k)" for c :: uint32
  by (rule injI) (simp add: xor_const_eq_iff xor_shift_eq_iff)

lemma inj_xor_drop2: "0 < m \<Longrightarrow> 0 < n \<Longrightarrow> inj (\<lambda>k :: uint32. k XOR (drop_bit m k XOR drop_bit n k))"
  by (rule injI) (simp add: xor_shift2_eq_iff)

lemma inj_add_xor_push: "0 < n \<Longrightarrow> inj (\<lambda>k :: uint32. (k + c) XOR push_bit n k)" for c :: uint32
  by (rule injI) (simp add: add_xor_push_eq_iff)

lemma hash_func_int_rj_inj: "inj hash_func_int_rj"
proof -
  have "hash_func_int_rj =
      (\<lambda>k. (k XOR 0xb55a4f09) XOR drop_bit 16 k) \<circ> ((\<lambda>k. k + 0xfd7046c5 + push_bit 3 k) \<circ>
      ((\<lambda>k. (k + 0xd3a2646c) XOR push_bit 9 k) \<circ> ((\<lambda>k. k + 0x165667b1 + push_bit 5 k) \<circ>
      ((\<lambda>k. (k XOR 0xc761c23c) XOR drop_bit 19 k) \<circ> (\<lambda>k. k + 0x7ed55d16 + push_bit 12 k)))))"
    unfolding hash_func_int_rj_def Let_def comp_def ..
  moreover have "inj \<dots>"
    by (intro inj_compose inj_xor_drop inj_add_xor_push inj_add_push [of _ 954437177]
        inj_add_push [of _ 1041204193] inj_add_push [of _ 16773121]) simp_all
  ultimately show ?thesis by simp
qed

lemma hash_func_int_java_inj: "inj hash_func_int_java"
proof -
  have "hash_func_int_java = (\<lambda>k. k XOR (drop_bit 7 k XOR drop_bit 4 k)) \<circ>
      (\<lambda>k. k XOR (drop_bit 20 k XOR drop_bit 12 k))"
    by (simp add: hash_func_int_java_def Let_def comp_def fun_eq_iff xor.assoc)
  moreover have "inj \<dots>" by (intro inj_compose inj_xor_drop2) simp_all
  ultimately show ?thesis by simp
qed

section \<open>Two presentations of the PJW hash\<close>

text \<open>The top four bits, and a step that folds them into bits 4 to 7 and clears them.\<close>

abbreviation (input) high4 :: uint32 where "high4 \<equiv> push_bit 28 (mask 4)"

lemma high4_mask: "push_bit (32 - 4) 0xFFFFFFFF = high4" "0xF0000000 = high4"
  by (simp_all add: mask_eq_exp_minus_1 push_bit_eq_mult)

lemma fold_high_eq:
  "(g XOR drop_bit 24 (g AND high4)) AND NOT (g AND high4) = (g XOR drop_bit 24 (g AND high4)) AND NOT high4"
  by (rule bit_word_eqI) (auto simp: bit_simps)

lemma pjw_step_eq_elf_step: "pjw_step h c = elf_step h c"
proof (cases "(push_bit 4 h + char_value c) AND high4 = 0")
  case True
  then show ?thesis by (simp only: pjw_step_def elf_step_def high4_mask Let_def if_False not_True_eq_False) simp
next
  case False
  then show ?thesis
    by (simp only: pjw_step_def elf_step_def high4_mask Let_def if_True not_False_eq_True fold_high_eq)
qed

lemma pjw_step_high: "pjw_step h c AND high4 = 0"
proof (cases "(push_bit 4 h + char_value c) AND high4 = 0")
  case True
  then show ?thesis by (simp only: pjw_step_def high4_mask Let_def simp_thms if_False)
next
  case False
  have "(x AND NOT high4) AND high4 = 0" for x by (rule bit_word_eqI) (auto simp: bit_simps)
  with False show ?thesis
    by (simp only: pjw_step_def high4_mask Let_def if_True not_False_eq_True)
qed

lemma and_high4_less:
  assumes "w AND high4 = 0"
  shows "w < 2 ^ 28"
proof -
  have "\<not> bit w n" if "28 \<le> n" for n
  proof
    assume "bit w n"
    with that have "bit (w AND high4) n" using bit_imp_le_length [of w n] by (auto simp: bit_simps)
    with assms show False by simp
  qed
  then have "take_bit 28 w = w"
    by (intro bit_word_eqI) (use linorder_not_le in \<open>auto simp: bit_take_bit_iff\<close>)
  then show ?thesis using and_mask_less' [of 28 w] by (simp add: take_bit_eq_mask)
qed

text \<open>
  The PJW hash and the ELF hash are the same function, and their value always fits 28 bits.
\<close>

theorem hash_func_str_pjw_elf:
  "hash_func_str_pjw str = hash_func_str_elf str \<and> hash_func_str_elf str < 2 ^ 28"
proof -
  have eq: "foldl pjw_step h s = foldl elf_step h s" for h s
    by (simp add: pjw_step_eq_elf_step [abs_def] cong: foldl_cong)
  have "h < 2 ^ 28 \<Longrightarrow> foldl pjw_step h s < 2 ^ 28" for h s
    by (induction s arbitrary: h) (simp_all only: foldl.simps and_high4_less pjw_step_high)
  from this [of 0 "cstr str"] eq show ?thesis
    by (simp add: hash_func_str_pjw_def hash_func_str_elf_def)
qed

text \<open>
  Each integer hash maps distinct keys to distinct values: no two keys are
  confused before the reduction to a bucket index.
\<close>

theorem int_hashes_injective:
  "inj hash_func_int_32shift \<and> inj hash_func_int_32shiftmult \<and> inj hash_func_int_rj \<and>
   inj hash_func_int_java"
  by (simp add: hash_func_int_32shift_inj hash_func_int_32shiftmult_inj hash_func_int_rj_inj
      hash_func_int_java_inj)

end
