(* ===== verification/Klog.thy ===== *)
theory Klog
  imports Prelude "HOL-Library.Signed_Division"
begin

text \<open>
  The kernel log of \<^verbatim>\<open>kernel/klog.c\<close>: a ring of 128 rows of 64 characters, a cursor in the
  current (top) row and a cyclic row counter. A write outside the logbook is \<open>None\<close>. The
  access lock is taken around every operation, so each operation is one step.
\<close>

section \<open>State and operations\<close>

abbreviation KLOG_N_ROWS :: nat where "KLOG_N_ROWS \<equiv> 128"
abbreviation KLOG_N_COLS :: nat where "KLOG_N_COLS \<equiv> 64"

record klog =
  kl_row_counter :: uint
  kl_top :: int
  kl_bottom :: int
  kl_cursor :: int
  kl_logbook :: "uint8 list list"

type_synonym krow = "uint8 list"

abbreviation blank_row :: krow where "blank_row \<equiv> replicate KLOG_N_COLS 0"
abbreviation blank_logbook :: "krow list" where "blank_logbook \<equiv> replicate KLOG_N_ROWS blank_row"

definition logbook_set :: "int \<Rightarrow> (krow \<Rightarrow> krow option) \<Rightarrow> klog \<Rightarrow> klog option" where
  "logbook_set index f kl =
     (if 0 \<le> index \<and> nat index < length (kl_logbook kl)
      then (case f (kl_logbook kl ! nat index) of
              None \<Rightarrow> None
            | Some r \<Rightarrow> Some (kl\<lparr>kl_logbook := (kl_logbook kl)[nat index := r]\<rparr>))
      else None)"

definition row_memset :: "uint8 \<Rightarrow> int \<Rightarrow> krow \<Rightarrow> krow option" where
  "row_memset c n r =
     (if 0 \<le> n \<and> nat n \<le> length r then Some (replicate (nat n) c @ drop (nat n) r) else None)"

definition row_put :: "int \<Rightarrow> uint8 \<Rightarrow> krow \<Rightarrow> krow option" where
  "row_put i c r = (if 0 \<le> i \<and> nat i < length r then Some (r[nat i := c]) else None)"

definition clear_row :: "int \<Rightarrow> klog \<Rightarrow> klog option" where
  "clear_row index kl = logbook_set index (row_memset 0 (int KLOG_N_COLS)) kl"

definition scroll_rows :: "int \<Rightarrow> klog \<Rightarrow> klog" where
  "scroll_rows delta kl =
     (let top = (kl_top kl + delta + int KLOG_N_ROWS) smod int KLOG_N_ROWS
      in kl\<lparr>kl_top := top, kl_bottom := (top + 1 + int KLOG_N_ROWS) smod int KLOG_N_ROWS\<rparr>)"

definition get_row_index :: "klog \<Rightarrow> uint \<Rightarrow> uint" where
  "get_row_index kl rel_index =
     (word_of_int (kl_top kl) - rel_index + of_nat KLOG_N_ROWS) mod of_nat KLOG_N_ROWS"

definition klog_init :: "klog" where
  "klog_init = \<lparr>kl_row_counter = 0, kl_top = 0, kl_bottom = 1, kl_cursor = 0, kl_logbook = blank_logbook\<rparr>"

definition klog_get_row_counter :: "klog \<Rightarrow> uint" where
  "klog_get_row_counter kl = kl_row_counter kl"

definition klog_get_least_row_counter :: "klog \<Rightarrow> uint" where
  "klog_get_least_row_counter kl = klog_get_row_counter kl - of_nat KLOG_N_ROWS + 1"

definition klog_get_row_abs :: "klog \<Rightarrow> uint \<Rightarrow> bool \<Rightarrow> status \<times> krow option" where
  "klog_get_row_abs kl index row =
     (if \<not> row \<or> of_nat KLOG_N_ROWS \<le> index then (ERR_INVALID_ARGS, None)
      else (NO_ERROR, Some (kl_logbook kl ! unat index)))"

definition klog_get_row :: "klog \<Rightarrow> uint \<Rightarrow> bool \<Rightarrow> status \<times> krow option" where
  "klog_get_row kl index row =
     (if \<not> row \<or> of_nat KLOG_N_ROWS \<le> index then (ERR_INVALID_ARGS, None)
      else (NO_ERROR, Some (kl_logbook kl ! unat (get_row_index kl index))))"

definition klog_get_previous_row :: "klog \<Rightarrow> bool \<Rightarrow> status \<times> krow option" where
  "klog_get_previous_row kl row = klog_get_row kl 1 row"

definition klog_get_current_row :: "klog \<Rightarrow> bool \<Rightarrow> status \<times> krow option" where
  "klog_get_current_row kl row = klog_get_row_abs kl (word_of_int (kl_top kl)) row"

definition klog_get_last_row :: "klog \<Rightarrow> bool \<Rightarrow> status \<times> krow option" where
  "klog_get_last_row kl row = klog_get_row_abs kl (word_of_int (kl_bottom kl)) row"

definition out_of_range :: "uint \<Rightarrow> uint \<Rightarrow> uint \<Rightarrow> bool" where
  "out_of_range row_counter least counter =
     (if least < row_counter
      then counter < least \<or> row_counter < counter
      else counter < least \<and> row_counter < counter)"

definition klog_get_new_row :: "klog \<Rightarrow> uint \<Rightarrow> bool \<Rightarrow> uint \<times> krow option" where
  "klog_get_new_row kl counter0 row =
     (if \<not> row then (counter0, None)
      else
        (let least = kl_row_counter kl - of_nat KLOG_N_ROWS + 1;
             counter = (if out_of_range (kl_row_counter kl) least counter0 then least else counter0);
             index = get_row_index kl (kl_row_counter kl - counter);
             copied = kl_logbook kl ! unat index;
             counter' = counter + 1;
             counter'' = (if out_of_range (kl_row_counter kl) least counter'
                          then kl_row_counter kl else counter')
         in (counter'', Some copied)))"

text \<open>One character of \<^verbatim>\<open>klog_puts\<close>: the switch, then the new-row block.\<close>

definition puts_char :: "uint8 \<Rightarrow> klog \<Rightarrow> (klog \<times> bool) option" where
  "puts_char c kl =
     (if c = 10 then Some (kl, True)
      else if c = 13 then Some (kl\<lparr>kl_cursor := 0\<rparr>, False)
      else if c = 12 then
        (let kl1 = scroll_rows 1 kl;
             kl2 = kl1\<lparr>kl_row_counter := kl_row_counter kl1 + 1\<rparr>
         in case clear_row (kl_top kl2) kl2 of
              None \<Rightarrow> None
            | Some kl3 \<Rightarrow>
                (if kl_cursor kl3 \<noteq> 0
                 then (case logbook_set (kl_top kl3) (row_memset 32 (kl_cursor kl3)) kl3 of
                         None \<Rightarrow> None | Some kl4 \<Rightarrow> Some (kl4, False))
                 else Some (kl3, False)))
      else
        (case logbook_set (kl_top kl) (row_put (kl_cursor kl) c) kl of
           None \<Rightarrow> None
         | Some kl1 \<Rightarrow>
             (let kl2 = kl1\<lparr>kl_cursor := kl_cursor kl1 + 1\<rparr>
              in Some (kl2, int KLOG_N_COLS \<le> kl_cursor kl2))))"

definition new_row :: "klog \<Rightarrow> klog option" where
  "new_row kl =
     (let kl1 = scroll_rows 1 kl;
          kl2 = kl1\<lparr>kl_row_counter := kl_row_counter kl1 + 1\<rparr>
      in case clear_row (kl_top kl2) kl2 of
           None \<Rightarrow> None
         | Some kl3 \<Rightarrow> Some (kl3\<lparr>kl_cursor := 0\<rparr>))"

fun puts_loop :: "uint8 list \<Rightarrow> klog \<Rightarrow> klog option" where
  "puts_loop [] kl = Some kl"
| "puts_loop (c # cs) kl =
     (case puts_char c kl of
        None \<Rightarrow> None
      | Some (kl1, need) \<Rightarrow>
          (if need
           then (case new_row kl1 of None \<Rightarrow> None | Some kl2 \<Rightarrow> puts_loop cs kl2)
           else puts_loop cs kl1))"

definition klog_puts :: "uint8 list \<Rightarrow> klog \<Rightarrow> klog option" where
  "klog_puts str kl = puts_loop (cstr str) kl"

definition klog_clear :: "klog \<Rightarrow> klog" where
  "klog_clear kl = kl\<lparr>kl_cursor := 0, kl_logbook := blank_logbook\<rparr>"

section \<open>The journal: what the log promises\<close>

text \<open>
  Every row ever started, oldest first (a fresh log is full of blank rows), and the column
  of the cursor in the last row.
\<close>

type_synonym journal = "krow list \<times> nat"

definition journal_init :: journal where
  "journal_init = (replicate KLOG_N_ROWS blank_row, 0)"

fun journal_char :: "uint8 \<Rightarrow> journal \<Rightarrow> journal" where
  "journal_char c (rs, k) =
     (if c = 10 then (rs @ [blank_row], 0)
      else if c = 13 then (rs, 0)
      else if c = 12 then (rs @ [replicate k 32 @ replicate (KLOG_N_COLS - k) 0], k)
      else (let rs' = butlast rs @ [(last rs)[k := c]]
            in if Suc k = KLOG_N_COLS then (rs' @ [blank_row], 0) else (rs', Suc k)))"

definition journal_puts :: "uint8 list \<Rightarrow> journal \<Rightarrow> journal" where
  "journal_puts str j = fold journal_char (cstr str) j"

definition journal_clear :: "journal \<Rightarrow> journal" where
  "journal_clear j = (map (\<lambda>_. blank_row) (fst j), 0)"

text \<open>
  The ring holds the last 128 rows: row number \<open>n\<close> of the journal is in slot \<open>(n + 1) mod 128\<close>,
  and its counter is \<open>n - 127\<close>.
\<close>

definition klog_rep :: "klog \<Rightarrow> journal \<Rightarrow> bool" where
  "klog_rep kl j \<longleftrightarrow>
     (let rs = fst j; k = snd j in
      KLOG_N_ROWS \<le> length rs \<and> (\<forall>r \<in> set rs. length r = KLOG_N_COLS) \<and> k < KLOG_N_COLS \<and>
      kl_cursor kl = int k \<and> kl_top kl = int (length rs mod KLOG_N_ROWS) \<and>
      kl_bottom kl = int (Suc (length rs) mod KLOG_N_ROWS) \<and>
      kl_row_counter kl = of_nat (length rs - KLOG_N_ROWS) \<and>
      length (kl_logbook kl) = KLOG_N_ROWS \<and> (\<forall>r \<in> set (kl_logbook kl). length r = KLOG_N_COLS) \<and>
      (\<forall>n < length rs. length rs \<le> n + KLOG_N_ROWS \<longrightarrow> kl_logbook kl ! (Suc n mod KLOG_N_ROWS) = rs ! n))"

lemma klog_repD:
  assumes "klog_rep kl (rs, k)"
  shows "KLOG_N_ROWS \<le> length rs" "\<And>r. r \<in> set rs \<Longrightarrow> length r = KLOG_N_COLS" "k < KLOG_N_COLS"
    "kl_cursor kl = int k" "kl_top kl = int (length rs mod KLOG_N_ROWS)"
    "kl_bottom kl = int (Suc (length rs) mod KLOG_N_ROWS)"
    "kl_row_counter kl = of_nat (length rs - KLOG_N_ROWS)" "length (kl_logbook kl) = KLOG_N_ROWS"
    "\<And>n. n < length rs \<Longrightarrow> length rs \<le> n + KLOG_N_ROWS \<Longrightarrow>
       kl_logbook kl ! (Suc n mod KLOG_N_ROWS) = rs ! n"
    "\<And>i. i < KLOG_N_ROWS \<Longrightarrow> length (kl_logbook kl ! i) = KLOG_N_COLS"
  using assms by (auto simp: klog_rep_def Let_def)

lemma slot_inj:
  fixes a b l N :: nat
  assumes "a mod N = b mod N" "a \<le> l" "b \<le> l" "l < a + N" "l < b + N"
  shows "a = b"
proof -
  have "a = b" if "a mod N = b mod N" "a \<le> b" "b < a + N" for a b :: nat
  proof -
    have "N dvd b - a" using that(1,2) by (metis mod_eq_dvd_iff_nat)
    with that show ?thesis by (metis dvd_imp_le le_add_diff_inverse less_add_eq_less linorder_not_less nat_add_left_cancel_less
          diff_is_0_eq zero_less_iff_neq_zero add.right_neutral)
  qed
  with assms show ?thesis by (metis linorder_linear order_le_less_trans)
qed

lemma smod_pos: "0 \<le> a \<Longrightarrow> 0 < b \<Longrightarrow> a smod b = a mod b" for a b :: int
  by (simp add: signed_modulo_int_def signed_divide_int_def abs_of_nonneg sgn_if minus_div_mult_eq_mod)

lemma klog_rep_init: "klog_rep klog_init journal_init"
  by (auto simp: klog_rep_def klog_init_def journal_init_def Let_def)

lemma klog_rep_clear:
  assumes "klog_rep kl j"
  shows "klog_rep (klog_clear kl) (journal_clear j)"
  using assms by (auto simp: klog_rep_def klog_clear_def journal_clear_def Let_def)

text \<open>Writing the row of the cursor.\<close>

lemma klog_rep_set_last:
  assumes rep: "klog_rep kl (rs, k)" and "length r = KLOG_N_COLS" "k' < KLOG_N_COLS"
  shows "klog_rep (kl\<lparr>kl_logbook := (kl_logbook kl)[nat (kl_top kl) := r], kl_cursor := int k'\<rparr>)
    (butlast rs @ [r], k')"
proof -
  note D = klog_repD [OF rep]
  have ne: "rs \<noteq> []" using D(1) by auto
  have top: "nat (kl_top kl) = length rs mod KLOG_N_ROWS" using D(5) by simp
  have "(kl_logbook kl)[length rs mod KLOG_N_ROWS := r] ! (Suc n mod KLOG_N_ROWS) = (butlast rs @ [r]) ! n"
    if n: "n < length rs" "length rs \<le> n + KLOG_N_ROWS" for n
  proof (cases "Suc n = length rs")
    case True
    then show ?thesis using D(8) ne by (auto simp: nth_append)
  next
    case False
    then have "Suc n mod KLOG_N_ROWS \<noteq> length rs mod KLOG_N_ROWS"
      using slot_inj [of "Suc n" KLOG_N_ROWS "length rs" "length rs"] n by auto
    then show ?thesis using False n D(9) [OF n] by (auto simp: nth_append nth_butlast)
  qed
  then show ?thesis
    using D assms ne set_update_subset_insert [of "kl_logbook kl" "length rs mod KLOG_N_ROWS" r]
    by (auto simp: klog_rep_def Let_def top in_set_conv_nth [of _ "kl_logbook kl"]
        dest: in_set_butlastD)
qed

text \<open>Starting a new row.\<close>

lemma klog_rep_append:
  assumes rep: "klog_rep kl (rs, k)" and "length r = KLOG_N_COLS" "k' < KLOG_N_COLS"
  shows "klog_rep (kl\<lparr>kl_top := int (Suc (length rs) mod KLOG_N_ROWS),
      kl_bottom := int (Suc (Suc (length rs)) mod KLOG_N_ROWS), kl_row_counter := kl_row_counter kl + 1,
      kl_logbook := (kl_logbook kl)[Suc (length rs) mod KLOG_N_ROWS := r], kl_cursor := int k'\<rparr>)
    (rs @ [r], k')"
proof -
  note D = klog_repD [OF rep]
  have "(kl_logbook kl)[Suc (length rs) mod KLOG_N_ROWS := r] ! (Suc n mod KLOG_N_ROWS) = (rs @ [r]) ! n"
    if n: "n < Suc (length rs)" "Suc (length rs) \<le> n + KLOG_N_ROWS" for n
  proof (cases "n = length rs")
    case True
    then show ?thesis using D(8) by (simp add: nth_append)
  next
    case False
    then have "Suc n mod KLOG_N_ROWS \<noteq> Suc (length rs) mod KLOG_N_ROWS"
      using slot_inj [of "Suc n" KLOG_N_ROWS "Suc (length rs)" "Suc (length rs)"] n by auto
    then show ?thesis using False n D(9) [of n] by (simp add: nth_append)
  qed
  moreover have "of_nat (length rs - KLOG_N_ROWS) + 1 = (of_nat (Suc (length rs) - KLOG_N_ROWS) :: uint)"
    using D(1) by (simp add: Suc_diff_le)
  ultimately show ?thesis
    using D assms set_update_subset_insert [of "kl_logbook kl" "Suc (length rs) mod KLOG_N_ROWS" r]
    by (auto simp: klog_rep_def Let_def in_set_conv_nth [of _ "kl_logbook kl"])
qed

lemma klog_rep_append_same:
  assumes rep: "klog_rep kl (rs, k)" and "length r = KLOG_N_COLS"
  shows "klog_rep (kl\<lparr>kl_top := int (Suc (length rs) mod KLOG_N_ROWS),
      kl_bottom := int (Suc (Suc (length rs)) mod KLOG_N_ROWS), kl_row_counter := kl_row_counter kl + 1,
      kl_logbook := (kl_logbook kl)[Suc (length rs) mod KLOG_N_ROWS := r]\<rparr>) (rs @ [r], k)"
proof -
  have "kl\<lparr>kl_top := t, kl_bottom := b, kl_row_counter := rc, kl_logbook := l, kl_cursor := int k\<rparr>
      = kl\<lparr>kl_top := t, kl_bottom := b, kl_row_counter := rc, kl_logbook := l\<rparr>" for t b rc l
    using klog_repD(4) [OF rep] by (cases kl) simp
  with klog_rep_append [OF assms klog_repD(3) [OF rep]] show ?thesis by simp
qed

lemma ring_next: "0 < N \<Longrightarrow> (int (l mod N) + 1 + int N) smod int N = int (Suc l mod N)" for l N :: nat
proof -
  assume "0 < N"
  then have "(int (l mod N) + 1 + int N) smod int N = (int (l mod N) + 1) mod int N"
    by (simp add: smod_pos)
  also have "\<dots> = int (Suc (l mod N) mod N)" by (simp add: zmod_int add.commute)
  finally show ?thesis by (simp add: mod_Suc_eq)
qed

lemma scroll_rows_rep:
  assumes "klog_rep kl (rs, k)"
  shows "scroll_rows 1 kl = kl\<lparr>kl_top := int (Suc (length rs) mod KLOG_N_ROWS),
      kl_bottom := int (Suc (Suc (length rs)) mod KLOG_N_ROWS)\<rparr>"
  using klog_repD(5) [OF assms] ring_next [of KLOG_N_ROWS "length rs"] ring_next [of KLOG_N_ROWS "Suc (length rs)"]
  by (simp add: scroll_rows_def Let_def)

lemma clear_row_in_range:
  assumes "i < length (kl_logbook kl)" "length (kl_logbook kl ! i) = KLOG_N_COLS"
  shows "clear_row (int i) kl = Some (kl\<lparr>kl_logbook := (kl_logbook kl)[i := blank_row]\<rparr>)"
  using assms by (simp add: clear_row_def logbook_set_def row_memset_def)

lemma new_row_rep:
  assumes "klog_rep kl (rs, k)"
  shows "\<exists>kl'. new_row kl = Some kl' \<and> klog_rep kl' (rs @ [blank_row], 0)"
  using klog_rep_append [OF assms, of blank_row 0] klog_repD(10) [OF assms] klog_repD(8) [OF assms]
  by (simp add: new_row_def Let_def scroll_rows_rep [OF assms] clear_row_in_range)

lemma new_row_cursor: "new_row (kl\<lparr>kl_logbook := lb, kl_cursor := i\<rparr>) = new_row (kl\<lparr>kl_logbook := lb, kl_cursor := j\<rparr>)"
  by (simp add: new_row_def scroll_rows_def clear_row_def logbook_set_def Let_def split: option.split)

lemma puts_char_rep:
  assumes rep: "klog_rep kl (rs, k)"
  shows "\<exists>kl' need. puts_char c kl = Some (kl', need) \<and>
    (if need then \<exists>kl''. new_row kl' = Some kl'' \<and> klog_rep kl'' (journal_char c (rs, k))
     else klog_rep kl' (journal_char c (rs, k)))"
proof -
  note D = klog_repD [OF rep]
  consider "c = 10" | "c = 13" | "c = 12" | "c \<noteq> 10" "c \<noteq> 13" "c \<noteq> 12" by blast
  then show ?thesis
  proof cases
    case 1
    with new_row_rep [OF rep] show ?thesis by (auto simp: puts_char_def)
  next
    case 2
    with rep show ?thesis by (auto simp: puts_char_def klog_rep_def Let_def)
  next
    case 3
    let ?r = "replicate k 32 @ replicate (KLOG_N_COLS - k) (0 :: uint8)"
    have "puts_char c kl = Some (kl\<lparr>kl_top := int (Suc (length rs) mod KLOG_N_ROWS),
      kl_bottom := int (Suc (Suc (length rs)) mod KLOG_N_ROWS), kl_row_counter := kl_row_counter kl + 1,
      kl_logbook := (kl_logbook kl)[Suc (length rs) mod KLOG_N_ROWS := ?r]\<rparr>, False)"
      using 3 D(3,4,8,10)
      by (simp add: puts_char_def Let_def scroll_rows_rep [OF rep] clear_row_in_range logbook_set_def
          row_memset_def)
    moreover have "journal_char c (rs, k) = (rs @ [?r], k)" using 3 by simp
    moreover have "length ?r = KLOG_N_COLS" using D(3) by simp
    ultimately show ?thesis using klog_rep_append_same [OF rep] by (auto simp del: journal_char.simps)
  next
    case 4
    let ?r = "(last rs)[k := c]" and ?lb = "(kl_logbook kl)[nat (kl_top kl) := (last rs)[k := c]]"
    from D(1) have ne: "rs \<noteq> []" by auto
    then have len: "length ?r = KLOG_N_COLS" using D(2) by simp
    from D(9) [of "length rs - 1"] D(1,5) ne have "kl_logbook kl ! nat (kl_top kl) = last rs"
      by (simp add: last_conv_nth)
    with 4 D ne have put: "puts_char c kl =
        Some (kl\<lparr>kl_logbook := ?lb, kl_cursor := int k + 1\<rparr>, KLOG_N_COLS \<le> Suc k)"
      by (simp add: puts_char_def logbook_set_def row_put_def)
    show ?thesis
    proof (cases "Suc k = KLOG_N_COLS")
      case True
      from new_row_rep [OF klog_rep_set_last [OF rep len D(3)]] new_row_cursor
      have "\<exists>kl''. new_row (kl\<lparr>kl_logbook := ?lb, kl_cursor := int k + 1\<rparr>) = Some kl'' \<and>
          klog_rep kl'' ((butlast rs @ [?r]) @ [blank_row], 0)" by metis
      with True put 4 show ?thesis by auto
    next
      case False
      with klog_rep_set_last [OF rep len, of "Suc k"] put 4 D(3) show ?thesis by (auto simp: add.commute)
    qed
  qed
qed

lemma puts_loop_rep:
  "klog_rep kl j \<Longrightarrow> \<exists>kl'. puts_loop cs kl = Some kl' \<and> klog_rep kl' (fold journal_char cs j)"
proof (induction cs arbitrary: kl j)
  case (Cons c cs)
  obtain rs k where j: "j = (rs, k)" by (cases j)
  from puts_char_rep [of kl rs k c] Cons.prems j obtain kl' need where
    put: "puts_char c kl = Some (kl', need)" and
    rest: "if need then \<exists>kl''. new_row kl' = Some kl'' \<and> klog_rep kl'' (journal_char c j)
     else klog_rep kl' (journal_char c j)" by blast
  then obtain kl1 where next_kl: "(if need then new_row kl' else Some kl') = Some kl1"
    and "klog_rep kl1 (journal_char c j)" by (auto split: if_splits)
  from Cons.IH [OF this(2)] put next_kl show ?case by (auto split: if_splits)
qed simp

lemma klog_puts_rep:
  "klog_rep kl j \<Longrightarrow> \<exists>kl'. klog_puts str kl = Some kl' \<and> klog_rep kl' (journal_puts str j)"
  by (simp add: klog_puts_def journal_puts_def puts_loop_rep)

section \<open>Reading\<close>

lemma ring_back:
  fixes l i N :: nat
  assumes "i \<le> l" "i \<le> N"
  shows "(l mod N + N - i) mod N = (l - i) mod N"
proof -
  have "l mod N + N - i + (l div N) * N = (l - i) + N"
    using assms mult_div_mod_eq [of N l] by (simp add: algebra_simps)
  then show ?thesis by (metis mod_add_self2 mod_mult_self1)
qed

lemma get_row_index_rep:
  assumes "klog_rep kl (rs, k)" "unat i < KLOG_N_ROWS"
  shows "unat (get_row_index kl i) = (length rs - unat i) mod KLOG_N_ROWS"
proof -
  note D = klog_repD [OF assms(1)]
  have "word_of_int (kl_top kl) - i + of_nat KLOG_N_ROWS =
      (of_nat (length rs mod KLOG_N_ROWS + KLOG_N_ROWS - unat i) :: uint)"
    using assms(2) by (simp add: D(5) of_nat_diff)
  then have "unat (get_row_index kl i) = (length rs mod KLOG_N_ROWS + KLOG_N_ROWS - unat i) mod KLOG_N_ROWS"
    by (simp add: get_row_index_def unat_mod unat_of_nat_small)
  also have "\<dots> = (length rs - unat i) mod KLOG_N_ROWS"
    using D(1) assms(2) by (intro ring_back) simp_all
  finally show ?thesis .
qed

lemma klog_row_back:
  assumes "klog_rep kl (rs, k)" "unat i < KLOG_N_ROWS"
  shows "kl_logbook kl ! unat (get_row_index kl i) = rs ! (length rs - 1 - unat i)"
proof -
  note D = klog_repD [OF assms(1)]
  have "Suc (length rs - 1 - unat i) = length rs - unat i" using D(1) assms(2) by simp
  with D(9) [of "length rs - 1 - unat i"] D(1) assms(2) get_row_index_rep [OF assms]
  show ?thesis by simp
qed

text \<open>The two comparisons of \<^verbatim>\<open>klog_get_new_row\<close> test membership in a cyclic window.\<close>

lemma out_of_range_iff:
  "out_of_range rc (rc - of_nat KLOG_N_ROWS + 1) c \<longleftrightarrow> KLOG_N_ROWS \<le> unat (rc - c)"
proof -
  have least: "rc - of_nat KLOG_N_ROWS + 1 = rc - 127" by simp
  show ?thesis
    unfolding out_of_range_def least using unat_lt32 [of rc] unat_lt32 [of c]
    by (auto simp: word_less_nat_alt unat_sub_if' split: if_splits)
qed

lemma klog_get_new_row_in:
  assumes rep: "klog_rep kl (rs, k)" and d: "d < KLOG_N_ROWS"
  shows "klog_get_new_row kl (kl_row_counter kl - of_nat d) True =
    (kl_row_counter kl - of_nat (d - 1), Some (rs ! (length rs - 1 - d)))"
proof -
  let ?rc = "kl_row_counter kl"
  have unat_d: "unat (of_nat d :: uint) = d" using d by (simp add: unat_of_nat_small)
  have "?rc - (?rc - of_nat d + 1) = (of_nat d :: uint) - 1" by simp
  also have "KLOG_N_ROWS \<le> unat (of_nat d - 1 :: uint) \<longleftrightarrow> d = 0"
    using d by (cases d) (simp_all add: unat_of_nat_small unsigned_minus_1_eq_mask mask_eq_exp_minus_1)
  finally have "KLOG_N_ROWS \<le> unat (?rc - (?rc - of_nat d + 1)) \<longleftrightarrow> d = 0" .
  moreover have "?rc - (?rc - of_nat d) = of_nat d" by simp
  moreover have "d \<noteq> 0 \<Longrightarrow> ?rc - of_nat d + 1 = ?rc - of_nat (d - 1)" by (cases d) simp_all
  moreover have "kl_logbook kl ! unat (get_row_index kl (of_nat d)) = rs ! (length rs - 1 - d)"
    using klog_row_back [OF rep, of "of_nat d"] d by (simp only: unat_d)
  ultimately show ?thesis
    using d by (cases "d = 0") (simp_all only: klog_get_new_row_def Let_def out_of_range_iff unat_d, simp_all)
qed

lemma klog_get_new_row_out:
  assumes rep: "klog_rep kl (rs, k)" and out: "KLOG_N_ROWS \<le> unat (kl_row_counter kl - c)"
  shows "klog_get_new_row kl c True = klog_get_new_row kl (klog_get_least_row_counter kl) True"
  using out unfolding klog_get_new_row_def Let_def out_of_range_iff
  by (simp add: klog_get_least_row_counter_def klog_get_row_counter_def)

section \<open>Runs of the log\<close>

datatype klog_op = Puts "uint8 list" | Clear

fun klog_run :: "klog_op list \<Rightarrow> klog \<Rightarrow> klog option" where
  "klog_run [] kl = Some kl"
| "klog_run (Puts str # ops) kl = Option.bind (klog_puts str kl) (klog_run ops)"
| "klog_run (Clear # ops) kl = klog_run ops (klog_clear kl)"

fun journal_run :: "klog_op list \<Rightarrow> journal \<Rightarrow> journal" where
  "journal_run [] j = j"
| "journal_run (Puts str # ops) j = journal_run ops (journal_puts str j)"
| "journal_run (Clear # ops) j = journal_run ops (journal_clear j)"

lemma klog_run_rep:
  "klog_rep kl j \<Longrightarrow> \<exists>kl'. klog_run ops kl = Some kl' \<and> klog_rep kl' (journal_run ops j)"
proof (induction ops arbitrary: kl j)
  case (Cons op ops)
  then show ?case
  proof (cases op)
    case (Puts str)
    from klog_puts_rep [OF Cons.prems, of str] Cons.IH Puts show ?thesis by fastforce
  next
    case Clear
    with Cons.IH [OF klog_rep_clear [OF Cons.prems]] show ?thesis by simp
  qed
qed simp

text \<open>A reader that asks for the next row \<open>n\<close> times, starting from a stored counter.\<close>

fun read_rows :: "nat \<Rightarrow> klog \<Rightarrow> uint \<Rightarrow> krow list \<times> uint" where
  "read_rows 0 kl c = ([], c)"
| "read_rows (Suc n) kl c =
     (case klog_get_new_row kl c True of
        (c', Some r) \<Rightarrow> (let (rs, c'') = read_rows n kl c' in (r # rs, c''))
      | (c', None) \<Rightarrow> ([], c'))"

lemma read_rows_rep:
  assumes rep: "klog_rep kl (rs, k)" and "d < KLOG_N_ROWS" "n \<le> Suc d"
  shows "read_rows n kl (kl_row_counter kl - of_nat d) =
    (take n (drop (length rs - 1 - d) rs), kl_row_counter kl - of_nat (d - n))"
  using assms(2,3)
proof (induction n arbitrary: d)
  case (Suc n)
  have "length rs - 1 - d < length rs" using klog_repD(1) [OF rep] by simp
  then have split: "drop (length rs - 1 - d) rs = rs ! (length rs - 1 - d) # drop (Suc (length rs - 1 - d)) rs"
    by (simp add: Cons_nth_drop_Suc)
  show ?case
  proof (cases d)
    case 0
    with Suc.prems klog_get_new_row_in [OF rep, of 0] show ?thesis
      by (simp add: split [unfolded 0, simplified])
  next
    case (Suc d')
    have "Suc (length rs - 1 - d) = length rs - 1 - d'"
      using Suc Suc.prems klog_repD(1) [OF rep] by simp
    with Suc Suc.IH [of d'] Suc.prems klog_get_new_row_in [OF rep, of d] split show ?thesis by simp
  qed
qed simp

text \<open>
  C23. Whatever is written to and cleared from a fresh log, no write leaves the logbook, and the
  log then holds exactly the last 128 rows of the journal: row \<open>i\<close> counted back from the top is
  the \<open>i\<close>-th youngest row, larger indexes are refused, the current and the last row are the
  youngest and the oldest kept, and the row counter counts the rows started (modulo \<open>2^32\<close>).
\<close>

theorem klog_keeps_last_rows:
  "\<exists>kl rs k. klog_run ops klog_init = Some kl \<and> journal_run ops journal_init = (rs, k) \<and>
     (\<forall>i. klog_get_row kl i True =
        (if i < of_nat KLOG_N_ROWS then (NO_ERROR, Some (rs ! (length rs - 1 - unat i)))
         else (ERR_INVALID_ARGS, None))) \<and>
     klog_get_current_row kl True = (NO_ERROR, Some (last rs)) \<and>
     klog_get_last_row kl True = (NO_ERROR, Some (rs ! (length rs - KLOG_N_ROWS))) \<and>
     klog_get_row_counter kl = of_nat (length rs - KLOG_N_ROWS)"
proof -
  obtain rs k where j: "journal_run ops journal_init = (rs, k)" by force
  from klog_run_rep [OF klog_rep_init, of ops] j obtain kl where
    run: "klog_run ops klog_init = Some kl" and rep: "klog_rep kl (rs, k)" by auto
  note D = klog_repD [OF rep]
  have ne: "rs \<noteq> []" using D(1) by auto
  have "\<forall>i. klog_get_row kl i True =
        (if i < of_nat KLOG_N_ROWS then (NO_ERROR, Some (rs ! (length rs - 1 - unat i)))
         else (ERR_INVALID_ARGS, None))"
    by (auto simp: klog_get_row_def word_less_nat_alt klog_row_back [OF rep] not_less word_le_nat_alt)
  moreover have "klog_get_current_row kl True = (NO_ERROR, Some (last rs))"
    using D(9) [of "length rs - 1"] D(1) ne
    by (simp add: klog_get_current_row_def klog_get_row_abs_def D(5) unat_of_nat_small last_conv_nth
        word_le_nat_alt not_le)
  moreover have "klog_get_last_row kl True = (NO_ERROR, Some (rs ! (length rs - KLOG_N_ROWS)))"
    using D(9) [of "length rs - KLOG_N_ROWS"] D(1) le_mod_geq [of KLOG_N_ROWS "Suc (length rs)"]
      Suc_diff_le [of KLOG_N_ROWS "length rs"]
    by (simp add: klog_get_last_row_def klog_get_row_abs_def D(6) unat_of_nat_small
        word_le_nat_alt not_le)
  ultimately show ?thesis using run j D(7) by (simp add: klog_get_row_counter_def)
qed

text \<open>
  C30. A reader of the log misses nothing: starting from the counter of any row still kept, or
  from any stale counter (which counts as the least one), repeated calls of
  \<^verbatim>\<open>klog_get_new_row\<close> deliver the rows of the journal in order up to the current one, and
  the counter then stays at the current row.
\<close>

theorem klog_reader_in_order:
  assumes "klog_run ops klog_init = Some kl" "journal_run ops journal_init = (rs, k)"
    "d < KLOG_N_ROWS" "n \<le> Suc d"
  shows "read_rows n kl (klog_get_row_counter kl - of_nat d) =
      (take n (drop (length rs - 1 - d) rs), klog_get_row_counter kl - of_nat (d - n)) \<and>
    (\<forall>c. unat (klog_get_row_counter kl - c) < KLOG_N_ROWS \<or>
       klog_get_new_row kl c True = klog_get_new_row kl (klog_get_least_row_counter kl) True)"
proof -
  from klog_run_rep [OF klog_rep_init, of ops] assms(1,2) have rep: "klog_rep kl (rs, k)" by simp
  show ?thesis
    using read_rows_rep [OF rep assms(3,4)] klog_get_new_row_out [OF rep]
    by (metis klog_get_row_counter_def linorder_not_le)
qed

lemma list_update_replicate: "0 < n \<Longrightarrow> (replicate n x)[0 := y] = y # replicate (n - 1) x"
  by (cases n) simp_all

definition sample_log :: klog where
  "sample_log = the (klog_run [Puts [65, 10, 66]] klog_init)"

theorem klog_reader_in_order_witness:
  "fst (read_rows 2 sample_log (klog_get_row_counter sample_log - 1))
    = [65 # replicate 63 0, 66 # replicate 63 0]"
proof -
  obtain kl where run: "klog_run [Puts [65, 10, 66]] klog_init = Some kl"
    using klog_run_rep [OF klog_rep_init] by blast
  have j: "journal_run [Puts [65, 10, 66]] journal_init =
     (replicate 127 blank_row @ [65 # replicate 63 0, 66 # replicate 63 0], 1)"
    by (simp add: journal_init_def journal_puts_def cstr_def butlast_conv_take butlast_append
        list_update_replicate)
  from klog_reader_in_order [OF run j, of 1 2] show ?thesis
    unfolding sample_log_def run by simp
qed

end
