(* ===== verification/Pages.thy ===== *)
theory Pages
  imports Prelude
begin

text \<open>
  Page arithmetic: the macros of \<^verbatim>\<open>include/arch/i386/cpu.h\<close> and the rounding macros of
  \<^verbatim>\<open>include/phlox/kernel.h\<close>, with their meaning on numbers.
\<close>

section \<open>Macros\<close>

definition PAGE_SIZE :: "32 word" where
  "PAGE_SIZE = push_bit 12 1"

definition PAGE_MASK :: "32 word" where
  "PAGE_MASK = NOT (PAGE_SIZE - 1)"

definition PAGE_ALIGN :: "32 word \<Rightarrow> 32 word" where
  "PAGE_ALIGN a = (a + PAGE_SIZE - 1) AND PAGE_MASK"

definition PAGE_NUMBER :: "32 word \<Rightarrow> 32 word" where
  "PAGE_NUMBER a = drop_bit 12 a"

definition PAGE_ADDRESS :: "32 word \<Rightarrow> 32 word" where
  "PAGE_ADDRESS a = push_bit 12 a"

definition ROUNDUP :: "32 word \<Rightarrow> 32 word \<Rightarrow> 32 word" where
  "ROUNDUP a b = (a + (b - 1)) AND NOT (b - 1)"

definition ROUNDOWN :: "32 word \<Rightarrow> 32 word \<Rightarrow> 32 word" where
  "ROUNDOWN a b = (a div b) * b"

section \<open>Meaning\<close>

definition page_bytes :: nat where "page_bytes = 4096"

lemma PAGE_SIZE_unat [simp]: "unat PAGE_SIZE = page_bytes" "PAGE_SIZE \<noteq> 0"
  by (simp_all add: PAGE_SIZE_def page_bytes_def)

lemma page_bytes_pos [simp]: "0 < page_bytes" "page_bytes \<noteq> 0"
  by (simp_all add: page_bytes_def)

lemma and_not_mask_div:
  fixes x :: "'a::len word"
  assumes "n < LENGTH('a)"
  shows "unat (x AND NOT (mask n)) = unat x div 2 ^ n * 2 ^ n"
proof -
  have "x AND NOT (mask n) = push_bit n (drop_bit n x)"
    by (rule bit_word_eqI) (auto simp: bit_simps)
  moreover have "unat (drop_bit n x) = unat x div 2 ^ n"
    by (subst unsigned_drop_bit_eq) (simp add: drop_bit_eq_div take_bit_nat_eq_self)
  moreover have "unat x div 2 ^ n * 2 ^ n < 2 ^ LENGTH('a)"
    by (rule le_less_trans [OF div_times_less_eq_dividend]) (rule unsigned_less)
  moreover have "unat (push_bit n (drop_bit n x)) = take_bit LENGTH('a) (unat (drop_bit n x) * 2 ^ n)"
    by (subst unsigned_push_bit_eq) (simp only: push_bit_eq_mult)
  ultimately show ?thesis by (simp only: take_bit_nat_eq_self)
qed

lemma PAGE_MASK_div: "unat (x AND PAGE_MASK) = unat x div page_bytes * page_bytes"
proof -
  have "PAGE_MASK = NOT (mask 12)" by (simp add: PAGE_MASK_def PAGE_SIZE_def mask_eq_exp_minus_1)
  then show ?thesis using and_not_mask_div [of 12 x] by (simp add: page_bytes_def)
qed

lemma unat_add_small: "unat a + unat b < 2 ^ 32 \<Longrightarrow> unat (a + b) = unat a + unat b" for a b :: "32 word"
  by (simp add: unat_word_ariths)

text \<open>Away from the end of the address space \<^const>\<open>PAGE_ALIGN\<close> rounds up to whole pages.\<close>

lemma PAGE_ALIGN_unat:
  assumes "unat a + page_bytes \<le> 2 ^ 32"
  shows "unat (PAGE_ALIGN a) = (unat a + page_bytes - 1) div page_bytes * page_bytes"
proof -
  have "a + PAGE_SIZE - 1 = a + 0xFFF" by (simp add: PAGE_SIZE_def)
  moreover have "unat (a + 0xFFF) = unat a + 0xFFF"
    using assms by (intro trans [OF unat_add_small]) (simp_all add: page_bytes_def)
  ultimately have "unat (a + PAGE_SIZE - 1) = unat a + page_bytes - 1" by (simp only: page_bytes_def)
  then show ?thesis by (simp only: PAGE_ALIGN_def PAGE_MASK_div)
qed

lemma PAGE_ALIGN_id:
  assumes "page_bytes dvd unat a"
  shows "PAGE_ALIGN a = a"
proof -
  obtain k where k: "unat a = k * page_bytes" using assms by (metis dvdE mult.commute)
  with unat_lt32 [of a] have "k < 2 ^ 20" by (simp add: page_bytes_def)
  then have "unat a + page_bytes \<le> 2 ^ 32" unfolding k by (simp add: page_bytes_def)
  from PAGE_ALIGN_unat [OF this] have "unat (PAGE_ALIGN a) = unat a"
    by (simp add: k page_bytes_def)
  then show ?thesis by (simp add: word_unat_eq_iff)
qed

end
