(* ===== verification/Kheap.thy ===== *)
theory Kheap
  imports Pages
begin

text \<open>
  The kernel heap of \<^verbatim>\<open>kernel/heap.c\<close>: 32 bins of fixed chunk sizes, each with a free list
  threaded through the first word of its free chunks and a raw run that is carved on demand
  from fresh pages, and a table with one entry per heap page. Heap memory is a map from
  addresses to 32-bit words (the allocator reads and writes only the first word of a chunk,
  apart from the wipe of a whole chunk). A \<^verbatim>\<open>panic\<close> is an error value, and
  \<open>None\<close> stands for an access outside the page table and for a loop that never ends. The
  debug options are those of the file: \<^verbatim>\<open>PARANOID_KFREE\<close> and \<^verbatim>\<open>WIPE_KFREE\<close> on.
\<close>

section \<open>Data\<close>

record heap_page =
  hp_bin_index :: "5 word"
  hp_free_count :: "9 word"
  hp_cleaning :: "1 word"
  hp_in_use :: "1 word"

record heap_bin =
  hb_element_size :: uint32
  hb_grow_size :: uint32
  hb_alloc_count :: uint32
  hb_free_list :: addr_t
  hb_free_count :: uint32
  hb_raw_list :: addr_t
  hb_raw_count :: uint32

record heap =
  heap_alloc_table :: "heap_page list"
  heap_base_ptr :: addr_t
  heap_base :: addr_t
  heap_size :: size_t
  heap_bins :: "heap_bin list"
  heap_mem :: "addr_t \<Rightarrow> uint32"

definition heap_bin_init :: "uint32 \<times> uint32 \<Rightarrow> heap_bin" where
  "heap_bin_init s =
     \<lparr>hb_element_size = fst s, hb_grow_size = snd s, hb_alloc_count = 0, hb_free_list = 0,
      hb_free_count = 0, hb_raw_list = 0, hb_raw_count = 0\<rparr>"

definition bin_table :: "(uint32 \<times> uint32) list" where
  "bin_table =
     [(16, PAGE_SIZE), (32, PAGE_SIZE), (64, PAGE_SIZE), (128, PAGE_SIZE), (256, PAGE_SIZE),
      (512, PAGE_SIZE), (1024, PAGE_SIZE), (2048, PAGE_SIZE),
      (0x1000, 0x1000), (0x2000, 0x2000), (0x3000, 0x3000), (0x4000, 0x4000),
      (0x5000, 0x5000), (0x6000, 0x6000), (0x7000, 0x7000), (0x8000, 0x8000),
      (0x9000, 0x9000), (0xa000, 0xa000), (0xb000, 0xb000), (0xc000, 0xc000),
      (0xd000, 0xd000), (0xe000, 0xe000), (0xf000, 0xf000), (0x10000, 0x10000),
      (0x11000, 0x11000), (0x12000, 0x12000), (0x13000, 0x13000), (0x14000, 0x14000),
      (0x15000, 0x15000), (0x16000, 0x16000), (0x17000, 0x17000), (0x18000, 0x18000)]"

definition bins :: "heap_bin list" where
  "bins = map heap_bin_init bin_table"

abbreviation bin_count :: nat where
  "bin_count \<equiv> 32"

datatype heap_panic =
    Heap_Overgrew | Kmalloc_Too_Much
  | Kfree_Invalid_Address | Kfree_Invalid_Bin | Kfree_Invalid_Pointer
  | Kfree_Bin_Mismatch | Kfree_Already_Free

section \<open>Initialisation\<close>

definition blank_page :: heap_page where
  "blank_page = \<lparr>hp_bin_index = 0, hp_free_count = 0, hp_cleaning = 0, hp_in_use = 0\<rparr>"

definition heap_init :: "(addr_t \<Rightarrow> uint32) \<Rightarrow> addr_t \<Rightarrow> size_t \<Rightarrow> heap" where
  "heap_init m new_heap_base new_heap_size =
     (let page_entries = PAGE_SIZE div 2;
          size64 = (ucast new_heap_size * ucast page_entries) div (ucast page_entries + 1) :: uint64;
          sz = ucast (size64 AND ucast PAGE_MASK) :: size_t;
          base = new_heap_base + PAGE_ALIGN (sz div page_entries)
      in \<lparr>heap_alloc_table = replicate (unat (sz div PAGE_SIZE)) blank_page,
          heap_base_ptr = base, heap_base = base, heap_size = sz,
          heap_bins = bins, heap_mem = m\<rparr>)"

section \<open>Allocation\<close>

text \<open>Entry \<open>i\<close> of the page table, if there is one.\<close>

definition page_update :: "nat \<Rightarrow> (heap_page \<Rightarrow> heap_page) \<Rightarrow> heap \<Rightarrow> heap option" where
  "page_update i f h =
     (if i < length (heap_alloc_table h)
      then Some (h\<lparr>heap_alloc_table := (heap_alloc_table h)[i := f (heap_alloc_table h ! i)]\<rparr>)
      else None)"

definition page_index :: "heap \<Rightarrow> addr_t \<Rightarrow> nat" where
  "page_index h a = unat ((a - heap_base h) div PAGE_SIZE)"

definition bin_update :: "nat \<Rightarrow> (heap_bin \<Rightarrow> heap_bin) \<Rightarrow> heap \<Rightarrow> heap" where
  "bin_update i f h = h\<lparr>heap_bins := (heap_bins h)[i := f (heap_bins h ! i)]\<rparr>"

definition raw_page :: "heap \<Rightarrow> nat \<Rightarrow> heap_page \<Rightarrow> heap_page" where
  "raw_page h bin_index page =
     page\<lparr>hp_in_use := 1, hp_cleaning := 0, hp_bin_index := of_nat bin_index,
          hp_free_count :=
            (if bin_index < bin_count \<and> hb_element_size (heap_bins h ! bin_index) < PAGE_SIZE
             then ucast (PAGE_SIZE div hb_element_size (heap_bins h ! bin_index))
             else 1)\<rparr>"

partial_function (option) raw_mark :: "nat \<Rightarrow> addr_t \<Rightarrow> addr_t \<Rightarrow> heap \<Rightarrow> heap option" where
  "raw_mark bin_index a new_heap_ptr h =
     (if a < new_heap_ptr
      then (case page_update (page_index h a) (raw_page h bin_index) h of
              None \<Rightarrow> None
            | Some h' \<Rightarrow> raw_mark bin_index (a + PAGE_SIZE) new_heap_ptr h')
      else Some h)"

definition raw_alloc :: "uint32 \<Rightarrow> nat \<Rightarrow> heap \<Rightarrow> (heap_panic + heap \<times> addr_t) option" where
  "raw_alloc sz bin_index h =
     (let new_heap_ptr = heap_base_ptr h + PAGE_ALIGN sz
      in if heap_base h + heap_size h < new_heap_ptr then Some (Inl Heap_Overgrew)
         else (case raw_mark bin_index (heap_base_ptr h) new_heap_ptr h of
                 None \<Rightarrow> None
               | Some h' \<Rightarrow> Some (Inr (h'\<lparr>heap_base_ptr := new_heap_ptr\<rparr>, heap_base_ptr h))))"

fun find_bin :: "size_t \<Rightarrow> heap_bin list \<Rightarrow> nat" where
  "find_bin sz [] = 0"
| "find_bin sz (b # bs) = (if sz \<le> hb_element_size b then 0 else Suc (find_bin sz bs))"

text \<open>The raw run of a bin is refilled when it is empty.\<close>

definition raw_fill :: "nat \<Rightarrow> heap \<Rightarrow> (heap_panic + heap) option" where
  "raw_fill bin_index h =
     (let bin = heap_bins h ! bin_index
      in if hb_raw_count bin = 0
         then (case raw_alloc (hb_grow_size bin) bin_index h of
                 None \<Rightarrow> None
               | Some (Inl e) \<Rightarrow> Some (Inl e)
               | Some (Inr (h', p)) \<Rightarrow>
                   Some (Inr (bin_update bin_index
                     (\<lambda>b. b\<lparr>hb_raw_list := p,
                            hb_raw_count := hb_grow_size b div hb_element_size b\<rparr>) h')))
         else Some (Inr h))"

definition take_free :: "nat \<Rightarrow> heap \<Rightarrow> heap \<times> addr_t" where
  "take_free bin_index h =
     (let bin = heap_bins h ! bin_index;
          address = hb_free_list bin
      in (bin_update bin_index
            (\<lambda>b. b\<lparr>hb_free_list := heap_mem h (hb_free_list b),
                   hb_free_count := hb_free_count b - 1\<rparr>) h, address))"

definition take_raw :: "nat \<Rightarrow> heap \<Rightarrow> heap \<times> addr_t" where
  "take_raw bin_index h =
     (let address = hb_raw_list (heap_bins h ! bin_index)
      in (bin_update bin_index
            (\<lambda>b. b\<lparr>hb_raw_count := hb_raw_count b - 1,
                   hb_raw_list := hb_raw_list b + hb_element_size b\<rparr>) h, address))"

fun dec_pages :: "nat list \<Rightarrow> nat \<Rightarrow> heap \<Rightarrow> heap option" where
  "dec_pages [] page h = Some h"
| "dec_pages (i # is) page h =
     (case page_update (page + i) (\<lambda>p. p\<lparr>hp_free_count := hp_free_count p - 1\<rparr>) h of
        None \<Rightarrow> None
      | Some h' \<Rightarrow> dec_pages is page h')"

definition kmalloc :: "size_t \<Rightarrow> heap \<Rightarrow> (heap_panic + heap \<times> addr_t) option" where
  "kmalloc sz h =
     (let bin_index = find_bin sz (heap_bins h)
      in if bin_index = length (heap_bins h) then Some (Inl Kmalloc_Too_Much)
         else
           (case (if hb_free_list (heap_bins h ! bin_index) \<noteq> 0
                  then Some (Inr (take_free bin_index h))
                  else (case raw_fill bin_index h of
                          None \<Rightarrow> None
                        | Some (Inl e) \<Rightarrow> Some (Inl e)
                        | Some (Inr h1) \<Rightarrow> Some (Inr (take_raw bin_index h1)))) of
              None \<Rightarrow> None
            | Some (Inl e) \<Rightarrow> Some (Inl e)
            | Some (Inr (h2, address)) \<Rightarrow>
                (let h3 = bin_update bin_index (\<lambda>b. b\<lparr>hb_alloc_count := hb_alloc_count b + 1\<rparr>) h2;
                     n = unat (hb_element_size (heap_bins h3 ! bin_index) div PAGE_SIZE)
                 in case dec_pages (0 # [1 ..< n]) (page_index h3 address) h3 of
                      None \<Rightarrow> None
                    | Some h4 \<Rightarrow> Some (Inr (h4, address)))))"

section \<open>Release\<close>

fun inc_pages :: "nat list \<Rightarrow> nat \<Rightarrow> heap \<Rightarrow> (heap_panic + heap) option" where
  "inc_pages [] page h = Some (Inr h)"
| "inc_pages (i # is) page h =
     (if page + i < length (heap_alloc_table h)
      then (if hp_bin_index (heap_alloc_table h ! (page + i)) \<noteq> hp_bin_index (heap_alloc_table h ! page)
            then Some (Inl Kfree_Bin_Mismatch)
            else (case page_update (page + i) (\<lambda>p. p\<lparr>hp_free_count := hp_free_count p + 1\<rparr>) h of
                    None \<Rightarrow> None
                  | Some h' \<Rightarrow> inc_pages is page h'))
      else None)"

partial_function (option) on_free_list :: "(addr_t \<Rightarrow> uint32) \<Rightarrow> addr_t \<Rightarrow> addr_t \<Rightarrow> bool option" where
  "on_free_list m temp address =
     (if temp = 0 then Some False
      else if temp = address then Some True
      else on_free_list m (m temp) address)"

text \<open>\<^verbatim>\<open>memset(address, 0x99, n)\<close> on the words of the range.\<close>

definition mem_wipe :: "addr_t \<Rightarrow> size_t \<Rightarrow> (addr_t \<Rightarrow> uint32) \<Rightarrow> addr_t \<Rightarrow> uint32" where
  "mem_wipe a n m = (\<lambda>x. if unat a \<le> unat x \<and> unat x < unat a + unat n then 0x99999999 else m x)"

definition kfree :: "addr_t \<Rightarrow> heap \<Rightarrow> (heap_panic + heap) option" where
  "kfree address h =
     (if address = 0 then Some (Inr h)
      else if address < heap_base h \<or> heap_base h + heap_size h \<le> address
      then Some (Inl Kfree_Invalid_Address)
      else
        (let page = page_index h address
         in if length (heap_alloc_table h) \<le> page then None
            else
              (let bi = unat (hp_bin_index (heap_alloc_table h ! page));
                   bin = heap_bins h ! bi
               in if length (heap_bins h) \<le> bi then Some (Inl Kfree_Invalid_Bin)
                  else if hb_element_size bin \<le> PAGE_SIZE \<and> address mod hb_element_size bin \<noteq> 0
                  then Some (Inl Kfree_Invalid_Pointer)
                  else
                    (case inc_pages [0 ..< unat (hb_element_size bin div PAGE_SIZE)] page h of
                       None \<Rightarrow> None
                     | Some (Inl e) \<Rightarrow> Some (Inl e)
                     | Some (Inr h1) \<Rightarrow>
                         (case on_free_list (heap_mem h1) (hb_free_list bin) address of
                            None \<Rightarrow> None
                          | Some True \<Rightarrow> Some (Inl Kfree_Already_Free)
                          | Some False \<Rightarrow>
                              (let m = mem_wipe address (hb_element_size bin) (heap_mem h1);
                                   h2 = h1\<lparr>heap_mem := m(address := hb_free_list bin)\<rparr>
                               in Some (Inr (bin_update bi
                                    (\<lambda>b. b\<lparr>hb_free_list := address,
                                           hb_alloc_count := hb_alloc_count b - 1,
                                           hb_free_count := hb_free_count b + 1\<rparr>) h2))))))))"

definition kfree_and_null :: "addr_t option \<Rightarrow> heap \<Rightarrow> (heap_panic + heap \<times> addr_t option) option" where
  "kfree_and_null address h =
     (case address of
        None \<Rightarrow> Some (Inr (h, None))
      | Some p \<Rightarrow>
          (if p = 0 then Some (Inr (h, address))
           else (case kfree p h of
                   None \<Rightarrow> None
                 | Some (Inl e) \<Rightarrow> Some (Inl e)
                 | Some (Inr h') \<Rightarrow> Some (Inr (h', Some 0)))))"

definition kmalloc_pages :: "size_t \<Rightarrow> heap \<Rightarrow> (heap_panic + heap \<times> addr_t) option" where
  "kmalloc_pages npages h = kmalloc (npages * PAGE_SIZE) h"

declare raw_mark.simps [code] on_free_list.simps [code]

section \<open>The bin table\<close>

definition bin_size :: "nat \<Rightarrow> nat" where
  "bin_size b = unat (fst (bin_table ! b))"

lemma length_bin_table [simp]: "length bin_table = bin_count"
  by (simp add: bin_table_def)

lemma bin_table_entries:
  "list_all (\<lambda>e. 16 dvd unat (fst e) \<and> 16 \<le> unat (fst e) \<and> unat (fst e) \<le> 0x18000 \<and>
      (unat (fst e) < page_bytes \<longrightarrow> unat (fst e) dvd page_bytes) \<and>
      (page_bytes \<le> unat (fst e) \<longrightarrow> page_bytes dvd unat (fst e)) \<and>
      unat (snd e) = max page_bytes (unat (fst e))) bin_table"
  by (simp add: bin_table_def page_bytes_def PAGE_SIZE_def)

lemma bin_table_nth:
  assumes "b < bin_count"
  shows "16 dvd bin_size b" "16 \<le> bin_size b" "bin_size b \<le> 0x18000"
    "bin_size b < page_bytes \<Longrightarrow> bin_size b dvd page_bytes"
    "page_bytes \<le> bin_size b \<Longrightarrow> page_bytes dvd bin_size b"
    "unat (snd (bin_table ! b)) = max page_bytes (bin_size b)"
  using bin_table_entries assms by (auto simp: list_all_length bin_size_def)

section \<open>Layout invariant\<close>

definition page_of :: "heap \<Rightarrow> addr_t \<Rightarrow> nat" where
  "page_of h a = (unat a - unat (heap_base h)) div page_bytes"

definition chunk_pages :: "nat \<Rightarrow> nat" where
  "chunk_pages b = max 1 (bin_size b div page_bytes)"

definition span :: "nat \<times> addr_t \<Rightarrow> nat set" where
  "span c = {unat (snd c) ..< unat (snd c) + bin_size (fst c)}"

definition page_bins :: "heap \<Rightarrow> (5 word) list" where
  "page_bins h = map hp_bin_index (heap_alloc_table h)"

definition heap_static :: "heap \<Rightarrow> bool" where
  "heap_static h \<longleftrightarrow>
     map hb_element_size (heap_bins h) = map fst bin_table \<and>
     map hb_grow_size (heap_bins h) = map snd bin_table \<and>
     page_bytes dvd unat (heap_base h) \<and> page_bytes dvd unat (heap_size h) \<and>
     page_bytes dvd unat (heap_base_ptr h) \<and> heap_base h \<noteq> 0 \<and>
     unat (heap_base h) + unat (heap_size h) + 0x18000 < 2 ^ 32 \<and>
     unat (heap_base h) \<le> unat (heap_base_ptr h) \<and>
     unat (heap_base_ptr h) \<le> unat (heap_base h) + unat (heap_size h) \<and>
     length (heap_alloc_table h) = unat (heap_size h) div page_bytes"

definition chunk_ok :: "heap \<Rightarrow> nat \<times> addr_t \<Rightarrow> bool" where
  "chunk_ok h c \<longleftrightarrow>
     fst c < bin_count \<and> unat (heap_base h) \<le> unat (snd c) \<and>
     unat (snd c) + bin_size (fst c) \<le> unat (heap_base_ptr h) \<and>
     min (bin_size (fst c)) page_bytes dvd unat (snd c) \<and>
     (\<forall>i < chunk_pages (fst c). page_bins h ! (page_of h (snd c) + i) = of_nat (fst c))"

definition raw_run :: "nat \<Rightarrow> addr_t \<Rightarrow> uint32 \<Rightarrow> addr_t set" where
  "raw_run b p n = (\<lambda>i. p + of_nat (i * bin_size b)) ` {..< unat n}"

definition raw_chunks :: "heap \<Rightarrow> nat \<Rightarrow> addr_t set" where
  "raw_chunks h b = raw_run b (hb_raw_list (heap_bins h ! b)) (hb_raw_count (heap_bins h ! b))"

text \<open>
  Every chunk carved out of the heap is free (on the free list of its bin), raw, or allocated;
  \<open>F\<close> gives the free lists and \<open>A\<close> the allocated chunks with their bins.
\<close>

definition chunks :: "heap \<Rightarrow> (nat \<Rightarrow> addr_t list) \<Rightarrow> (nat \<times> addr_t) set \<Rightarrow> (nat \<times> addr_t) set" where
  "chunks h F A = {c. fst c < bin_count \<and> (snd c \<in> set (F (fst c)) \<or> snd c \<in> raw_chunks h (fst c))} \<union> A"

fun free_chain :: "(addr_t \<Rightarrow> uint32) \<Rightarrow> addr_t \<Rightarrow> addr_t list \<Rightarrow> bool" where
  "free_chain m p [] = (p = 0)"
| "free_chain m p (x # xs) = (p = x \<and> x \<noteq> 0 \<and> free_chain m (m x) xs)"

definition bin_ok :: "heap \<Rightarrow> (nat \<Rightarrow> addr_t list) \<Rightarrow> (nat \<times> addr_t) set \<Rightarrow> nat \<Rightarrow> bool" where
  "bin_ok h F A b \<longleftrightarrow>
     distinct (F b) \<and> free_chain (heap_mem h) (hb_free_list (heap_bins h ! b)) (F b) \<and>
     hb_free_count (heap_bins h ! b) = of_nat (length (F b)) \<and>
     hb_alloc_count (heap_bins h ! b) = of_nat (card {a. (b, a) \<in> A}) \<and>
     unat (hb_raw_count (heap_bins h ! b)) * bin_size b \<le> max page_bytes (bin_size b) \<and>
     (\<forall>a \<in> set (F b). (b, a) \<notin> A \<and> a \<notin> raw_chunks h b) \<and>
     (\<forall>a \<in> raw_chunks h b. (b, a) \<notin> A)"

definition heap_inv :: "heap \<Rightarrow> (nat \<Rightarrow> addr_t list) \<Rightarrow> (nat \<times> addr_t) set \<Rightarrow> bool" where
  "heap_inv h F A \<longleftrightarrow>
     heap_static h \<and> finite A \<and> (\<forall>b < bin_count. bin_ok h F A b) \<and>
     (\<forall>c \<in> chunks h F A. chunk_ok h c) \<and>
     (\<forall>c \<in> chunks h F A. \<forall>d \<in> chunks h F A. c \<noteq> d \<longrightarrow> span c \<inter> span d = {})"

lemma heap_static_bin:
  assumes "heap_static h" "b < bin_count"
  shows "unat (hb_element_size (heap_bins h ! b)) = bin_size b"
    "unat (hb_grow_size (heap_bins h ! b)) = max page_bytes (bin_size b)"
    "length (heap_bins h) = bin_count"
proof -
  have len: "length (heap_bins h) = bin_count"
    using assms(1) unfolding heap_static_def by (metis length_map length_bin_table)
  have "map hb_element_size (heap_bins h) ! b = map fst bin_table ! b"
    "map hb_grow_size (heap_bins h) ! b = map snd bin_table ! b"
    using assms(1) unfolding heap_static_def by metis+
  with len assms(2) bin_table_nth(6) [OF assms(2)]
  show "unat (hb_element_size (heap_bins h ! b)) = bin_size b"
    "unat (hb_grow_size (heap_bins h ! b)) = max page_bytes (bin_size b)"
    "length (heap_bins h) = bin_count"
    by (simp_all add: bin_size_def)
qed

lemma page_index_eq:
  assumes "unat (heap_base h) \<le> unat a"
  shows "page_index h a = page_of h a"
  using assms by (simp add: page_index_def page_of_def unat_div unat_sub word_le_nat_alt)

lemma chunk_page_below:
  assumes "page_bytes dvd unat (heap_base h)" "page_bytes dvd q" "b < bin_count"
    "unat (heap_base h) \<le> unat a" "unat a + bin_size b \<le> q" "i < chunk_pages b"
  shows "page_of h a + i < (q - unat (heap_base h)) div page_bytes"
proof -
  have "i * page_bytes < bin_size b"
  proof (cases "i < bin_size b div page_bytes")
    case True
    then have "Suc i * page_bytes \<le> bin_size b"
      by (metis Suc_leI div_times_less_eq_dividend le_trans mult_le_mono1)
    then show ?thesis using page_bytes_pos unfolding mult_Suc by linarith
  next
    case False
    then have "i = 0" using assms(6) by (auto simp: chunk_pages_def)
    then show ?thesis using bin_table_nth(2) [OF assms(3)] by simp
  qed
  moreover obtain k where "q - unat (heap_base h) = page_bytes * k"
    using assms(1,2) by (metis dvd_diff_nat dvdE)
  ultimately have k: "unat a - unat (heap_base h) + i * page_bytes < page_bytes * k"
    "q - unat (heap_base h) = page_bytes * k"
    using assms(4,5) by linarith+
  then have "(unat a - unat (heap_base h) + i * page_bytes) div page_bytes < k"
    by (simp only: div_less_iff_less_mult page_bytes_pos mult.commute)
  then show ?thesis by (simp add: page_of_def k(2))
qed

lemma chunk_page_less:
  assumes "heap_static h" "chunk_ok h (b, a)" "i < chunk_pages b"
  shows "page_of h a + i < length (heap_alloc_table h)"
proof -
  have "page_of h a + i < (unat (heap_base_ptr h) - unat (heap_base h)) div page_bytes"
    using assms by (intro chunk_page_below) (auto simp: heap_static_def chunk_ok_def)
  also have "\<dots> \<le> unat (heap_size h) div page_bytes"
    using assms(1) by (intro div_le_mono) (auto simp: heap_static_def)
  finally show ?thesis using assms(1) by (simp add: heap_static_def)
qed

section \<open>Frame lemmas\<close>

text \<open>The counters of the page table do not matter to the layout.\<close>

lemma heap_inv_pages:
  assumes "heap_inv h F A" "map hp_bin_index t = page_bins h"
  shows "heap_inv (h\<lparr>heap_alloc_table := t\<rparr>) F A"
proof -
  have "length t = length (heap_alloc_table h)"
    using assms(2) unfolding page_bins_def by (metis length_map)
  then have "heap_static (h\<lparr>heap_alloc_table := t\<rparr>) = heap_static h"
    by (simp add: heap_static_def)
  moreover have "chunk_ok (h\<lparr>heap_alloc_table := t\<rparr>) c = chunk_ok h c" for c
    using assms(2) by (simp add: chunk_ok_def page_bins_def page_of_def)
  moreover have "raw_chunks (h\<lparr>heap_alloc_table := t\<rparr>) = raw_chunks h"
    by (simp add: raw_chunks_def fun_eq_iff)
  ultimately show ?thesis
    using assms(1) by (simp add: heap_inv_def bin_ok_def chunks_def)
qed

lemma page_update_bins:
  assumes "page_update i f h = Some h'" "\<And>p. hp_bin_index (f p) = hp_bin_index p"
  shows "\<exists>t. h' = h\<lparr>heap_alloc_table := t\<rparr> \<and> map hp_bin_index t = page_bins h"
  using assms by (auto simp: page_update_def page_bins_def map_update list_update_same_conv split: if_splits)

lemma dec_pages_some:
  assumes "\<forall>i \<in> set is. page + i < length (heap_alloc_table h)"
  shows "\<exists>t. dec_pages is page h = Some (h\<lparr>heap_alloc_table := t\<rparr>) \<and> map hp_bin_index t = page_bins h"
  using assms
proof (induction "is" arbitrary: h)
  case Nil
  then show ?case by (auto simp: page_bins_def intro: exI [of _ "heap_alloc_table h"])
next
  case (Cons i "is")
  then obtain h1 where h1: "page_update (page + i) (\<lambda>p. p\<lparr>hp_free_count := hp_free_count p - 1\<rparr>) h = Some h1"
    by (simp add: page_update_def)
  from page_update_bins [OF this] obtain t1 where
    t1: "h1 = h\<lparr>heap_alloc_table := t1\<rparr>" "map hp_bin_index t1 = page_bins h" by auto
  then have "length t1 = length (heap_alloc_table h)"
    unfolding page_bins_def by (metis length_map)
  with Cons.IH [of h1] Cons.prems t1 h1 show ?case by (auto simp: page_bins_def)
qed

lemma inc_pages_some:
  assumes "\<forall>i \<in> set is. page + i < length (heap_alloc_table h)" "page < length (heap_alloc_table h)"
    "\<forall>i \<in> set is. page_bins h ! (page + i) = page_bins h ! page"
  shows "\<exists>t. inc_pages is page h = Some (Inr (h\<lparr>heap_alloc_table := t\<rparr>)) \<and> map hp_bin_index t = page_bins h"
  using assms
proof (induction "is" arbitrary: h)
  case Nil
  then show ?case by (auto simp: page_bins_def intro: exI [of _ "heap_alloc_table h"])
next
  case (Cons i "is")
  then obtain h1 where h1: "page_update (page + i) (\<lambda>p. p\<lparr>hp_free_count := hp_free_count p + 1\<rparr>) h = Some h1"
    by (simp add: page_update_def)
  from page_update_bins [OF this] obtain t1 where
    t1: "h1 = h\<lparr>heap_alloc_table := t1\<rparr>" "map hp_bin_index t1 = page_bins h" by auto
  then have "length t1 = length (heap_alloc_table h)"
    unfolding page_bins_def by (metis length_map)
  moreover have "hp_bin_index (heap_alloc_table h ! (page + i)) = hp_bin_index (heap_alloc_table h ! page)"
    using Cons.prems by (simp add: page_bins_def)
  ultimately show ?case using Cons.IH [of h1] Cons.prems t1 h1 by (auto simp: page_bins_def)
qed

text \<open>Writes outside the free chunks do not disturb the free lists.\<close>

lemma free_chain_cong:
  "\<forall>x \<in> set xs. m' x = m x \<Longrightarrow> free_chain m' p xs = free_chain m p xs"
  by (induction xs arbitrary: p) auto

lemma heap_inv_mem:
  assumes "heap_inv h F A" "\<forall>b < bin_count. \<forall>x \<in> set (F b). m x = heap_mem h x"
  shows "heap_inv (h\<lparr>heap_mem := m\<rparr>) F A"
proof -
  let ?h = "h\<lparr>heap_mem := m\<rparr>"
  have "heap_static ?h = heap_static h" by (simp add: heap_static_def)
  moreover have "chunk_ok ?h c = chunk_ok h c" for c
    by (simp add: chunk_ok_def page_bins_def page_of_def)
  moreover have "raw_chunks ?h = raw_chunks h" by (simp add: raw_chunks_def fun_eq_iff)
  moreover have "free_chain m p (F b) = free_chain (heap_mem h) p (F b)" if "b < bin_count" for b p
    using assms(2) that by (intro free_chain_cong) auto
  ultimately show ?thesis using assms(1) by (simp add: heap_inv_def bin_ok_def chunks_def)
qed

section \<open>Changing one bin\<close>

lemma map_update_same: "b < length xs \<Longrightarrow> f y = f (xs ! b) \<Longrightarrow> map f (xs[b := y]) = map f xs"
  by (simp add: map_update) (metis list_update_id nth_map)

lemma heap_inv_bin_change:
  fixes h :: heap
  defines "h' B b \<equiv> h\<lparr>heap_bins := (heap_bins h)[b := B]\<rparr>"
  assumes inv: "heap_inv h F A" and b: "b < bin_count"
    and sizes: "hb_element_size B = hb_element_size (heap_bins h ! b)"
      "hb_grow_size B = hb_grow_size (heap_bins h ! b)"
    and ok: "bin_ok (h' B b) (F(b := f)) A' b"
    and others: "\<And>b'. b' \<noteq> b \<Longrightarrow> {a. (b', a) \<in> A'} = {a. (b', a) \<in> A}"
    and same: "chunks (h' B b) (F(b := f)) A' \<subseteq> chunks h F A" and fin: "finite A'"
  shows "heap_inv (h' B b) (F(b := f)) A'"
proof -
  have st: "heap_static h" using inv by (simp add: heap_inv_def)
  then have len: "length (heap_bins h) = bin_count" using heap_static_bin(3) [OF st, of 0] by simp
  have st': "heap_static (h' B b)"
    using st map_update_same [of b "heap_bins h" hb_element_size B]
      map_update_same [of b "heap_bins h" hb_grow_size B] sizes b len
    by (simp add: heap_static_def h'_def)
  have ok_chunk: "chunk_ok (h' B b) c = chunk_ok h c" for c
    by (simp add: chunk_ok_def h'_def page_bins_def page_of_def)
  have raw: "raw_chunks (h' B b) b' = raw_chunks h b'" if "b' \<noteq> b" for b'
    using that by (simp add: raw_chunks_def h'_def)
  have "bin_ok (h' B b) (F(b := f)) A' b'" if "b' < bin_count" for b'
  proof (cases "b' = b")
    case False
    moreover have "(b', a) \<in> A' \<longleftrightarrow> (b', a) \<in> A" for a using others [OF False] by auto
    ultimately show ?thesis
      using inv that by (simp add: heap_inv_def bin_ok_def raw) (simp add: h'_def)
  qed (use ok in simp)
  then show ?thesis
    using inv st' fin same unfolding heap_inv_def ok_chunk by (meson subsetD)
qed

text \<open>A free chunk becomes allocated.\<close>

lemma card_insert_bin:
  assumes "finite A" "(b, a) \<notin> A"
  shows "card {x. x = a \<or> (b, x) \<in> A} = Suc (card {x. (b, x) \<in> A})"
proof -
  have "{x. x = a \<or> (b, x) \<in> A} = insert a {x. (b, x) \<in> A}" by auto
  moreover have "finite {x. (b, x) \<in> A}"
    using assms(1) by (rule finite_subset [rotated, OF finite_imageI [of _ snd]]) force
  ultimately show ?thesis using assms(2) by simp
qed

lemma heap_inv_take_free:
  assumes inv: "heap_inv h F A" and b: "b < bin_count" and F: "F b = a # f"
  shows "heap_inv (bin_update b (\<lambda>x. x\<lparr>hb_alloc_count := hb_alloc_count x + 1\<rparr>) (fst (take_free b h)))
    (F(b := f)) (insert (b, a) A) \<and> snd (take_free b h) = a \<and> (b, a) \<in> chunks h F A \<and> (b, a) \<notin> A"
proof -
  have len: "length (heap_bins h) = bin_count"
    using inv heap_static_bin(3) [of h 0] by (simp add: heap_inv_def)
  let ?x = "heap_bins h ! b"
  let ?B = "?x\<lparr>hb_free_list := heap_mem h (hb_free_list ?x), hb_free_count := hb_free_count ?x - 1,
      hb_alloc_count := hb_alloc_count ?x + 1\<rparr>"
  have ok: "bin_ok h F A b" using inv b by (simp add: heap_inv_def)
  then have a: "hb_free_list ?x = a" "a \<notin> set f" "(b, a) \<notin> A" "finite A"
    using F inv by (auto simp: bin_ok_def heap_inv_def)
  have eq: "bin_update b (\<lambda>x. x\<lparr>hb_alloc_count := hb_alloc_count x + 1\<rparr>) (fst (take_free b h))
      = h\<lparr>heap_bins := (heap_bins h)[b := ?B]\<rparr>"
    using b len by (simp add: bin_update_def take_free_def Let_def)
  have "bin_ok (h\<lparr>heap_bins := (heap_bins h)[b := ?B]\<rparr>) (F(b := f)) (insert (b, a) A) b"
    using ok F a b len card_insert_bin [OF a(4,3)] by (auto simp: bin_ok_def raw_chunks_def)
  then have "heap_inv (h\<lparr>heap_bins := (heap_bins h)[b := ?B]\<rparr>) (F(b := f)) (insert (b, a) A)"
    using a b F by (intro heap_inv_bin_change [OF inv b]) (auto simp: chunks_def raw_chunks_def nth_list_update len split: if_splits)
  then show ?thesis
    unfolding eq using a b F by (simp add: take_free_def Let_def chunks_def)
qed

section \<open>Carving raw chunks\<close>

lemma raw_run_0 [simp]: "raw_run b p 0 = {}"
  by (simp add: raw_run_def)

lemma raw_run_step:
  assumes "n \<noteq> 0" "unat n * bin_size b < 2 ^ 32" "0 < bin_size b"
  shows "raw_run b p n = insert p (raw_run b (p + of_nat (bin_size b)) (n - 1))"
    "p \<notin> raw_run b (p + of_nat (bin_size b)) (n - 1)"
proof -
  obtain k where k: "unat n = Suc k" "unat (n - 1) = k"
    using assms(1) unat_pred [OF assms(1)] by (cases "unat n") (auto simp: unat_eq_zero)
  have "raw_run b p n = (\<lambda>i. p + of_nat (i * bin_size b)) ` insert 0 (Suc ` {..<k})"
    by (simp add: raw_run_def k lessThan_Suc_eq_insert_0)
  also have "\<dots> = insert p (raw_run b (p + of_nat (bin_size b)) (n - 1))"
    by (simp add: raw_run_def k image_image add.assoc distrib_right)
  finally show "raw_run b p n = insert p (raw_run b (p + of_nat (bin_size b)) (n - 1))" .
  have "(of_nat (bin_size b) + of_nat (i * bin_size b) :: addr_t) \<noteq> 0" if "i < k" for i
  proof -
    have "Suc i * bin_size b \<le> unat n * bin_size b" using that k by (intro mult_le_mono1) simp
    then have "Suc i * bin_size b < 2 ^ 32" using assms(2) by linarith
    then show ?thesis using assms(3) of_nat_word32_eq_0 [of "Suc i * bin_size b"] by simp
  qed
  then show "p \<notin> raw_run b (p + of_nat (bin_size b)) (n - 1)"
    by (auto simp: raw_run_def k add.assoc)
qed

text \<open>A raw chunk becomes allocated.\<close>

lemma heap_inv_take_raw:
  assumes inv: "heap_inv h F A" and b: "b < bin_count" and n: "hb_raw_count (heap_bins h ! b) \<noteq> 0"
  shows "heap_inv (bin_update b (\<lambda>x. x\<lparr>hb_alloc_count := hb_alloc_count x + 1\<rparr>) (fst (take_raw b h)))
    F (insert (b, snd (take_raw b h)) A) \<and>
    (b, snd (take_raw b h)) \<in> chunks h F A \<and> (b, snd (take_raw b h)) \<notin> A"
proof -
  have st: "heap_static h" using inv by (simp add: heap_inv_def)
  note len = heap_static_bin(3) [OF st b]
  let ?x = "heap_bins h ! b" and ?p = "hb_raw_list (heap_bins h ! b)"
  let ?B = "?x\<lparr>hb_raw_count := hb_raw_count ?x - 1, hb_raw_list := ?p + hb_element_size ?x,
      hb_alloc_count := hb_alloc_count ?x + 1\<rparr>"
  have ok: "bin_ok h F A b" using inv b by (simp add: heap_inv_def)
  have es: "hb_element_size ?x = of_nat (bin_size b)"
    using heap_static_bin(1) [OF st b] by (rule word_eq_of_nat)
  have lim: "unat (hb_raw_count ?x) * bin_size b \<le> max page_bytes (bin_size b)"
    using ok by (simp add: bin_ok_def)
  then have "unat (hb_raw_count ?x) * bin_size b < 2 ^ 32"
    using bin_table_nth(3) [OF b] by (simp add: page_bytes_def)
  note step = raw_run_step [OF n this, of ?p]
  have raw: "raw_chunks h b = insert ?p (raw_run b (?p + hb_element_size ?x) (hb_raw_count ?x - 1))"
    "?p \<notin> raw_run b (?p + hb_element_size ?x) (hb_raw_count ?x - 1)"
    using step bin_table_nth(2) [OF b] by (simp_all add: raw_chunks_def es)
  have eq: "bin_update b (\<lambda>x. x\<lparr>hb_alloc_count := hb_alloc_count x + 1\<rparr>) (fst (take_raw b h))
      = h\<lparr>heap_bins := (heap_bins h)[b := ?B]\<rparr>" "snd (take_raw b h) = ?p"
    using b len by (simp_all add: bin_update_def take_raw_def Let_def)
  have a: "(b, ?p) \<notin> A" "finite A" "?p \<notin> set (F b)"
    using ok raw inv by (auto simp: bin_ok_def heap_inv_def)
  have "unat (hb_raw_count ?x - 1) * bin_size b \<le> max page_bytes (bin_size b)"
    using lim unat_pred [OF n] by (metis diff_le_self le_trans mult_le_mono1)
  then have "bin_ok (h\<lparr>heap_bins := (heap_bins h)[b := ?B]\<rparr>) F (insert (b, ?p) A) b"
    using ok a raw b len card_insert_bin [OF a(2,1)]
    by (auto simp: bin_ok_def raw_chunks_def [of "h\<lparr>heap_bins := _\<rparr>"])
  then have "heap_inv (h\<lparr>heap_bins := (heap_bins h)[b := ?B]\<rparr>) (F(b := F b)) (insert (b, ?p) A)"
    using a b raw by (intro heap_inv_bin_change [OF inv b])
      (auto simp: chunks_def raw_chunks_def nth_list_update len split: if_splits)
  then show ?thesis unfolding eq using a b raw by (simp add: chunks_def)
qed

section \<open>Growing the heap\<close>

lemma page_of_next:
  assumes "unat (heap_base h) \<le> unat a" "unat (a + PAGE_SIZE) = unat a + page_bytes"
  shows "page_of h (a + PAGE_SIZE) = Suc (page_of h a)"
proof -
  have "unat a + page_bytes - unat (heap_base h) = (unat a - unat (heap_base h)) + page_bytes"
    using assms(1) by simp
  then show ?thesis unfolding page_of_def assms(2) by (simp add: div_add_self2)
qed

lemma raw_mark_some:
  assumes "unat (heap_base h) \<le> unat a" "unat q = unat a + k * page_bytes"
    "page_of h a + k \<le> length (heap_alloc_table h)"
  shows "\<exists>t. raw_mark b a q h = Some (h\<lparr>heap_alloc_table := t\<rparr>) \<and> length t = length (heap_alloc_table h) \<and>
    (\<forall>p < length t. hp_bin_index (t ! p) =
       (if page_of h a \<le> p \<and> p < page_of h a + k then of_nat b else page_bins h ! p))"
  using assms
proof (induction k arbitrary: a h)
  case 0
  then have "\<not> a < q" by (simp add: word_less_nat_alt)
  then show ?case
    by (subst raw_mark.simps) (auto simp: page_bins_def intro: exI [of _ "heap_alloc_table h"])
next
  case (Suc k)
  then have lt: "a < q" by (simp add: word_less_nat_alt)
  have next_a: "unat (a + PAGE_SIZE) = unat a + page_bytes"
    using Suc.prems(2) unat_lt32 [of q] by (simp add: unat_word_ariths PAGE_SIZE_unat)
  let ?p = "page_of h a"
  let ?t = "(heap_alloc_table h)[?p := raw_page h b (heap_alloc_table h ! ?p)]"
  let ?h = "h\<lparr>heap_alloc_table := ?t\<rparr>"
  have up: "page_update (page_index h a) (raw_page h b) h = Some ?h"
    using Suc.prems by (simp add: page_update_def page_index_eq)
  have "page_of ?h (a + PAGE_SIZE) = Suc ?p"
    using page_of_next [OF Suc.prems(1) next_a] by (simp add: page_of_def)
  with Suc.IH [of ?h "a + PAGE_SIZE"] Suc.prems next_a obtain t where
    t: "raw_mark b (a + PAGE_SIZE) q ?h = Some (?h\<lparr>heap_alloc_table := t\<rparr>)"
      "length t = length (heap_alloc_table h)"
      "\<forall>p < length t. hp_bin_index (t ! p) =
         (if Suc ?p \<le> p \<and> p < Suc ?p + k then of_nat b else page_bins ?h ! p)"
    by auto
  moreover have "page_bins ?h ! p = (if p = ?p then of_nat b else page_bins h ! p)" if "p < length t" for p
    using that t(2) by (simp add: page_bins_def raw_page_def nth_list_update)
  ultimately show ?case
    using lt up by (subst raw_mark.simps) (auto intro!: exI [of _ t])
qed

text \<open>Fresh pages are marked for the bin; the chunks already carved are not affected.\<close>

lemma raw_alloc_some:
  assumes st: "heap_static h" and b: "b < bin_count"
  defines "grow \<equiv> max page_bytes (bin_size b)"
  shows "raw_alloc (hb_grow_size (heap_bins h ! b)) b h = Some (Inl Heap_Overgrew) \<and>
      unat (heap_base h) + unat (heap_size h) < unat (heap_base_ptr h) + grow \<or>
    (\<exists>t q. raw_alloc (hb_grow_size (heap_bins h ! b)) b h =
        Some (Inr (h\<lparr>heap_alloc_table := t, heap_base_ptr := q\<rparr>, heap_base_ptr h)) \<and>
      unat q = unat (heap_base_ptr h) + grow \<and> unat q \<le> unat (heap_base h) + unat (heap_size h) \<and>
      page_bytes dvd unat q \<and> length t = length (heap_alloc_table h) \<and>
      (\<forall>p < length t. hp_bin_index (t ! p) =
         (if page_of h (heap_base_ptr h) \<le> p \<and> p < page_of h q then of_nat b else page_bins h ! p)))"
proof -
  let ?q = "heap_base_ptr h + hb_grow_size (heap_bins h ! b)"
  note S = st [unfolded heap_static_def]
  have dvd: "page_bytes dvd grow"
    using bin_table_nth(4,5) [OF b] by (auto simp: grow_def max_def)
  then have align: "PAGE_ALIGN (hb_grow_size (heap_bins h ! b)) = hb_grow_size (heap_bins h ! b)"
    using heap_static_bin(2) [OF st b] by (intro PAGE_ALIGN_id) (simp add: grow_def)
  have "grow \<le> 0x18000" using bin_table_nth(3) [OF b] by (simp add: grow_def page_bytes_def)
  then have q: "unat ?q = unat (heap_base_ptr h) + grow"
    using heap_static_bin(2) [OF st b] S by (subst unat_add_small) (auto simp: grow_def)
  have lim: "unat (heap_base h + heap_size h) = unat (heap_base h) + unat (heap_size h)"
    using S by (intro unat_add_small) linarith
  show ?thesis
  proof (cases "heap_base h + heap_size h < ?q")
    case True
    then show ?thesis using q lim by (simp add: raw_alloc_def align word_less_nat_alt)
  next
    case False
    then have le: "unat ?q \<le> unat (heap_base h) + unat (heap_size h)"
      using lim by (simp add: word_less_nat_alt)
    obtain k where k: "grow = k * page_bytes" using dvd by (metis dvdE mult.commute)
    have pq: "page_of h ?q = page_of h (heap_base_ptr h) + k"
    proof -
      have "unat ?q - unat (heap_base h) = unat (heap_base_ptr h) - unat (heap_base h) + k * page_bytes"
        using q k S by linarith
      then show ?thesis by (simp add: page_of_def)
    qed
    moreover have "page_of h ?q \<le> length (heap_alloc_table h)"
    proof -
      have "unat ?q - unat (heap_base h) \<le> unat (heap_size h)" using le by linarith
      then show ?thesis using S by (simp add: page_of_def div_le_mono)
    qed
    ultimately obtain t where "raw_mark b (heap_base_ptr h) ?q h = Some (h\<lparr>heap_alloc_table := t\<rparr>)"
      "length t = length (heap_alloc_table h)"
      "\<forall>p < length t. hp_bin_index (t ! p) =
         (if page_of h (heap_base_ptr h) \<le> p \<and> p < page_of h ?q then of_nat b else page_bins h ! p)"
      using raw_mark_some [of h "heap_base_ptr h" ?q k b] q k S by auto
    with False align le q dvd S show ?thesis
      by (intro disjI2 exI [of _ t] exI [of _ ?q]) (simp add: raw_alloc_def)
  qed
qed

lemma raw_run_bounds:
  assumes b: "b < bin_count" and p: "page_bytes dvd unat p"
    and n: "unat n * bin_size b = max page_bytes (bin_size b)"
    and lim: "unat p + max page_bytes (bin_size b) < 2 ^ 32" and a: "a \<in> raw_run b p n"
  shows "unat p \<le> unat a \<and> unat a + bin_size b \<le> unat p + max page_bytes (bin_size b) \<and>
    min (bin_size b) page_bytes dvd unat a \<and> (\<exists>i. unat a = unat p + i * bin_size b)"
proof -
  obtain i where i: "i < unat n" "a = p + of_nat (i * bin_size b)" using a by (auto simp: raw_run_def)
  have "Suc i * bin_size b \<le> unat n * bin_size b" using i(1) by (intro mult_le_mono1) simp
  then have ib: "i * bin_size b + bin_size b \<le> max page_bytes (bin_size b)" by (simp add: n)
  then have "unat (of_nat (i * bin_size b) :: addr_t) = i * bin_size b"
    using lim by (intro unat_of_nat_small) linarith
  then have ua: "unat a = unat p + i * bin_size b"
    unfolding i(2) using lim ib by (subst unat_add_small) linarith+
  have "min (bin_size b) page_bytes dvd i * bin_size b"
    using bin_table_nth(5) [OF b] by (auto simp: min_def)
  moreover have "min (bin_size b) page_bytes dvd unat p"
    using p bin_table_nth(4) [OF b] by (cases "bin_size b = page_bytes") (auto simp: min_def intro: dvd_trans)
  ultimately show ?thesis using ua ib by auto
qed

lemma grow_run_size:
  assumes "heap_static h" "b < bin_count"
  shows "unat (hb_grow_size (heap_bins h ! b) div hb_element_size (heap_bins h ! b)) * bin_size b
    = max page_bytes (bin_size b)"
proof -
  have "bin_size b dvd max page_bytes (bin_size b)"
    using bin_table_nth(4) [OF assms(2)] by (cases "bin_size b < page_bytes") (auto simp: max_def)
  then show ?thesis using heap_static_bin [OF assms] by (simp add: unat_div)
qed

lemma raw_run_spans:
  assumes b: "b < bin_count" and p: "page_bytes dvd unat p"
    and n: "unat n * bin_size b = max page_bytes (bin_size b)"
    and lim: "unat p + max page_bytes (bin_size b) < 2 ^ 32"
    and a: "a \<in> raw_run b p n" "a' \<in> raw_run b p n" "a \<noteq> a'"
  shows "span (b, a) \<inter> span (b, a') = {}"
proof -
  obtain i j where ij: "unat a = unat p + i * bin_size b" "unat a' = unat p + j * bin_size b"
    using raw_run_bounds [OF b p n lim a(1)] raw_run_bounds [OF b p n lim a(2)] by blast
  with a(3) have "i \<noteq> j" by (metis word_unat_eq_iff)
  then consider "Suc i \<le> j" | "Suc j \<le> i" by linarith
  then have "Suc i * bin_size b \<le> j * bin_size b \<or> Suc j * bin_size b \<le> i * bin_size b"
    by (metis mult_le_mono1)
  then show ?thesis by (auto simp: span_def ij)
qed

text \<open>The chunks carved before and the fresh ones, after fresh pages were marked.\<close>

lemma grow_chunk_ok:
  assumes st: "heap_static h" and b: "b < bin_count"
    and t: "length t = length (heap_alloc_table h)"
      "\<forall>p < length t. hp_bin_index (t ! p) =
         (if page_of h (heap_base_ptr h) \<le> p \<and> p < page_of h q then of_nat b else page_bins h ! p)"
    and q: "unat q = unat (heap_base_ptr h) + max page_bytes (bin_size b)"
      "unat q \<le> unat (heap_base h) + unat (heap_size h)" "page_bytes dvd unat q"
    and h': "heap_base h' = heap_base h" "heap_base_ptr h' = q" "heap_alloc_table h' = t"
  shows "chunk_ok h c \<Longrightarrow> chunk_ok h' c"
    "unat (heap_base_ptr h) \<le> unat a \<Longrightarrow> unat a + bin_size b \<le> unat q \<Longrightarrow>
      min (bin_size b) page_bytes dvd unat a \<Longrightarrow> chunk_ok h' (b, a)"
proof -
  note S = st [unfolded heap_static_def]
  have po: "page_of h' x = page_of h x" for x by (simp add: page_of_def h')
  have below: "page_of h x + i < page_of h r"
    if "unat (heap_base h) \<le> unat x" "unat x + bin_size d \<le> unat r" "page_bytes dvd unat r"
      "d < bin_count" "i < chunk_pages d" for x r d i
    using chunk_page_below [of h "unat r" d x i] that S by (simp add: page_of_def)
  have len: "page_of h q \<le> length t"
    using q(2) S t(1) by (simp add: page_of_def div_le_mono)
  have mono: "page_of h x \<le> page_of h y" if "unat x \<le> unat y" for x y
    using that by (simp add: page_of_def div_le_mono)
  show "chunk_ok h' c" if c: "chunk_ok h c"
  proof -
    have "page_bins h' ! (page_of h' (snd c) + i) = of_nat (fst c)" if i: "i < chunk_pages (fst c)" for i
    proof -
      have "page_of h (snd c) + i < page_of h (heap_base_ptr h)"
        using c i S by (intro below [where d = "fst c"]) (auto simp: chunk_ok_def)
      moreover have "page_of h (heap_base_ptr h) \<le> length t" using len mono [of "heap_base_ptr h" q] q(1) by linarith
      ultimately show ?thesis using t(2) c i by (simp add: page_bins_def [of h'] h' po chunk_ok_def)
    qed
    then show ?thesis using c q(1) by (simp add: chunk_ok_def h' po)
  qed
  show "chunk_ok h' (b, a)" if a: "unat (heap_base_ptr h) \<le> unat a" "unat a + bin_size b \<le> unat q"
    "min (bin_size b) page_bytes dvd unat a"
  proof -
    have "page_bins h' ! (page_of h' a + i) = of_nat b" if i: "i < chunk_pages b" for i
    proof -
      have "page_of h a + i < page_of h q"
        using a i S b q(3) by (intro below [where d = b]) auto
      moreover have "page_of h (heap_base_ptr h) \<le> page_of h a + i" using mono [OF a(1)] by simp
      ultimately show ?thesis using t(2) len by (simp add: page_bins_def [of h'] h' po)
    qed
    then show ?thesis using a b S by (simp add: chunk_ok_def h' po)
  qed
qed

lemma raw_fill_inv:
  assumes inv: "heap_inv h F A" and b: "b < bin_count" and n0: "hb_raw_count (heap_bins h ! b) = 0"
    and t: "length t = length (heap_alloc_table h)"
      "\<forall>p < length t. hp_bin_index (t ! p) =
         (if page_of h (heap_base_ptr h) \<le> p \<and> p < page_of h q then of_nat b else page_bins h ! p)"
    and q: "unat q = unat (heap_base_ptr h) + max page_bytes (bin_size b)"
      "unat q \<le> unat (heap_base h) + unat (heap_size h)" "page_bytes dvd unat q"
  shows "heap_inv (bin_update b (\<lambda>x. x\<lparr>hb_raw_list := heap_base_ptr h,
      hb_raw_count := hb_grow_size x div hb_element_size x\<rparr>)
    (h\<lparr>heap_alloc_table := t, heap_base_ptr := q\<rparr>)) F A" (is "heap_inv ?h F A")
proof -
  have st: "heap_static h" using inv by (simp add: heap_inv_def)
  note S = st [unfolded heap_static_def] and len = heap_static_bin(3) [OF st b]
  let ?p = "heap_base_ptr h" and ?n = "hb_grow_size (heap_bins h ! b) div hb_element_size (heap_bins h ! b)"
  note n = grow_run_size [OF st b]
  have lim: "unat ?p + max page_bytes (bin_size b) < 2 ^ 32" using q S by linarith
  have dvd: "page_bytes dvd unat ?p" using S by blast
  note run = raw_run_bounds [OF b dvd n lim] raw_run_spans [OF b dvd n lim]
  have raw: "raw_chunks ?h b = raw_run b ?p ?n" "raw_chunks h b = {}"
    "\<And>b'. b' \<noteq> b \<Longrightarrow> raw_chunks ?h b' = raw_chunks h b'"
    using b len n0 by (simp_all add: raw_chunks_def bin_update_def)
  have chunks: "chunks ?h F A = chunks h F A \<union> {b} \<times> raw_run b ?p ?n"
  proof (rule set_eqI)
    fix c :: "nat \<times> addr_t"
    show "c \<in> chunks ?h F A \<longleftrightarrow> c \<in> chunks h F A \<union> {b} \<times> raw_run b ?p ?n"
      using b raw by (cases c; cases "fst c = b") (simp_all only: chunks_def mem_Collect_eq Un_iff, auto)
  qed
  have old: "unat (snd c) + bin_size (fst c) \<le> unat ?p" "chunk_ok h c" if "c \<in> chunks h F A" for c
    using inv that by (auto simp: heap_inv_def chunk_ok_def)
  have ok: "\<forall>c \<in> chunks ?h F A. chunk_ok ?h c"
    using grow_chunk_ok [OF st b t q, of ?h] old run(1) q(1) unfolding chunks
    by (auto simp: bin_update_def)
  have old_new: "span c \<inter> span d = {}" if "c \<in> chunks h F A" "d \<in> {b} \<times> raw_run b ?p ?n" for c d
    using old(1) [OF that(1)] run(1) that(2) by (fastforce simp: span_def)
  have spans: "span c \<inter> span d = {}" if "c \<in> chunks ?h F A" "d \<in> chunks ?h F A" "c \<noteq> d" for c d
  proof -
    have "span c \<inter> span d = {}" if "c \<in> chunks h F A" "d \<in> chunks h F A"
      using inv that \<open>c \<noteq> d\<close> by (simp add: heap_inv_def)
    moreover have "span c \<inter> span d = {}" if "c \<in> {b} \<times> raw_run b ?p ?n" "d \<in> {b} \<times> raw_run b ?p ?n"
      using run(2) that \<open>c \<noteq> d\<close> by auto
    ultimately show ?thesis
      using that(1,2) old_new [of c d] old_new [of d c] unfolding chunks Un_iff by (metis Int_commute)
  qed
  have fresh: "a \<notin> raw_run b ?p ?n" if "(b, a) \<in> chunks h F A" for a
    using old(1) [OF that] run(1) [of a] bin_table_nth(2) [OF b] by fastforce
  have "bin_ok ?h F A b'" if "b' < bin_count" for b'
  proof (cases "b' = b")
    case True
    have "bin_ok h F A b" using inv b by (simp add: heap_inv_def)
    moreover have "\<forall>a \<in> raw_run b ?p ?n. (b, a) \<notin> A" "\<forall>a \<in> set (F b). a \<notin> raw_run b ?p ?n"
      using fresh b by (auto simp: chunks_def)
    ultimately show ?thesis using True b len n by (simp add: bin_ok_def raw) (simp add: bin_update_def)
  next
    case False
    then show ?thesis using inv that by (simp add: heap_inv_def bin_ok_def raw) (simp add: bin_update_def)
  qed
  moreover have "heap_static ?h"
    using S q t(1) b len map_update_same [of b "heap_bins h" hb_element_size]
      map_update_same [of b "heap_bins h" hb_grow_size] by (auto simp: heap_static_def bin_update_def)
  ultimately show ?thesis using inv ok spans by (simp add: heap_inv_def)
qed

section \<open>Allocation and release keep the layout\<close>

lemma find_bin_le: "find_bin sz bs \<le> length bs"
  by (induction bs) simp_all

lemma find_bin_fits: "find_bin sz bs < length bs \<Longrightarrow> sz \<le> hb_element_size (bs ! find_bin sz bs)"
  by (induction bs) (auto split: if_splits)

lemma find_bin_none: "find_bin sz bs = length bs \<longleftrightarrow> (\<forall>b \<in> set bs. \<not> sz \<le> hb_element_size b)"
  by (induction bs) auto

lemma find_bin_least: "i < length bs \<Longrightarrow> sz \<le> hb_element_size (bs ! i) \<Longrightarrow> find_bin sz bs \<le> i"
proof (induction bs arbitrary: i)
  case (Cons b bs)
  then show ?case by (cases i) auto
qed simp

lemma find_bin_cong: "map hb_element_size bs = map hb_element_size bs' \<Longrightarrow> find_bin sz bs = find_bin sz bs'"
proof (induction bs arbitrary: bs')
  case (Cons b bs)
  then obtain c cs where "bs' = c # cs" by (cases bs') auto
  with Cons show ?case by simp
qed simp

lemma bins_sizes: "map hb_element_size bins = map fst bin_table" "map hb_grow_size bins = map snd bin_table"
  by (simp_all add: bins_def heap_bin_init_def comp_def)

lemma find_bin_static: "heap_static h \<Longrightarrow> find_bin sz (heap_bins h) = find_bin sz bins"
  by (rule find_bin_cong) (simp add: heap_static_def bins_sizes)

text \<open>Requests of up to a page are served from the bins of up to a page.\<close>

lemma find_bin_page:
  assumes "sz \<le> PAGE_SIZE"
  shows "find_bin sz bins < bin_count" "bin_size (find_bin sz bins) \<le> page_bytes"
proof -
  have "hb_element_size (bins ! 8) = PAGE_SIZE"
    by (simp add: bins_def bin_table_def heap_bin_init_def PAGE_SIZE_def)
  then have "find_bin sz bins \<le> 8" using assms find_bin_least [of 8 bins sz] by (simp add: bins_def)
  moreover have "list_all (\<lambda>e. unat (fst e) \<le> page_bytes) (take 9 bin_table)"
    by (simp add: bin_table_def page_bytes_def PAGE_SIZE_def)
  ultimately show "find_bin sz bins < bin_count" "bin_size (find_bin sz bins) \<le> page_bytes"
    by (auto simp: list_all_length bin_size_def)
qed

lemma find_bin_too_much:
  assumes "heap_static h"
  shows "find_bin sz (heap_bins h) = bin_count \<longleftrightarrow> 0x18000 < sz"
proof -
  have len: "length (heap_bins h) = bin_count" using heap_static_bin(3) [OF assms, of 0] by simp
  have "(\<forall>b \<in> set (heap_bins h). \<not> sz \<le> hb_element_size b) \<longleftrightarrow>
      (\<forall>e \<in> set (map hb_element_size (heap_bins h)). \<not> sz \<le> e)" by simp
  also have "\<dots> \<longleftrightarrow> (\<forall>e \<in> set (map fst bin_table). \<not> sz \<le> e)"
    using assms by (simp only: heap_static_def)
  also have "\<dots> \<longleftrightarrow> 0x18000 < sz"
  proof
    assume "\<forall>e \<in> set (map fst bin_table). \<not> sz \<le> e"
    moreover have "0x18000 \<in> set (map fst bin_table)" by (simp add: bin_table_def)
    ultimately show "0x18000 < sz" by force
  next
    assume "0x18000 < sz"
    moreover have "\<forall>e \<in> set (map fst bin_table). e \<le> 0x18000"
      using bin_table_entries by (auto simp: list_all_iff word_le_nat_alt)
    ultimately show "\<forall>e \<in> set (map fst bin_table). \<not> sz \<le> e" by force
  qed
  finally show ?thesis using find_bin_none [of sz "heap_bins h"] len by simp
qed

lemma free_chain_null: "free_chain m p xs \<Longrightarrow> p = 0 \<longleftrightarrow> xs = []"
  by (cases xs) auto

text \<open>The counting of page references succeeds for every chunk.\<close>

lemma kmalloc_pages_counted:
  assumes inv: "heap_inv h F A" and c: "(b, a) \<in> chunks h F A" and b: "b < bin_count"
  shows "\<exists>h'. dec_pages (0 # [1 ..< unat (hb_element_size (heap_bins h ! b) div PAGE_SIZE)])
      (page_index h a) h = Some h' \<and> heap_inv h' F A"
proof -
  have st: "heap_static h" and ok: "chunk_ok h (b, a)" using inv c by (auto simp: heap_inv_def)
  then have "\<forall>i \<in> set (0 # [1 ..< unat (hb_element_size (heap_bins h ! b) div PAGE_SIZE)]).
      page_index h a + i < length (heap_alloc_table h)"
    using chunk_page_less [OF st ok] chunk_page_less [OF st ok, of 0] heap_static_bin(1) [OF st b]
    by (auto simp: page_index_eq chunk_ok_def chunk_pages_def unat_div)
  from dec_pages_some [OF this] heap_inv_pages [OF inv] show ?thesis by blast
qed

lemma raw_fill_some:
  assumes inv: "heap_inv h F A" and b: "b < bin_count"
  shows "raw_fill b h = Some (Inl Heap_Overgrew) \<or>
    (\<exists>h1. raw_fill b h = Some (Inr h1) \<and> heap_inv h1 F A \<and> hb_raw_count (heap_bins h1 ! b) \<noteq> 0)"
proof (cases "hb_raw_count (heap_bins h ! b) = 0")
  case True
  have st: "heap_static h" using inv by (simp add: heap_inv_def)
  have count: "hb_grow_size (heap_bins h ! b) div hb_element_size (heap_bins h ! b) \<noteq> 0"
    using grow_run_size [OF st b] bin_table_nth(2) [OF b] by (metis max_def mult_0 not_numeral_le_zero page_bytes_pos(2) unat_0)
  from raw_alloc_some [OF st b] show ?thesis
  proof (elim disjE exE conjE)
    fix t q
    let ?h1 = "bin_update b (\<lambda>x. x\<lparr>hb_raw_list := heap_base_ptr h,
      hb_raw_count := hb_grow_size x div hb_element_size x\<rparr>) (h\<lparr>heap_alloc_table := t, heap_base_ptr := q\<rparr>)"
    assume alloc: "raw_alloc (hb_grow_size (heap_bins h ! b)) b h =
        Some (Inr (h\<lparr>heap_alloc_table := t, heap_base_ptr := q\<rparr>, heap_base_ptr h))"
      and "unat q = unat (heap_base_ptr h) + max page_bytes (bin_size b)"
        "unat q \<le> unat (heap_base h) + unat (heap_size h)" "page_bytes dvd unat q"
        "length t = length (heap_alloc_table h)"
        "\<forall>p < length t. hp_bin_index (t ! p) =
           (if page_of h (heap_base_ptr h) \<le> p \<and> p < page_of h q then of_nat b else page_bins h ! p)"
    then have "heap_inv ?h1 F A" by (intro raw_fill_inv [OF inv b True])
    moreover have "raw_fill b h = Some (Inr ?h1)" using alloc True by (simp add: raw_fill_def)
    ultimately show ?thesis using b heap_static_bin(3) [OF st b] count by (simp add: bin_update_def)
  qed (use True in \<open>simp add: raw_fill_def\<close>)
next
  case False
  then show ?thesis using inv by (simp add: raw_fill_def)
qed

lemma kmalloc_take:
  assumes inv: "heap_inv h F A" and b: "b < bin_count"
  shows "(hb_free_list (heap_bins h ! b) = 0 \<and> raw_fill b h = Some (Inl Heap_Overgrew)) \<or>
    (\<exists>h2 a F'. (if hb_free_list (heap_bins h ! b) \<noteq> 0 then Some (Inr (take_free b h))
        else (case raw_fill b h of None \<Rightarrow> None | Some (Inl e) \<Rightarrow> Some (Inl e)
              | Some (Inr h1) \<Rightarrow> Some (Inr (take_raw b h1)))) = Some (Inr (h2, a)) \<and>
      heap_inv (bin_update b (\<lambda>x. x\<lparr>hb_alloc_count := hb_alloc_count x + 1\<rparr>) h2) F' (insert (b, a) A) \<and>
      (b, a) \<notin> A)"
proof (cases "F b")
  case (Cons a f)
  have "free_chain (heap_mem h) (hb_free_list (heap_bins h ! b)) (F b)"
    using inv b by (simp add: heap_inv_def bin_ok_def)
  then have "hb_free_list (heap_bins h ! b) \<noteq> 0" using Cons by auto
  with heap_inv_take_free [OF inv b Cons] show ?thesis
    by (intro disjI2 exI [of _ "fst (take_free b h)"] exI [of _ a] exI [of _ "F(b := f)"])
      (auto simp: prod_eq_iff)
next
  case Nil
  have "free_chain (heap_mem h) (hb_free_list (heap_bins h ! b)) (F b)"
    using inv b by (simp add: heap_inv_def bin_ok_def)
  then have free0: "hb_free_list (heap_bins h ! b) = 0" using Nil by simp
  from raw_fill_some [OF inv b] show ?thesis
  proof
    assume "\<exists>h1. raw_fill b h = Some (Inr h1) \<and> heap_inv h1 F A \<and> hb_raw_count (heap_bins h1 ! b) \<noteq> 0"
    then obtain h1 where h1: "raw_fill b h = Some (Inr h1)" "heap_inv h1 F A"
      "hb_raw_count (heap_bins h1 ! b) \<noteq> 0" by blast
    with heap_inv_take_raw [OF h1(2) b h1(3)] free0 show ?thesis
      by (intro disjI2 exI [of _ "fst (take_raw b h1)"] exI [of _ "snd (take_raw b h1)"] exI [of _ F])
        (auto simp: prod_eq_iff)
  qed (use free0 in simp)
qed

lemma kmalloc_cases:
  assumes inv: "heap_inv h F A"
  shows "(0x18000 < sz \<and> kmalloc sz h = Some (Inl Kmalloc_Too_Much)) \<or>
    (sz \<le> 0x18000 \<and> kmalloc sz h = Some (Inl Heap_Overgrew)) \<or>
    (sz \<le> 0x18000 \<and> (\<exists>h' a F' b. kmalloc sz h = Some (Inr (h', a)) \<and> b = find_bin sz bins \<and>
       heap_inv h' F' (insert (b, a) A) \<and> (b, a) \<notin> A \<and> unat sz \<le> bin_size b))"
proof -
  have st: "heap_static h" using inv by (simp add: heap_inv_def)
  have len: "length (heap_bins h) = bin_count" using heap_static_bin(3) [OF st, of 0] by simp
  let ?b = "find_bin sz (heap_bins h)"
  show ?thesis
  proof (cases "0x18000 < sz")
    case True
    then have "?b = bin_count" using find_bin_too_much [OF st] by simp
    then show ?thesis using True len by (simp add: kmalloc_def)
  next
    case False
    then have b: "?b < bin_count"
      using find_bin_too_much [OF st, of sz] find_bin_le [of sz "heap_bins h"] len by simp
    then have fits: "unat sz \<le> bin_size ?b"
      using find_bin_fits [of sz "heap_bins h"] heap_static_bin(1) [OF st b] len by (simp add: word_le_nat_alt)
    from kmalloc_take [OF inv b] show ?thesis
    proof (elim disjE exE conjE)
      assume "hb_free_list (heap_bins h ! ?b) = 0" "raw_fill ?b h = Some (Inl Heap_Overgrew)"
      then show ?thesis using False b len by (simp add: kmalloc_def)
    next
      fix h2 a F'
      let ?h3 = "bin_update ?b (\<lambda>x. x\<lparr>hb_alloc_count := hb_alloc_count x + 1\<rparr>) h2"
      assume take: "(if hb_free_list (heap_bins h ! ?b) \<noteq> 0 then Some (Inr (take_free ?b h))
        else (case raw_fill ?b h of None \<Rightarrow> None | Some (Inl e) \<Rightarrow> Some (Inl e)
              | Some (Inr h1) \<Rightarrow> Some (Inr (take_raw ?b h1)))) = Some (Inr (h2, a))"
        and inv3: "heap_inv ?h3 F' (insert (?b, a) A)" and new: "(?b, a) \<notin> A"
      have "(?b, a) \<in> chunks ?h3 F' (insert (?b, a) A)" by (simp add: chunks_def)
      from kmalloc_pages_counted [OF inv3 this b] obtain h' where
        "dec_pages (0 # [1 ..< unat (hb_element_size (heap_bins ?h3 ! ?b) div PAGE_SIZE)])
          (page_index ?h3 a) ?h3 = Some h'" "heap_inv h' F' (insert (?b, a) A)" by blast
      moreover from this(1) have "kmalloc sz h = Some (Inr (h', a))"
        using take b len by (simp only: kmalloc_def Let_def option.case sum.case prod.case) simp
      ultimately show ?thesis using False fits new find_bin_static [OF st, of sz] by (auto simp: not_less)
    qed
  qed
qed

lemma on_free_list_chain: "free_chain m p xs \<Longrightarrow> on_free_list m p a = Some (a \<in> set xs)"
proof (induction xs arbitrary: p)
  case (Cons x xs)
  then show ?case by (subst on_free_list.simps) auto
qed (simp add: on_free_list.simps)

text \<open>What \<^verbatim>\<open>kfree\<close> finds when it is given a chunk of the heap.\<close>

lemma kfree_chunk:
  assumes inv: "heap_inv h F A" and c: "(b, a) \<in> chunks h F A"
  shows "\<exists>t. map hp_bin_index t = page_bins h \<and> a \<noteq> 0 \<and> b < bin_count \<and>
    kfree a h = (if a \<in> set (F b) then Some (Inl Kfree_Already_Free)
      else Some (Inr (bin_update b
        (\<lambda>x. x\<lparr>hb_free_list := a, hb_alloc_count := hb_alloc_count x - 1, hb_free_count := hb_free_count x + 1\<rparr>)
        (h\<lparr>heap_alloc_table := t, heap_mem := (mem_wipe a (hb_element_size (heap_bins h ! b)) (heap_mem h))
           (a := hb_free_list (heap_bins h ! b))\<rparr>))))"
proof -
  have st: "heap_static h" and ok: "chunk_ok h (b, a)" using inv c by (auto simp: heap_inv_def)
  note S = st [unfolded heap_static_def] and C = ok [unfolded chunk_ok_def, simplified]
  have b: "b < bin_count" using C by simp
  note es = heap_static_bin(1) [OF st b] and len = heap_static_bin(3) [OF st b]
  have a0: "a \<noteq> 0" using C S by (metis le_zero_eq unat_0 unat_eq_zero)
  have lim: "unat (heap_base h + heap_size h) = unat (heap_base h) + unat (heap_size h)"
    using S by (intro unat_add_small) linarith
  have range: "\<not> a < heap_base h" "\<not> heap_base h + heap_size h \<le> a"
    using C S bin_table_nth(2) [OF b] lim by (auto simp: word_less_nat_alt word_le_nat_alt)
  have page: "page_index h a = page_of h a" using C by (intro page_index_eq) simp
  have less: "page_of h a + i < length (heap_alloc_table h)" if "i < chunk_pages b" for i
    using chunk_page_less [OF st ok that] .
  have pos: "0 < chunk_pages b" by (simp add: chunk_pages_def)
  have "page_bins h ! page_of h a = of_nat b" using C pos by (metis add.right_neutral)
  then have bi: "unat (hp_bin_index (heap_alloc_table h ! page_of h a)) = b"
    using less [OF pos] b by (simp add: page_bins_def unat_of_nat take_bit_nat_eq_self)
  have align: "hb_element_size (heap_bins h ! b) \<le> PAGE_SIZE \<Longrightarrow> a mod hb_element_size (heap_bins h ! b) = 0"
    using C es by (simp add: word_le_nat_alt unat_mod word_unat_eq_iff min_def dvd_eq_mod_eq_0)
  have "\<exists>t. inc_pages [0 ..< unat (hb_element_size (heap_bins h ! b) div PAGE_SIZE)] (page_of h a) h
      = Some (Inr (h\<lparr>heap_alloc_table := t\<rparr>)) \<and> map hp_bin_index t = page_bins h"
    using less C es less [OF pos] \<open>page_bins h ! page_of h a = of_nat b\<close>
    by (intro inc_pages_some) (auto simp: unat_div chunk_pages_def)
  moreover have "on_free_list (heap_mem h) (hb_free_list (heap_bins h ! b)) a = Some (a \<in> set (F b))"
    using inv b by (intro on_free_list_chain) (simp add: heap_inv_def bin_ok_def)
  ultimately show ?thesis
    using a0 range page less [OF pos] bi b len align
    by (auto simp: kfree_def Let_def bin_update_def)
qed

lemma kfree_inv:
  assumes inv: "heap_inv h F A" and A: "(b, a) \<in> A"
  shows "\<exists>h'. kfree a h = Some (Inr h') \<and> heap_inv h' (F(b := a # F b)) (A - {(b, a)})"
proof -
  have c: "(b, a) \<in> chunks h F A" using A by (simp add: chunks_def)
  from kfree_chunk [OF inv c] obtain t where t: "map hp_bin_index t = page_bins h" "a \<noteq> 0" "b < bin_count" and
    kf: "kfree a h = (if a \<in> set (F b) then Some (Inl Kfree_Already_Free)
      else Some (Inr (bin_update b
        (\<lambda>x. x\<lparr>hb_free_list := a, hb_alloc_count := hb_alloc_count x - 1, hb_free_count := hb_free_count x + 1\<rparr>)
        (h\<lparr>heap_alloc_table := t, heap_mem := (mem_wipe a (hb_element_size (heap_bins h ! b)) (heap_mem h))
           (a := hb_free_list (heap_bins h ! b))\<rparr>))))" by blast
  let ?m = "(mem_wipe a (hb_element_size (heap_bins h ! b)) (heap_mem h)) (a := hb_free_list (heap_bins h ! b))"
  let ?h1 = "h\<lparr>heap_alloc_table := t, heap_mem := ?m\<rparr>" and ?x = "heap_bins h ! b"
  let ?B = "?x\<lparr>hb_free_list := a, hb_alloc_count := hb_alloc_count ?x - 1, hb_free_count := hb_free_count ?x + 1\<rparr>"
  have st: "heap_static h" and ok: "bin_ok h F A b" and fin: "finite A"
    using inv t(3) by (auto simp: heap_inv_def)
  note es = heap_static_bin(1) [OF st t(3)] and len = heap_static_bin(3) [OF st t(3)]
  have nf: "a \<notin> set (F b)" using ok A by (auto simp: bin_ok_def)
  have m: "?m y = heap_mem h y" if b': "b' < bin_count" and y: "y \<in> set (F b')" for b' y
  proof -
    have "(b', y) \<in> chunks h F A" "(b', y) \<noteq> (b, a)" using b' y nf by (auto simp: chunks_def)
    then have "span (b', y) \<inter> span (b, a) = {}" using inv c by (simp add: heap_inv_def)
    moreover have "unat y \<in> span (b', y)" using bin_table_nth(2) [OF b'] by (simp add: span_def)
    ultimately have "unat y \<notin> span (b, a)" by blast
    then show ?thesis using bin_table_nth(2) [OF t(3)] es by (auto simp: mem_wipe_def span_def)
  qed
  have inv1: "heap_inv ?h1 F A"
    using heap_inv_mem [OF heap_inv_pages [OF inv t(1)], of ?m] m by simp
  have chain: "free_chain ?m (hb_free_list ?x) (F b)"
    using ok m t(3) free_chain_cong [of "F b" ?m "heap_mem h"] by (simp add: bin_ok_def)
  have "card {x. x = a \<or> (b, x) \<in> A - {(b, a)}} = Suc (card {x. (b, x) \<in> A - {(b, a)}})"
    using fin by (intro card_insert_bin) simp_all
  moreover have "{x. x = a \<or> (b, x) \<in> A - {(b, a)}} = {x. (b, x) \<in> A}" using A by auto
  ultimately have card: "card {x. (b, x) \<in> A} = Suc (card {x. (b, x) \<in> A - {(b, a)}})" by simp
  have "bin_ok (?h1\<lparr>heap_bins := (heap_bins ?h1)[b := ?B]\<rparr>) (F(b := a # F b)) (A - {(b, a)}) b"
    using ok A t chain nf card len by (auto simp: bin_ok_def raw_chunks_def)
  then have "heap_inv (?h1\<lparr>heap_bins := (heap_bins ?h1)[b := ?B]\<rparr>) (F(b := a # F b)) (A - {(b, a)})"
    using fin A t(3) by (intro heap_inv_bin_change [OF inv1 t(3)])
      (auto simp: chunks_def raw_chunks_def nth_list_update len split: if_splits)
  then show ?thesis using kf nf by (simp add: bin_update_def)
qed

lemma heap_inv_write:
  assumes inv: "heap_inv h F A" and A: "(b, a) \<in> A" and x: "unat x \<in> span (b, a)"
  shows "heap_inv (h\<lparr>heap_mem := (heap_mem h)(x := v)\<rparr>) F A"
proof (rule heap_inv_mem [OF inv], intro allI impI ballI)
  fix b' y assume b': "b' < bin_count" and y: "y \<in> set (F b')"
  have c: "(b, a) \<in> chunks h F A" "(b', y) \<in> chunks h F A" using A b' y by (auto simp: chunks_def)
  moreover have "(b', y) \<noteq> (b, a)"
    using inv b' y A by (auto simp: heap_inv_def bin_ok_def)
  ultimately have "span (b', y) \<inter> span (b, a) = {}" using inv by (simp add: heap_inv_def)
  moreover have "unat y \<in> span (b', y)" using bin_table_nth(2) [OF b'] by (simp add: span_def)
  ultimately have "y \<noteq> x" using x by auto
  then show "((heap_mem h)(x := v)) y = heap_mem h y" by simp
qed

section \<open>The initial heap\<close>

text \<open>
  The page table, one entry of two bytes per heap page, and the heap itself fit the area the
  caller gives: \<open>unat new_heap_size * 2048 div 2049\<close>, rounded down to whole pages, leaves room.
\<close>

lemma heap_init_size:
  "unat (heap_size (heap_init m nb ns)) = unat ns * 2048 div 2049 div page_bytes * page_bytes"
proof -
  have "unat ns * 2048 < 2 ^ 64" using unat_lt32 [of ns] by simp
  then have "unat (ucast ns * 2048 :: uint64) = unat ns * 2048"
    by (simp add: unat_word_ariths unsigned_ucast_eq take_bit_nat_eq_self)
  then have s: "unat ((ucast ns * 2048) div 2049 :: uint64) = unat ns * 2048 div 2049"
    by (simp add: unat_div)
  have low: "unat ns * 2048 div 2049 < 2 ^ 32" using unat_lt32 [of ns] by (simp add: div_less_iff_less_mult)
  have "ucast (x AND ucast PAGE_MASK) = (ucast x :: 32 word) AND PAGE_MASK" for x :: uint64
    by (rule bit_word_eqI) (simp add: bit_simps)
  moreover have "unat (ucast x :: 32 word) = unat x" if "unat x < 2 ^ 32" for x :: uint64
    using that by (simp add: unsigned_ucast_eq take_bit_nat_eq_self)
  ultimately show ?thesis
    using s low by (simp add: heap_init_def Let_def PAGE_SIZE_def PAGE_MASK_div)
qed

lemma heap_area_fits:
  fixes K N :: nat
  assumes "K = N * page_bytes * 2048 div 2049 div page_bytes"
  shows "(K * page_bytes div 2048 + page_bytes - 1) div page_bytes * page_bytes + K * page_bytes \<le> N * page_bytes"
    "2 * K \<le> (K * page_bytes div 2048 + page_bytes - 1) div page_bytes * page_bytes"
proof -
  have "K * page_bytes \<le> N * page_bytes * 2048 div 2049" unfolding assms by (rule div_times_less_eq_dividend)
  then have "K * page_bytes * 2049 \<le> N * page_bytes * 2048"
    by (metis div_times_less_eq_dividend mult_le_mono1 order_trans)
  then have KN: "K * 2049 \<le> N * 2048" by (simp add: page_bytes_def)
  have two: "K * page_bytes div 2048 = 2 * K" by (simp add: page_bytes_def)
  define C where "C = (2 * K + 4095) div 4096"
  have C: "C * 4096 \<le> 2 * K + 4095" "2 * K \<le> C * 4096"
    using mult_div_mod_eq [of 4096 "2 * K + 4095"] mod_less_divisor [of 4096 "2 * K + 4095"]
    unfolding C_def [symmetric] by linarith+
  have pC: "(2 * K + page_bytes - 1) div page_bytes = C" by (simp add: page_bytes_def C_def)
  from C(1) KN have "C + K \<le> N" by linarith
  then show "(K * page_bytes div 2048 + page_bytes - 1) div page_bytes * page_bytes + K * page_bytes \<le> N * page_bytes"
    unfolding two pC by (metis add_mult_distrib mult_le_mono1)
  show "2 * K \<le> (K * page_bytes div 2048 + page_bytes - 1) div page_bytes * page_bytes"
    unfolding two pC using C(2) by (simp add: page_bytes_def)
qed

lemma heap_init_layout:
  fixes m :: "addr_t \<Rightarrow> uint32"
  assumes "page_bytes dvd unat ns" "unat nb + unat ns + 0x18000 < 2 ^ 32"
  defines "h \<equiv> heap_init m nb ns"
  shows "unat (heap_base h) + unat (heap_size h) \<le> unat nb + unat ns"
    "unat nb + 2 * length (heap_alloc_table h) \<le> unat (heap_base h)"
    "page_bytes dvd unat nb \<Longrightarrow> page_bytes dvd unat (heap_base h)"
    "length (heap_alloc_table h) = unat (heap_size h) div page_bytes"
proof -
  obtain N where N: "unat ns = N * page_bytes" using assms(1) by (metis dvdE mult.commute)
  define K where "K = N * page_bytes * 2048 div 2049 div page_bytes"
  have sz: "unat (heap_size h) = K * page_bytes" by (simp add: h_def heap_init_size N K_def)
  note fits = heap_area_fits [OF K_def]
  have "PAGE_SIZE div 2 = 2048" by (simp add: PAGE_SIZE_def)
  then have base: "heap_base h = nb + PAGE_ALIGN (heap_size h div 2048)"
    by (simp add: h_def heap_init_def Let_def)
  have "unat (heap_size h div 2048) = K * page_bytes div 2048" by (simp add: unat_div sz)
  moreover have "K * page_bytes div 2048 + page_bytes \<le> 2 ^ 32"
    using fits assms(2) N by (simp add: page_bytes_def)
  ultimately have align: "unat (PAGE_ALIGN (heap_size h div 2048))
      = (K * page_bytes div 2048 + page_bytes - 1) div page_bytes * page_bytes"
    using PAGE_ALIGN_unat [of "heap_size h div 2048"] by simp
  have ub: "unat (heap_base h) = unat nb + (K * page_bytes div 2048 + page_bytes - 1) div page_bytes * page_bytes"
    unfolding base using fits(1) assms(2) N align by (subst unat_add_small) linarith+
  show "unat (heap_base h) + unat (heap_size h) \<le> unat nb + unat ns"
    unfolding ub sz N using fits(1) by linarith
  show len: "length (heap_alloc_table h) = unat (heap_size h) div page_bytes"
    by (simp add: h_def heap_init_def Let_def unat_div)
  show "unat nb + 2 * length (heap_alloc_table h) \<le> unat (heap_base h)"
    unfolding len sz ub using fits(2) by simp
  show "page_bytes dvd unat (heap_base h)" if "page_bytes dvd unat nb"
    unfolding ub using that by simp
qed

lemma heap_init_inv:
  assumes "page_bytes dvd unat nb" "page_bytes dvd unat ns" "nb \<noteq> 0" "unat nb + unat ns + 0x18000 < 2 ^ 32"
  shows "heap_inv (heap_init m nb ns) (\<lambda>_. []) {}"
proof -
  let ?h = "heap_init m nb ns"
  note L = heap_init_layout [OF assms(2,4), of m]
  have f: "heap_bins ?h = bins" "heap_base_ptr ?h = heap_base ?h" by (simp_all add: heap_init_def Let_def)
  note bins_sizes
  moreover have "0 < unat (heap_base ?h)" using L(2) assms(3) by (metis add_leE le_zero_eq neq0_conv unat_eq_zero)
  moreover have "page_bytes dvd unat (heap_size ?h)" by (simp add: heap_init_size)
  ultimately have "heap_static ?h"
    using L assms by (auto simp: heap_static_def f)
  moreover have "bins ! b = heap_bin_init (bin_table ! b)" if "b < bin_count" for b
    using that by (simp add: bins_def)
  ultimately show ?thesis
    by (auto simp: heap_inv_def bin_ok_def chunks_def raw_chunks_def f heap_bin_init_def)
qed

section \<open>Clients of the heap\<close>

text \<open>
  A client allocates, releases blocks it holds, and writes words inside blocks it holds; the
  run keeps the blocks it holds with the sizes asked for, and stops at the first request that
  is not of this kind.
\<close>

datatype heap_op = Malloc size_t | Free addr_t | Write addr_t uint32

type_synonym blocks = "(addr_t \<times> size_t) list"

fun heap_legal :: "heap_op \<Rightarrow> blocks \<Rightarrow> bool" where
  "heap_legal (Malloc sz) live = True"
| "heap_legal (Free a) live = (a \<in> fst ` set live)"
| "heap_legal (Write x v) live = (\<exists>(a, sz) \<in> set live. unat a \<le> unat x \<and> unat x + 4 \<le> unat a + unat sz)"

fun heap_step :: "heap_op \<Rightarrow> heap \<times> blocks \<Rightarrow> (heap_panic + heap \<times> blocks) option" where
  "heap_step (Malloc sz) (h, live) =
     (case kmalloc sz h of
        None \<Rightarrow> None | Some (Inl e) \<Rightarrow> Some (Inl e)
      | Some (Inr (h', a)) \<Rightarrow> Some (Inr (h', (a, sz) # live)))"
| "heap_step (Free a) (h, live) =
     (case kfree a h of
        None \<Rightarrow> None | Some (Inl e) \<Rightarrow> Some (Inl e)
      | Some (Inr h') \<Rightarrow> Some (Inr (h', filter (\<lambda>p. fst p \<noteq> a) live)))"
| "heap_step (Write x v) (h, live) = Some (Inr (h\<lparr>heap_mem := (heap_mem h)(x := v)\<rparr>, live))"

fun heap_run :: "heap_op list \<Rightarrow> heap \<times> blocks \<Rightarrow> (heap_panic + heap \<times> blocks) option" where
  "heap_run [] s = Some (Inr s)"
| "heap_run (op # ops) s =
     (if heap_legal op (snd s)
      then (case heap_step op s of
              None \<Rightarrow> None | Some (Inl e) \<Rightarrow> Some (Inl e) | Some (Inr s') \<Rightarrow> heap_run ops s')
      else Some (Inr s))"

definition client_inv :: "heap \<times> blocks \<Rightarrow> bool" where
  "client_inv s \<longleftrightarrow>
     (\<exists>F A. heap_inv (fst s) F A \<and> distinct (map fst (snd s)) \<and>
        (\<forall>p \<in> set (snd s). \<exists>b. b = find_bin (snd p) bins \<and> (b, fst p) \<in> A \<and> unat (snd p) \<le> bin_size b) \<and>
        (\<forall>c \<in> A. snd c \<in> fst ` set (snd s)))"

lemma heap_inv_same_address:
  assumes "heap_inv h F A" "(b, a) \<in> A" "(b', a) \<in> A"
  shows "b = b'"
proof (rule ccontr)
  assume "b \<noteq> b'"
  moreover have "(b, a) \<in> chunks h F A" "(b', a) \<in> chunks h F A" using assms by (auto simp: chunks_def)
  ultimately have "span (b, a) \<inter> span (b', a) = {}" "b < bin_count" "b' < bin_count"
    using assms(1) by (auto simp: heap_inv_def chunk_ok_def)
  moreover from this have "unat a \<in> span (b, a)" "unat a \<in> span (b', a)"
    using bin_table_nth(2) [of b] bin_table_nth(2) [of b'] by (auto simp: span_def)
  ultimately show False by blast
qed

text \<open>No operation moves the heap.\<close>

definition same_area :: "heap \<Rightarrow> heap \<Rightarrow> bool" where
  "same_area h h' \<longleftrightarrow> heap_base h' = heap_base h \<and> heap_size h' = heap_size h"

lemma same_area_simps [simp]:
  "same_area h h" "same_area (bin_update b f h') h = same_area h' h" "same_area h (bin_update b f h') = same_area h h'"
  "same_area h (h'\<lparr>heap_alloc_table := t\<rparr>) = same_area h h'"
  "same_area h (h'\<lparr>heap_base_ptr := q\<rparr>) = same_area h h'"
  "same_area h (h'\<lparr>heap_mem := m\<rparr>) = same_area h h'"
  by (simp_all add: same_area_def bin_update_def)

lemma same_area_trans: "same_area h h' \<Longrightarrow> same_area h' h'' \<Longrightarrow> same_area h h''"
  by (simp add: same_area_def)

lemma page_update_area: "page_update i f h = Some h' \<Longrightarrow> same_area h h'"
  by (auto simp: page_update_def split: if_splits)

lemma raw_mark_area:
  assumes "raw_mark b a q h = Some h'"
  shows "same_area h h'"
proof (rule raw_mark.raw_induct [where P = "\<lambda>b a q h h'. same_area h h'", OF _ assms])
  fix f b a q h h'
  assume IH: "\<And>b a q h h'. f b a q h = Some h' \<Longrightarrow> same_area h h'"
    and "(if a < q then (case page_update (page_index h a) (raw_page h b) h of None \<Rightarrow> None
      | Some h' \<Rightarrow> f b (a + PAGE_SIZE) q h') else Some h) = Some h'"
  then show "same_area h h'"
    by (auto split: if_splits option.splits dest!: IH page_update_area intro: same_area_trans)
qed

lemma dec_pages_area: "dec_pages is p h = Some h' \<Longrightarrow> same_area h h'"
  by (induction "is" arbitrary: h) (auto split: option.splits dest!: page_update_area intro: same_area_trans)

lemma inc_pages_area: "inc_pages is p h = Some (Inr h') \<Longrightarrow> same_area h h'"
  by (induction "is" arbitrary: h)
    (auto split: option.splits if_splits dest!: page_update_area intro: same_area_trans)

lemma raw_fill_area: "raw_fill b h = Some (Inr h') \<Longrightarrow> same_area h h'"
  by (auto simp: raw_fill_def raw_alloc_def Let_def split: if_splits option.splits sum.splits dest: raw_mark_area)

lemma kmalloc_area: "kmalloc sz h = Some (Inr (h', a)) \<Longrightarrow> same_area h h'"
  by (auto simp: kmalloc_def Let_def take_free_def take_raw_def split: if_splits option.splits sum.splits
      dest!: raw_fill_area dec_pages_area intro: same_area_trans simp del: dec_pages.simps)
    (metis same_area_trans)

lemma kfree_area: "kfree a h = Some (Inr h') \<Longrightarrow> same_area h h'"
  by (auto simp: kfree_def Let_def split: if_splits option.splits sum.splits bool.splits dest!: inc_pages_area)

lemma client_malloc:
  assumes inv: "client_inv (h, live)"
  shows "heap_step (Malloc sz) (h, live) \<in> {Some (Inl Heap_Overgrew), Some (Inl Kmalloc_Too_Much)} \<or>
    (\<exists>s'. heap_step (Malloc sz) (h, live) = Some (Inr s') \<and> client_inv s' \<and> same_area h (fst s'))"
proof -
  from inv obtain F A where I: "heap_inv h F A" "distinct (map fst live)"
    "\<forall>p \<in> set live. \<exists>b. b = find_bin (snd p) bins \<and> (b, fst p) \<in> A \<and> unat (snd p) \<le> bin_size b" "\<forall>c \<in> A. snd c \<in> fst ` set live"
    by (auto simp: client_inv_def)
  from kmalloc_cases [OF I(1), of sz] show ?thesis
  proof (elim disjE exE conjE)
    fix h' a F' b
    assume b: "b = find_bin sz bins" and k: "kmalloc sz h = Some (Inr (h', a))" "heap_inv h' F' (insert (b, a) A)" "(b, a) \<notin> A"
      "unat sz \<le> bin_size b"
    have new: "a \<notin> fst ` set live"
    proof
      assume "a \<in> fst ` set live"
      then obtain b' where "(b', a) \<in> A" using I(3) by force
      with heap_inv_same_address [OF k(2), of b a b'] k(3) show False by simp
    qed
    have "client_inv (h', (a, sz) # live)"
      unfolding client_inv_def fst_conv snd_conv
      using I k new b by (intro exI [of _ F'] exI [of _ "insert (b, a) A"]) auto
    with k(1) kmalloc_area [OF k(1)] show ?thesis by simp
  qed simp_all
qed

lemma client_free:
  assumes inv: "client_inv (h, live)" and a: "a \<in> fst ` set live"
  shows "\<exists>s'. heap_step (Free a) (h, live) = Some (Inr s') \<and> client_inv s' \<and> same_area h (fst s')"
proof -
  from inv obtain F A where I: "heap_inv h F A" "distinct (map fst live)"
    "\<forall>p \<in> set live. \<exists>b. b = find_bin (snd p) bins \<and> (b, fst p) \<in> A \<and> unat (snd p) \<le> bin_size b" "\<forall>c \<in> A. snd c \<in> fst ` set live"
    by (auto simp: client_inv_def)
  from I(3) a obtain b where b: "(b, a) \<in> A" by force
  from kfree_inv [OF I(1) b] obtain h' where h': "kfree a h = Some (Inr h')"
    "heap_inv h' (F(b := a # F b)) (A - {(b, a)})" by blast
  let ?live = "filter (\<lambda>p. fst p \<noteq> a) live"
  have "\<forall>p \<in> set ?live. \<exists>b'. b' = find_bin (snd p) bins \<and> (b', fst p) \<in> A - {(b, a)} \<and> unat (snd p) \<le> bin_size b'"
    using I(3) by fastforce
  moreover have "snd c \<in> fst ` set ?live" if "c \<in> A - {(b, a)}" for c
  proof -
    have "snd c \<noteq> a" using that heap_inv_same_address [OF I(1) b, of "fst c"] by (cases c) auto
    then show ?thesis using I(4) that by force
  qed
  ultimately have "client_inv (h', ?live)"
    using h'(2) I(2) unfolding client_inv_def fst_conv snd_conv
    by (intro exI [of _ "F(b := a # F b)"] exI [of _ "A - {(b, a)}"]) (simp add: distinct_map_filter)
  then show ?thesis using h'(1) kfree_area [OF h'(1)] by simp
qed

lemma client_write:
  assumes inv: "client_inv (h, live)" and legal: "heap_legal (Write x v) live"
  shows "\<exists>s'. heap_step (Write x v) (h, live) = Some (Inr s') \<and> client_inv s' \<and> same_area h (fst s')"
proof -
  from inv obtain F A where I: "heap_inv h F A" "distinct (map fst live)"
    "\<forall>p \<in> set live. \<exists>b. b = find_bin (snd p) bins \<and> (b, fst p) \<in> A \<and> unat (snd p) \<le> bin_size b" "\<forall>c \<in> A. snd c \<in> fst ` set live"
    by (auto simp: client_inv_def)
  from legal obtain a sz where a: "(a, sz) \<in> set live" "unat a \<le> unat x" "unat x + 4 \<le> unat a + unat sz"
    by auto
  with I(3) obtain b where b: "(b, a) \<in> A" "unat sz \<le> bin_size b" by force
  then have "unat x \<in> span (b, a)" using a by (auto simp: span_def)
  from heap_inv_write [OF I(1) b(1) this] I(2-4) show ?thesis by (auto simp: client_inv_def)
qed

lemma client_run:
  "client_inv s \<Longrightarrow> heap_run ops s \<in> {Some (Inl Heap_Overgrew), Some (Inl Kmalloc_Too_Much)} \<or>
    (\<exists>s'. heap_run ops s = Some (Inr s') \<and> client_inv s' \<and> same_area (fst s) (fst s'))"
proof (induction ops arbitrary: s)
  case (Cons op ops)
  obtain h live where s: "s = (h, live)" by force
  show ?case
  proof (cases "heap_legal op live")
    case True
    have "heap_step op s \<in> {Some (Inl Heap_Overgrew), Some (Inl Kmalloc_Too_Much)} \<or>
      (\<exists>s'. heap_step op s = Some (Inr s') \<and> client_inv s' \<and> same_area h (fst s'))"
      using client_malloc client_free client_write True Cons.prems unfolding s
      by (cases op) (simp_all only: heap_legal.simps, blast+)
    then show ?thesis using Cons.IH True s by (fastforce intro: same_area_trans)
  next
    case False
    then show ?thesis using s Cons.prems by simp
  qed
qed simp

section \<open>Properties of the heap\<close>

definition block :: "addr_t \<times> size_t \<Rightarrow> nat set" where
  "block p = {unat (fst p) ..< unat (fst p) + unat (snd p)}"

lemma client_blocks:
  assumes "client_inv (h, live)"
  shows "distinct (map fst live)"
    "p \<in> set live \<Longrightarrow> q \<in> set live \<Longrightarrow> p \<noteq> q \<Longrightarrow> block p \<inter> block q = {}"
    "p \<in> set live \<Longrightarrow> unat (heap_base h) \<le> unat (fst p) \<and>
      unat (fst p) + unat (snd p) \<le> unat (heap_base h) + unat (heap_size h)"
proof -
  from assms obtain F A where I: "heap_inv h F A" "distinct (map fst live)"
    "\<forall>p \<in> set live. \<exists>b. b = find_bin (snd p) bins \<and> (b, fst p) \<in> A \<and> unat (snd p) \<le> bin_size b" by (auto simp: client_inv_def)
  show "distinct (map fst live)" by (rule I(2))
  have sub: "\<exists>b. (b, fst p) \<in> chunks h F A \<and> block p \<subseteq> span (b, fst p) \<and> unat (snd p) \<le> bin_size b"
    if "p \<in> set live" for p
    using I(3) that by (fastforce simp: chunks_def block_def span_def)
  show "block p \<inter> block q = {}" if pq: "p \<in> set live" "q \<in> set live" "p \<noteq> q"
  proof -
    have "fst p \<noteq> fst q" using I(2) pq by (auto simp: distinct_map dest: inj_onD)
    then show ?thesis using sub [OF pq(1)] sub [OF pq(2)] I(1) by (fastforce simp: heap_inv_def)
  qed
  show "unat (heap_base h) \<le> unat (fst p) \<and>
      unat (fst p) + unat (snd p) \<le> unat (heap_base h) + unat (heap_size h)" if "p \<in> set live"
    using sub [OF that] I(1) by (fastforce simp: heap_inv_def chunk_ok_def heap_static_def)
qed

text \<open>
  C3. The heap is safe for every client that writes only inside its blocks and frees only what
  it holds. From a page-aligned area that does not reach the end of the address space, any
  such run either ends in one of the two panics of an exhausted heap or an oversized request,
  or succeeds with blocks of at least the sizes asked for that are pairwise disjoint and lie
  inside the area, above the page table. No release panics and no loop runs away.
\<close>

theorem heap_run_safe:
  assumes "page_bytes dvd unat nb" "page_bytes dvd unat ns" "nb \<noteq> 0" "unat nb + unat ns + 0x18000 < 2 ^ 32"
  shows "heap_run ops (heap_init m nb ns, []) \<in> {Some (Inl Heap_Overgrew), Some (Inl Kmalloc_Too_Much)} \<or>
    (\<exists>h live. heap_run ops (heap_init m nb ns, []) = Some (Inr (h, live)) \<and> distinct (map fst live) \<and>
       (\<forall>p \<in> set live. \<forall>q \<in> set live. p \<noteq> q \<longrightarrow> block p \<inter> block q = {}) \<and>
       (\<forall>p \<in> set live. unat nb + 2 * length (heap_alloc_table (heap_init m nb ns)) \<le> unat (fst p) \<and>
          unat (fst p) + unat (snd p) \<le> unat nb + unat ns))"
proof -
  let ?h0 = "heap_init m nb ns"
  have "client_inv (?h0, [])" using heap_init_inv [OF assms] by (auto simp: client_inv_def)
  from client_run [OF this, of ops] show ?thesis
  proof (elim disjE exE conjE)
    fix s assume s: "heap_run ops (?h0, []) = Some (Inr s)" "client_inv s" "same_area (fst (?h0, [])) (fst s)"
    obtain h live where hl: "s = (h, live)" by force
    note B = client_blocks [OF s(2) [unfolded hl]] and L = heap_init_layout [OF assms(2,4), of m]
    have "unat nb + 2 * length (heap_alloc_table ?h0) \<le> unat (fst p) \<and>
        unat (fst p) + unat (snd p) \<le> unat nb + unat ns" if "p \<in> set live" for p
      using B(3) [OF that] L(1,2) s(3) by (simp add: hl same_area_def)
    then show ?thesis using s(1) B(1,2) hl by (intro disjI2 exI [of _ h] exI [of _ live]) simp
  qed simp
qed

theorem heap_run_safe_witness:
  "\<exists>h. heap_run [Malloc 16, Malloc 100, Write 0x3008 7, Malloc 2, Free 0x2000]
      (heap_init (\<lambda>_. 0) 0x1000 0x3000, []) = Some (Inr (h, [(0x2010, 2), (0x3000, 100)])) \<and>
    block (0x2010, 2) \<inter> block (0x3000, 100) = {}"
proof -
  let ?run = "heap_run [Malloc 16, Malloc 100, Write 0x3008 7, Malloc 2, Free 0x2000]
      (heap_init (\<lambda>_. 0) 0x1000 0x3000, [])"
  have "map_option (map_sum id snd) ?run = Some (Inr [(0x2010, 2), (0x3000, 100)])" by code_simp
  then obtain h where "?run = Some (Inr (h, [(0x2010, 2), (0x3000, 100)]))"
    by (cases ?run; cases "the ?run") (auto simp del: heap_run.simps)
  with heap_run_safe [where nb = "0x1000" and ns = "0x3000" and m = "\<lambda>_. 0"
      and ops = "[Malloc 16, Malloc 100, Write 0x3008 7, Malloc 2, Free 0x2000]"]
  show ?thesis by (simp add: page_bytes_def del: heap_run.simps)
qed

lemma heap_run_reached:
  assumes "page_bytes dvd unat nb" "page_bytes dvd unat ns" "nb \<noteq> 0" "unat nb + unat ns + 0x18000 < 2 ^ 32"
    "heap_run ops (heap_init m nb ns, []) = Some (Inr (h, live))"
  shows "client_inv (h, live)"
proof -
  have "client_inv (heap_init m nb ns, [])" using heap_init_inv [OF assms(1-4)] by (auto simp: client_inv_def)
  from client_run [OF this, of ops] assms(5) show ?thesis by auto
qed

lemma page_of_inside:
  assumes "bin_size b dvd page_bytes" "bin_size b dvd unat a" "page_bytes dvd unat (heap_base h)"
    "unat (heap_base h) \<le> unat a" "unat x = unat a + k" "k < bin_size b"
  shows "page_of h x = page_of h a"
proof -
  let ?e = "bin_size b"
  obtain j where j: "page_bytes = ?e * j" using assms(1) by (rule dvdE)
  have "?e dvd unat a - unat (heap_base h)" using assms(1-3) by (meson dvd_diff_nat dvd_trans)
  then obtain i where i: "unat a - unat (heap_base h) = ?e * i" by (rule dvdE)
  then have x: "unat x - unat (heap_base h) = ?e * i + k" using assms(4,5) by linarith
  have "(?e * i + k) div (?e * j) = (?e * i) div (?e * j)"
    using assms(6) by (simp add: div_mult2_eq)
  then show ?thesis by (simp add: page_of_def x i j)
qed

lemma kfree_twice:
  assumes inv: "heap_inv h F A" and A: "(b, a) \<in> A"
  shows "\<exists>h'. kfree a h = Some (Inr h') \<and> kfree a h' = Some (Inl Kfree_Already_Free)"
proof -
  from kfree_inv [OF assms] obtain h' where h': "kfree a h = Some (Inr h')"
    "heap_inv h' (F(b := a # F b)) (A - {(b, a)})" by blast
  have "(b, a) \<in> chunks h F A" using A by (simp add: chunks_def)
  then have "chunk_ok h (b, a)" using inv by (simp add: heap_inv_def)
  then have "b < bin_count" by (simp add: chunk_ok_def)
  then have "(b, a) \<in> chunks h' (F(b := a # F b)) (A - {(b, a)})" by (simp add: chunks_def)
  from kfree_chunk [OF h'(2) this] have "kfree a h' = Some (Inl Kfree_Already_Free)" by auto
  with h'(1) show ?thesis by blast
qed

lemma kfree_inside:
  assumes inv: "heap_inv h F A" and A: "(b, a) \<in> A" and small: "bin_size b \<le> page_bytes"
    and k: "0 < k" "k < bin_size b"
  shows "kfree (a + of_nat k) h = Some (Inl Kfree_Invalid_Pointer)"
proof -
  have c: "(b, a) \<in> chunks h F A" using A by (simp add: chunks_def)
  have st: "heap_static h" and ok: "chunk_ok h (b, a)" using inv c by (auto simp: heap_inv_def)
  note S = st [unfolded heap_static_def] and C = ok [unfolded chunk_ok_def, simplified]
  have b: "b < bin_count" using C by simp
  note es = heap_static_bin(1) [OF st b] and len = heap_static_bin(3) [OF st b]
  let ?x = "a + of_nat k"
  have "unat (of_nat k :: addr_t) = k"
    using k(2) bin_table_nth(3) [OF b] by (intro unat_of_nat_small) simp
  then have x: "unat ?x = unat a + k" using C S k(2) by (subst unat_add_small) auto
  have lim: "unat (heap_base h + heap_size h) = unat (heap_base h) + unat (heap_size h)"
    using S by (intro unat_add_small) linarith
  have dvd: "bin_size b dvd page_bytes" "bin_size b dvd unat a"
    using small bin_table_nth(4) [OF b] C by (auto simp: min_def le_less)
  have "page_of h ?x = page_of h a" using dvd S C x k(2) by (intro page_of_inside [where b = b]) auto
  then have page: "page_index h ?x = page_of h a" using C x by (simp add: page_index_eq)
  have less: "page_of h a < length (heap_alloc_table h)"
    using chunk_page_less [OF st ok, of 0] by (simp add: chunk_pages_def)
  moreover have "page_bins h ! page_of h a = of_nat b"
    using C by (auto simp: chunk_pages_def dest: spec [of _ 0])
  ultimately have bi: "unat (hp_bin_index (heap_alloc_table h ! page_of h a)) = b"
    using b by (simp add: page_bins_def unat_of_nat take_bit_nat_eq_self)
  have "(unat a + k) mod bin_size b = k" using dvd(2) k(2) by (metis dvd_eq_mod_eq_0 mod_add_left_eq mod_less add_0)
  then have "?x mod hb_element_size (heap_bins h ! b) \<noteq> 0" using k(1) x es by (simp add: word_unat_eq_iff unat_mod)
  moreover have "?x \<noteq> 0" "\<not> ?x < heap_base h" "\<not> heap_base h + heap_size h \<le> ?x"
    using x C S lim k by (auto simp: word_less_nat_alt word_le_nat_alt word_unat_eq_iff)
  moreover have "hb_element_size (heap_bins h ! b) \<le> PAGE_SIZE" using small es by (simp add: word_le_nat_alt)
  ultimately show ?thesis
    using page less bi b len by (simp add: kfree_def Let_def)
qed



text \<open>
  C32. Requests in pages: from every state a client can reach, a request of 1 to 24 pages either
  finds the heap exhausted or yields a page-aligned block; and the page count is reduced
  modulo \<open>2^20\<close>, so a request of \<open>2^20 + n\<close> pages is served as one of \<open>n\<close> pages.
\<close>

theorem kmalloc_pages_aligned:
  assumes "page_bytes dvd unat nb" "page_bytes dvd unat ns" "nb \<noteq> 0" "unat nb + unat ns + 0x18000 < 2 ^ 32"
    "heap_run ops (heap_init m nb ns, []) = Some (Inr (h, live))" "1 \<le> n" "n \<le> 24"
  shows "(kmalloc_pages (of_nat n) h = Some (Inl Heap_Overgrew) \<or>
      (\<exists>h' a. kmalloc_pages (of_nat n) h = Some (Inr (h', a)) \<and> page_bytes dvd unat a)) \<and>
    kmalloc_pages (of_nat n + 0x100000) h = kmalloc_pages (of_nat n) h"
proof -
  from heap_run_reached [OF assms(1-5)] obtain F A where I: "heap_inv h F A"
    unfolding client_inv_def by force
  have "unat (of_nat n * PAGE_SIZE) = n * page_bytes"
    using assms(7) by (simp add: unat_word_ariths unat_of_nat_small page_bytes_def)
  then have sz: "of_nat n * PAGE_SIZE \<le> 0x18000" "page_bytes \<le> unat (of_nat n * PAGE_SIZE)"
    using assms(6,7) by (simp_all add: word_le_nat_alt page_bytes_def)
  have "kmalloc (of_nat n * PAGE_SIZE) h = Some (Inl Heap_Overgrew) \<or>
      (\<exists>h' a. kmalloc (of_nat n * PAGE_SIZE) h = Some (Inr (h', a)) \<and> page_bytes dvd unat a)"
    using kmalloc_cases [OF I, of "of_nat n * PAGE_SIZE"]
  proof (elim disjE exE conjE)
    fix h' a F' b
    assume k: "kmalloc (of_nat n * PAGE_SIZE) h = Some (Inr (h', a))" "heap_inv h' F' (insert (b, a) A)"
      "unat (of_nat n * PAGE_SIZE) \<le> bin_size b"
    have "(b, a) \<in> chunks h' F' (insert (b, a) A)" by (simp add: chunks_def)
    then have "chunk_ok h' (b, a)" using k(2) by (simp add: heap_inv_def)
    moreover have "min (bin_size b) page_bytes = page_bytes" using k(3) sz(2) by simp
    ultimately show ?thesis using k(1) by (simp add: chunk_ok_def)
  qed (use sz in auto)
  moreover have "(0x100000 :: size_t) * PAGE_SIZE = 0" by (simp add: PAGE_SIZE_def)
  ultimately show ?thesis by (simp add: kmalloc_pages_def distrib_right)
qed

theorem kmalloc_pages_aligned_witness:
  "kmalloc_pages (of_nat 1 + 0x100000) (heap_init (\<lambda>_. 0) 0x1000 0x3000)
     = kmalloc_pages (of_nat 1) (heap_init (\<lambda>_. 0) 0x1000 0x3000)"
  using kmalloc_pages_aligned [where nb = "0x1000" and ns = "0x3000" and ops = "[]" and m = "\<lambda>_. 0"
      and h = "heap_init (\<lambda>_. 0) 0x1000 0x3000" and live = "[]" and n = 1]
  by (simp add: page_bytes_def)

lemma kfree_small_counts:
  assumes "kfree a h = Some (Inr h')" "a \<noteq> 0"
    "hb_element_size (heap_bins h ! unat (hp_bin_index (heap_alloc_table h ! page_index h a))) < PAGE_SIZE"
  shows "heap_alloc_table h' = heap_alloc_table h"
proof -
  from assms(3) have "unat (hb_element_size (heap_bins h ! unat (hp_bin_index (heap_alloc_table h ! page_index h a)))
      div PAGE_SIZE) = 0"
    by (simp add: unat_div word_less_nat_alt)
  with assms(1,2) show ?thesis
    by (auto simp: kfree_def Let_def bin_update_def split: if_splits option.splits bool.splits)
qed

lemma kmalloc_counts:
  assumes "kmalloc sz h = Some (Inr (h', a))" "hb_free_list (heap_bins h ! find_bin sz (heap_bins h)) \<noteq> 0"
    "hb_element_size (heap_bins h ! find_bin sz (heap_bins h)) < PAGE_SIZE"
  shows "hp_free_count (heap_alloc_table h' ! page_index h a) = hp_free_count (heap_alloc_table h ! page_index h a) - 1"
proof -
  let ?b = "find_bin sz (heap_bins h)"
  from assms(1) have b: "?b < length (heap_bins h)"
    using find_bin_le [of sz "heap_bins h"] by (auto simp: kmalloc_def Let_def split: if_splits)
  from assms(3) have "unat (hb_element_size (heap_bins h ! ?b) div PAGE_SIZE) = 0"
    by (simp add: unat_div word_less_nat_alt)
  with assms(1,2) b show ?thesis
    by (auto simp: kmalloc_def Let_def take_free_def bin_update_def page_update_def page_index_def
        split: if_splits option.splits)
qed

text \<open>
  C33. The reference counts of the page table leak: a \<^verbatim>\<open>kmalloc\<close> served from a free list takes one
  from the counter of the page of the chunk, but \<^verbatim>\<open>kfree\<close> of a chunk smaller than a page gives
  nothing back, so each allocate-and-release cycle lowers the counter (modulo its 9 bits)
  although the page has as many free chunks as before.
\<close>

theorem page_free_count_leaks:
  assumes "kmalloc sz h = Some (Inr (h1, a))" "kfree a h1 = Some (Inr h2)" "a \<noteq> 0"
    "hb_free_list (heap_bins h ! find_bin sz (heap_bins h)) \<noteq> 0"
    "hb_element_size (heap_bins h ! find_bin sz (heap_bins h)) < PAGE_SIZE"
    "hb_element_size (heap_bins h1 ! unat (hp_bin_index (heap_alloc_table h1 ! page_index h1 a))) < PAGE_SIZE"
  shows "hp_free_count (heap_alloc_table h2 ! page_index h a) = hp_free_count (heap_alloc_table h ! page_index h a) - 1"
  using kmalloc_counts [OF assms(1,4,5)] kfree_small_counts [OF assms(2,3,6)] by simp

definition sample_heap :: heap where
  "sample_heap =
     (case kmalloc 16 (heap_init (\<lambda>_. 0) 0x1000 0x3000) of
        Some (Inr (h, a)) \<Rightarrow> (case kfree a h of Some (Inr h') \<Rightarrow> h' | _ \<Rightarrow> h)
      | _ \<Rightarrow> heap_init (\<lambda>_. 0) 0x1000 0x3000)"

theorem page_free_count_leaks_witness:
  "\<exists>h1 h2. kmalloc 16 sample_heap = Some (Inr (h1, 0x2000)) \<and> kfree 0x2000 h1 = Some (Inr h2) \<and>
     hp_free_count (heap_alloc_table sample_heap ! 0) = 255 \<and> hp_free_count (heap_alloc_table h2 ! 0) = 254"
proof -
  let ?h1 = "fst (projr (the (kmalloc 16 sample_heap)))"
  have k: "kmalloc 16 sample_heap = Some (Inr (?h1, 0x2000))"
  proof -
    have "map_option (map_sum id snd) (kmalloc 16 sample_heap) = Some (Inr 0x2000)" by code_simp
    then show ?thesis
      by (cases "kmalloc 16 sample_heap"; cases "the (kmalloc 16 sample_heap)") auto
  qed
  have "map_option (map_sum id (\<lambda>_. ())) (kfree 0x2000 ?h1) = Some (Inr ())" by code_simp
  then obtain h2 where f: "kfree 0x2000 ?h1 = Some (Inr h2)"
    by (cases "kfree 0x2000 ?h1"; cases "the (kfree 0x2000 ?h1)") auto
  have "page_index sample_heap 0x2000 = 0" "hp_free_count (heap_alloc_table sample_heap ! 0) = 255" by code_simp+
  moreover have "hp_free_count (heap_alloc_table h2 ! page_index sample_heap 0x2000) =
      hp_free_count (heap_alloc_table sample_heap ! page_index sample_heap 0x2000) - 1"
    by (rule page_free_count_leaks [OF k f]) code_simp+
  ultimately show ?thesis using k f by auto
qed

end
