(* ===== verification/Kargs.thy ===== *)
theory Kargs
  imports Pages
begin

text \<open>
  The kernel arguments of \<^verbatim>\<open>include/phlox/kargs.h\<close> as far as the memory manager reads them: the
  ranges of physical memory and the ranges of physical and virtual memory already allocated.
  The arrays with their counters are lists.
\<close>

record addr_range =
  ar_start :: addr_t
  ar_size :: size_t

record kernel_args =
  ka_phys_mem_range :: "addr_range list"
  ka_phys_alloc_range :: "addr_range list"
  ka_virt_alloc_range :: "addr_range list"

end
