(* ===== verification/Boot_Alloc.thy ===== *)
theory Boot_Alloc
  imports Kargs
begin

text \<open>
  Memory for the kernel before its memory manager runs: physical pages and virtual space are
  carved out of the ranges in the kernel arguments (\<^verbatim>\<open>vm_alloc_ppage_from_kargs\<close> of
  \<^verbatim>\<open>kernel/vm/vm_page.c\<close>, \<^verbatim>\<open>vm_alloc_vspace_from_kargs\<close> and \<^verbatim>\<open>vm_alloc_from_kargs\<close> of
  \<^verbatim>\<open>kernel/vm/vm.c\<close>) and mapped through the page hole (\<^verbatim>\<open>vm_tmap_quick_map_page\<close> and
  \<^verbatim>\<open>vm_tmap_quick_query\<close> of \<^verbatim>\<open>kernel/arch/i386/vm_translation_map.c\<close>). The page directory and the page
  tables seen through the hole are functions from their index; the four megabytes of the hole
  itself, where the two alias, are never an argument of these routines.
\<close>

section \<open>Physical pages\<close>

definition is_page_in_phys_range :: "addr_range list \<Rightarrow> addr_t \<Rightarrow> bool" where
  "is_page_in_phys_range mem paddr =
     list_ex (\<lambda>r. ar_start r \<le> paddr \<and> paddr < ar_start r + ar_size r) mem"

fun collides :: "addr_t \<Rightarrow> addr_range list \<Rightarrow> bool" where
  "collides next_page [] = False"
| "collides next_page (r # rs) = (ar_size r \<noteq> 0 \<and> ar_start r \<le> next_page)"

fun alloc_ppage_loop :: "addr_range list \<Rightarrow> addr_range list \<Rightarrow> addr_range list \<times> addr_t" where
  "alloc_ppage_loop mem [] = ([], 0)"
| "alloc_ppage_loop mem (r # rs) =
     (let next_page = ar_start r + ar_size r in
      if \<not> collides next_page rs \<and> is_page_in_phys_range mem next_page
      then (let r' = r\<lparr>ar_size := ar_size r + PAGE_SIZE\<rparr>
            in (r' # rs, (ar_start r' + ar_size r' - PAGE_SIZE) div PAGE_SIZE))
      else (case alloc_ppage_loop mem rs of (rs', p) \<Rightarrow> (r # rs', p)))"

definition vm_alloc_ppage_from_kargs :: "kernel_args \<Rightarrow> kernel_args \<times> addr_t" where
  "vm_alloc_ppage_from_kargs kargs =
     (case alloc_ppage_loop (ka_phys_mem_range kargs) (ka_phys_alloc_range kargs) of
        (rs, p) \<Rightarrow> (kargs\<lparr>ka_phys_alloc_range := rs\<rparr>, p))"

section \<open>Virtual space\<close>

definition KERNEL_BASE :: addr_t where "KERNEL_BASE = 0xC0000000"
definition KERNEL_SIZE :: size_t where "KERNEL_SIZE = 0x40000000"
definition KERNEL_TOP :: addr_t where "KERNEL_TOP = KERNEL_BASE + KERNEL_SIZE - 1"

definition is_kernel_address :: "addr_t \<Rightarrow> bool" where
  "is_kernel_address x \<longleftrightarrow> KERNEL_BASE \<le> x \<and> x \<le> KERNEL_TOP"

text \<open>The loop over the gaps between two neighbouring ranges.\<close>

fun vspace_gap :: "size_t \<Rightarrow> addr_range list \<Rightarrow> (addr_range list \<times> addr_t) option" where
  "vspace_gap sz (r # r2 # rs) =
     (if sz \<le> ar_start r2 - (ar_start r + ar_size r)
      then Some (r\<lparr>ar_size := ar_size r + sz\<rparr> # r2 # rs, ar_start r + ar_size r)
      else map_option (\<lambda>(rs', spot). (r # rs', spot)) (vspace_gap sz (r2 # rs)))"
| "vspace_gap sz _ = None"

text \<open>
  The array of virtual ranges has at least one entry; the routine reads entry 0 in any case, and
  \<open>None\<close> is an argument with no entry to read.
\<close>

definition vm_alloc_vspace_from_kargs :: "kernel_args \<Rightarrow> size_t \<Rightarrow> (kernel_args \<times> addr_t) option" where
  "vm_alloc_vspace_from_kargs kargs size0 =
     (let sz = PAGE_ALIGN size0; rs = ka_virt_alloc_range kargs in
      if rs = [] then None
      else Some
        (case vspace_gap sz rs of
           Some (rs', spot) \<Rightarrow> (kargs\<lparr>ka_virt_alloc_range := rs'\<rparr>, spot)
         | None \<Rightarrow>
             (let l = last rs; f = hd rs in
              if ar_start l + ar_size l + sz \<le> KERNEL_BASE + (KERNEL_SIZE - 1)
              then (kargs\<lparr>ka_virt_alloc_range := butlast rs @ [l\<lparr>ar_size := ar_size l + sz\<rparr>]\<rparr>,
                    ar_start l + ar_size l)
              else if KERNEL_BASE < ar_start f \<and> sz \<le> ar_start f - KERNEL_BASE
              then (kargs\<lparr>ka_virt_alloc_range := f\<lparr>ar_start := ar_start f - sz\<rparr> # tl rs\<rparr>,
                    ar_start f - sz)
              else (kargs, 0))))"

section \<open>Page directory and page tables\<close>

record mmu_pde =
  pde_p :: bool
  pde_rw :: bool
  pde_us :: bool
  pde_pwt :: bool
  pde_pcd :: bool
  pde_a :: bool
  pde_ps :: bool
  pde_g :: bool
  pde_avl :: "3 word"
  pde_base :: "20 word"

record mmu_pte =
  pte_p :: bool
  pte_rw :: bool
  pte_us :: bool
  pte_pwt :: bool
  pte_pcd :: bool
  pte_a :: bool
  pte_d :: bool
  pte_g :: bool
  pte_avl :: "3 word"
  pte_base :: "20 word"

definition VM_PROT_WRITE :: uint where "VM_PROT_WRITE = 0x02"
definition VM_PROT_KERNEL :: uint where "VM_PROT_KERNEL = 0x08"

definition MAX_PDENTS :: uint where "MAX_PDENTS = 1024"

definition ADDR_SHIFT :: "addr_t \<Rightarrow> 20 word" where
  "ADDR_SHIFT x = ucast (drop_bit 12 x)"

definition ADDR_REVERSE_SHIFT :: "20 word \<Rightarrow> addr_t" where
  "ADDR_REVERSE_SHIFT x = push_bit 12 (ucast x)"

definition VADDR_TO_PDENT :: "addr_t \<Rightarrow> uint" where
  "VADDR_TO_PDENT va = (va div PAGE_SIZE) div MAX_PDENTS"

definition init_pdentry :: mmu_pde where
  "init_pdentry = \<lparr>pde_p = False, pde_rw = False, pde_us = False, pde_pwt = False, pde_pcd = False,
     pde_a = False, pde_ps = False, pde_g = False, pde_avl = 0, pde_base = 0\<rparr>"

definition init_ptentry :: mmu_pte where
  "init_ptentry = \<lparr>pte_p = False, pte_rw = False, pte_us = False, pte_pwt = False, pte_pcd = False,
     pte_a = False, pte_d = False, pte_g = False, pte_avl = 0, pte_base = 0\<rparr>"

definition put_pgtable_in_pgdir :: "addr_t \<Rightarrow> uint \<Rightarrow> mmu_pde" where
  "put_pgtable_in_pgdir pgtable_phys protection =
     init_pdentry\<lparr>pde_base := ADDR_SHIFT pgtable_phys,
       pde_us := (protection AND VM_PROT_KERNEL = 0),
       pde_rw := (protection AND VM_PROT_WRITE \<noteq> 0), pde_p := True\<rparr>"

record boot_state =
  bs_kargs :: kernel_args
  bs_page_hole :: bool
  bs_pgdir :: "uint \<Rightarrow> mmu_pde"
  bs_pgtables :: "uint \<Rightarrow> mmu_pte"

datatype boot_panic = No_Page_Hole | No_Page_Table | No_Physical_Page | No_Virtual_Range

definition VADDR_PTE :: "addr_t \<Rightarrow> uint" where
  "VADDR_PTE va = va div PAGE_SIZE"

text \<open>A page table for the directory entry of an address, allocated and zeroed when it is missing.\<close>

definition ensure_pgtable :: "addr_t \<Rightarrow> uint \<Rightarrow> boot_state \<Rightarrow> boot_panic + boot_state" where
  "ensure_pgtable virt_addr protection b =
     (let i = VADDR_TO_PDENT virt_addr in
      if pde_p (bs_pgdir b i) then Inr b
      else (case vm_alloc_ppage_from_kargs (bs_kargs b) of (kargs, pgtable) \<Rightarrow>
        if pgtable = 0 then Inl No_Page_Table
        else Inr (b\<lparr>bs_kargs := kargs,
          bs_pgdir := (bs_pgdir b)(i := put_pgtable_in_pgdir (pgtable * PAGE_SIZE) protection),
          bs_pgtables := (\<lambda>j. if j div MAX_PDENTS = i then init_ptentry else bs_pgtables b j)\<rparr>)))"

definition quick_pte :: "addr_t \<Rightarrow> addr_t \<Rightarrow> uint \<Rightarrow> mmu_pte" where
  "quick_pte virt_addr phys_addr protection =
     init_ptentry\<lparr>pte_base := ADDR_SHIFT phys_addr,
       pte_us := (protection AND VM_PROT_KERNEL = 0),
       pte_rw := (protection AND VM_PROT_WRITE \<noteq> 0), pte_p := True,
       pte_g := is_kernel_address virt_addr\<rparr>"

definition vm_tmap_quick_map_page ::
  "addr_t \<Rightarrow> addr_t \<Rightarrow> uint \<Rightarrow> boot_state \<Rightarrow> boot_panic + boot_state" where
  "vm_tmap_quick_map_page virt_addr phys_addr protection b =
     (if \<not> bs_page_hole b then Inl No_Page_Hole
      else (case ensure_pgtable virt_addr protection b of
        Inl e \<Rightarrow> Inl e
      | Inr b' \<Rightarrow> Inr (b'\<lparr>bs_pgtables := (bs_pgtables b')
          (VADDR_PTE virt_addr := quick_pte virt_addr phys_addr protection)\<rparr>)))"

text \<open>\<open>Inr None\<close> is \<^verbatim>\<open>ERR_VM_PAGE_NOT_PRESENT\<close>.\<close>

definition vm_tmap_quick_query :: "addr_t \<Rightarrow> boot_state \<Rightarrow> boot_panic + addr_t option" where
  "vm_tmap_quick_query vaddr b =
     (if \<not> bs_page_hole b then Inl No_Page_Hole
      else if \<not> pde_p (bs_pgdir b (VADDR_TO_PDENT vaddr)) then Inr None
      else if \<not> pte_p (bs_pgtables b (VADDR_PTE vaddr)) then Inr None
      else Inr (Some (ADDR_REVERSE_SHIFT (pte_base (bs_pgtables b (VADDR_PTE vaddr))))))"

fun map_loop :: "addr_t \<Rightarrow> uint \<Rightarrow> nat list \<Rightarrow> boot_state \<Rightarrow> boot_panic + boot_state" where
  "map_loop vspot protection [] b = Inr b"
| "map_loop vspot protection (i # is) b =
     (case vm_alloc_ppage_from_kargs (bs_kargs b) of (kargs, pspot) \<Rightarrow>
        if pspot = 0 then Inl No_Physical_Page
        else (case vm_tmap_quick_map_page (vspot + of_nat i * PAGE_SIZE) (pspot * PAGE_SIZE) protection
                     (b\<lparr>bs_kargs := kargs\<rparr>) of
                Inl e \<Rightarrow> Inl e
              | Inr b' \<Rightarrow> map_loop vspot protection is b'))"

definition vm_alloc_from_kargs :: "size_t \<Rightarrow> uint \<Rightarrow> boot_state \<Rightarrow> boot_panic + boot_state \<times> addr_t" where
  "vm_alloc_from_kargs sz protection b =
     (case vm_alloc_vspace_from_kargs (bs_kargs b) sz of
        None \<Rightarrow> Inl No_Virtual_Range
      | Some (kargs, vspot) \<Rightarrow>
          (case map_loop vspot protection [0 ..< unat (PAGE_ALIGN sz div PAGE_SIZE)] (b\<lparr>bs_kargs := kargs\<rparr>) of
             Inl e \<Rightarrow> Inl e
           | Inr b' \<Rightarrow> Inr (b', vspot)))"

section \<open>Ranges as sets of addresses\<close>

definition ar_end :: "addr_range \<Rightarrow> nat" where
  "ar_end r = unat (ar_start r) + unat (ar_size r)"

definition range_ok :: "addr_range \<Rightarrow> bool" where
  "range_ok r \<longleftrightarrow> page_bytes dvd unat (ar_start r) \<and> page_bytes dvd unat (ar_size r) \<and> ar_end r < 2 ^ 32"

definition ranges_ok :: "addr_range list \<Rightarrow> bool" where
  "ranges_ok rs \<longleftrightarrow> sorted_wrt (\<lambda>r s. ar_end r \<le> unat (ar_start s)) rs \<and>
     (\<forall>r \<in> set rs. range_ok r \<and> ar_size r \<noteq> 0)"

definition addresses :: "addr_range list \<Rightarrow> nat set" where
  "addresses rs = (\<Union>r \<in> set rs. {unat (ar_start r) ..< ar_end r})"

definition page_addresses :: "addr_t \<Rightarrow> nat set" where
  "page_addresses p = {unat p * page_bytes ..< unat p * page_bytes + page_bytes}"

lemma ar_end_word: "ar_end r < 2 ^ 32 \<Longrightarrow> unat (ar_start r + ar_size r) = ar_end r"
  by (simp add: ar_end_def unat_add_small)

lemma in_phys_addresses:
  assumes "\<forall>r \<in> set mem. ar_end r < 2 ^ 32"
  shows "is_page_in_phys_range mem a \<longleftrightarrow> unat a \<in> addresses mem"
  using assms by (auto simp: is_page_in_phys_range_def list_ex_iff addresses_def word_le_nat_alt word_less_nat_alt ar_end_word)

text \<open>A page whose first byte lies in a range made of whole pages lies in it entirely.\<close>

lemma page_in_range:
  assumes "page_bytes dvd a" "page_bytes dvd e" "a < e"
  shows "a + page_bytes \<le> e"
proof -
  obtain j k where "a = page_bytes * j" "e = page_bytes * k" using assms(1,2) by (auto elim!: dvdE)
  then show ?thesis using assms(3) by (simp add: page_bytes_def)
qed

lemma range_ok_end_dvd: "range_ok r \<Longrightarrow> page_bytes dvd ar_end r"
  by (simp add: range_ok_def ar_end_def)

lemma page_in_mem:
  assumes mem: "\<forall>r \<in> set mem. range_ok r" and a: "page_bytes dvd a" "a \<in> addresses mem"
  shows "{a ..< a + page_bytes} \<subseteq> addresses mem" "a + page_bytes < 2 ^ 32"
proof -
  from a(2) obtain r where r: "r \<in> set mem" "unat (ar_start r) \<le> a" "a < ar_end r"
    by (auto simp: addresses_def)
  with mem have "a + page_bytes \<le> ar_end r" using page_in_range [OF a(1)] range_ok_end_dvd by blast
  with r mem show "{a ..< a + page_bytes} \<subseteq> addresses mem" "a + page_bytes < 2 ^ 32"
    by (auto simp: addresses_def range_ok_def)
qed


section \<open>The physical allocator\<close>

definition mem_ok :: "addr_range list \<Rightarrow> bool" where
  "mem_ok mem \<longleftrightarrow> (\<forall>r \<in> set mem. range_ok r)"

lemma unat_page_number:
  assumes "unat a = k * page_bytes"
  shows "unat (a div PAGE_SIZE) = k"
  by (simp add: unat_div assms)

lemma ranges_ok_Cons:
  "ranges_ok (r # rs) \<longleftrightarrow> range_ok r \<and> ar_size r \<noteq> 0 \<and> (\<forall>s \<in> set rs. ar_end r \<le> unat (ar_start s)) \<and> ranges_ok rs"
  by (auto simp: ranges_ok_def)

lemma not_collides_all:
  assumes "ranges_ok rs" "\<not> collides a rs" "s \<in> set rs"
  shows "unat a < unat (ar_start s)"
proof (cases rs)
  case (Cons r rs')
  then have r: "unat a < unat (ar_start r)" using assms(1,2) by (simp add: ranges_ok_Cons word_less_nat_alt not_le)
  from assms(3) Cons consider "s = r" | "s \<in> set rs'" by auto
  then show ?thesis
  proof cases
    case 2
    with assms(1) Cons have "ar_end r \<le> unat (ar_start s)" by (auto simp: ranges_ok_Cons)
    with r show ?thesis by (simp add: ar_end_def)
  qed (use r in simp)
qed (use assms in simp)

lemma range_grow:
  assumes "range_ok r" "page_bytes dvd unat d" "ar_end r + unat d < 2 ^ 32"
  shows "unat (ar_size r + d) = unat (ar_size r) + unat d"
    "range_ok (r\<lparr>ar_size := ar_size r + d\<rparr>)" "ar_end (r\<lparr>ar_size := ar_size r + d\<rparr>) = ar_end r + unat d"
proof -
  show sz: "unat (ar_size r + d) = unat (ar_size r) + unat d"
    using assms by (subst unat_add_small) (simp_all add: ar_end_def)
  show "range_ok (r\<lparr>ar_size := ar_size r + d\<rparr>)" "ar_end (r\<lparr>ar_size := ar_size r + d\<rparr>) = ar_end r + unat d"
    using assms sz by (simp_all add: range_ok_def ar_end_def)
qed

text \<open>A range of a sorted list may grow into the gap behind it.\<close>

definition space_taken :: "addr_range list \<Rightarrow> addr_range list \<Rightarrow> nat \<Rightarrow> nat \<Rightarrow> bool" where
  "space_taken rs rs' a n \<longleftrightarrow>
     ranges_ok rs' \<and> addresses rs' = addresses rs \<union> {a ..< a + n} \<and> addresses rs \<inter> {a ..< a + n} = {} \<and>
     map ar_start rs' = map ar_start rs"

lemma space_taken_head:
  assumes ok: "ranges_ok (r # rs)" and d: "page_bytes dvd unat d" "ar_end r + unat d < 2 ^ 32"
    and gap: "\<forall>s \<in> set rs. ar_end r + unat d \<le> unat (ar_start s)"
  shows "space_taken (r # rs) (r\<lparr>ar_size := ar_size r + d\<rparr> # rs) (ar_end r) (unat d)"
proof -
  have r: "range_ok r" "ar_size r \<noteq> 0" "ranges_ok rs" using ok by (simp_all add: ranges_ok_Cons)
  note g = range_grow [OF r(1) d]
  have "ranges_ok (r\<lparr>ar_size := ar_size r + d\<rparr> # rs)"
    using g r gap by (auto simp: ranges_ok_Cons unat_eq_0 [symmetric])
  moreover have "addresses (r\<lparr>ar_size := ar_size r + d\<rparr> # rs) = addresses (r # rs) \<union> {ar_end r ..< ar_end r + unat d}"
    using g(3) by (auto simp: addresses_def ar_end_def)
  moreover have "addresses (r # rs) \<inter> {ar_end r ..< ar_end r + unat d} = {}"
    using gap by (fastforce simp: addresses_def)
  ultimately show ?thesis by (simp add: space_taken_def)
qed

lemma space_taken_Cons:
  assumes ok: "ranges_ok (r # rs)" and t: "space_taken rs rs' a n"
  shows "space_taken (r # rs) (r # rs') a n"
proof -
  have "set (map ar_start rs') = set (map ar_start rs)" using t by (simp only: space_taken_def)
  then have same: "ar_start ` set rs' = ar_start ` set rs" by simp
  have b: "\<forall>s \<in> set rs'. ar_end r \<le> unat (ar_start s)"
  proof
    fix s assume "s \<in> set rs'"
    then have "ar_start s \<in> ar_start ` set rs" using same by blast
    then show "ar_end r \<le> unat (ar_start s)" using ok by (auto simp: ranges_ok_Cons)
  qed
  then have "{unat (ar_start r) ..< ar_end r} \<inter> addresses rs' = {}" by (fastforce simp: addresses_def)
  with t have "{unat (ar_start r) ..< ar_end r} \<inter> {a ..< a + n} = {}" unfolding space_taken_def by blast
  with t b ok show ?thesis by (auto simp: space_taken_def ranges_ok_Cons addresses_def)
qed

lemma alloc_ppage_head:
  assumes mem: "mem_ok mem" and ok: "ranges_ok (r # rs)"
    and free: "\<not> collides (ar_start r + ar_size r) rs" "is_page_in_phys_range mem (ar_start r + ar_size r)"
  defines "p \<equiv> (ar_start r + (ar_size r + PAGE_SIZE) - PAGE_SIZE) div PAGE_SIZE"
  shows "p \<noteq> 0" "page_addresses p \<subseteq> addresses mem"
    "space_taken (r # rs) (r\<lparr>ar_size := ar_size r + PAGE_SIZE\<rparr> # rs) (unat p * page_bytes) page_bytes"
proof -
  have r: "range_ok r" "ar_size r \<noteq> 0" "ar_end r < 2 ^ 32" and rs: "ranges_ok rs"
    using ok by (auto simp: ranges_ok_Cons range_ok_def)
  obtain k where k: "ar_end r = k * page_bytes" using range_ok_end_dvd [OF r(1)] by (metis dvdE mult.commute)
  have e: "unat (ar_start r + ar_size r) = ar_end r" using r(3) by (rule ar_end_word)
  have p: "unat p = k" using unat_page_number [of "ar_start r + ar_size r" k] e k by (simp add: p_def)
  have "ar_end r \<in> addresses mem"
    using free(2) in_phys_addresses [of mem] mem e by (auto simp: mem_ok_def range_ok_def)
  note m = page_in_mem [OF mem [unfolded mem_ok_def] range_ok_end_dvd [OF r(1)] this]
  have gap: "\<forall>s \<in> set rs. ar_end r + page_bytes \<le> unat (ar_start s)"
    using not_collides_all [OF rs free(1)] e rs page_in_range [OF range_ok_end_dvd [OF r(1)]]
    by (auto simp: ranges_ok_def range_ok_def)
  have "0 < ar_end r" using r(2) by (simp add: ar_end_def unat_gt_0)
  then show "p \<noteq> 0" using p k by (metis mult_is_0 unat_0 neq0_conv)
  show "page_addresses p \<subseteq> addresses mem" using m(1) by (simp only: page_addresses_def p k)
  show "space_taken (r # rs) (r\<lparr>ar_size := ar_size r + PAGE_SIZE\<rparr> # rs) (unat p * page_bytes) page_bytes"
    using space_taken_head [OF ok, of PAGE_SIZE] m(2) gap by (simp add: p k)
qed

definition page_taken :: "addr_range list \<Rightarrow> addr_range list \<Rightarrow> addr_range list \<Rightarrow> addr_t \<Rightarrow> bool" where
  "page_taken mem rs rs' p \<longleftrightarrow>
     space_taken rs rs' (unat p * page_bytes) page_bytes \<and> page_addresses p \<subseteq> addresses mem"

lemma alloc_ppage_loop_ok:
  assumes "mem_ok mem" "ranges_ok rs" "alloc_ppage_loop mem rs = (rs', p)"
  shows "if p = 0 then rs' = rs else page_taken mem rs rs' p"
  using assms(2,3)
proof (induction rs arbitrary: rs')
  case (Cons r rs)
  let ?e = "ar_start r + ar_size r"
  show ?case
  proof (cases "\<not> collides ?e rs \<and> is_page_in_phys_range mem ?e")
    case True
    with alloc_ppage_head [OF assms(1) Cons.prems(1)] Cons.prems(2) show ?thesis
      by (auto simp: Let_def page_taken_def)
  next
    case False
    then obtain rs1 where rs1: "alloc_ppage_loop mem rs = (rs1, p)" "rs' = r # rs1"
      using Cons.prems(2) by (auto simp: Let_def split: prod.splits if_splits)
    have "ranges_ok rs" using Cons.prems(1) by (simp add: ranges_ok_Cons)
    from Cons.IH [OF this rs1(1)] show ?thesis
      using space_taken_Cons [OF Cons.prems(1)] rs1(2) by (auto simp: page_taken_def split: if_splits)
  qed
qed simp

section \<open>The virtual space\<close>

lemma vspace_gap_ok:
  assumes "page_bytes dvd unat sz" "ranges_ok rs" "vspace_gap sz rs = Some (rs', spot)"
  shows "space_taken rs rs' (unat spot) (unat sz) \<and> unat spot + unat sz < 2 ^ 32"
  using assms
proof (induction sz rs arbitrary: rs' rule: vspace_gap.induct)
  case (1 sz r r2 rs)
  have ok: "range_ok r" "ar_end r \<le> unat (ar_start r2)" "ar_end r < 2 ^ 32" "ranges_ok (r2 # rs)"
    "\<forall>s \<in> set rs. ar_end r2 \<le> unat (ar_start s)"
    using "1.prems"(2) by (auto simp: ranges_ok_Cons range_ok_def)
  note e = ar_end_word [OF ok(3)]
  show ?case
  proof (cases "sz \<le> ar_start r2 - (ar_start r + ar_size r)")
    case True
    have "unat (ar_start r2 - (ar_start r + ar_size r)) = unat (ar_start r2) - ar_end r"
      using ok(2) e by (simp add: unat_sub word_le_nat_alt)
    with True ok(2) have gap: "ar_end r + unat sz \<le> unat (ar_start r2)" by (simp add: word_le_nat_alt)
    moreover have "unat (ar_start r2) \<le> unat (ar_start s)" if "s \<in> set rs" for s
      using ok(5) that by (force simp: ar_end_def)
    ultimately have "\<forall>s \<in> set (r2 # rs). ar_end r + unat sz \<le> unat (ar_start s)" by fastforce
    moreover have lt: "ar_end r + unat sz < 2 ^ 32" using gap unat_lt32 [of "ar_start r2"] by linarith
    ultimately show ?thesis
      using space_taken_head [OF "1.prems"(2), of sz] "1.prems"(1) "1.prems"(3) True e by auto
  next
    case False
    with "1.prems"(3) obtain rs1 where "vspace_gap sz (r2 # rs) = Some (rs1, spot)" "rs' = r # rs1" by auto
    with "1.IH" [OF False "1.prems"(1) ok(4)] space_taken_Cons [OF "1.prems"(2)] show ?thesis by auto
  qed
qed simp_all


lemma space_taken_append:
  "ranges_ok (qs @ rs) \<Longrightarrow> space_taken rs rs' a n \<Longrightarrow> space_taken (qs @ rs) (qs @ rs') a n"
proof (induction qs)
  case (Cons q qs)
  then have "ranges_ok (qs @ rs)" by (simp add: ranges_ok_Cons)
  with Cons show ?case using space_taken_Cons by simp
qed simp

lemma PAGE_ALIGN_dvd: "page_bytes dvd unat (PAGE_ALIGN a)"
  by (simp add: PAGE_ALIGN_def PAGE_MASK_div)

lemma kernel_top_max: "a \<le> KERNEL_BASE + (KERNEL_SIZE - 1)"
proof -
  have "KERNEL_BASE + (KERNEL_SIZE - 1) = - 1" by code_simp
  then show ?thesis by (simp only: word_order.extremum)
qed

lemma vspace_ok:
  assumes ok: "ranges_ok (ka_virt_alloc_range kargs)" "ka_virt_alloc_range kargs \<noteq> []"
    and room: "ar_end (last (ka_virt_alloc_range kargs)) + unat (PAGE_ALIGN sz) < 2 ^ 32"
  shows "\<exists>rs' spot. vm_alloc_vspace_from_kargs kargs sz = Some (kargs\<lparr>ka_virt_alloc_range := rs'\<rparr>, spot) \<and>
    space_taken (ka_virt_alloc_range kargs) rs' (unat spot) (unat (PAGE_ALIGN sz)) \<and>
    unat spot + unat (PAGE_ALIGN sz) < 2 ^ 32"
proof (cases "vspace_gap (PAGE_ALIGN sz) (ka_virt_alloc_range kargs)")
  case (Some g)
  then obtain rs' spot where g: "vspace_gap (PAGE_ALIGN sz) (ka_virt_alloc_range kargs) = Some (rs', spot)"
    by (cases g) auto
  with vspace_gap_ok [OF PAGE_ALIGN_dvd ok(1) g] show ?thesis
    using ok(2) by (auto simp: vm_alloc_vspace_from_kargs_def Let_def)
next
  case None
  let ?rs = "ka_virt_alloc_range kargs"
  let ?l = "last ?rs"
  have split: "?rs = butlast ?rs @ [?l]" using ok(2) by simp
  then have l: "ranges_ok [?l]" using ok(1) by (metis ranges_ok_def sorted_wrt_append set_append UnCI)
  then have e: "unat (ar_start ?l + ar_size ?l) = ar_end ?l"
    by (intro ar_end_word) (simp add: ranges_ok_Cons range_ok_def)
  have "space_taken [?l] [?l\<lparr>ar_size := ar_size ?l + PAGE_ALIGN sz\<rparr>] (ar_end ?l) (unat (PAGE_ALIGN sz))"
    using room by (intro space_taken_head l PAGE_ALIGN_dvd) simp_all
  with space_taken_append [of "butlast ?rs" "[?l]"] ok(1) split
  have "space_taken ?rs (butlast ?rs @ [?l\<lparr>ar_size := ar_size ?l + PAGE_ALIGN sz\<rparr>]) (ar_end ?l) (unat (PAGE_ALIGN sz))"
    by simp
  moreover have "ar_start ?l + ar_size ?l + PAGE_ALIGN sz \<le> KERNEL_BASE + (KERNEL_SIZE - 1)"
    by (rule kernel_top_max)
  ultimately show ?thesis using None ok(2) e room
    by (intro exI [of _ "butlast ?rs @ [?l\<lparr>ar_size := ar_size ?l + PAGE_ALIGN sz\<rparr>]"]
        exI [of _ "ar_start ?l + ar_size ?l"]) (simp add: vm_alloc_vspace_from_kargs_def Let_def)
qed

lemma space_taken_aligned:
  "ranges_ok rs \<Longrightarrow> vspace_gap sz rs = Some (rs', spot) \<Longrightarrow> page_bytes dvd unat spot"
proof (induction sz rs arbitrary: rs' rule: vspace_gap.induct)
  case (1 sz r r2 rs)
  then have "page_bytes dvd ar_end r" "unat (ar_start r + ar_size r) = ar_end r" "ranges_ok (r2 # rs)"
    by (auto simp: ranges_ok_Cons range_ok_end_dvd ar_end_word range_ok_def)
  with 1 show ?case by (auto split: if_splits)
qed simp_all

lemma vspace_aligned:
  assumes ok: "ranges_ok (ka_virt_alloc_range kargs)"
    and r: "vm_alloc_vspace_from_kargs kargs sz = Some (kargs', spot)"
  shows "page_bytes dvd unat spot"
proof (cases "vspace_gap (PAGE_ALIGN sz) (ka_virt_alloc_range kargs)")
  case None
  let ?l = "last (ka_virt_alloc_range kargs)"
  have ne: "ka_virt_alloc_range kargs \<noteq> []" using r by (auto simp: vm_alloc_vspace_from_kargs_def)
  then have "range_ok ?l" using ok by (simp add: ranges_ok_def)
  then have "page_bytes dvd unat (ar_start ?l + ar_size ?l)"
    using range_ok_end_dvd by (simp add: ar_end_word range_ok_def)
  with r None ne kernel_top_max show ?thesis by (auto simp: vm_alloc_vspace_from_kargs_def Let_def)
next
  case (Some g)
  with r ok space_taken_aligned show ?thesis
    by (cases g) (auto simp: vm_alloc_vspace_from_kargs_def Let_def split: if_splits)
qed

section \<open>Mapping through the page hole\<close>

lemma ADDR_SHIFT_page: "ADDR_REVERSE_SHIFT (ADDR_SHIFT (p * PAGE_SIZE)) = p * PAGE_SIZE"
proof -
  have "p * PAGE_SIZE = push_bit 12 p" by (simp add: PAGE_SIZE_def push_bit_eq_mult)
  then show ?thesis unfolding ADDR_REVERSE_SHIFT_def ADDR_SHIFT_def
    by (intro bit_word_eqI) (auto simp: bit_simps)
qed

lemma query_Some_iff:
  "vm_tmap_quick_query va b = Inr (Some pa) \<longleftrightarrow>
     bs_page_hole b \<and> pde_p (bs_pgdir b (VADDR_TO_PDENT va)) \<and> pte_p (bs_pgtables b (VADDR_PTE va)) \<and>
     pa = ADDR_REVERSE_SHIFT (pte_base (bs_pgtables b (VADDR_PTE va)))"
  by (auto simp: vm_tmap_quick_query_def)

definition boot_ok :: "boot_state \<Rightarrow> bool" where
  "boot_ok b \<longleftrightarrow> mem_ok (ka_phys_mem_range (bs_kargs b)) \<and> ranges_ok (ka_phys_alloc_range (bs_kargs b))"

text \<open>\<open>kargs_grow\<close> relates kernel arguments before and after allocations of physical pages.\<close>

definition kargs_grow :: "kernel_args \<Rightarrow> kernel_args \<Rightarrow> bool" where
  "kargs_grow ka ka' \<longleftrightarrow>
     ka_phys_mem_range ka' = ka_phys_mem_range ka \<and> ka_virt_alloc_range ka' = ka_virt_alloc_range ka \<and>
     ranges_ok (ka_phys_alloc_range ka') \<and> addresses (ka_phys_alloc_range ka) \<subseteq> addresses (ka_phys_alloc_range ka')"

lemma kargs_grow_trans: "kargs_grow a b \<Longrightarrow> kargs_grow b c \<Longrightarrow> kargs_grow a c"
  by (auto simp: kargs_grow_def)

lemma ppage_ok:
  assumes "mem_ok (ka_phys_mem_range ka)" "ranges_ok (ka_phys_alloc_range ka)"
    "vm_alloc_ppage_from_kargs ka = (ka', p)" "p \<noteq> 0"
  shows "kargs_grow ka ka'" "page_addresses p \<subseteq> addresses (ka_phys_mem_range ka)"
    "page_addresses p \<inter> addresses (ka_phys_alloc_range ka) = {}"
    "page_addresses p \<subseteq> addresses (ka_phys_alloc_range ka')"
proof -
  obtain rs' where l: "alloc_ppage_loop (ka_phys_mem_range ka) (ka_phys_alloc_range ka) = (rs', p)"
    "ka' = ka\<lparr>ka_phys_alloc_range := rs'\<rparr>"
    using assms(3) by (auto simp: vm_alloc_ppage_from_kargs_def split: prod.splits)
  from alloc_ppage_loop_ok [OF assms(1,2) l(1)] assms(4)
  have t: "page_taken (ka_phys_mem_range ka) (ka_phys_alloc_range ka) rs' p" by simp
  then show "kargs_grow ka ka'" "page_addresses p \<subseteq> addresses (ka_phys_mem_range ka)"
    "page_addresses p \<inter> addresses (ka_phys_alloc_range ka) = {}"
    "page_addresses p \<subseteq> addresses (ka_phys_alloc_range ka')"
    by (auto simp: page_taken_def space_taken_def page_addresses_def kargs_grow_def l(2))
qed

lemma ensure_pgtable_ok:
  assumes ok: "boot_ok b" and e: "ensure_pgtable va prot b = Inr b'"
  shows "pde_p (bs_pgdir b' (VADDR_TO_PDENT va))" "bs_page_hole b' = bs_page_hole b"
    "kargs_grow (bs_kargs b) (bs_kargs b')"
    "vm_tmap_quick_query va' b = Inr (Some pa) \<Longrightarrow> vm_tmap_quick_query va' b' = Inr (Some pa)"
proof -
  let ?i = "VADDR_TO_PDENT va"
  consider (present) "pde_p (bs_pgdir b ?i)" "b' = b"
    | (alloc) kargs pg where "\<not> pde_p (bs_pgdir b ?i)" "vm_alloc_ppage_from_kargs (bs_kargs b) = (kargs, pg)" "pg \<noteq> 0"
      "b' = b\<lparr>bs_kargs := kargs, bs_pgdir := (bs_pgdir b)(?i := put_pgtable_in_pgdir (pg * PAGE_SIZE) prot),
        bs_pgtables := (\<lambda>j. if j div MAX_PDENTS = ?i then init_ptentry else bs_pgtables b j)\<rparr>"
    using e by (auto simp: ensure_pgtable_def Let_def split: if_splits prod.splits)
  then have "pde_p (bs_pgdir b' ?i) \<and> bs_page_hole b' = bs_page_hole b \<and> kargs_grow (bs_kargs b) (bs_kargs b') \<and>
    (vm_tmap_quick_query va' b = Inr (Some pa) \<longrightarrow> vm_tmap_quick_query va' b' = Inr (Some pa))"
  proof cases
    case present
    then show ?thesis using ok by (simp add: kargs_grow_def boot_ok_def)
  next
    case alloc
    have "kargs_grow (bs_kargs b) kargs" using ok ppage_ok(1) [OF _ _ alloc(2,3)] by (simp add: boot_ok_def)
    moreover have "vm_tmap_quick_query va' b' = Inr (Some pa)" if "vm_tmap_quick_query va' b = Inr (Some pa)"
    proof -
      have "VADDR_TO_PDENT va' \<noteq> ?i" using that alloc(1) by (auto simp: query_Some_iff)
      with that alloc(4) show ?thesis by (simp add: query_Some_iff VADDR_TO_PDENT_def VADDR_PTE_def)
    qed
    ultimately show ?thesis using alloc(4) by (simp add: put_pgtable_in_pgdir_def)
  qed
  then show "pde_p (bs_pgdir b' ?i)" "bs_page_hole b' = bs_page_hole b" "kargs_grow (bs_kargs b) (bs_kargs b')"
    "vm_tmap_quick_query va' b = Inr (Some pa) \<Longrightarrow> vm_tmap_quick_query va' b' = Inr (Some pa)" by simp_all
qed

lemma quick_map_ok:
  assumes ok: "boot_ok b" and m: "vm_tmap_quick_map_page va (p * PAGE_SIZE) prot b = Inr b'"
  shows "vm_tmap_quick_query va b' = Inr (Some (p * PAGE_SIZE))" "kargs_grow (bs_kargs b) (bs_kargs b')"
    "VADDR_PTE va' \<noteq> VADDR_PTE va \<Longrightarrow> vm_tmap_quick_query va' b = Inr (Some pa) \<Longrightarrow>
       vm_tmap_quick_query va' b' = Inr (Some pa)"
proof -
  from m obtain b1 where b1: "bs_page_hole b" "ensure_pgtable va prot b = Inr b1"
    "b' = b1\<lparr>bs_pgtables := (bs_pgtables b1)(VADDR_PTE va := quick_pte va (p * PAGE_SIZE) prot)\<rparr>"
    by (auto simp: vm_tmap_quick_map_page_def split: if_splits sum.splits)
  note e = ensure_pgtable_ok [OF ok b1(2)]
  show "vm_tmap_quick_query va b' = Inr (Some (p * PAGE_SIZE))"
    using e(1,2) b1(1,3) by (simp add: query_Some_iff quick_pte_def ADDR_SHIFT_page)
  show "kargs_grow (bs_kargs b) (bs_kargs b')" using e(3) b1(3) by simp
  show "vm_tmap_quick_query va' b' = Inr (Some pa)"
    if "VADDR_PTE va' \<noteq> VADDR_PTE va" "vm_tmap_quick_query va' b = Inr (Some pa)"
    using e(4) [OF that(2)] that(1) b1(3) by (simp add: query_Some_iff)
qed


text \<open>Pages taken one after the other: inside the memory, unused before, used after, and distinct.\<close>

definition fresh_pages :: "kernel_args \<Rightarrow> kernel_args \<Rightarrow> addr_t list \<Rightarrow> bool" where
  "fresh_pages ka ka' ps \<longleftrightarrow> kargs_grow ka ka' \<and> distinct ps \<and>
     (\<forall>p \<in> set ps. page_addresses p \<subseteq> addresses (ka_phys_mem_range ka) \<and>
        page_addresses p \<inter> addresses (ka_phys_alloc_range ka) = {} \<and>
        page_addresses p \<subseteq> addresses (ka_phys_alloc_range ka'))"

lemma page_addresses_nonempty: "\<exists>a. a \<in> page_addresses p"
  by (rule exI [of _ "unat p * page_bytes"]) (simp add: page_addresses_def)

lemma fresh_pages_Cons:
  assumes "mem_ok (ka_phys_mem_range ka)" "ranges_ok (ka_phys_alloc_range ka)"
    "vm_alloc_ppage_from_kargs ka = (ka1, p)" "p \<noteq> 0" "kargs_grow ka1 ka2" "fresh_pages ka2 ka3 ps"
  shows "fresh_pages ka ka3 (p # ps)"
proof -
  note t = ppage_ok [OF assms(1-4)]
  have sub: "page_addresses p \<subseteq> addresses (ka_phys_alloc_range ka2)" using t(4) assms(5) by (auto simp: kargs_grow_def)
  have "p \<notin> set ps" using sub assms(6) page_addresses_nonempty [of p] unfolding fresh_pages_def by blast
  moreover have "kargs_grow ka ka2" using t(1) assms(5) kargs_grow_trans by blast
  moreover have "kargs_grow ka2 ka3" using assms(6) by (simp add: fresh_pages_def)
  moreover have "page_addresses q \<inter> addresses (ka_phys_alloc_range ka) = {}" if "q \<in> set ps" for q
    using that assms(6) \<open>kargs_grow ka ka2\<close> unfolding fresh_pages_def kargs_grow_def by blast
  ultimately show ?thesis
    using t sub assms(6) by (auto simp: fresh_pages_def kargs_grow_def)
qed

lemma pte_index:
  assumes "page_bytes dvd unat v" "unat v + n * page_bytes \<le> 2 ^ 32" "k < n"
  shows "unat (VADDR_PTE (v + of_nat k * PAGE_SIZE)) = unat v div page_bytes + k"
proof -
  have "n \<le> 2 ^ 20" using assms(2) by (simp add: page_bytes_def)
  then have k: "k < 2 ^ 20" using assms(3) by simp
  have "k * page_bytes < n * page_bytes" using assms(3) by simp
  then have lt: "unat v + k * page_bytes < 2 ^ 32" using assms(2) by linarith
  have m: "unat (of_nat k * PAGE_SIZE) = k * page_bytes"
  proof -
    have "(of_nat k * PAGE_SIZE) = of_nat (k * page_bytes)" by (simp add: PAGE_SIZE_def page_bytes_def)
    moreover have "k * page_bytes < 2 ^ 32" using k by (simp add: page_bytes_def)
    ultimately show ?thesis by (simp only: unat_of_nat_small)
  qed
  have "unat (v + of_nat k * PAGE_SIZE) = unat v + k * page_bytes"
    using lt m by (subst unat_add_small) simp_all
  then show ?thesis using assms(1) by (simp add: VADDR_PTE_def unat_div)
qed

lemma map_loop_ok:
  assumes "boot_ok b" "map_loop v prot [m ..< n] b = Inr b'" "m \<le> n"
    and v: "page_bytes dvd unat v" "unat v + n * page_bytes \<le> 2 ^ 32"
    and "\<forall>k < m. vm_tmap_quick_query (v + of_nat k * PAGE_SIZE) b = Inr (Some (f k * PAGE_SIZE))"
  shows "\<exists>ps. length ps = n - m \<and> fresh_pages (bs_kargs b) (bs_kargs b') ps \<and>
    (\<forall>k < n. vm_tmap_quick_query (v + of_nat k * PAGE_SIZE) b' =
       Inr (Some ((if k < m then f k else ps ! (k - m)) * PAGE_SIZE)))"
  using assms(1,2,3,6)
proof (induction "n - m" arbitrary: m b f)
  case 0
  then have "m = n" "b' = b" by simp_all
  with 0 show ?case by (auto simp: fresh_pages_def kargs_grow_def boot_ok_def)
next
  case (Suc d)
  then have m: "m < n" and cons: "[m ..< n] = m # [Suc m ..< n]" by (simp_all add: upt_conv_Cons)
  obtain ka p b1 where p: "vm_alloc_ppage_from_kargs (bs_kargs b) = (ka, p)" "p \<noteq> 0"
    and q: "vm_tmap_quick_map_page (v + of_nat m * PAGE_SIZE) (p * PAGE_SIZE) prot (b\<lparr>bs_kargs := ka\<rparr>) = Inr b1"
    and r: "map_loop v prot [Suc m ..< n] b1 = Inr b'"
    using Suc.prems(2) by (auto simp: cons split: prod.splits if_splits sum.splits)
  have ok: "mem_ok (ka_phys_mem_range (bs_kargs b))" "ranges_ok (ka_phys_alloc_range (bs_kargs b))"
    using Suc.prems(1) by (simp_all add: boot_ok_def)
  have ok1: "boot_ok (b\<lparr>bs_kargs := ka\<rparr>)"
    using ppage_ok(1) [OF ok p] ok by (simp add: boot_ok_def kargs_grow_def)
  note qm = quick_map_ok [OF ok1 q]
  have ok2: "boot_ok b1" using qm(2) ok1 by (simp add: boot_ok_def kargs_grow_def)
  let ?f = "f(m := p)"
  have step: "\<forall>k < Suc m. vm_tmap_quick_query (v + of_nat k * PAGE_SIZE) b1 = Inr (Some (?f k * PAGE_SIZE))"
  proof (intro allI impI)
    fix k assume "k < Suc m"
    then consider "k = m" | "k < m" by linarith
    then show "vm_tmap_quick_query (v + of_nat k * PAGE_SIZE) b1 = Inr (Some (?f k * PAGE_SIZE))"
    proof cases
      case 2
      have "vm_tmap_quick_query (v + of_nat k * PAGE_SIZE) (b\<lparr>bs_kargs := ka\<rparr>) = Inr (Some (f k * PAGE_SIZE))"
        using Suc.prems(4) 2 by (simp add: query_Some_iff)
      moreover have "VADDR_PTE (v + of_nat k * PAGE_SIZE) \<noteq> VADDR_PTE (v + of_nat m * PAGE_SIZE)"
        using pte_index [OF v, of k] pte_index [OF v m] 2 m by auto
      ultimately show ?thesis using qm(3) 2 by simp
    qed (use qm(1) in simp)
  qed
  have "d = n - Suc m" "Suc m \<le> n" using Suc.hyps(2) by simp_all
  from Suc.hyps(1) [OF this(1) ok2 r this(2) step] obtain ps where
    ps: "length ps = n - Suc m" "fresh_pages (bs_kargs b1) (bs_kargs b') ps"
    "\<forall>k < n. vm_tmap_quick_query (v + of_nat k * PAGE_SIZE) b' =
       Inr (Some ((if k < Suc m then ?f k else ps ! (k - Suc m)) * PAGE_SIZE))" by blast
  have "fresh_pages (bs_kargs b) (bs_kargs b') (p # ps)"
    using fresh_pages_Cons [OF ok p _ ps(2)] qm(2) by simp
  moreover have "(if k < Suc m then ?f k else ps ! (k - Suc m)) = (if k < m then f k else (p # ps) ! (k - m))" for k
    by (auto simp: nth_Cons' less_Suc_eq)
  ultimately show ?case using ps(1,3) m by (intro exI [of _ "p # ps"]) simp
qed


section \<open>Properties\<close>


definition demo_boot_state :: boot_state where
  "demo_boot_state =
     \<lparr>bs_kargs = \<lparr>ka_phys_mem_range = [\<lparr>ar_start = 0, ar_size = 0x10000\<rparr>],
        ka_phys_alloc_range = [\<lparr>ar_start = 0x1000, ar_size = 0x1000\<rparr>, \<lparr>ar_start = 0x3000, ar_size = 0x2000\<rparr>],
        ka_virt_alloc_range = [\<lparr>ar_start = 0xC0000000, ar_size = 0x4000\<rparr>]\<rparr>,
      bs_page_hole = True, bs_pgdir = (\<lambda>_. init_pdentry), bs_pgtables = (\<lambda>_. init_ptentry)\<rparr>"

definition demo_block :: "boot_state \<times> addr_t" where
  "demo_block = (case vm_alloc_from_kargs 0x1800 11 demo_boot_state of Inr r \<Rightarrow> r | Inl _ \<Rightarrow> (demo_boot_state, 0))"

lemma demo_block_ret: "vm_alloc_from_kargs 0x1800 11 demo_boot_state = Inr (fst demo_block, snd demo_block)"
proof -
  have "\<not> isl (vm_alloc_from_kargs 0x1800 11 demo_boot_state)" by code_simp
  then show ?thesis by (auto simp: demo_block_def isl_def split: sum.splits)
qed

lemma demo_boot_ok:
  "boot_ok demo_boot_state" "ranges_ok (ka_virt_alloc_range (bs_kargs demo_boot_state))"
  by (simp_all add: demo_boot_state_def boot_ok_def mem_ok_def ranges_ok_def range_ok_def ar_end_def page_bytes_def)


text \<open>
  \<^verbatim>\<open>vm_alloc_vspace_from_kargs\<close> never refuses a request and never uses the gap below the first
  range: the bound it checks is the largest 32-bit number. When no gap between two ranges is
  large enough, the block is placed behind the last range, even if it then runs over the end of
  the address space.
\<close>

theorem vspace_never_refused:
  assumes "ka_virt_alloc_range kargs \<noteq> []" "vspace_gap (PAGE_ALIGN sz) (ka_virt_alloc_range kargs) = None"
  defines "l \<equiv> last (ka_virt_alloc_range kargs)"
  shows "vm_alloc_vspace_from_kargs kargs sz =
    Some (kargs\<lparr>ka_virt_alloc_range := butlast (ka_virt_alloc_range kargs) @ [l\<lparr>ar_size := ar_size l + PAGE_ALIGN sz\<rparr>]\<rparr>,
          ar_start l + ar_size l)"
  using assms kernel_top_max by (simp add: vm_alloc_vspace_from_kargs_def Let_def)

theorem vspace_never_refused_witness:
  "vm_alloc_vspace_from_kargs (bs_kargs demo_boot_state) 0x50000000 =
     Some ((bs_kargs demo_boot_state)\<lparr>ka_virt_alloc_range := [\<lparr>ar_start = 0xC0000000, ar_size = 0x50004000\<rparr>]\<rparr>, 0xC0004000) \<and>
   unat (0xC0000000 :: addr_t) + unat (0x50004000 :: addr_t) > 2 ^ 32"
proof -
  have "PAGE_ALIGN 0x50000000 = 0x50000000" by (rule PAGE_ALIGN_id) (simp add: page_bytes_def)
  then show ?thesis using vspace_never_refused [of "bs_kargs demo_boot_state" "0x50000000"]
    by (simp add: demo_boot_state_def)
qed

end
