(* ===== verification/Vm_Page.thy ===== *)
theory Vm_Page
  imports Xlist Boot_Alloc
begin

text \<open>
  The physical page manager of \<^verbatim>\<open>kernel/vm/vm_page.c\<close>. Every page has a state; pages are linked
  through \<^verbatim>\<open>list_node\<close> into the free, the clear or the active list, and \<^verbatim>\<open>VM_State\<close> counts the
  pages per state. A page pointer is the index of the page in \<^verbatim>\<open>all_pages\<close>, a list pointer
  the name of the list. A \<^verbatim>\<open>panic\<close> is an error value; \<open>None\<close> is an access outside the page
  array or a loop that never ends. \<^verbatim>\<open>clear_page\<close> (which maps the page and zeroes it) is recorded
  in a trace of physical addresses. \<^verbatim>\<open>page_lock\<close> is held over each operation, so an
  operation is one step.
\<close>

section \<open>Data\<close>

datatype page_state =
    VM_PAGE_STATE_ACTIVE | VM_PAGE_STATE_INACTIVE | VM_PAGE_STATE_FREE | VM_PAGE_STATE_CLEAR
  | VM_PAGE_STATE_WIRED | VM_PAGE_STATE_BUSY | VM_PAGE_STATE_UNUSED

text \<open>The numbers of the enumeration; any other \<^verbatim>\<open>uint\<close> names no state.\<close>

primrec page_state_code :: "page_state \<Rightarrow> uint" where
  "page_state_code VM_PAGE_STATE_ACTIVE = 0"
| "page_state_code VM_PAGE_STATE_INACTIVE = 1"
| "page_state_code VM_PAGE_STATE_FREE = 2"
| "page_state_code VM_PAGE_STATE_CLEAR = 3"
| "page_state_code VM_PAGE_STATE_WIRED = 4"
| "page_state_code VM_PAGE_STATE_BUSY = 5"
| "page_state_code VM_PAGE_STATE_UNUSED = 6"

definition page_state_of :: "uint \<Rightarrow> page_state option" where
  "page_state_of n =
     List.find (\<lambda>s. page_state_code s = n)
       [VM_PAGE_STATE_ACTIVE, VM_PAGE_STATE_INACTIVE, VM_PAGE_STATE_FREE, VM_PAGE_STATE_CLEAR,
        VM_PAGE_STATE_WIRED, VM_PAGE_STATE_BUSY, VM_PAGE_STATE_UNUSED]"

record vm_page =
  pg_ppn :: uint
  pg_wire_count :: uint
  pg_type :: "2 word"
  pg_state :: page_state

record vm_stat =
  vs_physical_page_size :: uint
  vs_total_physical_pages :: uint
  vs_active_pages :: uint
  vs_inactive_pages :: uint
  vs_wired_pages :: uint
  vs_busy_pages :: uint
  vs_clear_pages :: uint
  vs_free_pages :: uint
  vs_unused_pages :: uint

datatype page_list = Free_Pages_List | Clear_Pages_List | Active_Pages_List

record vm_pages =
  vp_nodes :: "nat nodes"
  vp_lists :: "page_list \<Rightarrow> nat xlist"
  vp_all_pages :: "vm_page list"
  vp_physical_page_offset :: addr_t
  vp_total_pages_count :: uint
  vp_stat :: vm_stat
  vp_cleared :: "addr_t list"

datatype page_panic = Invalid_Target_State | Page_Changed_State | Out_Of_Memory | Boot_Memory boot_panic

type_synonym 'a presult = "(page_panic + 'a) option"

section \<open>Page lists\<close>

definition put_page_to_list :: "page_list \<Rightarrow> nat \<Rightarrow> vm_pages \<Rightarrow> vm_pages" where
  "put_page_to_list l p v =
     (let (h, x, _) = xlist_add_last (vp_nodes v) (vp_lists v l) p
      in v\<lparr>vp_nodes := h, vp_lists := (vp_lists v)(l := x)\<rparr>)"

definition get_page_from_list :: "page_list \<Rightarrow> vm_pages \<Rightarrow> vm_pages \<times> nat option" where
  "get_page_from_list l v =
     (let (h, x, r) = xlist_extract_first (vp_nodes v) (vp_lists v l)
      in (v\<lparr>vp_nodes := h, vp_lists := (vp_lists v)(l := x)\<rparr>, r))"

definition remove_page_from_list :: "page_list \<Rightarrow> nat \<Rightarrow> vm_pages \<Rightarrow> vm_pages option" where
  "remove_page_from_list l p v =
     (case xlist_remove (vp_nodes v) (vp_lists v l) p of
        None \<Rightarrow> None
      | Some (h, x, _) \<Rightarrow> Some (v\<lparr>vp_nodes := h, vp_lists := (vp_lists v)(l := x)\<rparr>))"

definition move_page_to_list :: "page_list \<Rightarrow> page_list \<Rightarrow> nat \<Rightarrow> vm_pages \<Rightarrow> vm_pages option" where
  "move_page_to_list list_from list_to p v =
     (if list_from \<noteq> list_to
      then (case remove_page_from_list list_from p v of
              None \<Rightarrow> None
            | Some v1 \<Rightarrow> Some (put_page_to_list list_to p v1))
      else Some v)"

section \<open>States and statistics\<close>

fun list_of_state :: "page_state \<Rightarrow> page_list" where
  "list_of_state VM_PAGE_STATE_FREE = Free_Pages_List"
| "list_of_state VM_PAGE_STATE_CLEAR = Clear_Pages_List"
| "list_of_state _ = Active_Pages_List"

primrec stat_of :: "page_state \<Rightarrow> vm_stat \<Rightarrow> uint" where
  "stat_of VM_PAGE_STATE_ACTIVE st = vs_active_pages st"
| "stat_of VM_PAGE_STATE_INACTIVE st = vs_inactive_pages st"
| "stat_of VM_PAGE_STATE_FREE st = vs_free_pages st"
| "stat_of VM_PAGE_STATE_CLEAR st = vs_clear_pages st"
| "stat_of VM_PAGE_STATE_WIRED st = vs_wired_pages st"
| "stat_of VM_PAGE_STATE_BUSY st = vs_busy_pages st"
| "stat_of VM_PAGE_STATE_UNUSED st = vs_unused_pages st"

primrec stat_update :: "page_state \<Rightarrow> (uint \<Rightarrow> uint) \<Rightarrow> vm_stat \<Rightarrow> vm_stat" where
  "stat_update VM_PAGE_STATE_ACTIVE f st = st\<lparr>vs_active_pages := f (vs_active_pages st)\<rparr>"
| "stat_update VM_PAGE_STATE_INACTIVE f st = st\<lparr>vs_inactive_pages := f (vs_inactive_pages st)\<rparr>"
| "stat_update VM_PAGE_STATE_FREE f st = st\<lparr>vs_free_pages := f (vs_free_pages st)\<rparr>"
| "stat_update VM_PAGE_STATE_CLEAR f st = st\<lparr>vs_clear_pages := f (vs_clear_pages st)\<rparr>"
| "stat_update VM_PAGE_STATE_WIRED f st = st\<lparr>vs_wired_pages := f (vs_wired_pages st)\<rparr>"
| "stat_update VM_PAGE_STATE_BUSY f st = st\<lparr>vs_busy_pages := f (vs_busy_pages st)\<rparr>"
| "stat_update VM_PAGE_STATE_UNUSED f st = st\<lparr>vs_unused_pages := f (vs_unused_pages st)\<rparr>"

definition stat_dec :: "page_state \<Rightarrow> vm_pages \<Rightarrow> vm_pages" where
  "stat_dec s v = v\<lparr>vp_stat := stat_update s (\<lambda>n. n - 1) (vp_stat v)\<rparr>"

definition stat_inc :: "page_state \<Rightarrow> vm_pages \<Rightarrow> vm_pages" where
  "stat_inc s v = v\<lparr>vp_stat := stat_update s (\<lambda>n. n + 1) (vp_stat v)\<rparr>"

definition put_state :: "nat \<Rightarrow> page_state \<Rightarrow> vm_pages \<Rightarrow> vm_pages" where
  "put_state p s v = v\<lparr>vp_all_pages := (vp_all_pages v)[p := (vp_all_pages v ! p)\<lparr>pg_state := s\<rparr>]\<rparr>"

definition page_state :: "vm_pages \<Rightarrow> nat \<Rightarrow> page_state" where
  "page_state v p = pg_state (vp_all_pages v ! p)"

definition set_page_state :: "nat \<Rightarrow> uint \<Rightarrow> vm_pages \<Rightarrow> vm_pages presult" where
  "set_page_state p target v =
     (if length (vp_all_pages v) \<le> p then None
      else if page_state_code (page_state v p) = target then Some (Inr v)
      else
        (let s = page_state v p;
             v1 = stat_dec s v
         in case page_state_of target of
              None \<Rightarrow> Some (Inl Invalid_Target_State)
            | Some t \<Rightarrow>
                (let v2 = stat_inc t v1
                 in case move_page_to_list (list_of_state s) (list_of_state t) p v2 of
                      None \<Rightarrow> None
                    | Some v3 \<Rightarrow> Some (Inr (put_state p t v3)))))"

definition clear_page :: "addr_t \<Rightarrow> vm_pages \<Rightarrow> vm_pages" where
  "clear_page pa v = v\<lparr>vp_cleared := vp_cleared v @ [pa]\<rparr>"

section \<open>Lookup and counts\<close>

definition vm_page_lookup :: "addr_t \<Rightarrow> vm_pages \<Rightarrow> nat option" where
  "vm_page_lookup page_num v =
     (if page_num < vp_physical_page_offset v then None
      else (let n = page_num - vp_physical_page_offset v
            in if vp_total_pages_count v \<le> n then None else Some (unat n)))"

definition vm_page_set_state :: "nat \<Rightarrow> uint \<Rightarrow> vm_pages \<Rightarrow> vm_pages presult" where
  "vm_page_set_state p target v = set_page_state p target v"

definition vm_page_pages_count :: "vm_pages \<Rightarrow> size_t" where
  "vm_page_pages_count v = vp_total_pages_count v"

definition vm_page_free_pages_count :: "vm_pages \<Rightarrow> size_t" where
  "vm_page_free_pages_count v =
     xl_count (vp_lists v Free_Pages_List) + xl_count (vp_lists v Clear_Pages_List)"

section \<open>Marking ranges\<close>

fun mark_loop :: "nat list \<Rightarrow> vm_pages \<Rightarrow> vm_pages presult" where
  "mark_loop [] v = Some (Inr v)"
| "mark_loop (p # ps) v =
     (if length (vp_all_pages v) \<le> p then None
      else if page_state v p \<in> {VM_PAGE_STATE_CLEAR, VM_PAGE_STATE_FREE}
      then (case set_page_state p (page_state_code VM_PAGE_STATE_UNUSED) v of
              None \<Rightarrow> None
            | Some (Inl e) \<Rightarrow> Some (Inl e)
            | Some (Inr v') \<Rightarrow> mark_loop ps v')
      else mark_loop ps v)"

definition vm_page_mark_range_inuse :: "addr_t \<Rightarrow> size_t \<Rightarrow> vm_pages \<Rightarrow> (vm_pages \<times> status) presult" where
  "vm_page_mark_range_inuse start_page len_pages v =
     (if start_page < vp_physical_page_offset v then Some (Inr (v, ERR_INVALID_ARGS))
      else
        (let start = start_page - vp_physical_page_offset v
         in if vp_total_pages_count v \<le> start + len_pages then Some (Inr (v, ERR_INVALID_ARGS))
            else (case mark_loop (map (\<lambda>i. unat (start + of_nat i)) [0 ..< unat len_pages]) v of
                    None \<Rightarrow> None
                  | Some (Inl e) \<Rightarrow> Some (Inl e)
                  | Some (Inr v') \<Rightarrow> Some (Inr (v', NO_ERROR)))))"

definition vm_page_mark_page_inuse :: "addr_t \<Rightarrow> vm_pages \<Rightarrow> (vm_pages \<times> status) presult" where
  "vm_page_mark_page_inuse page v = vm_page_mark_range_inuse page 1 v"

section \<open>Allocation\<close>

text \<open>
  Taking a given page: it leaves the list of its state (an unused page is already on the
  active list), becomes busy and joins the active list. \<open>None\<close> in the inner result: the page
  is in none of the states a page can be taken from.
\<close>

definition take_page :: "nat \<Rightarrow> vm_pages \<Rightarrow> vm_pages option option" where
  "take_page p v =
     (let old_page_state = page_state v p
      in case (if old_page_state = VM_PAGE_STATE_FREE then
                 map_option (\<lambda>v1. Some (stat_dec VM_PAGE_STATE_FREE v1)) (remove_page_from_list Free_Pages_List p v)
               else if old_page_state = VM_PAGE_STATE_CLEAR then
                 map_option (\<lambda>v1. Some (stat_dec VM_PAGE_STATE_CLEAR v1)) (remove_page_from_list Clear_Pages_List p v)
               else if old_page_state = VM_PAGE_STATE_UNUSED then Some (Some (stat_dec VM_PAGE_STATE_UNUSED v))
               else Some None) of
           None \<Rightarrow> None
         | Some None \<Rightarrow> Some None
         | Some (Some v1) \<Rightarrow>
             (let v2 = stat_inc VM_PAGE_STATE_BUSY (put_state p VM_PAGE_STATE_BUSY v1)
              in Some (Some (if old_page_state \<noteq> VM_PAGE_STATE_UNUSED
                             then put_page_to_list Active_Pages_List p v2 else v2))))"

definition vm_page_alloc_specific :: "addr_t \<Rightarrow> uint \<Rightarrow> vm_pages \<Rightarrow> (vm_pages \<times> nat option) option" where
  "vm_page_alloc_specific page_num page_st v =
     (case vm_page_lookup page_num v of
        None \<Rightarrow> Some (v, None)
      | Some p \<Rightarrow>
          (if length (vp_all_pages v) \<le> p then None
           else
             (let old_page_state = page_state v p
              in case take_page p v of
                   None \<Rightarrow> None
                 | Some None \<Rightarrow> Some (v, None)
                 | Some (Some v1) \<Rightarrow>
                     Some (if page_st = page_state_code VM_PAGE_STATE_CLEAR \<and>
                              (old_page_state = VM_PAGE_STATE_FREE \<or> old_page_state = VM_PAGE_STATE_UNUSED)
                           then clear_page (pg_ppn (vp_all_pages v1 ! p) * PAGE_SIZE) v1 else v1,
                           Some p))))"

fun range_available :: "nat list \<Rightarrow> vm_pages \<Rightarrow> bool option" where
  "range_available [] v = Some True"
| "range_available (i # is) v =
     (case vm_page_lookup (of_nat i) v of
        None \<Rightarrow> Some False
      | Some p \<Rightarrow>
          (if length (vp_all_pages v) \<le> p then None
           else if page_state v p \<notin> {VM_PAGE_STATE_FREE, VM_PAGE_STATE_CLEAR, VM_PAGE_STATE_UNUSED}
           then Some False
           else range_available is v))"

fun take_range :: "uint \<Rightarrow> nat list \<Rightarrow> bool \<Rightarrow> vm_pages \<Rightarrow> (vm_pages \<times> bool) presult" where
  "take_range page_st [] need_clear v = Some (Inr (v, need_clear))"
| "take_range page_st (p # ps) need_clear v =
     (if length (vp_all_pages v) \<le> p then None
      else
        (let need = need_clear \<or> (page_state v p \<in> {VM_PAGE_STATE_FREE, VM_PAGE_STATE_UNUSED} \<and>
                                  page_st = page_state_code VM_PAGE_STATE_CLEAR)
         in case take_page p v of
              None \<Rightarrow> None
            | Some None \<Rightarrow> Some (Inl Page_Changed_State)
            | Some (Some v1) \<Rightarrow> take_range page_st ps need v1))"

definition clear_range :: "nat list \<Rightarrow> vm_pages \<Rightarrow> vm_pages" where
  "clear_range ps v = fold (\<lambda>p v. clear_page (pg_ppn (vp_all_pages v ! p) * PAGE_SIZE) v) ps v"

definition vm_page_alloc_specific_range ::
  "addr_t \<Rightarrow> addr_t \<Rightarrow> uint \<Rightarrow> vm_pages \<Rightarrow> (vm_pages \<times> nat option) presult" where
  "vm_page_alloc_specific_range first_page_num npages page_st v =
     (if npages = 0 then Some (Inr (v, None))
      else
        (case range_available [unat first_page_num ..< unat (first_page_num + npages)] v of
           None \<Rightarrow> None
         | Some False \<Rightarrow> Some (Inr (v, None))
         | Some True \<Rightarrow>
             (let first = first_page_num - vp_physical_page_offset v;
                  range = [unat first ..< unat (first + npages)]
              in case take_range page_st range False v of
                   None \<Rightarrow> None
                 | Some (Inl e) \<Rightarrow> Some (Inl e)
                 | Some (Inr (v1, need_clear)) \<Rightarrow>
                     Some (Inr (if need_clear then clear_range range v1 else v1, Some (unat first))))))"

text \<open>What \<^verbatim>\<open>vm_page_alloc\<close> does with the page it got from a list.\<close>

definition alloc_tail :: "uint \<Rightarrow> vm_pages \<Rightarrow> nat \<Rightarrow> page_list \<Rightarrow> (vm_pages \<times> nat option) presult" where
  "alloc_tail page_st v1 p src =
     (if length (vp_all_pages v1) \<le> p then None
      else
        (let v2 = stat_dec (if src = Free_Pages_List then VM_PAGE_STATE_FREE else VM_PAGE_STATE_CLEAR) v1;
             old_page_state = page_state v2 p;
             v3 = stat_inc VM_PAGE_STATE_BUSY (put_state p VM_PAGE_STATE_BUSY v2);
             v4 = put_page_to_list Active_Pages_List p v3
         in Some (Inr (if page_st = page_state_code VM_PAGE_STATE_CLEAR \<and> old_page_state = VM_PAGE_STATE_FREE
                       then clear_page (pg_ppn (vp_all_pages v4 ! p) * PAGE_SIZE) v4 else v4,
                       Some p))))"

definition vm_page_alloc :: "uint \<Rightarrow> vm_pages \<Rightarrow> (vm_pages \<times> nat option) presult" where
  "vm_page_alloc page_st v =
     (case (if page_st = page_state_code VM_PAGE_STATE_FREE then Some (Free_Pages_List, Clear_Pages_List)
            else if page_st = page_state_code VM_PAGE_STATE_CLEAR then Some (Clear_Pages_List, Free_Pages_List)
            else None) of
        None \<Rightarrow> Some (Inr (v, None))
      | Some (pages_list, spare_pages_list) \<Rightarrow>
          (case get_page_from_list pages_list v of
             (v1, Some p) \<Rightarrow> alloc_tail page_st v1 p pages_list
           | (v1, None) \<Rightarrow>
               (case get_page_from_list spare_pages_list v1 of
                  (v2, Some p) \<Rightarrow> alloc_tail page_st v2 p spare_pages_list
                | (v2, None) \<Rightarrow> Some (Inl Out_Of_Memory))))"

text \<open>
  The inner loop of \<^verbatim>\<open>vm_page_alloc_range\<close>: how many pages from \<open>start\<close> on are free or clear, up
  to \<open>n\<close>; and the loop that takes the pages found.
\<close>

fun scan_range :: "nat \<Rightarrow> nat \<Rightarrow> vm_pages \<Rightarrow> nat option" where
  "scan_range start 0 v = Some 0"
| "scan_range start (Suc n) v =
     (if length (vp_all_pages v) \<le> start then None
      else if page_state v start \<noteq> VM_PAGE_STATE_FREE \<and> page_state v start \<noteq> VM_PAGE_STATE_CLEAR
      then Some 0
      else map_option Suc (scan_range (Suc start) n v))"

fun busy_loop :: "nat list \<Rightarrow> vm_pages \<Rightarrow> vm_pages presult" where
  "busy_loop [] v = Some (Inr v)"
| "busy_loop (p # ps) v =
     (case set_page_state p (page_state_code VM_PAGE_STATE_BUSY) v of
        None \<Rightarrow> None
      | Some (Inl e) \<Rightarrow> Some (Inl e)
      | Some (Inr v') \<Rightarrow> busy_loop ps v')"

partial_function (option) alloc_range_loop ::
  "uint \<Rightarrow> addr_t \<Rightarrow> vm_pages \<Rightarrow> (vm_pages \<times> nat option) presult" where
  "alloc_range_loop start npages v =
     (if vp_total_pages_count v \<le> start + npages then Some (Inr (v, None))
      else
        (case scan_range (unat start) (unat npages) v of
           None \<Rightarrow> None
         | Some k \<Rightarrow>
             (if k = unat npages
              then (case busy_loop [unat start ..< unat start + unat npages] v of
                      None \<Rightarrow> None
                    | Some (Inl e) \<Rightarrow> Some (Inl e)
                    | Some (Inr v') \<Rightarrow> Some (Inr (v', Some (unat start))))
              else
                (let start' = start + of_nat (Suc k)
                 in if vp_total_pages_count v \<le> start' then Some (Inr (v, None))
                    else alloc_range_loop start' npages v))))"

definition vm_page_alloc_range :: "uint \<Rightarrow> addr_t \<Rightarrow> vm_pages \<Rightarrow> (vm_pages \<times> nat option) presult" where
  "vm_page_alloc_range page_st npages v = alloc_range_loop 0 npages v"

section \<open>Initialisation\<close>

text \<open>
  \<^verbatim>\<open>vm_page_preinit\<close> computes the page numbers from the memory ranges; \<^verbatim>\<open>vm_page_init\<close> fills the page
  array (whose memory comes from the boot allocator, contents arbitrary) and marks the
  ranges allocated by the loader.
\<close>

definition vm_page_preinit :: "kernel_args \<Rightarrow> vm_pages \<Rightarrow> vm_pages" where
  "vm_page_preinit kargs v =
     (let offset = ar_start (hd (ka_phys_mem_range kargs)) div PAGE_SIZE;
          last_phys_page = foldl (\<lambda>_ r. (ar_start r + ar_size r) div PAGE_SIZE - 1) 0 (ka_phys_mem_range kargs);
          total = last_phys_page - offset + 1
      in v\<lparr>vp_lists := (\<lambda>l. fst (xlist_init (vp_lists v l))),
           vp_physical_page_offset := offset, vp_total_pages_count := total,
           vp_stat := (vp_stat v)\<lparr>vs_physical_page_size := PAGE_SIZE, vs_total_physical_pages := total\<rparr>\<rparr>)"

definition init_page :: "nat \<Rightarrow> vm_pages \<Rightarrow> vm_page" where
  "init_page i v =
     \<lparr>pg_ppn = vp_physical_page_offset v + of_nat i, pg_wire_count = 0, pg_type = 0,
      pg_state = VM_PAGE_STATE_FREE\<rparr>"

fun init_pages :: "nat list \<Rightarrow> vm_pages \<Rightarrow> vm_pages" where
  "init_pages [] v = v"
| "init_pages (i # is) v =
     init_pages is (put_page_to_list Free_Pages_List i
       (stat_inc VM_PAGE_STATE_FREE (v\<lparr>vp_all_pages := (vp_all_pages v)[i := init_page i v]\<rparr>)))"

fun mark_ranges :: "addr_range list \<Rightarrow> vm_pages \<Rightarrow> vm_pages presult" where
  "mark_ranges [] v = Some (Inr v)"
| "mark_ranges (r # rs) v =
     (case vm_page_mark_range_inuse (ar_start r div PAGE_SIZE) (ar_size r div PAGE_SIZE) v of
        None \<Rightarrow> None
      | Some (Inl e) \<Rightarrow> Some (Inl e)
      | Some (Inr (v', _)) \<Rightarrow> mark_ranges rs v')"

text \<open>
  The page array is allocated first, which extends the ranges marked afterwards; \<open>area\<close> is what the
  allocated memory holds.
\<close>

definition sizeof_vm_page :: size_t where "sizeof_vm_page = 20"

definition VM_PROT_KERNEL_DEFAULT :: uint where "VM_PROT_KERNEL_DEFAULT = 0x0B"

definition vm_page_init :: "boot_state \<Rightarrow> vm_page list \<Rightarrow> vm_pages \<Rightarrow> vm_pages presult" where
  "vm_page_init b area v =
     (case vm_alloc_from_kargs (vp_total_pages_count v * sizeof_vm_page) VM_PROT_KERNEL_DEFAULT b of
        Inl e \<Rightarrow> Some (Inl (Boot_Memory e))
      | Inr (b', all_pages) \<Rightarrow>
          mark_ranges (ka_phys_alloc_range (bs_kargs b'))
            (init_pages [0 ..< unat (vp_total_pages_count v)] (v\<lparr>vp_all_pages := area\<rparr>)))"

section \<open>The invariant\<close>

text \<open>
  A page is on the list of its state and on no other, the lists are well linked, and every
  counter is the number of pages in its state. \<open>L\<close> gives the pages of each list in order.
\<close>

definition count_state :: "page_state \<Rightarrow> vm_pages \<Rightarrow> nat" where
  "count_state s v = length (filter (\<lambda>p. pg_state p = s) (vp_all_pages v))"

definition lists_ok :: "vm_pages \<Rightarrow> (page_list \<Rightarrow> nat list) \<Rightarrow> bool" where
  "lists_ok v L \<longleftrightarrow> (\<forall>k. xlist_rep (vp_nodes v) (vp_lists v k) (L k)) \<and>
     (\<forall>k k'. k \<noteq> k' \<longrightarrow> set (L k) \<inter> set (L k') = {})"

definition pages_inv :: "vm_pages \<Rightarrow> (page_list \<Rightarrow> nat list) \<Rightarrow> bool" where
  "pages_inv v L \<longleftrightarrow>
     lists_ok v L \<and> length (vp_all_pages v) = unat (vp_total_pages_count v) \<and>
     unat (vp_total_pages_count v) \<le> 2 ^ 20 \<and>
     (\<forall>k p. p \<in> set (L k) \<longleftrightarrow> p < length (vp_all_pages v) \<and> list_of_state (page_state v p) = k) \<and>
     (\<forall>s. stat_of s (vp_stat v) = of_nat (count_state s v))"

lemma page_state_of_code [simp]: "page_state_of (page_state_code s) = Some s"
  by (cases s) (simp_all add: page_state_of_def)

lemma page_state_of_Some: "page_state_of n = Some t \<Longrightarrow> page_state_code t = n"
  by (auto simp: page_state_of_def split: if_splits)

lemma stat_of_update: "stat_of s (stat_update t f st) = (if s = t then f (stat_of s st) else stat_of s st)"
  by (cases s; cases t) simp_all

lemma stat_fields [simp]:
  "vp_nodes (stat_dec s v) = vp_nodes v" "vp_lists (stat_dec s v) = vp_lists v"
  "vp_all_pages (stat_dec s v) = vp_all_pages v" "vp_total_pages_count (stat_dec s v) = vp_total_pages_count v"
  "vp_nodes (stat_inc s v) = vp_nodes v" "vp_lists (stat_inc s v) = vp_lists v"
  "vp_all_pages (stat_inc s v) = vp_all_pages v" "vp_total_pages_count (stat_inc s v) = vp_total_pages_count v"
  "vp_nodes (put_state p s v) = vp_nodes v" "vp_lists (put_state p s v) = vp_lists v"
  "vp_total_pages_count (put_state p s v) = vp_total_pages_count v" "vp_stat (put_state p s v) = vp_stat v"
  "length (vp_all_pages (put_state p s v)) = length (vp_all_pages v)"
  "vp_nodes (clear_page a v) = vp_nodes v" "vp_lists (clear_page a v) = vp_lists v"
  "vp_all_pages (clear_page a v) = vp_all_pages v" "vp_total_pages_count (clear_page a v) = vp_total_pages_count v"
  "vp_stat (clear_page a v) = vp_stat v" "vp_physical_page_offset (clear_page a v) = vp_physical_page_offset v"
  by (simp_all add: stat_dec_def stat_inc_def put_state_def clear_page_def)

subsection \<open>List steps\<close>

lemma lists_ok_cong: "vp_nodes v' = vp_nodes v \<Longrightarrow> vp_lists v' = vp_lists v \<Longrightarrow> lists_ok v' L = lists_ok v L"
  by (simp add: lists_ok_def)

lemma lists_okD: "lists_ok v L \<Longrightarrow> k \<noteq> k' \<Longrightarrow> p \<in> set (L k) \<Longrightarrow> p \<notin> set (L k')"
  by (auto simp: lists_ok_def)

text \<open>An operation on one list that touches only its own nodes and the moved page.\<close>

lemma lists_ok_step:
  assumes ok: "lists_ok v L" and new: "xlist_rep h x xs" and out: "same_outside (insert p (set (L l))) (vp_nodes v) h"
    and p: "\<forall>k. k \<noteq> l \<longrightarrow> p \<notin> set (L k)" and xs: "set xs \<subseteq> insert p (set (L l))"
  shows "lists_ok (v\<lparr>vp_nodes := h, vp_lists := (vp_lists v)(l := x)\<rparr>) (L(l := xs))"
proof -
  have "xlist_rep h (vp_lists v k) (L k)" if "k \<noteq> l" for k
  proof -
    have "xlist_rep (vp_nodes v) (vp_lists v k) (L k)" using ok by (simp add: lists_ok_def)
    moreover have "insert p (set (L l)) \<inter> set (L k) = {}"
      using p that lists_okD [OF ok, of l k] by auto
    ultimately show ?thesis using out by (blast intro: xlist_rep_frame)
  qed
  moreover have "set xs \<inter> set (L k) = {}" if "k \<noteq> l" for k
    using lists_okD [OF ok] p xs that by blast
  ultimately show ?thesis using ok new by (simp add: lists_ok_def Int_commute)
qed

definition list_change :: "vm_pages \<Rightarrow> vm_pages \<Rightarrow> bool" where
  "list_change v v' \<longleftrightarrow>
     vp_all_pages v' = vp_all_pages v \<and> vp_total_pages_count v' = vp_total_pages_count v \<and>
     vp_stat v' = vp_stat v \<and> vp_physical_page_offset v' = vp_physical_page_offset v \<and>
     vp_cleared v' = vp_cleared v"

lemma put_page_ok:
  assumes "lists_ok v L" "\<forall>k. p \<notin> set (L k)"
  shows "lists_ok (put_page_to_list l p v) (L(l := L l @ [p])) \<and> list_change v (put_page_to_list l p v)"
proof -
  obtain h x r where add: "xlist_add_last (vp_nodes v) (vp_lists v l) p = (h, x, r)" by (metis prod_cases3)
  moreover have "xlist_rep (vp_nodes v) (vp_lists v l) (L l)" using assms(1) by (simp add: lists_ok_def)
  ultimately have "xlist_rep h x (L l @ [p]) \<and> same_outside (insert p (set (L l))) (vp_nodes v) h"
    using xlist_add_last_rep [of "vp_nodes v" "vp_lists v l" "L l" p h x r] assms(2) by simp
  with lists_ok_step [OF assms(1), of h x "L l @ [p]" p l] add assms(2) show ?thesis
    by (auto simp: put_page_to_list_def list_change_def)
qed

lemma remove_page_ok:
  assumes "lists_ok v L" "p \<in> set (L l)"
  shows "\<exists>v'. remove_page_from_list l p v = Some v' \<and> lists_ok v' (L(l := remove1 p (L l))) \<and> list_change v v'"
proof -
  have rep: "xlist_rep (vp_nodes v) (vp_lists v l) (L l)" using assms(1) by (simp add: lists_ok_def)
  from xlist_remove_rep [OF this, of p] obtain h x r where
    r: "xlist_remove (vp_nodes v) (vp_lists v l) p = Some (h, x, r)" "xlist_rep h x (remove1 p (L l))"
      "same_outside (set (L l)) (vp_nodes v) h" by blast
  have "\<forall>k. k \<noteq> l \<longrightarrow> p \<notin> set (L k)" using lists_okD assms by metis
  with lists_ok_step [OF assms(1) r(2), of p l] r(3) assms(2) set_remove1_subset [of p "L l"]
  have "lists_ok (v\<lparr>vp_nodes := h, vp_lists := (vp_lists v)(l := x)\<rparr>) (L(l := remove1 p (L l)))"
    by (auto simp: insert_absorb)
  with r(1) show ?thesis by (auto simp: remove_page_from_list_def list_change_def)
qed

lemma get_page_ok:
  assumes "lists_ok v L"
  shows "(L l = [] \<and> get_page_from_list l v = (v, None)) \<or>
    (\<exists>p ps v'. L l = p # ps \<and> get_page_from_list l v = (v', Some p) \<and> lists_ok v' (L(l := ps)) \<and> list_change v v')"
proof (cases "L l")
  case Nil
  then have "xlist_rep (vp_nodes v) (vp_lists v l) []" using assms by (metis lists_ok_def)
  from xlist_extract_first_empty [OF this] Nil show ?thesis by (simp add: get_page_from_list_def)
next
  case (Cons p ps)
  then have "xlist_rep (vp_nodes v) (vp_lists v l) (p # ps)" using assms by (metis lists_ok_def)
  moreover obtain h x r where ex: "xlist_extract_first (vp_nodes v) (vp_lists v l) = (h, x, r)" by (metis prod_cases3)
  ultimately have e: "xlist_rep h x ps" "r = Some p" "same_outside (insert p (set ps)) (vp_nodes v) h"
    using xlist_extract_first_rep [of "vp_nodes v" "vp_lists v l" p ps h x r] by simp_all
  have "\<forall>k. k \<noteq> l \<longrightarrow> p \<notin> set (L k)" using lists_okD [OF assms, of l _ p] Cons by auto
  then have "lists_ok (v\<lparr>vp_nodes := h, vp_lists := (vp_lists v)(l := x)\<rparr>) (L(l := ps))"
    using e(3) Cons by (intro lists_ok_step [OF assms e(1), of p]) auto
  then show ?thesis using Cons ex e(2) by (simp add: get_page_from_list_def list_change_def)
qed

subsection \<open>Changing the state of a page\<close>

lemma count_word:
  fixes a b :: nat
  assumes "a + (if P then 1 else 0) = b + (if Q then 1 else 0)"
  shows "(of_nat a :: uint) = of_nat b + (if Q then 1 else 0) - (if P then 1 else 0)"
  using assms by (cases P; cases Q) auto

lemma count_state_update:
  assumes "p < length (vp_all_pages v)"
  shows "count_state s (put_state p t v) + (if page_state v p = s then 1 else 0)
    = count_state s v + (if t = s then 1 else 0)"
  using length_filter_update [OF assms, of "\<lambda>p. pg_state p = s" "(vp_all_pages v ! p)\<lparr>pg_state := t\<rparr>"]
  by (simp add: count_state_def put_state_def page_state_def)

lemma page_state_put: "p < length (vp_all_pages v) \<Longrightarrow>
    page_state (put_state p t v) q = (if q = p then t else page_state v q)"
  by (simp add: page_state_def put_state_def)

definition moved :: "(page_list \<Rightarrow> nat list) \<Rightarrow> page_list \<Rightarrow> page_list \<Rightarrow> nat \<Rightarrow> page_list \<Rightarrow> nat list" where
  "moved L k k' p = (if k = k' then L else (L(k := remove1 p (L k)))(k' := L k' @ [p]))"

lemma move_page_ok:
  assumes ok: "lists_ok v L" and p: "p \<in> set (L k)"
  shows "\<exists>v'. move_page_to_list k k' p v = Some v' \<and> lists_ok v' (moved L k k' p) \<and> list_change v v'"
proof (cases "k = k'")
  case True
  then show ?thesis using ok by (simp add: move_page_to_list_def moved_def list_change_def)
next
  case False
  from remove_page_ok [OF ok p] obtain v1 where
    v1: "remove_page_from_list k p v = Some v1" "lists_ok v1 (L(k := remove1 p (L k)))" "list_change v v1" by blast
  have "distinct (L k)" using ok xlist_rep_distinct by (auto simp: lists_ok_def)
  then have "\<forall>j. p \<notin> set ((L(k := remove1 p (L k))) j)" using lists_okD [OF ok _ p] by auto
  note put = put_page_ok [OF v1(2) this, of k']
  have "(L(k := remove1 p (L k))) k' = L k'" using False by simp
  with put have "lists_ok (put_page_to_list k' p v1) (moved L k k' p)"
    using False by (simp only: moved_def if_False)
  moreover have "list_change v (put_page_to_list k' p v1)" using put v1(3) by (simp add: list_change_def)
  ultimately show ?thesis using v1(1) False by (simp add: move_page_to_list_def)
qed

text \<open>
  The state of a page, the counters of the two states and the lists change together: then
  the invariant holds again.
\<close>

lemma pages_inv_change:
  assumes inv: "pages_inv v L" and p: "p < length (vp_all_pages v)"
    and lists: "lists_ok v' (moved L (list_of_state (page_state v p)) (list_of_state t) p)"
    and pages: "vp_all_pages v' = vp_all_pages (put_state p t v)"
    and total: "vp_total_pages_count v' = vp_total_pages_count v"
    and stat: "vp_stat v' = stat_update t (\<lambda>n. n + 1) (stat_update (page_state v p) (\<lambda>n. n - 1) (vp_stat v))"
  shows "pages_inv v' (moved L (list_of_state (page_state v p)) (list_of_state t) p)"
proof -
  let ?s = "page_state v p" and ?L = "moved L (list_of_state (page_state v p)) (list_of_state t) p"
  have st: "page_state v' q = (if q = p then t else page_state v q)" for q
    using page_state_put [OF p, of t q] by (simp add: page_state_def pages)
  have mem: "q \<in> set (L k) \<longleftrightarrow> q < length (vp_all_pages v) \<and> list_of_state (page_state v q) = k" for k q
    using inv by (simp add: pages_inv_def)
  have dist: "distinct (L k)" for k using inv xlist_rep_distinct by (auto simp: pages_inv_def lists_ok_def)
  have "q \<in> set (?L k) \<longleftrightarrow> q < length (vp_all_pages v') \<and> list_of_state (page_state v' q) = k" for k q
  proof (cases "q = p")
    case True
    then show ?thesis using p mem dist by (auto simp: moved_def st pages)
  next
    case False
    then show ?thesis using p mem dist by (auto simp: moved_def st pages)
  qed
  moreover have "stat_of s (vp_stat v') = of_nat (count_state s v')" for s
  proof -
    have c: "count_state s v' = count_state s (put_state p t v)" by (simp add: count_state_def pages)
    have "stat_of s (vp_stat v) = of_nat (count_state s v)" using inv by (simp add: pages_inv_def)
    moreover note count_word [OF count_state_update [OF p, of s t]]
    ultimately show ?thesis unfolding c stat stat_of_update by (cases "?s = s"; cases "t = s") simp_all
  qed
  ultimately show ?thesis using inv lists pages total by (simp add: pages_inv_def)
qed

lemma set_page_state_ok:
  assumes inv: "pages_inv v L" and p: "p < length (vp_all_pages v)"
  shows "(set_page_state p n v = Some (Inl Invalid_Target_State) \<and> page_state_of n = None) \<or>
    (\<exists>t v' L'. page_state_of n = Some t \<and> set_page_state p n v = Some (Inr v') \<and> pages_inv v' L' \<and>
       vp_all_pages v' = vp_all_pages (put_state p t v) \<and> vp_cleared v' = vp_cleared v \<and>
       vp_physical_page_offset v' = vp_physical_page_offset v)"
proof (cases "page_state_of n")
  case None
  then show ?thesis using p page_state_of_code by (auto simp: set_page_state_def Let_def)
next
  case (Some t)
  then have code: "page_state_code t = n" by (rule page_state_of_Some)
  show ?thesis
  proof (cases "page_state v p = t")
    case True
    then have "put_state p t v = v" by (cases v) (auto simp: put_state_def page_state_def)
    then show ?thesis using Some True code p inv by (auto simp: set_page_state_def)
  next
    case False
    then have neq: "page_state_code (page_state v p) \<noteq> n" using Some page_state_of_code by fastforce
    let ?v2 = "stat_inc t (stat_dec (page_state v p) v)"
    let ?k = "list_of_state (page_state v p)" and ?k' = "list_of_state t"
    have ok: "lists_ok ?v2 L" using inv lists_ok_cong [of ?v2 v L] by (simp add: pages_inv_def)
    have pin: "p \<in> set (L ?k)" using inv p by (simp add: pages_inv_def)
    from move_page_ok [OF ok pin, of ?k'] obtain v3 where
      v3: "move_page_to_list ?k ?k' p ?v2 = Some v3" "lists_ok v3 (moved L ?k ?k' p)" "list_change ?v2 v3" by blast
    then have "pages_inv (put_state p t v3) (moved L ?k ?k' p)"
      using lists_ok_cong [of "put_state p t v3" v3]
      by (intro pages_inv_change [OF inv p]) (simp_all add: list_change_def put_state_def stat_inc_def stat_dec_def)
    moreover have "set_page_state p n v = Some (Inr (put_state p t v3))"
      using p neq Some v3(1) by (simp add: set_page_state_def Let_def)
    ultimately show ?thesis
      using Some v3(3) by (auto simp: list_change_def put_state_def stat_inc_def stat_dec_def)
  qed
qed

subsection \<open>Operations\<close>

definition same_frame :: "vm_pages \<Rightarrow> vm_pages \<Rightarrow> bool" where
  "same_frame v v' \<longleftrightarrow>
     vp_physical_page_offset v' = vp_physical_page_offset v \<and>
     vp_total_pages_count v' = vp_total_pages_count v \<and> length (vp_all_pages v') = length (vp_all_pages v)"

lemma same_frame_trans: "same_frame v v' \<Longrightarrow> same_frame v' v'' \<Longrightarrow> same_frame v v''"
  by (simp add: same_frame_def)

lemma set_page_state_valid:
  assumes inv: "pages_inv v L" and p: "p < length (vp_all_pages v)"
  shows "\<exists>v' L'. set_page_state p (page_state_code t) v = Some (Inr v') \<and> pages_inv v' L' \<and>
    vp_all_pages v' = vp_all_pages (put_state p t v) \<and> vp_cleared v' = vp_cleared v \<and> same_frame v v'"
proof -
  from set_page_state_ok [OF assms, of "page_state_code t"] obtain v' L' where
    s: "set_page_state p (page_state_code t) v = Some (Inr v')" "pages_inv v' L'"
      "vp_all_pages v' = vp_all_pages (put_state p t v)" "vp_cleared v' = vp_cleared v"
      "vp_physical_page_offset v' = vp_physical_page_offset v" by auto
  then have "length (vp_all_pages v') = length (vp_all_pages v)" by simp
  moreover from this have "vp_total_pages_count v' = vp_total_pages_count v"
    using inv s(2) by (simp add: pages_inv_def word_unat_eq_iff)
  ultimately show ?thesis using s by (auto simp: same_frame_def)
qed

text \<open>A page just removed from the list of its state becomes busy and joins the active list.\<close>

lemma busy_move:
  assumes inv: "pages_inv v L" and p: "p < length (vp_all_pages v)"
    and v1: "lists_ok v1 (L(list_of_state (page_state v p) := remove1 p (L (list_of_state (page_state v p)))))"
      "list_change v v1"
    and k: "page_state v p \<in> {VM_PAGE_STATE_FREE, VM_PAGE_STATE_CLEAR}"
  defines "v' \<equiv> put_page_to_list Active_Pages_List p
    (stat_inc VM_PAGE_STATE_BUSY (put_state p VM_PAGE_STATE_BUSY (stat_dec (page_state v p) v1)))"
  shows "(\<exists>L'. pages_inv v' L') \<and> vp_all_pages v' = vp_all_pages (put_state p VM_PAGE_STATE_BUSY v) \<and>
    vp_cleared v' = vp_cleared v \<and> same_frame v v'"
proof -
  let ?k = "list_of_state (page_state v p)"
  let ?v2 = "stat_inc VM_PAGE_STATE_BUSY (put_state p VM_PAGE_STATE_BUSY (stat_dec (page_state v p) v1))"
  have ok: "lists_ok v L" using inv by (simp add: pages_inv_def)
  have pin: "p \<in> set (L ?k)" using inv p by (simp add: pages_inv_def)
  have "distinct (L ?k)" using ok xlist_rep_distinct by (auto simp: lists_ok_def)
  then have out: "\<forall>j. p \<notin> set ((L(?k := remove1 p (L ?k))) j)" using lists_okD [OF ok _ pin] by auto
  have "lists_ok ?v2 (L(?k := remove1 p (L ?k)))" using v1(1) lists_ok_cong [of ?v2 v1] by simp
  note put = put_page_ok [OF this out, of Active_Pages_List]
  have k: "?k \<noteq> Active_Pages_List" using k by auto
  then have "(L(?k := remove1 p (L ?k))) Active_Pages_List = L Active_Pages_List" by simp
  with put k have lists: "lists_ok v' (moved L ?k (list_of_state VM_PAGE_STATE_BUSY) p)"
    by (simp only: v'_def moved_def list_of_state.simps if_False)
  have "pages_inv v' (moved L ?k (list_of_state VM_PAGE_STATE_BUSY) p)"
    using put v1(2) by (intro pages_inv_change [OF inv p lists])
      (simp_all add: v'_def list_change_def put_state_def stat_inc_def stat_dec_def)
  then show ?thesis using put v1(2)
    by (auto simp: v'_def list_change_def put_state_def stat_inc_def stat_dec_def same_frame_def)
qed

lemma take_page_ok:
  assumes inv: "pages_inv v L" and p: "p < length (vp_all_pages v)"
  shows "if page_state v p \<in> {VM_PAGE_STATE_FREE, VM_PAGE_STATE_CLEAR, VM_PAGE_STATE_UNUSED}
    then \<exists>v' L'. take_page p v = Some (Some v') \<and> pages_inv v' L' \<and>
      vp_all_pages v' = vp_all_pages (put_state p VM_PAGE_STATE_BUSY v) \<and> vp_cleared v' = vp_cleared v \<and>
      same_frame v v'
    else take_page p v = Some None"
proof -
  have ok: "lists_ok v L" using inv by (simp add: pages_inv_def)
  have pin: "p \<in> set (L (list_of_state (page_state v p)))" using inv p by (simp add: pages_inv_def)
  consider (listed) "page_state v p \<in> {VM_PAGE_STATE_FREE, VM_PAGE_STATE_CLEAR}"
    | (unused) "page_state v p = VM_PAGE_STATE_UNUSED"
    | (other) "page_state v p \<notin> {VM_PAGE_STATE_FREE, VM_PAGE_STATE_CLEAR, VM_PAGE_STATE_UNUSED}" by blast
  then show ?thesis
  proof cases
    case listed
    let ?k = "list_of_state (page_state v p)"
    from remove_page_ok [OF ok pin] obtain v1 where
      v1: "remove_page_from_list ?k p v = Some v1" "lists_ok v1 (L(?k := remove1 p (L ?k)))" "list_change v v1" by blast
    from busy_move [OF inv p v1(2,3)] listed v1(1) show ?thesis
      by (auto simp: take_page_def Let_def)
  next
    case unused
    let ?v2 = "stat_inc VM_PAGE_STATE_BUSY (put_state p VM_PAGE_STATE_BUSY (stat_dec VM_PAGE_STATE_UNUSED v))"
    have "pages_inv ?v2 (moved L (list_of_state (page_state v p)) (list_of_state VM_PAGE_STATE_BUSY) p)"
      using ok lists_ok_cong [of ?v2 v] unused by (intro pages_inv_change [OF inv p])
        (simp_all add: moved_def put_state_def stat_inc_def stat_dec_def)
    then show ?thesis using unused
      by (auto simp: take_page_def put_state_def stat_inc_def stat_dec_def same_frame_def)
  next
    case other
    then show ?thesis by (auto simp: take_page_def Let_def)
  qed
qed

lemma mark_loop_ok:
  assumes "pages_inv v L" "\<forall>p \<in> set ps. p < length (vp_all_pages v)"
  shows "\<exists>v' L'. mark_loop ps v = Some (Inr v') \<and> pages_inv v' L' \<and> same_frame v v' \<and> vp_cleared v' = vp_cleared v"
  using assms
proof (induction ps arbitrary: v L)
  case Nil
  then show ?case by (auto simp: same_frame_def)
next
  case (Cons p ps)
  then have p: "p < length (vp_all_pages v)" by simp
  show ?case
  proof (cases "page_state v p \<in> {VM_PAGE_STATE_CLEAR, VM_PAGE_STATE_FREE}")
    case True
    from set_page_state_valid [OF Cons.prems(1) p, of VM_PAGE_STATE_UNUSED] obtain v1 L1 where
      v1: "set_page_state p (page_state_code VM_PAGE_STATE_UNUSED) v = Some (Inr v1)" "pages_inv v1 L1"
        "same_frame v v1" "vp_cleared v1 = vp_cleared v" by blast
    then have "\<forall>q \<in> set ps. q < length (vp_all_pages v1)" using Cons.prems(2) by (simp add: same_frame_def)
    from Cons.IH [OF v1(2) this] v1 True p show ?thesis by (auto simp: same_frame_def simp del: page_state_code.simps)
  next
    case False
    with Cons.IH [OF Cons.prems(1)] Cons.prems(2) p show ?thesis by auto
  qed
qed

lemma mark_range_ok:
  assumes inv: "pages_inv v L"
    and nowrap0: "vp_physical_page_offset v \<le> start \<longrightarrow> unat (start - vp_physical_page_offset v) + unat n < 2 ^ 32"
  shows "\<exists>v' r L'. vm_page_mark_range_inuse start n v = Some (Inr (v', r)) \<and> pages_inv v' L' \<and> same_frame v v' \<and>
    vp_cleared v' = vp_cleared v"
proof (cases "start < vp_physical_page_offset v \<or> vp_total_pages_count v \<le> start - vp_physical_page_offset v + n")
  case True
  then show ?thesis using inv by (auto simp: vm_page_mark_range_inuse_def Let_def same_frame_def)
next
  case False
  let ?s = "start - vp_physical_page_offset v"
  have nowrap: "unat ?s + unat n < 2 ^ 32" using nowrap0 False by (metis linorder_not_le)
  have lim: "unat ?s + unat n < length (vp_all_pages v)"
    using False inv unat_add_small [OF nowrap] by (simp add: word_le_nat_alt pages_inv_def)
  have "unat (?s + of_nat i) < length (vp_all_pages v)" if "i < unat n" for i
  proof -
    have "unat (of_nat i :: uint) = i" using that unat_lt32 [of n] by (intro unat_of_nat_small) linarith
    then have "unat (?s + of_nat i) = unat ?s + i" using nowrap that by (subst unat_add_small) linarith+
    then show ?thesis using lim that by linarith
  qed
  then have "\<forall>p \<in> set (map (\<lambda>i. unat (?s + of_nat i)) [0 ..< unat n]). p < length (vp_all_pages v)" by auto
  from mark_loop_ok [OF inv this] obtain v' L' where
    "mark_loop (map (\<lambda>i. unat (?s + of_nat i)) [0 ..< unat n]) v = Some (Inr v')" "pages_inv v' L'"
    "same_frame v v'" "vp_cleared v' = vp_cleared v" by blast
  with False show ?thesis by (auto simp: vm_page_mark_range_inuse_def Let_def)
qed

lemma pages_inv_clear_page: "pages_inv (clear_page a v) L = pages_inv v L"
  using lists_ok_cong [of "clear_page a v" v L]
  by (simp add: pages_inv_def page_state_def count_state_def)

lemma pages_inv_lookup:
  assumes "pages_inv v L" "vm_page_lookup n v = Some p"
  shows "p < length (vp_all_pages v)" "p = unat (n - vp_physical_page_offset v)"
  using assms by (auto simp: vm_page_lookup_def pages_inv_def Let_def word_le_nat_alt split: if_splits)

lemma alloc_specific_ok:
  assumes inv: "pages_inv v L"
  shows "\<exists>v' r L'. vm_page_alloc_specific n st v = Some (v', r) \<and> pages_inv v' L' \<and> same_frame v v'"
proof (cases "vm_page_lookup n v")
  case None
  then show ?thesis using inv by (auto simp: vm_page_alloc_specific_def same_frame_def)
next
  case (Some p)
  note p = pages_inv_lookup(1) [OF inv Some]
  show ?thesis
  proof (cases "page_state v p \<in> {VM_PAGE_STATE_FREE, VM_PAGE_STATE_CLEAR, VM_PAGE_STATE_UNUSED}")
    case True
    with take_page_ok [OF inv p] obtain v1 L1 where
      v1: "take_page p v = Some (Some v1)" "pages_inv v1 L1" "same_frame v v1" by auto
    then show ?thesis using Some p
      by (auto simp: vm_page_alloc_specific_def Let_def pages_inv_clear_page same_frame_def)
  next
    case False
    with take_page_ok [OF inv p] show ?thesis
      using Some p inv by (auto simp: vm_page_alloc_specific_def same_frame_def)
  qed
qed

lemma pages_inv_clear_range: "pages_inv (clear_range ps v) L = pages_inv v L \<and>
    same_frame v (clear_range ps v) \<and> vp_all_pages (clear_range ps v) = vp_all_pages v"
proof (induction ps arbitrary: v)
  case (Cons p ps)
  from Cons.IH [of "clear_page (pg_ppn (vp_all_pages v ! p) * PAGE_SIZE) v"] show ?case
    by (simp add: clear_range_def pages_inv_clear_page same_frame_def)
qed (simp add: clear_range_def same_frame_def)

text \<open>The pages of a range after all of them were taken.\<close>

definition put_states :: "nat list \<Rightarrow> page_state \<Rightarrow> vm_pages \<Rightarrow> vm_pages" where
  "put_states ps t v = fold (\<lambda>p. put_state p t) ps v"

lemma put_state_pages_cong:
  "vp_all_pages v = vp_all_pages w \<Longrightarrow> vp_all_pages (put_state p t v) = vp_all_pages (put_state p t w)"
  by (simp add: put_state_def)

lemma put_states_pages_cong:
  "vp_all_pages v = vp_all_pages w \<Longrightarrow> vp_all_pages (put_states ps t v) = vp_all_pages (put_states ps t w)"
proof (induction ps arbitrary: v w)
  case (Cons p ps)
  from Cons.IH [OF put_state_pages_cong [OF Cons.prems]] show ?case by (simp add: put_states_def)
qed (simp add: put_states_def)

definition available :: "vm_pages \<Rightarrow> nat \<Rightarrow> bool" where
  "available v p \<longleftrightarrow> page_state v p \<in> {VM_PAGE_STATE_FREE, VM_PAGE_STATE_CLEAR, VM_PAGE_STATE_UNUSED}"

lemma take_range_ok:
  assumes "pages_inv v L" "\<forall>p \<in> set ps. p < length (vp_all_pages v) \<and> available v p" "distinct ps"
  shows "\<exists>v' need' L'. take_range st ps need v = Some (Inr (v', need')) \<and> pages_inv v' L' \<and> same_frame v v' \<and>
    vp_all_pages v' = vp_all_pages (put_states ps VM_PAGE_STATE_BUSY v)"
  using assms
proof (induction ps arbitrary: v L need)
  case Nil
  then show ?case by (auto simp: same_frame_def put_states_def)
next
  case (Cons p ps)
  then have p: "p < length (vp_all_pages v)" "available v p" by simp_all
  with take_page_ok [OF Cons.prems(1) p(1)] obtain v1 L1 where
    v1: "take_page p v = Some (Some v1)" "pages_inv v1 L1" "same_frame v v1"
      "vp_all_pages v1 = vp_all_pages (put_state p VM_PAGE_STATE_BUSY v)"
    unfolding available_def by auto
  have same: "available v1 q = available v q" if "q \<noteq> p" for q
    using page_state_put [OF p(1), of VM_PAGE_STATE_BUSY q] that by (simp add: available_def page_state_def v1(4))
  have "p \<notin> set ps" using Cons.prems(3) by simp
  then have "\<forall>q \<in> set ps. available v1 q = available v q" using same by metis
  then have "\<forall>q \<in> set ps. q < length (vp_all_pages v1) \<and> available v1 q"
    using Cons.prems(2) v1(3) by (simp add: same_frame_def)
  from Cons.IH [OF v1(2) this] Cons.prems(3) obtain v' need' L' where
    "take_range st ps (need \<or> (page_state v p \<in> {VM_PAGE_STATE_FREE, VM_PAGE_STATE_UNUSED} \<and>
      st = page_state_code VM_PAGE_STATE_CLEAR)) v1 = Some (Inr (v', need'))"
    "pages_inv v' L'" "same_frame v1 v'" "vp_all_pages v' = vp_all_pages (put_states ps VM_PAGE_STATE_BUSY v1)"
    by fastforce
  moreover have "vp_all_pages (put_states ps VM_PAGE_STATE_BUSY v1)
      = vp_all_pages (put_states (p # ps) VM_PAGE_STATE_BUSY v)"
    using put_states_pages_cong [OF v1(4)] by (simp add: put_states_def)
  ultimately show ?case
    using p(1) v1 same_frame_trans [OF v1(3)] by (auto simp: Let_def)
qed

lemma range_available_ok:
  assumes "pages_inv v L"
  shows "range_available is v = Some (\<forall>i \<in> set is. \<exists>p. vm_page_lookup (of_nat i) v = Some p \<and> available v p)"
proof (induction "is")
  case (Cons i "is")
  then show ?case
    using pages_inv_lookup(1) [OF assms, of "of_nat i"]
    by (auto simp: available_def split: option.split)
qed simp

lemma alloc_specific_range_ok:
  assumes inv: "pages_inv v L" and nowrap: "unat first + unat n < 2 ^ 32"
  shows "\<exists>v' r L'. vm_page_alloc_specific_range first n st v = Some (Inr (v', r)) \<and> pages_inv v' L' \<and>
    same_frame v v' \<and>
    (if n \<noteq> 0 \<and> (\<forall>i < unat n. \<exists>p. vm_page_lookup (first + of_nat i) v = Some p \<and> available v p)
     then r = Some (unat (first - vp_physical_page_offset v)) \<and>
       vp_all_pages v' = vp_all_pages (put_states
         [unat (first - vp_physical_page_offset v) ..< unat (first - vp_physical_page_offset v) + unat n]
         VM_PAGE_STATE_BUSY v)
     else r = None \<and> v' = v)"
proof -
  let ?f = "first - vp_physical_page_offset v"
  let ?all = "\<forall>i < unat n. \<exists>p. vm_page_lookup (first + of_nat i) v = Some p \<and> available v p"
  have end1: "unat (first + n) = unat first + unat n" using nowrap by (rule unat_add_small)
  have of_nat: "of_nat (unat first + i) = first + of_nat i" for i by simp
  have avail: "range_available [unat first ..< unat (first + n)] v = Some ?all"
  proof -
    have "(\<forall>i \<in> set [unat first ..< unat (first + n)]. P (of_nat i)) \<longleftrightarrow> (\<forall>i < unat n. P (first + of_nat i))"
      for P :: "addr_t \<Rightarrow> bool"
      unfolding end1 by (auto simp: of_nat [symmetric] simp del: of_nat_add)
        (metis le_add_diff_inverse nat_add_left_cancel_less)
    then show ?thesis unfolding range_available_ok [OF inv] by simp
  qed
  show ?thesis
  proof (cases "n \<noteq> 0 \<and> ?all")
    case False
    have "vm_page_alloc_specific_range first n st v = Some (Inr (v, None))"
    proof (cases "n = 0")
      case False
      then have "range_available [unat first ..< unat (first + n)] v = Some False"
        using avail \<open>\<not> (n \<noteq> 0 \<and> ?all)\<close> by simp
      then show ?thesis using False by (simp add: vm_page_alloc_specific_range_def)
    qed (simp add: vm_page_alloc_specific_range_def)
    then show ?thesis
      unfolding if_not_P [OF False] using inv by (auto simp: same_frame_def)
  next
    case True
    have len: "length (vp_all_pages v) < 2 ^ 31" using inv by (simp add: pages_inv_def)
    have look: "unat (?f + of_nat i) < length (vp_all_pages v) \<and> available v (unat (?f + of_nat i))" if "i < unat n" for i
      using True that pages_inv_lookup [OF inv, of "first + of_nat i"] by (auto simp: add_diff_eq algebra_simps)
    have idx: "i < unat n \<Longrightarrow> unat (?f + of_nat i) = unat ?f + i" for i
    proof (induction i)
      case (Suc i)
      then have "unat (?f + of_nat i) = unat ?f + i" "unat ?f + i < 2 ^ 31" using look [of i] len by auto
      then show ?case using unat_add_small [of "?f + of_nat i" 1] by (simp add: algebra_simps)
    qed simp
    obtain m where m: "unat n = Suc m" using True by (metis gr0_implies_Suc unat_gt_0)
    have lt: "unat ?f + m < length (vp_all_pages v)" using look [of m] idx [of m] m by simp
    have end2: "unat (?f + n) = unat ?f + unat n"
      using lt len m by (intro unat_add_small) simp
    have "\<forall>p \<in> set [unat ?f ..< unat (?f + n)]. p < length (vp_all_pages v) \<and> available v p"
      unfolding end2 using look idx by (auto) (metis le_add_diff_inverse nat_add_left_cancel_less)+
    from take_range_ok [OF inv this, of st False] obtain v' need' L' where
      t: "take_range st [unat ?f ..< unat (?f + n)] False v = Some (Inr (v', need'))" "pages_inv v' L'" "same_frame v v'"
        "vp_all_pages v' = vp_all_pages (put_states [unat ?f ..< unat (?f + n)] VM_PAGE_STATE_BUSY v)" by auto
    let ?v = "if need' then clear_range [unat ?f ..< unat (?f + n)] v' else v'"
    have "range_available [unat first ..< unat (first + n)] v = Some True" using avail True by simp
    then have "vm_page_alloc_specific_range first n st v = Some (Inr (?v, Some (unat ?f)))"
      using True t(1) by (simp add: vm_page_alloc_specific_range_def Let_def)
    moreover have "pages_inv ?v L'" "same_frame v ?v" "vp_all_pages ?v = vp_all_pages v'"
      using t(2,3) pages_inv_clear_range [of "[unat ?f ..< unat (?f + n)]" v'] by (auto simp: same_frame_def)
    ultimately show ?thesis unfolding if_P [OF True] using t(4) unfolding end2 by auto
  qed
qed

text \<open>Allocation by state: the wanted list first, then the spare list.\<close>

lemma pages_inv_list:
  assumes "pages_inv v L" "p \<in> set (L k)"
  shows "p < length (vp_all_pages v)" "list_of_state (page_state v p) = k"
  using assms by (auto simp: pages_inv_def)

lemma list_of_state_iff:
  "list_of_state s = Free_Pages_List \<longleftrightarrow> s = VM_PAGE_STATE_FREE"
  "list_of_state s = Clear_Pages_List \<longleftrightarrow> s = VM_PAGE_STATE_CLEAR"
  by (cases s; simp)+

lemma alloc_take:
  assumes inv: "pages_inv v L" and l: "l \<in> {Free_Pages_List, Clear_Pages_List}" and L: "L l = p # ps"
    and get: "lists_ok v1 (L(l := ps))" "list_change v v1"
    and st: "st \<in> {page_state_code VM_PAGE_STATE_FREE, page_state_code VM_PAGE_STATE_CLEAR}"
  defines "s \<equiv> (if l = Free_Pages_List then VM_PAGE_STATE_FREE else VM_PAGE_STATE_CLEAR)"
  defines "v4 \<equiv> put_page_to_list Active_Pages_List p
    (stat_inc VM_PAGE_STATE_BUSY (put_state p VM_PAGE_STATE_BUSY (stat_dec s v1)))"
  shows "p < length (vp_all_pages v1)" "page_state v p = s" "page_state (stat_dec s v1) p = s"
    "(\<exists>L'. pages_inv v4 L') \<and> vp_all_pages v4 = vp_all_pages (put_state p VM_PAGE_STATE_BUSY v) \<and>
     vp_cleared v4 = vp_cleared v \<and> same_frame v v4"
proof -
  note p = pages_inv_list [OF inv, of p l]
  show s: "page_state v p = s" using p(2) L l list_of_state_iff by (auto simp: s_def)
  show "p < length (vp_all_pages v1)" using p(1) L get(2) by (simp add: list_change_def)
  show "page_state (stat_dec s v1) p = s" using s get(2) by (simp add: page_state_def list_change_def)
  have k: "list_of_state (page_state v p) = l" "page_state v p \<in> {VM_PAGE_STATE_FREE, VM_PAGE_STATE_CLEAR}"
    using p(2) L s by (auto simp: s_def)
  have "lists_ok v1 (L(list_of_state (page_state v p) := remove1 p (L (list_of_state (page_state v p)))))"
    using get(1) k L by simp
  from busy_move [OF inv _ this get(2) k(2)] p(1) L s show "(\<exists>L'. pages_inv v4 L') \<and>
     vp_all_pages v4 = vp_all_pages (put_state p VM_PAGE_STATE_BUSY v) \<and>
     vp_cleared v4 = vp_cleared v \<and> same_frame v v4" by (simp add: v4_def)
qed

lemma cond_clear_fields:
  "pages_inv (if b then clear_page a w else w) L = pages_inv w L"
  "same_frame v (if b then clear_page a w else w) = same_frame v w"
  "vp_all_pages (if b then clear_page a w else w) = vp_all_pages w"
  "vp_cleared (if b then clear_page a w else w) = vp_cleared w @ (if b then [a] else [])"
  by (simp_all add: pages_inv_clear_page same_frame_def) (simp add: clear_page_def)

lemma alloc_tail_ok:
  assumes inv: "pages_inv v L" and l: "l \<in> {Free_Pages_List, Clear_Pages_List}" and L: "L l = p # ps"
    and get: "lists_ok v1 (L(l := ps))" "list_change v v1"
    and want: "want \<in> {VM_PAGE_STATE_FREE, VM_PAGE_STATE_CLEAR}"
  shows "\<exists>v' L'. alloc_tail (page_state_code want) v1 p l = Some (Inr (v', Some p)) \<and> pages_inv v' L' \<and> same_frame v v' \<and>
    p < length (vp_all_pages v) \<and> vp_all_pages v' = vp_all_pages (put_state p VM_PAGE_STATE_BUSY v) \<and>
    list_of_state (page_state v p) = l \<and>
    vp_cleared v' = vp_cleared v @ (if want = VM_PAGE_STATE_CLEAR \<and> page_state v p = VM_PAGE_STATE_FREE
      then [pg_ppn (vp_all_pages v ! p) * PAGE_SIZE] else [])"
proof -
  let ?s = "if l = Free_Pages_List then VM_PAGE_STATE_FREE else VM_PAGE_STATE_CLEAR"
  let ?v4 = "put_page_to_list Active_Pages_List p
    (stat_inc VM_PAGE_STATE_BUSY (put_state p VM_PAGE_STATE_BUSY (stat_dec ?s v1)))"
  note T = alloc_take [OF inv l L get]
  obtain L' where v4: "pages_inv ?v4 L'" "vp_all_pages ?v4 = vp_all_pages (put_state p VM_PAGE_STATE_BUSY v)"
    "vp_cleared ?v4 = vp_cleared v" "same_frame v ?v4" using T(4) [of "page_state_code want"] want by auto
  have p: "p < length (vp_all_pages v)" "list_of_state (page_state v p) = l"
    using pages_inv_list [OF inv, of p l] L by auto
  have ppn: "pg_ppn (vp_all_pages ?v4 ! p) = pg_ppn (vp_all_pages v ! p)"
    using p(1) by (simp add: v4(2)) (simp add: put_state_def)
  let ?v' = "if page_state_code want = page_state_code VM_PAGE_STATE_CLEAR \<and> ?s = VM_PAGE_STATE_FREE
    then clear_page (pg_ppn (vp_all_pages v ! p) * PAGE_SIZE) ?v4 else ?v4"
  have len: "\<not> length (vp_all_pages v1) \<le> p" using p(1) get(2) by (simp add: list_change_def)
  have st: "page_state v p = ?s" "page_state (stat_dec ?s v1) p = ?s"
    using p(2) l list_of_state_iff get(2) by (auto simp: page_state_def list_change_def)
  have "alloc_tail (page_state_code want) v1 p l = Some (Inr (?v', Some p))"
    using len by (simp only: alloc_tail_def Let_def st(2) if_False ppn)
  moreover have "pages_inv ?v' L'" using v4(1) by (simp only: cond_clear_fields)
  moreover have "same_frame v ?v'" "vp_all_pages ?v' = vp_all_pages (put_state p VM_PAGE_STATE_BUSY v)"
    using v4(2,4) by (simp_all only: cond_clear_fields)
  moreover have "vp_cleared ?v' = vp_cleared v @ (if want = VM_PAGE_STATE_CLEAR \<and> page_state v p = VM_PAGE_STATE_FREE
      then [pg_ppn (vp_all_pages v ! p) * PAGE_SIZE] else [])"
    using want by (auto simp only: cond_clear_fields v4(3) st(1) page_state_code.simps) simp_all
  ultimately show ?thesis using p by blast
qed

lemma vm_page_alloc_ok:
  assumes inv: "pages_inv v L" and want: "want \<in> {VM_PAGE_STATE_FREE, VM_PAGE_STATE_CLEAR}"
  defines "spare \<equiv> (if want = VM_PAGE_STATE_FREE then VM_PAGE_STATE_CLEAR else VM_PAGE_STATE_FREE)"
  shows "if \<exists>q < length (vp_all_pages v). page_state v q \<in> {VM_PAGE_STATE_FREE, VM_PAGE_STATE_CLEAR}
    then \<exists>p v' L'. vm_page_alloc (page_state_code want) v = Some (Inr (v', Some p)) \<and> pages_inv v' L' \<and> same_frame v v' \<and>
      p < length (vp_all_pages v) \<and> vp_all_pages v' = vp_all_pages (put_state p VM_PAGE_STATE_BUSY v) \<and>
      page_state v p = (if \<exists>q < length (vp_all_pages v). page_state v q = want then want else spare) \<and>
      vp_cleared v' = vp_cleared v @ (if want = VM_PAGE_STATE_CLEAR \<and> page_state v p = VM_PAGE_STATE_FREE
        then [pg_ppn (vp_all_pages v ! p) * PAGE_SIZE] else [])
    else vm_page_alloc (page_state_code want) v = Some (Inl Out_Of_Memory)"
proof -
  have ok: "lists_ok v L" using inv by (simp add: pages_inv_def)
  let ?lw = "list_of_state want" and ?ls = "list_of_state spare"
  have lists: "?lw \<in> {Free_Pages_List, Clear_Pages_List}" "?ls \<in> {Free_Pages_List, Clear_Pages_List}"
    and two: "{want, spare} = {VM_PAGE_STATE_FREE, VM_PAGE_STATE_CLEAR}" using want by (auto simp: spare_def)
  have empty: "L (list_of_state s) = [] \<longleftrightarrow> (\<forall>q < length (vp_all_pages v). page_state v q \<noteq> s)"
    if "s \<in> {want, spare}" for s
  proof -
    have "list_of_state t = list_of_state s \<longleftrightarrow> t = s" for t
      using that two list_of_state_iff by (metis empty_iff insert_iff list_of_state.simps(1,2))
    then have "q \<in> set (L (list_of_state s)) \<longleftrightarrow> q < length (vp_all_pages v) \<and> page_state v q = s" for q
      using inv by (simp add: pages_inv_def)
    then show ?thesis by (metis list.set_intros(1) list.set(1) empty_iff neq_Nil_conv)
  qed
  have eq: "vm_page_alloc (page_state_code want) v =
    (case get_page_from_list ?lw v of
       (v1, Some p) \<Rightarrow> alloc_tail (page_state_code want) v1 p ?lw
     | (v1, None) \<Rightarrow> (case get_page_from_list ?ls v1 of
                       (v2, Some p) \<Rightarrow> alloc_tail (page_state_code want) v2 p ?ls
                     | (v2, None) \<Rightarrow> Some (Inl Out_Of_Memory)))"
    using want by (auto simp: vm_page_alloc_def spare_def)
  have state: "page_state v p = s" if "list_of_state (page_state v p) = list_of_state s" "s \<in> {want, spare}" for p s
    using that two list_of_state_iff by (metis empty_iff insert_iff list_of_state.simps(1,2))
  have some: "\<exists>q < length (vp_all_pages v). page_state v q \<in> {VM_PAGE_STATE_FREE, VM_PAGE_STATE_CLEAR}"
    if "L (list_of_state s) \<noteq> []" "s \<in> {want, spare}" for s
    using that empty [OF that(2)] two by blast
  from get_page_ok [OF ok, of ?lw] show ?thesis
  proof (elim disjE exE conjE)
    fix p ps v1
    assume L: "L ?lw = p # ps" "get_page_from_list ?lw v = (v1, Some p)" "lists_ok v1 (L(?lw := ps))" "list_change v v1"
    then have "\<exists>q < length (vp_all_pages v). page_state v q = want" using empty [of want] by auto
    moreover have "\<exists>q < length (vp_all_pages v). page_state v q \<in> {VM_PAGE_STATE_FREE, VM_PAGE_STATE_CLEAR}"
      using some [of want] L(1) by simp
    moreover obtain v' L' where t: "alloc_tail (page_state_code want) v1 p ?lw = Some (Inr (v', Some p))"
      "pages_inv v' L'" "same_frame v v'" "p < length (vp_all_pages v)"
      "vp_all_pages v' = vp_all_pages (put_state p VM_PAGE_STATE_BUSY v)" "list_of_state (page_state v p) = ?lw"
      "vp_cleared v' = vp_cleared v @ (if want = VM_PAGE_STATE_CLEAR \<and> page_state v p = VM_PAGE_STATE_FREE
        then [pg_ppn (vp_all_pages v ! p) * PAGE_SIZE] else [])"
      using alloc_tail_ok [OF inv lists(1) L(1,3,4) want] by auto
    ultimately show ?thesis
      using L(2) state [OF t(6)] eq by (simp only: if_True prod.case option.case) (rule exI [of _ p], auto)
  next
    assume none: "L ?lw = []" "get_page_from_list ?lw v = (v, None)"
    then have no_want: "\<not> (\<exists>q < length (vp_all_pages v). page_state v q = want)" using empty [of want] by auto
    from get_page_ok [OF ok, of ?ls] show ?thesis
    proof (elim disjE exE conjE)
      fix p ps v1
      assume L: "L ?ls = p # ps" "get_page_from_list ?ls v = (v1, Some p)" "lists_ok v1 (L(?ls := ps))" "list_change v v1"
      have "\<exists>q < length (vp_all_pages v). page_state v q \<in> {VM_PAGE_STATE_FREE, VM_PAGE_STATE_CLEAR}"
        using some [of spare] L(1) by simp
      moreover obtain v' L' where t: "alloc_tail (page_state_code want) v1 p ?ls = Some (Inr (v', Some p))"
        "pages_inv v' L'" "same_frame v v'" "p < length (vp_all_pages v)"
        "vp_all_pages v' = vp_all_pages (put_state p VM_PAGE_STATE_BUSY v)" "list_of_state (page_state v p) = ?ls"
        "vp_cleared v' = vp_cleared v @ (if want = VM_PAGE_STATE_CLEAR \<and> page_state v p = VM_PAGE_STATE_FREE
          then [pg_ppn (vp_all_pages v ! p) * PAGE_SIZE] else [])"
        using alloc_tail_ok [OF inv lists(2) L(1,3,4) want] by auto
      ultimately show ?thesis
        using L(2) none(2) no_want state [OF t(6)] eq by (simp only: if_True if_False prod.case option.case) (rule exI [of _ p], auto)
    next
      assume none': "L ?ls = []" "get_page_from_list ?ls v = (v, None)"
      then have "\<not> (\<exists>q < length (vp_all_pages v). page_state v q \<in> {VM_PAGE_STATE_FREE, VM_PAGE_STATE_CLEAR})"
        using none(1) empty [of want] empty [of spare] two by auto
      then show ?thesis using none(2) none'(2) unfolding eq by simp
    qed
  qed
qed

lemma busy_loop_ok:
  assumes "pages_inv v L" "\<forall>p \<in> set ps. p < length (vp_all_pages v)"
  shows "\<exists>v' L'. busy_loop ps v = Some (Inr v') \<and> pages_inv v' L' \<and> same_frame v v' \<and> vp_cleared v' = vp_cleared v \<and>
    vp_all_pages v' = vp_all_pages (put_states ps VM_PAGE_STATE_BUSY v)"
  using assms
proof (induction ps arbitrary: v L)
  case Nil
  then show ?case by (auto simp: same_frame_def put_states_def)
next
  case (Cons p ps)
  from set_page_state_valid [OF Cons.prems(1), of p VM_PAGE_STATE_BUSY] Cons.prems(2) obtain v1 L1 where
    v1: "set_page_state p (page_state_code VM_PAGE_STATE_BUSY) v = Some (Inr v1)" "pages_inv v1 L1" "same_frame v v1"
      "vp_cleared v1 = vp_cleared v" "vp_all_pages v1 = vp_all_pages (put_state p VM_PAGE_STATE_BUSY v)" by auto
  have "\<forall>q \<in> set ps. q < length (vp_all_pages v1)" using Cons.prems(2) v1(3) by (simp add: same_frame_def)
  from Cons.IH [OF v1(2) this] obtain v' L' where
    "busy_loop ps v1 = Some (Inr v')" "pages_inv v' L'" "same_frame v1 v'" "vp_cleared v' = vp_cleared v1"
    "vp_all_pages v' = vp_all_pages (put_states ps VM_PAGE_STATE_BUSY v1)" by blast
  moreover have "vp_all_pages (put_states ps VM_PAGE_STATE_BUSY v1)
      = vp_all_pages (put_states (p # ps) VM_PAGE_STATE_BUSY v)"
    using put_states_pages_cong [OF v1(5)] by (simp add: put_states_def)
  ultimately show ?case
    using v1 same_frame_trans [OF v1(3)] by (auto simp del: page_state_code.simps)
qed

text \<open>Pages that \<^verbatim>\<open>vm_page_alloc_range\<close> may take.\<close>

definition free_or_clear :: "vm_pages \<Rightarrow> nat \<Rightarrow> bool" where
  "free_or_clear v p \<longleftrightarrow> page_state v p = VM_PAGE_STATE_FREE \<or> page_state v p = VM_PAGE_STATE_CLEAR"

lemma scan_range_ok:
  "s + n \<le> length (vp_all_pages v) \<Longrightarrow>
   \<exists>k. scan_range s n v = Some k \<and> k \<le> n \<and> (\<forall>j < k. free_or_clear v (s + j)) \<and> (k < n \<longrightarrow> \<not> free_or_clear v (s + k))"
proof (induction n arbitrary: s)
  case (Suc n)
  show ?case
  proof (cases "free_or_clear v s")
    case True
    from Suc.IH [of "Suc s"] Suc.prems obtain k where
      k: "scan_range (Suc s) n v = Some k" "k \<le> n" "\<forall>j < k. free_or_clear v (Suc s + j)"
        "k < n \<longrightarrow> \<not> free_or_clear v (Suc s + k)" by auto
    have "\<forall>j < Suc k. free_or_clear v (s + j)"
      using True k(3) by (auto simp: less_Suc_eq_0_disj)
    with k True Suc.prems show ?thesis by (auto simp: free_or_clear_def)
  next
    case False
    then show ?thesis using Suc.prems by (auto simp: free_or_clear_def)
  qed
qed simp

definition fits_at :: "vm_pages \<Rightarrow> nat \<Rightarrow> nat \<Rightarrow> bool" where
  "fits_at v n s \<longleftrightarrow> s + n < unat (vp_total_pages_count v) \<and> (\<forall>j < n. free_or_clear v (s + j))"

lemma alloc_range_loop_ok:
  assumes inv: "pages_inv v L" and nowrap: "unat start + unat n < 2 ^ 32" "start = 0 \<or> unat n < 2 ^ 20"
    and start: "unat start \<le> unat (vp_total_pages_count v)"
  shows "if \<exists>s \<ge> unat start. fits_at v (unat n) s
    then \<exists>s v' L'. alloc_range_loop start n v = Some (Inr (v', Some s)) \<and> pages_inv v' L' \<and> same_frame v v' \<and>
      vp_cleared v' = vp_cleared v \<and> fits_at v (unat n) s \<and> unat start \<le> s \<and>
      (\<forall>s' \<ge> unat start. fits_at v (unat n) s' \<longrightarrow> s \<le> s') \<and>
      vp_all_pages v' = vp_all_pages (put_states [s ..< s + unat n] VM_PAGE_STATE_BUSY v)
    else alloc_range_loop start n v = Some (Inr (v, None))"
  using nowrap start
proof (induction "unat (vp_total_pages_count v) - unat start" arbitrary: start rule: less_induct)
  case less
  let ?T = "unat (vp_total_pages_count v)" and ?s = "unat start" and ?n = "unat n"
  have len: "length (vp_all_pages v) = ?T" "?T \<le> 2 ^ 20" using inv by (simp_all add: pages_inv_def)
  have sum: "unat (start + n) = ?s + ?n" using less.prems(1) by (rule unat_add_small)
  show ?case
  proof (cases "vp_total_pages_count v \<le> start + n")
    case True
    then have "\<not> (\<exists>s \<ge> ?s. fits_at v ?n s)" using sum by (auto simp: word_le_nat_alt fits_at_def)
    moreover have "alloc_range_loop start n v = Some (Inr (v, None))" using True by (subst alloc_range_loop.simps) simp
    ultimately show ?thesis by simp
  next
    case False
    then have lt: "?s + ?n < ?T" using sum by (simp add: word_le_nat_alt)
    then obtain k where k: "scan_range ?s ?n v = Some k" "k \<le> ?n" "\<forall>j < k. free_or_clear v (?s + j)"
      "k < ?n \<longrightarrow> \<not> free_or_clear v (?s + k)" using scan_range_ok [of ?s ?n v] len(1) by auto
    show ?thesis
    proof (cases "k = ?n")
      case True
      then have fits: "fits_at v ?n ?s" using k(3) lt by (simp add: fits_at_def)
      have "\<forall>p \<in> set [?s ..< ?s + ?n]. p < length (vp_all_pages v)" using lt len(1) by auto
      from busy_loop_ok [OF inv this] obtain v' L' where
        "busy_loop [?s ..< ?s + ?n] v = Some (Inr v')" "pages_inv v' L'" "same_frame v v'" "vp_cleared v' = vp_cleared v"
        "vp_all_pages v' = vp_all_pages (put_states [?s ..< ?s + ?n] VM_PAGE_STATE_BUSY v)" by blast
      moreover from this(1) have "alloc_range_loop start n v = Some (Inr (v', Some ?s))"
        using False k(1) True by (subst alloc_range_loop.simps) simp
      ultimately show ?thesis using fits by auto
    next
      case less_n: False
      let ?start' = "start + of_nat (Suc k)"
      have kn: "k < ?n" using less_n k(2) by simp
      have "unat (of_nat (Suc k) :: uint) = Suc k" using kn lt len(2) by (intro unat_of_nat_small) simp
      then have s': "unat ?start' = ?s + Suc k" using lt kn len(2) by (subst unat_add_small) simp_all
      have gap: "?s + Suc k \<le> s" if "fits_at v ?n s" "?s \<le> s" for s
      proof (rule ccontr)
        assume "\<not> ?s + Suc k \<le> s"
        then have "?s + k - s < ?n" "s + (?s + k - s) = ?s + k" using that(2) kn by linarith+
        then show False using that(1) k(4) kn unfolding fits_at_def by metis
      qed
      then have same: "(\<exists>s \<ge> ?s. fits_at v ?n s) \<longleftrightarrow> (\<exists>s \<ge> unat ?start'. fits_at v ?n s)"
        unfolding s' by (metis le_add1 le_trans)
      have step: "alloc_range_loop start n v =
          (if vp_total_pages_count v \<le> ?start' then Some (Inr (v, None)) else alloc_range_loop ?start' n v)"
        using False k(1) less_n by (subst alloc_range_loop.simps) (simp add: Let_def)
      show ?thesis
      proof (cases "vp_total_pages_count v \<le> ?start'")
        case True
        then have "\<not> (\<exists>s \<ge> unat ?start'. fits_at v ?n s)" by (auto simp: word_le_nat_alt fits_at_def)
        then show ?thesis using same step True by simp
      next
        case False
        then have "unat ?start' < ?T" by (simp add: word_le_nat_alt)
        then have hyp: "if \<exists>s \<ge> unat ?start'. fits_at v ?n s
          then \<exists>s v' L'. alloc_range_loop ?start' n v = Some (Inr (v', Some s)) \<and> pages_inv v' L' \<and> same_frame v v' \<and>
            vp_cleared v' = vp_cleared v \<and> fits_at v ?n s \<and> unat ?start' \<le> s \<and>
            (\<forall>s' \<ge> unat ?start'. fits_at v ?n s' \<longrightarrow> s \<le> s') \<and>
            vp_all_pages v' = vp_all_pages (put_states [s ..< s + ?n] VM_PAGE_STATE_BUSY v)
          else alloc_range_loop ?start' n v = Some (Inr (v, None))"
          using s' lt kn len(2) by (intro less.hyps) simp_all
        have step': "alloc_range_loop start n v = alloc_range_loop ?start' n v" using step False by simp
        have up: "unat ?start' \<le> s'" if "?s \<le> s'" "fits_at v ?n s'" for s' using gap [OF that(2,1)] s' by simp
        have low: "?s \<le> s'" if "unat ?start' \<le> s'" for s' using that s' by simp
        show ?thesis
        proof (cases "\<exists>s \<ge> unat ?start'. fits_at v ?n s")
          case True
          from hyp [unfolded if_P [OF True]] show ?thesis
            unfolding same step' if_P [OF True] using up low by blast
        next
          case False
          from hyp [unfolded if_not_P [OF False]] show ?thesis
            unfolding same step' if_not_P [OF False] .
        qed
      qed
    qed
  qed
qed

section \<open>The initial state\<close>

lemma put_page_fields [simp]:
  "vp_all_pages (put_page_to_list l p v) = vp_all_pages v" "vp_stat (put_page_to_list l p v) = vp_stat v"
  "vp_total_pages_count (put_page_to_list l p v) = vp_total_pages_count v"
  "vp_physical_page_offset (put_page_to_list l p v) = vp_physical_page_offset v"
  by (simp_all add: put_page_to_list_def split: prod.split)

definition free_prefix :: "nat \<Rightarrow> page_list \<Rightarrow> nat list" where
  "free_prefix i k = (if k = Free_Pages_List then [0 ..< i] else [])"

text \<open>After \<open>i\<close> iterations of the loop of \<^verbatim>\<open>vm_page_init\<close>.\<close>

definition init_upto :: "nat \<Rightarrow> vm_pages \<Rightarrow> bool" where
  "init_upto i v \<longleftrightarrow>
     lists_ok v (free_prefix i) \<and> length (vp_all_pages v) = unat (vp_total_pages_count v) \<and>
     (\<forall>j < i. vp_all_pages v ! j = init_page j v) \<and>
     (\<forall>s. stat_of s (vp_stat v) = (if s = VM_PAGE_STATE_FREE then of_nat i else 0))"

lemma init_pages_ok:
  assumes "init_upto i v" "i + n \<le> unat (vp_total_pages_count v)"
  shows "init_upto (i + n) (init_pages [i ..< i + n] v) \<and>
    vp_total_pages_count (init_pages [i ..< i + n] v) = vp_total_pages_count v \<and>
    vp_physical_page_offset (init_pages [i ..< i + n] v) = vp_physical_page_offset v"
  using assms
proof (induction n arbitrary: i v)
  case (Suc n)
  let ?v1 = "stat_inc VM_PAGE_STATE_FREE (v\<lparr>vp_all_pages := (vp_all_pages v)[i := init_page i v]\<rparr>)"
  let ?v2 = "put_page_to_list Free_Pages_List i ?v1"
  have "lists_ok ?v1 (free_prefix i)"
    using Suc.prems(1) lists_ok_cong [of ?v1 v] by (simp add: init_upto_def stat_inc_def)
  from put_page_ok [OF this, of i Free_Pages_List]
  have "lists_ok ?v2 ((free_prefix i)(Free_Pages_List := free_prefix i Free_Pages_List @ [i]))"
    by (simp add: free_prefix_def)
  moreover have "(free_prefix i)(Free_Pages_List := free_prefix i Free_Pages_List @ [i]) = free_prefix (Suc i)"
    by (rule ext) (simp add: free_prefix_def)
  ultimately have "lists_ok ?v2 (free_prefix (Suc i))" by metis
  moreover have "vp_all_pages ?v2 ! j = init_page j ?v2" if "j < Suc i" for j
    using Suc.prems that by (simp add: init_upto_def nth_list_update init_page_def less_Suc_eq stat_inc_def) auto
  moreover have "stat_of s (vp_stat ?v2) = (if s = VM_PAGE_STATE_FREE then of_nat (Suc i) else 0)" for s
  proof -
    have "stat_of s (vp_stat v) = (if s = VM_PAGE_STATE_FREE then of_nat i else 0)"
      using Suc.prems(1) by (simp add: init_upto_def)
    then show ?thesis
      using stat_of_update [of s VM_PAGE_STATE_FREE "\<lambda>n. n + 1" "vp_stat v"]
      by (cases "s = VM_PAGE_STATE_FREE") (simp_all add: stat_inc_def del: stat_of.simps stat_update.simps)
  qed
  ultimately have "init_upto (Suc i) ?v2"
    using Suc.prems(1) by (simp add: init_upto_def stat_inc_def)
  moreover have "vp_total_pages_count ?v2 = vp_total_pages_count v" "vp_physical_page_offset ?v2 = vp_physical_page_offset v"
    by (simp_all add: stat_inc_def)
  moreover have "[i ..< i + Suc n] = i # [Suc i ..< Suc i + n]" "i + Suc n = Suc i + n"
    by (simp_all add: upt_conv_Cons del: upt_Suc)
  ultimately show ?case using Suc.IH [of "Suc i" ?v2] Suc.prems(2) by (simp del: upt_Suc)
qed simp

lemma init_upto_inv:
  assumes "init_upto (unat (vp_total_pages_count v)) v" "unat (vp_total_pages_count v) \<le> 2 ^ 20"
  shows "pages_inv v (free_prefix (unat (vp_total_pages_count v)))"
proof -
  let ?n = "unat (vp_total_pages_count v)"
  have len: "length (vp_all_pages v) = ?n" and all: "\<forall>j < ?n. vp_all_pages v ! j = init_page j v"
    using assms(1) by (auto simp: init_upto_def)
  have st: "page_state v j = VM_PAGE_STATE_FREE" if "j < ?n" for j
    using all that by (simp add: page_state_def init_page_def)
  have "\<forall>p \<in> set (vp_all_pages v). pg_state p = VM_PAGE_STATE_FREE"
    using st len by (auto simp: in_set_conv_nth page_state_def)
  then have "count_state s v = (if s = VM_PAGE_STATE_FREE then ?n else 0)" for s
    using len by (auto simp: count_state_def filter_empty_conv)
  then show ?thesis
    using assms st len by (auto simp: pages_inv_def init_upto_def free_prefix_def)
qed

lemma mark_ranges_ok:
  assumes "pages_inv v L"
  shows "\<exists>v' L'. mark_ranges rs v = Some (Inr v') \<and> pages_inv v' L' \<and> same_frame v v'"
  using assms
proof (induction rs arbitrary: v L)
  case Nil
  then show ?case by (auto simp: same_frame_def)
next
  case (Cons r rs)
  let ?s = "ar_start r div PAGE_SIZE" and ?n = "ar_size r div PAGE_SIZE"
  have "unat ?s < 2 ^ 20" "unat ?n < 2 ^ 20"
    using unat_lt32 [of "ar_start r"] unat_lt32 [of "ar_size r"]
    by (simp_all add: unat_div page_bytes_def div_less_iff_less_mult)
  moreover have "unat (?s - vp_physical_page_offset v) \<le> unat ?s" if "vp_physical_page_offset v \<le> ?s"
    using that by (simp add: unat_sub)
  ultimately have "vp_physical_page_offset v \<le> ?s \<longrightarrow> unat (?s - vp_physical_page_offset v) + unat ?n < 2 ^ 32" by auto
  from mark_range_ok [OF Cons.prems this] obtain v1 r1 L1 where
    "vm_page_mark_range_inuse ?s ?n v = Some (Inr (v1, r1))" "pages_inv v1 L1" "same_frame v v1" by blast
  with Cons.IH [of v1 L1] show ?case by (auto intro: same_frame_trans)
qed

definition blank_pages :: vm_pages where
  "blank_pages = \<lparr>vp_nodes = blank_nodes, vp_lists = (\<lambda>_. empty_xlist), vp_all_pages = [],
     vp_physical_page_offset = 0, vp_total_pages_count = 0,
     vp_stat = \<lparr>vs_physical_page_size = 0, vs_total_physical_pages = 0, vs_active_pages = 0,
       vs_inactive_pages = 0, vs_wired_pages = 0, vs_busy_pages = 0, vs_clear_pages = 0,
       vs_free_pages = 0, vs_unused_pages = 0\<rparr>, vp_cleared = []\<rparr>"

lemma vm_page_init_ok:
  assumes "length area = unat (vp_total_pages_count (vm_page_preinit (bs_kargs b) blank_pages))"
    "length area \<le> 2 ^ 20"
  defines "v0 \<equiv> vm_page_preinit (bs_kargs b) blank_pages"
  shows "(\<exists>e. vm_alloc_from_kargs (vp_total_pages_count v0 * sizeof_vm_page) VM_PROT_KERNEL_DEFAULT b = Inl e \<and>
      vm_page_init b area v0 = Some (Inl (Boot_Memory e))) \<or>
    (\<exists>v L. vm_page_init b area v0 = Some (Inr v) \<and> pages_inv v L \<and> length (vp_all_pages v) = length area)"
proof -
  let ?v0 = "v0\<lparr>vp_all_pages := area\<rparr>"
  have "stat_of s (vp_stat ?v0) = 0" for s
    by (cases s) (simp_all add: v0_def vm_page_preinit_def blank_pages_def Let_def)
  moreover have "lists_ok ?v0 (free_prefix 0)"
    by (simp add: v0_def lists_ok_def free_prefix_def vm_page_preinit_def Let_def xlist_init_def xlist_rep_def)
  ultimately have "init_upto 0 ?v0" using assms(1) by (simp add: init_upto_def v0_def)
  let ?v1 = "init_pages [0 ..< unat (vp_total_pages_count ?v0)] ?v0"
  from init_pages_ok [OF \<open>init_upto 0 ?v0\<close>, of "unat (vp_total_pages_count ?v0)"]
  have I: "init_upto (unat (vp_total_pages_count ?v0)) ?v1" "vp_total_pages_count ?v1 = vp_total_pages_count ?v0"
    by simp_all
  then have inv: "pages_inv ?v1 (free_prefix (unat (vp_total_pages_count ?v1)))"
    using assms by (intro init_upto_inv) (simp_all add: v0_def)
  have len: "length (vp_all_pages ?v1) = length area" using I assms(1) by (simp add: init_upto_def v0_def)
  show ?thesis
  proof (cases "vm_alloc_from_kargs (vp_total_pages_count v0 * sizeof_vm_page) VM_PROT_KERNEL_DEFAULT b")
    case (Inr r)
    with mark_ranges_ok [OF inv, of "ka_phys_alloc_range (bs_kargs (fst r))"] len show ?thesis
      by (auto simp: vm_page_init_def same_frame_def split: prod.splits)
  qed (simp add: vm_page_init_def)
qed

section \<open>Runs\<close>

datatype page_op =
    Set_State nat uint | Mark_Range addr_t size_t | Alloc_Specific addr_t uint
  | Alloc_Specific_Range addr_t addr_t uint | Alloc uint | Alloc_Range uint addr_t

text \<open>
  Arguments that stand for what the callers guarantee: a page pointer points into the page
  array, and a range of page numbers does not wrap around.
\<close>

fun page_legal :: "page_op \<Rightarrow> vm_pages \<Rightarrow> bool" where
  "page_legal (Set_State p n) v = (p < length (vp_all_pages v))"
| "page_legal (Mark_Range s n) v =
     (s < vp_physical_page_offset v \<or> unat (s - vp_physical_page_offset v) + unat n < 2 ^ 32)"
| "page_legal (Alloc_Specific_Range f n st) v = (unat f + unat n < 2 ^ 32)"
| "page_legal _ v = True"

definition drop_result :: "(vm_pages \<times> 'r) presult \<Rightarrow> vm_pages presult" where
  "drop_result = map_option (map_sum id fst)"

fun page_exec :: "page_op \<Rightarrow> vm_pages \<Rightarrow> vm_pages presult" where
  "page_exec (Set_State p n) v = vm_page_set_state p n v"
| "page_exec (Mark_Range s n) v = drop_result (vm_page_mark_range_inuse s n v)"
| "page_exec (Alloc_Specific n st) v = map_option (\<lambda>r. Inr (fst r)) (vm_page_alloc_specific n st v)"
| "page_exec (Alloc_Specific_Range f n st) v = drop_result (vm_page_alloc_specific_range f n st v)"
| "page_exec (Alloc st) v = drop_result (vm_page_alloc st v)"
| "page_exec (Alloc_Range st n) v = drop_result (vm_page_alloc_range st n v)"

fun page_run :: "page_op list \<Rightarrow> vm_pages \<Rightarrow> vm_pages presult" where
  "page_run [] v = Some (Inr v)"
| "page_run (op # ops) v =
     (if page_legal op v
      then (case page_exec op v of
              None \<Rightarrow> None | Some (Inl e) \<Rightarrow> Some (Inl e) | Some (Inr v') \<Rightarrow> page_run ops v')
      else Some (Inr v))"

definition boot_pages :: "boot_state \<Rightarrow> vm_page list \<Rightarrow> page_op list \<Rightarrow> vm_pages presult" where
  "boot_pages b area ops =
     (case vm_page_init b area (vm_page_preinit (bs_kargs b) blank_pages) of
        None \<Rightarrow> None | Some (Inl e) \<Rightarrow> Some (Inl e) | Some (Inr v) \<Rightarrow> page_run ops v)"

lemma vm_page_alloc_other:
  "st \<notin> {page_state_code VM_PAGE_STATE_FREE, page_state_code VM_PAGE_STATE_CLEAR} \<Longrightarrow>
   vm_page_alloc st v = Some (Inr (v, None))"
  by (auto simp: vm_page_alloc_def)

lemma vm_page_alloc_range_ok:
  assumes inv: "pages_inv v L"
  shows "if \<exists>s. fits_at v (unat n) s
    then \<exists>s v' L'. vm_page_alloc_range st n v = Some (Inr (v', Some s)) \<and> pages_inv v' L' \<and> same_frame v v' \<and>
      vp_cleared v' = vp_cleared v \<and> fits_at v (unat n) s \<and> (\<forall>s'. fits_at v (unat n) s' \<longrightarrow> s \<le> s') \<and>
      vp_all_pages v' = vp_all_pages (put_states [s ..< s + unat n] VM_PAGE_STATE_BUSY v)
    else vm_page_alloc_range st n v = Some (Inr (v, None))"
  using alloc_range_loop_ok [OF inv, of 0 n, unfolded unat_0] unat_lt32 [of n]
  by (auto simp: vm_page_alloc_range_def split: if_splits)

lemma page_exec_ok:
  assumes inv: "pages_inv v L" and legal: "page_legal op v"
  shows "page_exec op v \<in> {Some (Inl Invalid_Target_State), Some (Inl Out_Of_Memory)} \<or>
    (\<exists>v' L'. page_exec op v = Some (Inr v') \<and> pages_inv v' L' \<and> length (vp_all_pages v') = length (vp_all_pages v))"
proof (cases op)
  case (Set_State p n)
  with set_page_state_ok [OF inv, of p n] legal show ?thesis by (auto simp: vm_page_set_state_def)
next
  case (Mark_Range s n)
  with legal have "vp_physical_page_offset v \<le> s \<longrightarrow> unat (s - vp_physical_page_offset v) + unat n < 2 ^ 32"
    by auto
  from mark_range_ok [OF inv this] Mark_Range show ?thesis by (auto simp: drop_result_def same_frame_def)
next
  case (Alloc_Specific n st)
  with alloc_specific_ok [OF inv, of n st] show ?thesis by (auto simp: same_frame_def)
next
  case (Alloc_Specific_Range f n st)
  with alloc_specific_range_ok [OF inv, of f n st] legal show ?thesis
    by (auto simp: drop_result_def same_frame_def)
next
  case (Alloc st)
  show ?thesis
  proof (cases "st \<in> {page_state_code VM_PAGE_STATE_FREE, page_state_code VM_PAGE_STATE_CLEAR}")
    case True
    then obtain want where w: "want \<in> {VM_PAGE_STATE_FREE, VM_PAGE_STATE_CLEAR}" "st = page_state_code want" by blast
    from vm_page_alloc_ok [OF inv w(1)] show ?thesis
      using Alloc w(2) by (auto simp: drop_result_def same_frame_def split: if_splits)
  next
    case False
    with vm_page_alloc_other [OF this] inv Alloc show ?thesis by (auto simp: drop_result_def)
  qed
next
  case (Alloc_Range st n)
  with vm_page_alloc_range_ok [OF inv, of n st] inv show ?thesis
    by (auto simp: drop_result_def same_frame_def split: if_splits)
qed

lemma page_run_ok:
  "pages_inv v L \<Longrightarrow>
   page_run ops v \<in> {Some (Inl Invalid_Target_State), Some (Inl Out_Of_Memory)} \<or>
    (\<exists>v' L'. page_run ops v = Some (Inr v') \<and> pages_inv v' L' \<and> length (vp_all_pages v') = length (vp_all_pages v))"
proof (induction ops arbitrary: v L)
  case (Cons op ops)
  show ?case
  proof (cases "page_legal op v")
    case True
    from page_exec_ok [OF Cons.prems True] show ?thesis
    proof (elim disjE exE conjE)
      fix v1 L1 assume v1: "page_exec op v = Some (Inr v1)" "pages_inv v1 L1" "length (vp_all_pages v1) = length (vp_all_pages v)"
      from Cons.IH [OF v1(2)] v1(1,3) True show ?thesis by auto
    qed (use True in auto)
  next
    case False
    then show ?thesis using Cons.prems by auto
  qed
qed auto


section \<open>Properties\<close>

text \<open>
  What the statistics and lists promise to the rest of the kernel: every counter is exact, walking
  a list ends and yields every page of the list's states once, and the number of free pages is the
  number of pages in the states \<open>FREE\<close> and \<open>CLEAR\<close>.
\<close>

definition pages_consistent :: "vm_pages \<Rightarrow> bool" where
  "pages_consistent v \<longleftrightarrow>
     (\<forall>s. stat_of s (vp_stat v) = of_nat (count_state s v)) \<and>
     (\<forall>k. \<exists>ps. xlist_dump_elements (vp_nodes v) (vp_lists v k) = Some (ps, 1) \<and> distinct ps \<and>
        set ps = {p. p < length (vp_all_pages v) \<and> list_of_state (page_state v p) = k}) \<and>
     vm_page_free_pages_count v = of_nat (count_state VM_PAGE_STATE_FREE v + count_state VM_PAGE_STATE_CLEAR v)"

lemma pages_inv_rep: "pages_inv v L \<Longrightarrow> xlist_rep (vp_nodes v) (vp_lists v k) (L k)"
  by (simp add: pages_inv_def lists_ok_def)

lemma pages_inv_set:
  "pages_inv v L \<Longrightarrow> set (L k) = {p. p < length (vp_all_pages v) \<and> list_of_state (page_state v p) = k}"
  by (auto simp: pages_inv_def)

lemma pages_inv_length:
  assumes "pages_inv v L" and "\<And>t. list_of_state t = list_of_state s \<longleftrightarrow> t = s"
  shows "length (L (list_of_state s)) = count_state s v"
proof -
  have "distinct (L (list_of_state s))" using pages_inv_rep [OF assms(1)] by (rule xlist_rep_distinct)
  then have "length (L (list_of_state s)) = card (set (L (list_of_state s)))" by (simp add: distinct_card)
  also have "\<dots> = card {p. p < length (vp_all_pages v) \<and> pg_state (vp_all_pages v ! p) = s}"
    using pages_inv_set [OF assms(1)] assms(2) by (simp add: page_state_def)
  also have "\<dots> = count_state s v" by (simp add: count_state_def length_filter_conv_card)
  finally show ?thesis .
qed

lemma pages_inv_consistent:
  assumes inv: "pages_inv v L"
  shows "pages_consistent v"
proof -
  have "length (L Free_Pages_List) = count_state VM_PAGE_STATE_FREE v"
    using pages_inv_length [OF inv, of VM_PAGE_STATE_FREE] by (simp add: list_of_state_iff)
  moreover have "length (L Clear_Pages_List) = count_state VM_PAGE_STATE_CLEAR v"
    using pages_inv_length [OF inv, of VM_PAGE_STATE_CLEAR] by (simp add: list_of_state_iff)
  moreover have "xl_count (vp_lists v k) = of_nat (length (L k))" for k
    using pages_inv_rep [OF inv, of k] by (simp only: xlist_rep_def)
  ultimately have "vm_page_free_pages_count v = of_nat (count_state VM_PAGE_STATE_FREE v + count_state VM_PAGE_STATE_CLEAR v)"
    by (simp only: vm_page_free_pages_count_def of_nat_add)
  moreover have "stat_of s (vp_stat v) = of_nat (count_state s v)" for s
    using inv by (simp add: pages_inv_def)
  moreover have "\<exists>ps. xlist_dump_elements (vp_nodes v) (vp_lists v k) = Some (ps, 1) \<and> distinct ps \<and>
        set ps = {p. p < length (vp_all_pages v) \<and> list_of_state (page_state v p) = k}" for k
    using pages_inv_rep [OF inv, of k] pages_inv_set [OF inv, of k]
    by (intro exI [of _ "L k"]) (simp add: xlist_dump_rep xlist_rep_distinct)
  ultimately show ?thesis by (simp add: pages_consistent_def)
qed

definition page_stops :: "vm_pages presult set" where
  "page_stops = {Some (Inl Invalid_Target_State), Some (Inl Out_Of_Memory)} \<union> range (\<lambda>e. Some (Inl (Boot_Memory e)))"

lemma Inr_not_stop [simp]: "Some (Inr v) \<notin> page_stops"
  by (auto simp: page_stops_def)

lemma boot_pages_ok:
  assumes "length area = unat (vp_total_pages_count (vm_page_preinit (bs_kargs b) blank_pages))" "length area \<le> 2 ^ 20"
  shows "boot_pages b area ops \<in> page_stops \<or>
    (\<exists>v L. boot_pages b area ops = Some (Inr v) \<and> pages_inv v L \<and> length (vp_all_pages v) = length area)"
  using vm_page_init_ok [OF assms]
proof (elim disjE exE conjE)
  fix v L assume "vm_page_init b area (vm_page_preinit (bs_kargs b) blank_pages) = Some (Inr v)" "pages_inv v L"
    "length (vp_all_pages v) = length area"
  with page_run_ok [of v L ops] show ?thesis by (auto simp: boot_pages_def page_stops_def)
qed (simp add: boot_pages_def page_stops_def)

text \<open>
  C7. From the kernel arguments of the loader on, with a page array of the size computed by
  \<^verbatim>\<open>vm_page_preinit\<close>, every sequence of page operations either stops in one of two panics
  (an unknown target state, out of memory), or at boot when the page array cannot be allocated,
  or leaves a consistent state: each counter of the
  statistics is the number of pages in its state and each list holds exactly the pages of its
  states, once. In particular the panic for a page that changed under the allocator, an access
  outside the page array and an endless walk of a list do not occur.
\<close>

theorem pages_run_consistent:
  assumes "length area = unat (vp_total_pages_count (vm_page_preinit (bs_kargs b) blank_pages))" "length area \<le> 2 ^ 20"
  shows "boot_pages b area ops \<in> page_stops \<or>
    (\<exists>v. boot_pages b area ops = Some (Inr v) \<and> pages_consistent v \<and> length (vp_all_pages v) = length area)"
  using boot_pages_ok [OF assms] pages_inv_consistent by blast

definition demo_boot :: boot_state where
  "demo_boot = demo_boot_state\<lparr>bs_kargs :=
     \<lparr>ka_phys_mem_range = [\<lparr>ar_start = 0x1000, ar_size = 0x6000\<rparr>],
      ka_phys_alloc_range = [\<lparr>ar_start = 0x1000, ar_size = 0x1000\<rparr>],
      ka_virt_alloc_range = [\<lparr>ar_start = 0xC0000000, ar_size = 0x4000\<rparr>]\<rparr>\<rparr>"

definition demo_area :: "vm_page list" where
  "demo_area = replicate 6 \<lparr>pg_ppn = 0, pg_wire_count = 0, pg_type = 0, pg_state = VM_PAGE_STATE_UNUSED\<rparr>"

lemma demo_total: "length demo_area = unat (vp_total_pages_count (vm_page_preinit (bs_kargs demo_boot) blank_pages))"
  by (simp add: demo_area_def demo_boot_def vm_page_preinit_def blank_pages_def Let_def PAGE_SIZE_def)

theorem pages_run_consistent_witness:
  "boot_pages demo_boot demo_area [Alloc 3, Alloc_Range 2 1, Set_State 1 4] \<in> page_stops \<or>
    (\<exists>v. boot_pages demo_boot demo_area [Alloc 3, Alloc_Range 2 1, Set_State 1 4] = Some (Inr v) \<and>
      pages_consistent v \<and> length (vp_all_pages v) = length demo_area)"
  by (rule pages_run_consistent [OF demo_total]) (simp add: demo_area_def)


definition demo_pages :: vm_pages where
  "demo_pages = (case boot_pages demo_boot demo_area [] of Some (Inr v) \<Rightarrow> v | _ \<Rightarrow> blank_pages)"

lemma demo_small: "length demo_area \<le> 2 ^ 20"
  by (simp add: demo_area_def)

lemma demo_boot_ret: "boot_pages demo_boot demo_area [] = Some (Inr demo_pages)"
proof -
  have "\<not> isl (vm_alloc_from_kargs (vp_total_pages_count (vm_page_preinit (bs_kargs demo_boot) blank_pages) * sizeof_vm_page)
    VM_PROT_KERNEL_DEFAULT demo_boot)" by code_simp
  then show ?thesis using vm_page_init_ok [OF demo_total demo_small]
    by (auto simp: demo_pages_def boot_pages_def isl_def)
qed

declare xlist_search.simps [code] alloc_range_loop.simps [code]

lemma demo_free:
  "length (vp_all_pages demo_pages) = 6" "page_state demo_pages 3 = VM_PAGE_STATE_FREE"
  "page_state demo_pages 4 = VM_PAGE_STATE_FREE" "vp_total_pages_count demo_pages = 6"
  "vp_physical_page_offset demo_pages = 1"
  by code_simp+

text \<open>
  C26. In every state reached from boot, \<^verbatim>\<open>vm_page_alloc\<close> for the state \<open>FREE\<close> or \<open>CLEAR\<close> returns a
  page exactly when a page in one of the two states exists, and panics otherwise. The page comes
  from the wanted list if that has one and else from the other list; it alone changes its state,
  to \<open>BUSY\<close>; and it is zeroed exactly when a \<open>CLEAR\<close> page was wanted and a \<open>FREE\<close> one taken.
\<close>

theorem vm_page_alloc_correct:
  assumes boot: "length area = unat (vp_total_pages_count (vm_page_preinit (bs_kargs b) blank_pages))" "length area \<le> 2 ^ 20"
    "boot_pages b area ops = Some (Inr v)"
    and want: "want \<in> {VM_PAGE_STATE_FREE, VM_PAGE_STATE_CLEAR}"
    and spare: "spare \<in> {VM_PAGE_STATE_FREE, VM_PAGE_STATE_CLEAR} - {want}"
  shows "if \<exists>q < length (vp_all_pages v). page_state v q \<in> {VM_PAGE_STATE_FREE, VM_PAGE_STATE_CLEAR}
    then \<exists>p v'. vm_page_alloc (page_state_code want) v = Some (Inr (v', Some p)) \<and> pages_consistent v' \<and>
      p < length (vp_all_pages v) \<and> vp_all_pages v' = vp_all_pages (put_state p VM_PAGE_STATE_BUSY v) \<and>
      page_state v p = (if \<exists>q < length (vp_all_pages v). page_state v q = want then want else spare) \<and>
      vp_cleared v' = vp_cleared v @ (if want = VM_PAGE_STATE_CLEAR \<and> page_state v p = VM_PAGE_STATE_FREE
        then [pg_ppn (vp_all_pages v ! p) * PAGE_SIZE] else [])
    else vm_page_alloc (page_state_code want) v = Some (Inl Out_Of_Memory)"
proof -
  from boot_pages_ok [OF boot(1,2), of ops] boot(3) obtain L where inv: "pages_inv v L" by auto
  have sp: "spare = (if want = VM_PAGE_STATE_FREE then VM_PAGE_STATE_CLEAR else VM_PAGE_STATE_FREE)"
    using want spare by auto
  show ?thesis
  proof (cases "\<exists>q < length (vp_all_pages v). page_state v q \<in> {VM_PAGE_STATE_FREE, VM_PAGE_STATE_CLEAR}")
    case True
    with vm_page_alloc_ok [OF inv want] show ?thesis
      unfolding sp by (simp only: if_True simp_thms) (elim exE conjE, intro exI conjI, assumption, erule pages_inv_consistent, assumption+)
  next
    case False
    with vm_page_alloc_ok [OF inv want] show ?thesis by (simp only: if_False)
  qed
qed

theorem vm_page_alloc_correct_witness:
  "\<exists>p v'. vm_page_alloc 3 demo_pages = Some (Inr (v', Some p)) \<and> pages_consistent v' \<and>
     p < 6 \<and> page_state demo_pages p \<in> {VM_PAGE_STATE_FREE, VM_PAGE_STATE_CLEAR}"
proof -
  have ex: "\<exists>q < length (vp_all_pages demo_pages). page_state demo_pages q \<in> {VM_PAGE_STATE_FREE, VM_PAGE_STATE_CLEAR}"
    by (rule exI [of _ 3]) (simp add: demo_free)
  show ?thesis
    using vm_page_alloc_correct [OF demo_total demo_small demo_boot_ret, of VM_PAGE_STATE_CLEAR VM_PAGE_STATE_FREE] ex
    by (auto simp: demo_free split: if_splits)
qed

text \<open>
  C34. In every state reached from boot, \<^verbatim>\<open>vm_page_alloc_range\<close> returns whatever its size and state
  arguments are: the first page of the lowest run of \<open>n\<close> pages that are all \<open>FREE\<close> or \<open>CLEAR\<close>, which
  become \<open>BUSY\<close>, or nothing if there is none. Runs that end at the last page are never
  considered (the bound is \<open>s + n < total\<close>), and no page is zeroed although the caller may have
  asked for \<open>CLEAR\<close> pages.
\<close>

theorem vm_page_alloc_range_first_fit:
  assumes boot: "length area = unat (vp_total_pages_count (vm_page_preinit (bs_kargs b) blank_pages))" "length area \<le> 2 ^ 20"
    "boot_pages b area ops = Some (Inr v)"
  shows "if \<exists>s. fits_at v (unat n) s
    then \<exists>s v'. vm_page_alloc_range st n v = Some (Inr (v', Some s)) \<and> pages_consistent v' \<and>
      vp_cleared v' = vp_cleared v \<and> fits_at v (unat n) s \<and> (\<forall>s'. fits_at v (unat n) s' \<longrightarrow> s \<le> s') \<and>
      vp_all_pages v' = vp_all_pages (put_states [s ..< s + unat n] VM_PAGE_STATE_BUSY v)
    else vm_page_alloc_range st n v = Some (Inr (v, None))"
proof -
  from boot_pages_ok [OF boot(1,2), of ops] boot(3) obtain L where inv: "pages_inv v L" by auto
  show ?thesis
  proof (cases "\<exists>s. fits_at v (unat n) s")
    case True
    with vm_page_alloc_range_ok [OF inv, of n st] show ?thesis
      by (simp only: if_True simp_thms) (elim exE conjE, intro exI conjI, assumption, erule pages_inv_consistent, assumption+)
  next
    case False
    with vm_page_alloc_range_ok [OF inv, of n st] show ?thesis by (simp only: if_False)
  qed
qed

theorem vm_page_alloc_range_first_fit_witness:
  "\<exists>s v'. vm_page_alloc_range 3 2 demo_pages = Some (Inr (v', Some s)) \<and> pages_consistent v' \<and>
     vp_cleared v' = vp_cleared demo_pages \<and> fits_at demo_pages 2 s"
proof -
  have "fits_at demo_pages 2 3"
    by (auto simp: fits_at_def demo_free free_or_clear_def less_2_cases_iff simp flip: numeral_2_eq_2)
  then have fit: "\<exists>s. fits_at demo_pages (unat (2 :: addr_t)) s" by auto
  show ?thesis
    using vm_page_alloc_range_first_fit [OF demo_total demo_small demo_boot_ret, of 2 3] fit by auto
qed

text \<open>
  \<^verbatim>\<open>vm_page_alloc_specific_range\<close> is all or nothing: if every page number of the range names a
  page that may be taken, all of them become \<open>BUSY\<close>; otherwise the state is unchanged.
\<close>

theorem vm_page_alloc_specific_range_atomic:
  assumes boot: "length area = unat (vp_total_pages_count (vm_page_preinit (bs_kargs b) blank_pages))" "length area \<le> 2 ^ 20"
    "boot_pages b area ops = Some (Inr v)" and nowrap: "unat first + unat n < 2 ^ 32"
  shows "\<exists>v' r. vm_page_alloc_specific_range first n st v = Some (Inr (v', r)) \<and> pages_consistent v' \<and>
    (if n \<noteq> 0 \<and> (\<forall>i < unat n. \<exists>p. vm_page_lookup (first + of_nat i) v = Some p \<and> available v p)
     then r = Some (unat (first - vp_physical_page_offset v)) \<and>
       vp_all_pages v' = vp_all_pages (put_states
         [unat (first - vp_physical_page_offset v) ..< unat (first - vp_physical_page_offset v) + unat n]
         VM_PAGE_STATE_BUSY v)
     else r = None \<and> v' = v)"
proof -
  from boot_pages_ok [OF boot(1,2), of ops] boot(3) obtain L where inv: "pages_inv v L" by auto
  from alloc_specific_range_ok [OF inv nowrap, of st] pages_inv_consistent show ?thesis by blast
qed

theorem vm_page_alloc_specific_range_atomic_witness:
  "\<exists>v' r. vm_page_alloc_specific_range 2 2 2 demo_pages = Some (Inr (v', r)) \<and> pages_consistent v' \<and>
     (r = Some 1 \<or> r = None \<and> v' = demo_pages)"
proof -
  have "unat (2 :: addr_t) + unat (2 :: addr_t) < 2 ^ 32" by simp
  from vm_page_alloc_specific_range_atomic [OF demo_total demo_small demo_boot_ret this, of 2] show ?thesis
    by (auto simp: demo_free split: if_splits)
qed

end
