(* ===== verification/Avl_Tree.thy ===== *)
theory Avl_Tree
  imports Prelude
begin

text \<open>
  The AVL tree of \<^verbatim>\<open>kernel/util/avl_tree.c\<close>: nodes with two children, a parent, the index they have in
  the parent and a balance, changed in place by iterative code. A data structure is identified with
  the node embedded in it, so that the offset of the node is not part of the model. A child index is a
  truth value (\<open>False\<close> is 0, \<open>True\<close> is 1, and \<open>1 - left\<close> is the negation). The code that follows a null
  pointer, fails an assertion or runs for ever returns \<open>None\<close>.
\<close>

section \<open>Data\<close>

record 'n avl_tree_node =
  avl_child :: "bool \<Rightarrow> 'n option"
  avl_parent :: "'n option"
  avl_child_index :: bool
  avl_balance :: int

record 'n avl_tree =
  avl_nodes :: "'n \<Rightarrow> 'n avl_tree_node"
  avl_root :: "'n option"
  avl_compare :: "'n \<Rightarrow> 'n \<Rightarrow> int"
  avl_numnodes :: uint

record 'n avl_tree_index =
  ix_node :: "'n option"
  ix_child :: bool

abbreviation (input) AVL_XPARENT :: "'n avl_tree \<Rightarrow> 'n \<Rightarrow> 'n option" where
  "AVL_XPARENT t n \<equiv> avl_parent (avl_nodes t n)"

abbreviation (input) AVL_XCHILD :: "'n avl_tree \<Rightarrow> 'n \<Rightarrow> bool" where
  "AVL_XCHILD t n \<equiv> avl_child_index (avl_nodes t n)"

abbreviation (input) AVL_XBALANCE :: "'n avl_tree \<Rightarrow> 'n \<Rightarrow> int" where
  "AVL_XBALANCE t n \<equiv> avl_balance (avl_nodes t n)"

abbreviation (input) child_of :: "'n avl_tree \<Rightarrow> 'n \<Rightarrow> bool \<Rightarrow> 'n option" where
  "child_of t n i \<equiv> avl_child (avl_nodes t n) i"

definition upd_node :: "'n \<Rightarrow> ('n avl_tree_node \<Rightarrow> 'n avl_tree_node) \<Rightarrow> 'n avl_tree \<Rightarrow> 'n avl_tree" where
  "upd_node n f t = t\<lparr>avl_nodes := (avl_nodes t)(n := f (avl_nodes t n))\<rparr>"

definition AVL_SETPARENT :: "'n \<Rightarrow> 'n option \<Rightarrow> 'n avl_tree \<Rightarrow> 'n avl_tree" where
  "AVL_SETPARENT n p = upd_node n (\<lambda>d. d\<lparr>avl_parent := p\<rparr>)"

definition AVL_SETCHILD :: "'n \<Rightarrow> bool \<Rightarrow> 'n avl_tree \<Rightarrow> 'n avl_tree" where
  "AVL_SETCHILD n c = upd_node n (\<lambda>d. d\<lparr>avl_child_index := c\<rparr>)"

definition AVL_SETBALANCE :: "'n \<Rightarrow> int \<Rightarrow> 'n avl_tree \<Rightarrow> 'n avl_tree" where
  "AVL_SETBALANCE n b = upd_node n (\<lambda>d. d\<lparr>avl_balance := b\<rparr>)"

definition set_child :: "'n \<Rightarrow> bool \<Rightarrow> 'n option \<Rightarrow> 'n avl_tree \<Rightarrow> 'n avl_tree" where
  "set_child n i c = upd_node n (\<lambda>d. d\<lparr>avl_child := (avl_child d)(i := c)\<rparr>)"

text \<open>A child that is there gets its parent and its index.\<close>

definition adopt :: "'n option \<Rightarrow> 'n \<Rightarrow> bool \<Rightarrow> 'n avl_tree \<Rightarrow> 'n avl_tree" where
  "adopt c p i t = (case c of None \<Rightarrow> t | Some n \<Rightarrow> AVL_SETCHILD n i (AVL_SETPARENT n (Some p) t))"

text \<open>The pointer to a subtree: in its parent or in the tree.\<close>

definition hang :: "'n option \<Rightarrow> bool \<Rightarrow> 'n option \<Rightarrow> 'n avl_tree \<Rightarrow> 'n avl_tree" where
  "hang parent which_child c t = (case parent of None \<Rightarrow> t\<lparr>avl_root := c\<rparr> | Some p \<Rightarrow> set_child p which_child c t)"

definition avl_child2balance :: "bool \<Rightarrow> int" where
  "avl_child2balance c = (if c then 1 else - 1)"

definition avl_balance2child :: "int \<Rightarrow> bool" where
  "avl_balance2child b = (b = 2)"

section \<open>Rotation\<close>

definition avl_tree_rotation :: "'n avl_tree \<Rightarrow> 'n \<Rightarrow> int \<Rightarrow> ('n avl_tree \<times> bool) option" where
  "avl_tree_rotation t node balance =
     (let left = (\<not> balance < 0); right = (\<not> left);
          left_heavy = balance div 2; right_heavy = - left_heavy;
          parent = AVL_XPARENT t node; which_child = AVL_XCHILD t node
      in case child_of t node left of
           None \<Rightarrow> None
         | Some child \<Rightarrow>
             (let child_bal = AVL_XBALANCE t child in
              if child_bal \<noteq> right_heavy
              then (let child_bal = child_bal + right_heavy;
                        cright = child_of t child right;
                        t1 = adopt cright node left (set_child node left cright t);
                        t2 = set_child child right (Some node) t1;
                        t3 = AVL_SETPARENT node (Some child) (AVL_SETCHILD node right (AVL_SETBALANCE node (- child_bal) t2));
                        t4 = AVL_SETPARENT child parent (AVL_SETCHILD child which_child (AVL_SETBALANCE child child_bal t3))
                    in Some (hang parent which_child (Some child) t4, child_bal = 0))
              else (case child_of t child right of
                      None \<Rightarrow> None
                    | Some gchild \<Rightarrow>
                        (let gleft = child_of t gchild left; gright = child_of t gchild right;
                             t1 = adopt gright node left (set_child node left gright t);
                             t2 = adopt gleft child right (set_child child right gleft t1);
                             balance = AVL_XBALANCE t2 gchild;
                             t3 = AVL_SETBALANCE child (if balance = right_heavy then left_heavy else 0) (set_child gchild left (Some child) t2);
                             t4 = AVL_SETCHILD child left (AVL_SETPARENT child (Some gchild) t3);
                             t5 = AVL_SETBALANCE node (if balance = left_heavy then right_heavy else 0) (set_child gchild right (Some node) t4);
                             t6 = AVL_SETCHILD node right (AVL_SETPARENT node (Some gchild) t5);
                             t7 = AVL_SETCHILD gchild which_child (AVL_SETPARENT gchild parent (AVL_SETBALANCE gchild 0 t6))
                         in Some (hang parent which_child (Some gchild) t7, True)))))"

section \<open>Walking\<close>

partial_function (option) far_loop :: "'n avl_tree \<Rightarrow> bool \<Rightarrow> 'n \<Rightarrow> 'n option" where
  "far_loop t right node = (case child_of t node right of None \<Rightarrow> Some node | Some n \<Rightarrow> far_loop t right n)"

partial_function (option) back_loop :: "'n avl_tree \<Rightarrow> bool \<Rightarrow> 'n \<Rightarrow> 'n option option" where
  "back_loop t right node =
     (case AVL_XPARENT t node of
        None \<Rightarrow> Some None
      | Some p \<Rightarrow> if AVL_XCHILD t node = right then Some (Some p) else back_loop t right p)"

definition avl_tree_walk :: "'n avl_tree \<Rightarrow> 'n \<Rightarrow> bool \<Rightarrow> 'n option option" where
  "avl_tree_walk t node left =
     (case child_of t node left of
        Some n \<Rightarrow> map_option Some (far_loop t (\<not> left) n)
      | None \<Rightarrow> back_loop t (\<not> left) node)"

section \<open>Creation, searching and inserting\<close>

definition avl_tree_create :: "('n \<Rightarrow> 'n \<Rightarrow> int) \<Rightarrow> ('n \<Rightarrow> 'n avl_tree_node) \<Rightarrow> 'n avl_tree" where
  "avl_tree_create compare nodes = \<lparr>avl_nodes = nodes, avl_root = None, avl_compare = compare, avl_numnodes = 0\<rparr>"

text \<open>The node found, or the place of insertion.\<close>

partial_function (option) find_loop ::
  "'n avl_tree \<Rightarrow> 'n \<Rightarrow> 'n option \<Rightarrow> 'n option \<Rightarrow> bool \<Rightarrow> ('n option \<times> 'n avl_tree_index) option" where
  "find_loop t value node prev child =
     (case node of
        None \<Rightarrow> Some (None, \<lparr>ix_node = prev, ix_child = child\<rparr>)
      | Some n \<Rightarrow>
          (let diff = avl_compare t value n in
           if \<not> (- 1 \<le> diff \<and> diff \<le> 1) then None
           else if diff = 0 then Some (Some n, \<lparr>ix_node = None, ix_child = False\<rparr>)
           else (let child = avl_balance2child (1 + diff) in find_loop t value (child_of t n child) (Some n) child)))"

definition avl_tree_find :: "'n avl_tree \<Rightarrow> 'n \<Rightarrow> ('n option \<times> 'n avl_tree_index) option" where
  "avl_tree_find t value = find_loop t value (avl_root t) None False"

partial_function (option) insert_loop :: "'n option \<Rightarrow> bool \<Rightarrow> 'n avl_tree \<Rightarrow> 'n avl_tree option" where
  "insert_loop parent which_child t =
     (case parent of
        None \<Rightarrow> Some t
      | Some node \<Rightarrow>
          (let old_balance = AVL_XBALANCE t node; new_balance = old_balance + avl_child2balance which_child in
           if new_balance = 0 then Some (AVL_SETBALANCE node 0 t)
           else if old_balance \<noteq> 0 then map_option fst (avl_tree_rotation t node new_balance)
           else (let t1 = AVL_SETBALANCE node new_balance t in insert_loop (AVL_XPARENT t1 node) (AVL_XCHILD t1 node) t1)))"

definition avl_tree_insert :: "'n avl_tree \<Rightarrow> 'n \<Rightarrow> 'n avl_tree_index \<Rightarrow> 'n avl_tree option" where
  "avl_tree_insert t node ix =
     (let parent = ix_node ix; which_child = ix_child ix;
          t1 = t\<lparr>avl_numnodes := avl_numnodes t + 1\<rparr>;
          t2 = set_child node True None (set_child node False None t1);
          t3 = AVL_SETPARENT node parent (AVL_SETBALANCE node 0 (AVL_SETCHILD node which_child t2))
      in if (case parent of Some p \<Rightarrow> child_of t3 p which_child | None \<Rightarrow> avl_root t3) \<noteq> None then None
         else insert_loop parent which_child (hang parent which_child (Some node) t3))"

text \<open>The check of the order in a debugging build.\<close>

definition order_check :: "'n avl_tree \<Rightarrow> 'n \<Rightarrow> 'n \<Rightarrow> bool \<Rightarrow> bool" where
  "order_check t new_data n child =
     (let diff = avl_compare t new_data n in - 1 \<le> diff \<and> diff \<le> 1 \<and> diff \<noteq> 0 \<and> (if diff > 0 then child else \<not> child))"

partial_function (option) here_loop :: "'n avl_tree \<Rightarrow> 'n \<Rightarrow> bool \<Rightarrow> 'n \<Rightarrow> 'n option" where
  "here_loop t new_data child node =
     (if \<not> order_check t new_data node child then None
      else (case child_of t node child of None \<Rightarrow> Some node | Some n \<Rightarrow> here_loop t new_data child n))"

definition avl_tree_insert_here :: "'n avl_tree \<Rightarrow> 'n \<Rightarrow> 'n \<Rightarrow> bool \<Rightarrow> 'n avl_tree option" where
  "avl_tree_insert_here t new_data here direction =
     (if \<not> order_check t new_data here direction then None
      else (case child_of t here direction of
              None \<Rightarrow> avl_tree_insert t new_data \<lparr>ix_node = Some here, ix_child = direction\<rparr>
            | Some n \<Rightarrow>
                (case here_loop t new_data (\<not> direction) n of
                   None \<Rightarrow> None
                 | Some node \<Rightarrow> avl_tree_insert t new_data \<lparr>ix_node = Some node, ix_child = \<not> direction\<rparr>)))"

definition avl_tree_first :: "'n avl_tree \<Rightarrow> 'n option option" where
  "avl_tree_first t = (case avl_root t of None \<Rightarrow> Some None | Some n \<Rightarrow> map_option Some (far_loop t False n))"

definition avl_tree_last :: "'n avl_tree \<Rightarrow> 'n option option" where
  "avl_tree_last t = (case avl_root t of None \<Rightarrow> Some None | Some n \<Rightarrow> map_option Some (far_loop t True n))"

definition avl_tree_nearest :: "'n avl_tree \<Rightarrow> 'n avl_tree_index \<Rightarrow> bool \<Rightarrow> 'n option option" where
  "avl_tree_nearest t ix direction =
     (case ix_node ix of
        None \<Rightarrow> if avl_root t \<noteq> None then None else Some None
      | Some node \<Rightarrow> if ix_child ix \<noteq> direction then Some (Some node) else avl_tree_walk t node direction)"

definition avl_tree_add :: "'n avl_tree \<Rightarrow> 'n \<Rightarrow> ('n avl_tree \<times> 'n option) option" where
  "avl_tree_add t new_node =
     (case avl_tree_find t new_node of
        None \<Rightarrow> None
      | Some (Some _, _) \<Rightarrow> Some (t, None)
      | Some (None, ix) \<Rightarrow> map_option (\<lambda>t1. (t1, Some new_node)) (avl_tree_insert t new_node ix))"

section \<open>Removing\<close>

text \<open>
  A node with two children changes places with its neighbour in the taller side; the old place of the
  neighbour is held by a node on the stack, whose address is \<open>tmp\<close>.
\<close>

definition swap_neighbour :: "'n \<Rightarrow> 'n avl_tree \<Rightarrow> 'n \<Rightarrow> 'n avl_tree option" where
  "swap_neighbour tmp t delete =
     (let left = avl_balance2child (AVL_XBALANCE t delete + 1); right = (\<not> left) in
      case child_of t delete left of
        None \<Rightarrow> None
      | Some n \<Rightarrow>
          (case far_loop t right n of
             None \<Rightarrow> None
           | Some node \<Rightarrow>
               (let t1 = upd_node tmp (\<lambda>_. avl_nodes t node) t;
                    t2 = upd_node node (\<lambda>_. avl_nodes t1 delete) t1;
                    t3 = (if child_of t2 node left = Some node then set_child node left (Some tmp) t2 else t2);
                    t4 = hang (AVL_XPARENT t3 node) (AVL_XCHILD t3 node) (Some node) t3
                in case (child_of t4 node left, child_of t4 node right) of
                     (Some cl, Some cr) \<Rightarrow>
                       (let t5 = AVL_SETPARENT cr (Some node) (AVL_SETPARENT cl (Some node) t4) in
                        case AVL_XPARENT t5 tmp of
                          None \<Rightarrow> None
                        | Some parent \<Rightarrow>
                            (let t6 = set_child parent (AVL_XCHILD t5 tmp) (Some tmp) t5;
                                 which_child = (child_of t6 tmp True \<noteq> None)
                             in Some (case child_of t6 tmp which_child of None \<Rightarrow> t6 | Some c \<Rightarrow> AVL_SETPARENT c (Some tmp) t6)))
                   | _ \<Rightarrow> None)))"

partial_function (option) remove_loop :: "'n \<Rightarrow> bool \<Rightarrow> 'n avl_tree \<Rightarrow> 'n avl_tree option" where
  "remove_loop node which_child t =
     (let old_balance = AVL_XBALANCE t node; new_balance = old_balance - avl_child2balance which_child;
          parent = AVL_XPARENT t node; which = AVL_XCHILD t node
      in if old_balance = 0 then Some (AVL_SETBALANCE node new_balance t)
         else if new_balance = 0
         then (let t1 = AVL_SETBALANCE node new_balance t in case parent of None \<Rightarrow> Some t1 | Some p \<Rightarrow> remove_loop p which t1)
         else (case avl_tree_rotation t node new_balance of
                 None \<Rightarrow> None
               | Some (t1, shorter) \<Rightarrow>
                   if \<not> shorter then Some t1 else (case parent of None \<Rightarrow> Some t1 | Some p \<Rightarrow> remove_loop p which t1)))"

text \<open>Taking out a node with at most one child.\<close>

definition remove_leaf :: "'n \<Rightarrow> 'n avl_tree \<Rightarrow> 'n avl_tree option" where
  "remove_leaf delete t =
     (if avl_numnodes t = 0 then None
      else (let t1 = t\<lparr>avl_numnodes := avl_numnodes t - 1\<rparr>;
                parent = AVL_XPARENT t1 delete; which_child = AVL_XCHILD t1 delete;
                node = (if child_of t1 delete False \<noteq> None then child_of t1 delete False else child_of t1 delete True);
                t2 = (case node of None \<Rightarrow> t1 | Some n \<Rightarrow> AVL_SETCHILD n which_child (AVL_SETPARENT n parent t1));
                t3 = hang parent which_child node t2
            in case parent of None \<Rightarrow> Some t3 | Some p \<Rightarrow> remove_loop p which_child t3))"

definition avl_tree_remove :: "'n \<Rightarrow> 'n avl_tree \<Rightarrow> 'n \<Rightarrow> ('n avl_tree \<times> 'n option) option" where
  "avl_tree_remove tmp t data =
     (case avl_tree_find t data of
        None \<Rightarrow> None
      | Some (r, _) \<Rightarrow>
          if r \<noteq> Some data then Some (t, None)
          else if child_of t data False \<noteq> None \<and> child_of t data True \<noteq> None
          then (case swap_neighbour tmp t data of
                  None \<Rightarrow> None
                | Some t1 \<Rightarrow> map_option (\<lambda>t2. (t2, Some data)) (remove_leaf tmp t1))
          else map_option (\<lambda>t2. (t2, Some data)) (remove_leaf data t))"

definition avl_tree_destroy :: "'n avl_tree \<Rightarrow> uint option" where
  "avl_tree_destroy t = (if avl_numnodes t \<noteq> 0 \<or> avl_root t \<noteq> None then None else Some (avl_numnodes t))"

definition avl_tree_numnodes :: "'n avl_tree \<Rightarrow> uint" where
  "avl_tree_numnodes t = avl_numnodes t"

section \<open>Taking the tree apart\<close>

definition AVL_TREE_COOKIE_INIT :: "'n avl_tree_index" where
  "AVL_TREE_COOKIE_INIT = \<lparr>ix_node = None, ix_child = False\<rparr>"

definition destroy_done :: "'n avl_tree \<Rightarrow> 'n option \<Rightarrow> 'n \<Rightarrow> ('n avl_tree \<times> 'n avl_tree_index \<times> 'n option) option" where
  "destroy_done t parent node =
     (case parent of
        None \<Rightarrow> if Some node \<noteq> avl_root t then None else Some (t, \<lparr>ix_node = None, ix_child = True\<rparr>, Some node)
      | Some p \<Rightarrow> Some (t, \<lparr>ix_node = Some p, ix_child = AVL_XCHILD t node\<rparr>, Some node))"

definition check_right_side :: "'n avl_tree \<Rightarrow> 'n option \<Rightarrow> 'n \<Rightarrow> ('n avl_tree \<times> 'n avl_tree_index \<times> 'n option) option" where
  "check_right_side t parent node =
     (case child_of t node True of
        Some r \<Rightarrow> if AVL_XBALANCE t node \<noteq> 1 \<or> child_of t r False \<noteq> None \<or> child_of t r True \<noteq> None then None
                  else destroy_done t (Some node) r
      | None \<Rightarrow> if AVL_XBALANCE t node > 0 then None else destroy_done t parent node)"

partial_function (option) left_loop :: "'n avl_tree \<Rightarrow> 'n option \<Rightarrow> 'n \<Rightarrow> ('n option \<times> 'n) option" where
  "left_loop t parent node = (case child_of t node False of None \<Rightarrow> Some (parent, node) | Some n \<Rightarrow> left_loop t (Some node) n)"

definition avl_tree_destroy_nodes :: "'n avl_tree \<Rightarrow> 'n avl_tree_index \<Rightarrow> ('n avl_tree \<times> 'n avl_tree_index \<times> 'n option) option" where
  "avl_tree_destroy_nodes t cookie =
     (if ix_node cookie = None \<and> \<not> ix_child cookie
      then (case avl_tree_first t of
              None \<Rightarrow> None
            | Some None \<Rightarrow> Some (t, \<lparr>ix_node = None, ix_child = True\<rparr>, None)
            | Some (Some node) \<Rightarrow> check_right_side t (AVL_XPARENT t node) node)
      else (case ix_node cookie of
              None \<Rightarrow>
                if avl_root t \<noteq> None
                then (if avl_numnodes t \<noteq> 1 then None else Some (t\<lparr>avl_root := None, avl_numnodes := 0\<rparr>, cookie, None))
                else Some (t, cookie, None)
            | Some parent \<Rightarrow>
                (let child = ix_child cookie; t1 = set_child parent child None t in
                 if \<not> avl_numnodes t1 > 1 then None
                 else (let t2 = t1\<lparr>avl_numnodes := avl_numnodes t1 - 1\<rparr> in
                       if child then destroy_done t2 (AVL_XPARENT t2 parent) parent
                       else (case child_of t2 parent True of
                               None \<Rightarrow> destroy_done t2 (AVL_XPARENT t2 parent) parent
                             | Some n \<Rightarrow>
                                 (case left_loop t2 (Some parent) n of
                                    None \<Rightarrow> None
                                  | Some (p, node) \<Rightarrow> check_right_side t2 p node))))))"

declare far_loop.simps [code] back_loop.simps [code] find_loop.simps [code] insert_loop.simps [code] here_loop.simps [code] remove_loop.simps [code] left_loop.simps [code]

end
