(* ===== verification/Avl_Rep.thy ===== *)
theory Avl_Rep
  imports Avl_Tree
begin

text \<open>
  What the nodes of a tree in memory represent: a binary tree with the stored balances, split at a
  place of interest into the path above and the subtree below; and what a rotation does to it.
\<close>

section \<open>Trees and paths\<close>

datatype 'n atree = Tip | Bin "'n atree" 'n int "'n atree"

primrec ptr :: "'n atree \<Rightarrow> 'n option" where
  "ptr Tip = None"
| "ptr (Bin l x k r) = Some x"

primrec inord :: "'n atree \<Rightarrow> 'n list" where
  "inord Tip = []"
| "inord (Bin l x k r) = inord l @ x # inord r"

text \<open>A node whose child on side \<open>i\<close> is \<open>s\<close> and whose other child is \<open>t\<close>.\<close>

definition mk :: "bool \<Rightarrow> 'n atree \<Rightarrow> 'n \<Rightarrow> int \<Rightarrow> 'n atree \<Rightarrow> 'n atree" where
  "mk i s x k t = (if i then Bin t x k s else Bin s x k t)"

text \<open>A path: for every node above, the side the path leaves it, its balance and its other subtree, innermost first.\<close>

type_synonym 'n path = "(bool \<times> 'n \<times> int \<times> 'n atree) list"

fun cptr :: "'n path \<Rightarrow> 'n option" where
  "cptr [] = None"
| "cptr ((b, x, k, s) # c) = Some x"

fun cside :: "'n path \<Rightarrow> bool" where
  "cside [] = False"
| "cside ((b, x, k, s) # c) = b"

fun plug :: "'n path \<Rightarrow> 'n atree \<Rightarrow> 'n atree" where
  "plug [] t = t"
| "plug ((b, x, k, s) # c) t = plug c (mk b t x k s)"

fun cnodes :: "'n path \<Rightarrow> 'n list" where
  "cnodes [] = []"
| "cnodes ((b, x, k, s) # c) = x # inord s @ cnodes c"

section \<open>Representation\<close>

definition node_rep :: "'n avl_tree_node \<Rightarrow> bool \<Rightarrow> 'n option \<Rightarrow> 'n option \<Rightarrow> int \<Rightarrow> 'n option \<Rightarrow> bool \<Rightarrow> bool" where
  "node_rep d i s t k p b \<longleftrightarrow> avl_child d i = s \<and> avl_child d (\<not> i) = t \<and> avl_balance d = k \<and> avl_parent d = p \<and> (p \<noteq> None \<longrightarrow> avl_child_index d = b)"

primrec rep :: "('n \<Rightarrow> 'n avl_tree_node) \<Rightarrow> 'n option \<Rightarrow> bool \<Rightarrow> 'n atree \<Rightarrow> bool" where
  "rep h p b Tip \<longleftrightarrow> True"
| "rep h p b (Bin l x k r) \<longleftrightarrow> node_rep (h x) False (ptr l) (ptr r) k p b \<and> rep h (Some x) False l \<and> rep h (Some x) True r"

fun crep :: "('n \<Rightarrow> 'n avl_tree_node) \<Rightarrow> 'n option \<Rightarrow> 'n option \<Rightarrow> 'n path \<Rightarrow> bool" where
  "crep h root p [] \<longleftrightarrow> root = p"
| "crep h root p ((b, x, k, s) # c) \<longleftrightarrow>
     node_rep (h x) b p (ptr s) k (cptr c) (cside c) \<and> rep h (Some x) (\<not> b) s \<and> crep h root (Some x) c"

definition focus :: "'n avl_tree \<Rightarrow> 'n path \<Rightarrow> 'n atree \<Rightarrow> bool" where
  "focus T c t \<longleftrightarrow> crep (avl_nodes T) (avl_root T) (ptr t) c \<and> rep (avl_nodes T) (cptr c) (cside c) t \<and> distinct (inord t @ cnodes c)"

lemma mk_simps [simp]:
  "ptr (mk i s x k t) = Some x"
  "rep h p b (mk i s x k t) \<longleftrightarrow> node_rep (h x) i (ptr s) (ptr t) k p b \<and> rep h (Some x) i s \<and> rep h (Some x) (\<not> i) t"
  "set (inord (mk i s x k t)) = insert x (set (inord s) \<union> set (inord t))"
  "distinct (inord (mk i s x k t)) \<longleftrightarrow> x \<notin> set (inord s) \<and> x \<notin> set (inord t) \<and> distinct (inord s) \<and> distinct (inord t) \<and> set (inord s) \<inter> set (inord t) = {}"
  by (cases i; auto simp: mk_def node_rep_def)+

lemma ptr_in: "ptr t = Some z \<Longrightarrow> z \<in> set (inord t)"
  by (cases t) auto

lemma ptr_None [simp]: "ptr t = None \<longleftrightarrow> t = Tip" "None = ptr t \<longleftrightarrow> t = Tip"
  by (cases t; simp)+

lemma ptr_mk: "ptr t = Some x \<Longrightarrow> \<exists>s k u. t = mk i s x k u"
  by (cases t; cases i) (auto simp: mk_def)

lemma mset_plug: "mset (inord (plug c t)) = mset (inord t) + mset (cnodes c)"
  by (induction c t rule: plug.induct) (auto simp: mk_def)

lemma set_plug: "set (inord (plug c t)) = set (inord t) \<union> set (cnodes c)"
  using arg_cong [OF mset_plug, of set_mset c t] by simp

lemma distinct_plug: "distinct (inord (plug c t)) \<longleftrightarrow> distinct (inord t @ cnodes c)"
  by (metis mset_append mset_eq_imp_distinct_iff mset_plug)

lemma focus_up: "focus T ((b, x, k, s) # c) t \<longleftrightarrow> focus T c (mk b t x k s)"
  by (auto simp: focus_def)

lemma focus_plug: "focus T c t \<longleftrightarrow> focus T [] (plug c t)"
  by (induction c t rule: plug.induct) (auto simp: focus_up)

lemma cptr_in: "cptr c = Some z \<Longrightarrow> z \<in> set (cnodes c)"
  by (cases c rule: cptr.cases) auto

section \<open>Changes\<close>

lemma rep_cong: "(\<And>z. z \<in> set (inord t) \<Longrightarrow> h' z = h z) \<Longrightarrow> rep h' p b t = rep h p b t"
  by (induction t arbitrary: p b) auto

lemma crep_cong: "(\<And>z. z \<in> set (cnodes c) \<Longrightarrow> h' z = h z) \<Longrightarrow> crep h' r p c = crep h r p c"
proof (induction c arbitrary: p rule: cnodes.induct)
  case (2 b x k s c)
  have "rep h' (Some x) (\<not> b) s = rep h (Some x) (\<not> b) s" by (rule rep_cong) (simp add: "2.prems")
  then show ?case using 2 by simp
qed simp

text \<open>A subtree gets another parent; the rest of it does not change.\<close>

lemma rep_move:
  assumes "rep h p b t" "distinct (inord t)"
    and "\<And>z. z \<in> set (inord t) \<Longrightarrow> ptr t \<noteq> Some z \<Longrightarrow> h' z = h z"
    and "\<And>z. ptr t = Some z \<Longrightarrow> h' z = (h z)\<lparr>avl_parent := p', avl_child_index := b'\<rparr>"
  shows "rep h' p' b' t"
proof (cases t)
  case (Bin l x k r)
  have "rep h' (Some x) False l = rep h (Some x) False l" "rep h' (Some x) True r = rep h (Some x) True r"
    by (rule rep_cong, rule assms(3); use assms(2) Bin in auto)+
  moreover have "h' x = (h x)\<lparr>avl_parent := p', avl_child_index := b'\<rparr>" using assms(4) Bin by simp
  ultimately show ?thesis using assms(1) Bin by (simp add: node_rep_def)
qed simp

text \<open>The subtree at the end of a path is replaced.\<close>

lemma crep_move:
  assumes "crep h r p c" "distinct (cnodes c)"
    and "\<And>z. z \<in> set (cnodes c) \<Longrightarrow> cptr c \<noteq> Some z \<Longrightarrow> h' z = h z"
    and "\<And>z. cptr c = Some z \<Longrightarrow> h' z = (h z)\<lparr>avl_child := (avl_child (h z))(cside c := p')\<rparr>"
    and "r' = (if c = [] then p' else r)"
  shows "crep h' r' p' c"
proof (cases c rule: cptr.cases)
  case (2 b x k s c')
  have "rep h' (Some x) (\<not> b) s = rep h (Some x) (\<not> b) s" "crep h' r (Some x) c' = crep h r (Some x) c'"
    by (rule rep_cong crep_cong, rule assms(3); use assms(2) 2 in auto)+
  moreover have "h' x = (h x)\<lparr>avl_child := (avl_child (h x))(b := p')\<rparr>" using assms(4) 2 by simp
  ultimately show ?thesis using assms(1,5) 2 by (auto simp: node_rep_def)
qed (use assms in simp)

lemma set_simps [simp]:
  "avl_nodes (upd_node n f T) z = (if z = n then f (avl_nodes T n) else avl_nodes T z)" "avl_root (upd_node n f T) = avl_root T"
  "avl_numnodes (upd_node n f T) = avl_numnodes T" "avl_compare (upd_node n f T) = avl_compare T"
  by (simp_all add: upd_node_def)

lemmas setters = AVL_SETPARENT_def AVL_SETCHILD_def AVL_SETBALANCE_def set_child_def

lemma adopt_simps [simp]:
  "avl_nodes (adopt c p i T) z = (if c = Some z then (avl_nodes T z)\<lparr>avl_parent := Some p, avl_child_index := i\<rparr> else avl_nodes T z)"
  "avl_root (adopt c p i T) = avl_root T" "avl_numnodes (adopt c p i T) = avl_numnodes T" "avl_compare (adopt c p i T) = avl_compare T"
  by (auto simp: adopt_def setters split: option.splits)

lemma hang_simps [simp]:
  "avl_nodes (hang p w c T) z = (if p = Some z then (avl_nodes T z)\<lparr>avl_child := (avl_child (avl_nodes T z))(w := c)\<rparr> else avl_nodes T z)"
  "avl_root (hang p w c T) = (if p = None then c else avl_root T)" "avl_numnodes (hang p w c T) = avl_numnodes T" "avl_compare (hang p w c T) = avl_compare T"
  by (auto simp: hang_def setters split: option.splits)

section \<open>Rotation\<close>

lemma rotation_single:
  assumes "focus T c (mk b (mk b cl y ck cr) x k s)" "ck \<noteq> - avl_child2balance b"
  shows "\<exists>T'. avl_tree_rotation T x (2 * avl_child2balance b) = Some (T', ck - avl_child2balance b = 0) \<and>
    focus T' c (mk b cl y (ck - avl_child2balance b) (mk b cr x (avl_child2balance b - ck) s)) \<and>
    avl_numnodes T' = avl_numnodes T \<and> avl_compare T' = avl_compare T"
proof -
  let ?d = "avl_child2balance b" and ?h = "avl_nodes T"
  have side: "(\<not> 2 * ?d < 0) = b" "2 * ?d div 2 = ?d" by (simp_all add: avl_child2balance_def)
  have f: "crep ?h (avl_root T) (Some x) c" "node_rep (?h x) b (Some y) (ptr s) k (cptr c) (cside c)"
    "node_rep (?h y) b (ptr cl) (ptr cr) ck (Some x) b" "rep ?h (Some y) b cl" "rep ?h (Some y) (\<not> b) cr" "rep ?h (Some x) (\<not> b) s"
    using assms(1) by (simp_all add: focus_def)
  have dist: "distinct (inord cl)" "distinct (inord cr)" "distinct (inord s)" "distinct (cnodes c)" "x \<noteq> y"
    "x \<notin> set (inord cl)" "x \<notin> set (inord cr)" "x \<notin> set (inord s)" "x \<notin> set (cnodes c)"
    "y \<notin> set (inord cl)" "y \<notin> set (inord cr)" "y \<notin> set (inord s)" "y \<notin> set (cnodes c)"
    "set (inord cl) \<inter> set (inord cr) = {}" "set (inord cl) \<inter> set (inord s) = {}" "set (inord cr) \<inter> set (inord s) = {}"
    "(set (inord cl) \<union> set (inord cr) \<union> set (inord s)) \<inter> set (cnodes c) = {}"
    using assms(1) by (auto simp: focus_def)
  define T' where "T' = hang (cptr c) (avl_child_index (?h x)) (Some y)
    (AVL_SETPARENT y (cptr c) (AVL_SETCHILD y (avl_child_index (?h x)) (AVL_SETBALANCE y (ck - ?d)
      (AVL_SETPARENT x (Some y) (AVL_SETCHILD x (\<not> b) (AVL_SETBALANCE x (?d - ck)
        (set_child y (\<not> b) (Some x) (adopt (ptr cr) x b (set_child x b (ptr cr) T)))))))))"
  have rot: "avl_tree_rotation T x (2 * ?d) = Some (T', ck - ?d = 0)"
    unfolding avl_tree_rotation_def Let_def side T'_def using f(2,3) assms(2) by (simp add: node_rep_def)
  have pc: "cptr c = Some z \<Longrightarrow> z \<in> set (cnodes c)" for z by (rule cptr_in)
  have pr: "ptr cr = Some z \<Longrightarrow> z \<in> set (inord cr)" for z by (rule ptr_in)
  have idx: "cptr c \<noteq> None \<longrightarrow> avl_child_index (?h x) = cside c" "cptr c = None \<longleftrightarrow> c = []" using f(2) by (cases c rule: cptr.cases; simp add: node_rep_def)+
  have off: "avl_nodes T' z = ?h z" if "z \<noteq> x" "z \<noteq> y" "ptr cr \<noteq> Some z" "cptr c \<noteq> Some z" for z
    using that by (simp add: T'_def setters)
  have out: "ptr cr \<noteq> Some z" "cptr c \<noteq> Some z" if "z = x \<or> z = y" for z
    using that dist by (auto dest!: pr pc)
  have in_rest: "z \<noteq> x \<and> z \<noteq> y \<and> ptr cr \<noteq> Some z \<and> cptr c \<noteq> Some z" if "z \<in> set (inord cl) \<or> z \<in> set (inord s)" for z
    using that dist(6,8,10,12,14,16,17) by (auto dest!: pc pr)
  have "crep (avl_nodes T') (avl_root T') (Some y) c"
    by (rule crep_move [OF f(1) dist(4)]) (use dist pc pr idx in \<open>auto simp: T'_def setters\<close>)
  moreover have "rep (avl_nodes T') (Some x) b cr"
    by (rule rep_move [OF f(5) dist(2)]) (use dist pc pr in \<open>auto simp: T'_def setters\<close>)
  moreover have "rep (avl_nodes T') (Some y) b cl" "rep (avl_nodes T') (Some x) (\<not> b) s"
    using f(4,6) off in_rest by (subst rep_cong [where h = ?h]; blast)+
  moreover have "node_rep (avl_nodes T' y) b (ptr cl) (Some x) (ck - ?d) (cptr c) (cside c)"
    using f(3) idx dist(5) out by (auto simp: T'_def setters node_rep_def)
  moreover have "node_rep (avl_nodes T' x) b (ptr cr) (ptr s) (?d - ck) (Some y) (\<not> b)"
    using f(2) dist(5) out by (auto simp: T'_def setters node_rep_def)
  moreover have "avl_numnodes T' = avl_numnodes T" "avl_compare T' = avl_compare T" by (simp_all add: T'_def setters)
  ultimately show ?thesis using rot dist by (auto simp: focus_def)
qed

lemma rotation_double:
  assumes "focus T c (mk b (mk b cl y (- avl_child2balance b) (mk b gl g gk gr)) x k s)"
  shows "\<exists>T'. avl_tree_rotation T x (2 * avl_child2balance b) = Some (T', True) \<and>
    focus T' c (mk b (mk b cl y (if gk = - avl_child2balance b then avl_child2balance b else 0) gl) g 0
      (mk b gr x (if gk = avl_child2balance b then - avl_child2balance b else 0) s)) \<and>
    avl_numnodes T' = avl_numnodes T \<and> avl_compare T' = avl_compare T"
proof -
  let ?d = "avl_child2balance b" and ?h = "avl_nodes T"
  define ky where "ky = (if gk = - ?d then ?d else 0)"
  define kx where "kx = (if gk = ?d then - ?d else 0)"
  have side: "(\<not> 2 * ?d < 0) = b" "2 * ?d div 2 = ?d" by (simp_all add: avl_child2balance_def)
  have f: "crep ?h (avl_root T) (Some x) c" "node_rep (?h x) b (Some y) (ptr s) k (cptr c) (cside c)"
    "node_rep (?h y) b (ptr cl) (Some g) (- ?d) (Some x) b" "node_rep (?h g) b (ptr gl) (ptr gr) gk (Some y) (\<not> b)"
    "rep ?h (Some y) b cl" "rep ?h (Some g) b gl" "rep ?h (Some g) (\<not> b) gr" "rep ?h (Some x) (\<not> b) s"
    using assms(1) by (simp_all add: focus_def)
  have dist: "distinct (inord cl)" "distinct (inord gl)" "distinct (inord gr)" "distinct (inord s)" "distinct (cnodes c)" "x \<noteq> y" "x \<noteq> g" "y \<noteq> g"
    "{x, y, g} \<inter> set (inord cl) = {}" "{x, y, g} \<inter> set (inord gl) = {}" "{x, y, g} \<inter> set (inord gr) = {}" "{x, y, g} \<inter> set (inord s) = {}" "{x, y, g} \<inter> set (cnodes c) = {}"
    "set (inord cl) \<inter> set (inord gl) = {}" "set (inord cl) \<inter> set (inord gr) = {}" "set (inord cl) \<inter> set (inord s) = {}"
    "set (inord gl) \<inter> set (inord gr) = {}" "set (inord gl) \<inter> set (inord s) = {}" "set (inord gr) \<inter> set (inord s) = {}"
    "(set (inord cl) \<union> set (inord gl) \<union> set (inord gr) \<union> set (inord s)) \<inter> set (cnodes c) = {}"
    using assms(1) by (auto simp: focus_def)
  define T' where "T' = hang (cptr c) (avl_child_index (?h x)) (Some g)
    (AVL_SETCHILD g (avl_child_index (?h x)) (AVL_SETPARENT g (cptr c) (AVL_SETBALANCE g 0
      (AVL_SETCHILD x (\<not> b) (AVL_SETPARENT x (Some g) (AVL_SETBALANCE x kx (set_child g (\<not> b) (Some x)
        (AVL_SETCHILD y b (AVL_SETPARENT y (Some g) (AVL_SETBALANCE y ky (set_child g b (Some y)
          (adopt (ptr gl) y (\<not> b) (set_child y (\<not> b) (ptr gl) (adopt (ptr gr) x b (set_child x b (ptr gr) T)))))))))))))))"
  have pc: "cptr c = Some z \<Longrightarrow> z \<in> set (cnodes c)" for z by (rule cptr_in)
  have pr: "ptr t = Some z \<Longrightarrow> z \<in> set (inord t)" for t :: "'a atree" and z by (rule ptr_in)
  have bal: "avl_balance (avl_nodes (adopt (ptr gl) y (\<not> b) (set_child y (\<not> b) (ptr gl) (adopt (ptr gr) x b (set_child x b (ptr gr) T)))) g) = gk"
    using f(4) dist by (auto simp: node_rep_def setters dest!: pr)
  have d0: "?d \<noteq> 0" by (simp add: avl_child2balance_def)
  have rot: "avl_tree_rotation T x (2 * ?d) = Some (T', True)"
    unfolding avl_tree_rotation_def Let_def side T'_def ky_def kx_def using f(2-4) bal d0 by (simp add: node_rep_def)
  have idx: "cptr c \<noteq> None \<longrightarrow> avl_child_index (?h x) = cside c" "cptr c = None \<longleftrightarrow> c = []" using f(2) by (cases c rule: cptr.cases; simp add: node_rep_def)+
  have off: "avl_nodes T' z = ?h z" if "z \<noteq> x" "z \<noteq> y" "z \<noteq> g" "ptr gl \<noteq> Some z" "ptr gr \<noteq> Some z" "cptr c \<noteq> Some z" for z
    using that by (simp add: T'_def setters)
  have at_gl: "avl_nodes T' z = (?h z)\<lparr>avl_parent := Some y, avl_child_index := \<not> b\<rparr>"
    if "z \<noteq> x" "z \<noteq> y" "z \<noteq> g" "ptr gl = Some z" "ptr gr \<noteq> Some z" "cptr c \<noteq> Some z" for z
    using that by (simp add: T'_def setters)
  have at_gr: "avl_nodes T' z = (?h z)\<lparr>avl_parent := Some x, avl_child_index := b\<rparr>"
    if "z \<noteq> x" "z \<noteq> y" "z \<noteq> g" "ptr gl \<noteq> Some z" "ptr gr = Some z" "cptr c \<noteq> Some z" for z
    using that by (simp add: T'_def setters)
  have at_c: "avl_nodes T' z = (?h z)\<lparr>avl_child := (avl_child (?h z))(avl_child_index (?h x) := Some g)\<rparr>"
    if "z \<noteq> x" "z \<noteq> y" "z \<noteq> g" "ptr gl \<noteq> Some z" "ptr gr \<noteq> Some z" "cptr c = Some z" for z
    using that by (simp add: T'_def setters)
  have out: "ptr gl \<noteq> Some z" "ptr gr \<noteq> Some z" "cptr c \<noteq> Some z" if "z = x \<or> z = y \<or> z = g" for z
    using that dist by (auto dest!: pr pc)
  have in_gl: "z \<noteq> x \<and> z \<noteq> y \<and> z \<noteq> g \<and> ptr gr \<noteq> Some z \<and> cptr c \<noteq> Some z" if "z \<in> set (inord gl)" for z
    using that dist(10,17,20) by (auto dest!: pr pc)
  have in_gr: "z \<noteq> x \<and> z \<noteq> y \<and> z \<noteq> g \<and> ptr gl \<noteq> Some z \<and> cptr c \<noteq> Some z" if "z \<in> set (inord gr)" for z
    using that dist(11,17,20) by (auto dest!: pr pc)
  have in_rest: "z \<noteq> x \<and> z \<noteq> y \<and> z \<noteq> g \<and> ptr gl \<noteq> Some z \<and> ptr gr \<noteq> Some z \<and> cptr c \<noteq> Some z" if "z \<in> set (inord cl) \<or> z \<in> set (inord s)" for z
    using that dist(9,12,14-16,18-20) by (auto dest!: pr pc)
  have in_c: "z \<noteq> x \<and> z \<noteq> y \<and> z \<noteq> g \<and> ptr gl \<noteq> Some z \<and> ptr gr \<noteq> Some z" if "z \<in> set (cnodes c)" for z
    using that dist(13,20) by (auto dest!: pr)
  have "crep (avl_nodes T') (avl_root T') (Some g) c"
    by (rule crep_move [OF f(1) dist(5)]) (use off at_c in_c pc idx in \<open>auto simp: T'_def setters\<close>)
  moreover have "rep (avl_nodes T') (Some y) (\<not> b) gl"
    by (rule rep_move [OF f(6) dist(2)]) (use off at_gl in_gl pr in \<open>blast+\<close>)
  moreover have "rep (avl_nodes T') (Some x) b gr"
    by (rule rep_move [OF f(7) dist(3)]) (use off at_gr in_gr pr in \<open>blast+\<close>)
  moreover have "rep (avl_nodes T') (Some y) b cl" "rep (avl_nodes T') (Some x) (\<not> b) s"
    using f(5,8) off in_rest by (subst rep_cong [where h = ?h]; blast)+
  moreover have "node_rep (avl_nodes T' y) b (ptr cl) (ptr gl) ky (Some g) b"
    "node_rep (avl_nodes T' x) b (ptr gr) (ptr s) kx (Some g) (\<not> b)" "node_rep (avl_nodes T' g) b (Some y) (Some x) 0 (cptr c) (cside c)"
    using f(2-4) idx dist(6-8) out by (auto simp: T'_def setters node_rep_def)
  moreover have "avl_numnodes T' = avl_numnodes T" "avl_compare T' = avl_compare T" by (simp_all add: T'_def setters)
  moreover have "mset (inord (mk b (mk b cl y ky gl) g 0 (mk b gr x kx s))) = mset (inord (mk b (mk b cl y (- ?d) (mk b gl g gk gr)) x k s))"
    by (cases b) (simp_all add: mk_def)
  then have "distinct (inord (mk b (mk b cl y ky gl) g 0 (mk b gr x kx s)) @ cnodes c)"
    using assms unfolding focus_def by (metis mset_append mset_eq_imp_distinct_iff)
  ultimately have "focus T' c (mk b (mk b cl y ky gl) g 0 (mk b gr x kx s))" unfolding focus_def mk_simps(1,2) by blast
  then show ?thesis unfolding ky_def [symmetric] kx_def [symmetric] using rot by (intro exI [of _ T'] conjI) (simp_all add: T'_def setters)
qed

section \<open>Balance\<close>

primrec ht :: "'n atree \<Rightarrow> nat" where
  "ht Tip = 0"
| "ht (Bin l x k r) = max (ht l) (ht r) + 1"

primrec avl :: "'n atree \<Rightarrow> bool" where
  "avl Tip \<longleftrightarrow> True"
| "avl (Bin l x k r) \<longleftrightarrow> k = int (ht r) - int (ht l) \<and> - 1 \<le> k \<and> k \<le> 1 \<and> avl l \<and> avl r"

lemma mk_balance:
  "ht (mk b s x k t) = max (ht s) (ht t) + 1"
  "avl (mk b s x k t) \<longleftrightarrow> k = avl_child2balance b * (int (ht s) - int (ht t)) \<and> - 1 \<le> k \<and> k \<le> 1 \<and> avl s \<and> avl t"
  by (auto simp: mk_def avl_child2balance_def)

lemma inord_mk: "inord (mk b s x k t) = (if b then inord t @ x # inord s else inord s @ x # inord t)"
  by (simp add: mk_def)

lemma atree_mk: "t \<noteq> Tip \<Longrightarrow> \<exists>s x k u. t = mk b s x k u"
  by (cases t; cases b) (auto simp: mk_def)

text \<open>A rotation repairs a node one of whose subtrees is two levels higher; it tells whether the height went down by one.\<close>

lemma rotation_repairs:
  assumes "focus T c (mk b t x k s)" "avl t" "avl s" "ht t = ht s + 2"
  shows "\<exists>T' t' sh. avl_tree_rotation T x (2 * avl_child2balance b) = Some (T', sh) \<and> focus T' c t' \<and> avl t' \<and>
    inord t' = inord (mk b t x k s) \<and> ht t' = (if sh then ht t else ht t + 1) \<and> (sh \<longleftrightarrow> (\<forall>l y r. t \<noteq> mk b l y 0 r)) \<and>
    avl_numnodes T' = avl_numnodes T \<and> avl_compare T' = avl_compare T"
proof -
  let ?d = "avl_child2balance b"
  have "t \<noteq> Tip" using assms(4) by auto
  then obtain cl y ck cr where t: "t = mk b cl y ck cr" using atree_mk by blast
  have ck: "ck = ?d * (int (ht cl) - int (ht cr))" "- 1 \<le> ck" "ck \<le> 1" "avl cl" "avl cr" using assms(2) by (auto simp: t mk_balance)
  have zero: "(\<forall>l y r. t \<noteq> mk b l y 0 r) \<longleftrightarrow> ck \<noteq> 0" using t by (auto simp: mk_def split: if_splits)
  have h: "max (ht cl) (ht cr) = ht s + 1" using assms(4) by (simp add: t mk_balance)
  show ?thesis
  proof (cases "ck = - ?d")
    case False
    obtain T' where T': "avl_tree_rotation T x (2 * ?d) = Some (T', ck - ?d = 0)"
      "focus T' c (mk b cl y (ck - ?d) (mk b cr x (?d - ck) s))" "avl_numnodes T' = avl_numnodes T" "avl_compare T' = avl_compare T"
      using rotation_single [of T c b cl y ck cr x k s] False assms(1) by (auto simp: t)
    then show ?thesis unfolding zero using False ck h assms(3)
      by (intro exI [of _ T'] exI [of _ "mk b cl y (ck - ?d) (mk b cr x (?d - ck) s)"] exI [of _ "ck - ?d = 0"])
        (auto simp: t mk_balance inord_mk avl_child2balance_def max_def split: if_splits)
  next
    case True
    then have "cr \<noteq> Tip" using ck(1) h by (auto simp: avl_child2balance_def split: if_splits)
    then obtain gl g gk gr where cr: "cr = mk b gl g gk gr" using atree_mk by blast
    let ?t = "mk b (mk b cl y (if gk = - ?d then ?d else 0) gl) g 0 (mk b gr x (if gk = ?d then - ?d else 0) s)"
    obtain T' where T': "avl_tree_rotation T x (2 * ?d) = Some (T', True)" "focus T' c ?t"
      "avl_numnodes T' = avl_numnodes T" "avl_compare T' = avl_compare T"
      using rotation_double [of T c b cl y gl g gk gr x k s] True assms(1) by (auto simp: t cr)
    have "gk = ?d * (int (ht gl) - int (ht gr))" "- 1 \<le> gk" "gk \<le> 1" "avl gl" "avl gr" using ck(5) by (auto simp: cr mk_balance)
    then have "avl ?t \<and> ht ?t = ht t" using True ck h assms(3)
      by (auto simp: t cr mk_balance avl_child2balance_def max_def split: if_splits)
    moreover have "inord ?t = inord (mk b t x k s)" by (simp add: t cr inord_mk)
    ultimately show ?thesis unfolding zero using T' True
      by (intro exI [of _ T'] exI [of _ ?t] exI [of _ True]) (auto simp: avl_child2balance_def)
  qed
qed

end
