(* ===== verification/Avl_Ops.thy ===== *)
theory Avl_Ops
  imports Avl_Rep
begin

text \<open>
  Insertion and removal keep the tree balanced and change its sequence of nodes by the one node.
\<close>

section \<open>Balance and order along a path\<close>

fun bpath :: "'n path \<Rightarrow> nat \<Rightarrow> bool" where
  "bpath [] n \<longleftrightarrow> True"
| "bpath ((b, x, k, s) # c) n \<longleftrightarrow>
     k = avl_child2balance b * (int n - int (ht s)) \<and> - 1 \<le> k \<and> k \<le> 1 \<and> avl s \<and> bpath c (max n (ht s) + 1)"

fun before :: "'n path \<Rightarrow> 'n list" where
  "before [] = []"
| "before ((b, x, k, s) # c) = before c @ (if b then inord s @ [x] else [])"

fun after :: "'n path \<Rightarrow> 'n list" where
  "after [] = []"
| "after ((b, x, k, s) # c) = (if b then [] else x # inord s) @ after c"

lemma avl_plug: "avl (plug c t) \<longleftrightarrow> avl t \<and> bpath c (ht t)"
  by (induction c t rule: plug.induct) (auto simp: mk_balance)

lemma inord_plug: "inord (plug c t) = before c @ inord t @ after c"
  by (induction c t rule: plug.induct) (auto simp: inord_mk)

lemma seq_up: "before ((b, x, k, s) # c) @ inord t @ after ((b, x, k, s) # c) = before c @ inord (mk b t x k' s) @ after c"
  by (simp add: inord_mk)

lemma d_cases: "avl_child2balance b = 1 \<or> avl_child2balance b = - 1" "avl_child2balance (\<not> b) = - avl_child2balance b"
  by (simp_all add: avl_child2balance_def)

lemma mk_flip: "mk (\<not> b) s x k t = mk b t x k s"
  by (cases b) (simp_all add: mk_def)

lemma mk_eq_balance: "mk b s x k t = mk b' s' x' k' t' \<Longrightarrow> k = k'"
  by (auto simp: mk_def split: if_splits)

lemma focus_node: "focus T ((b, x, k, s) # c) t \<Longrightarrow> node_rep (avl_nodes T x) b (ptr t) (ptr s) k (cptr c) (cside c)"
  by (simp add: focus_def)

lemma focus_balance:
  assumes "focus T ((b, x, k, s) # c) t"
  shows "focus (AVL_SETBALANCE x k' T) c (mk b t x k' s)"
proof -
  let ?h = "avl_nodes (AVL_SETBALANCE x k' T)"
  have "rep ?h p i t' = rep (avl_nodes T) p i t'" if "x \<notin> set (inord t')" for p i t'
    using that by (intro rep_cong) (auto simp: setters)
  moreover have "crep ?h r p c = crep (avl_nodes T) r p c" for r p
    using assms by (intro crep_cong) (auto simp: setters focus_def)
  ultimately show ?thesis using assms by (auto simp: focus_def setters node_rep_def)
qed

text \<open>The trees after a change: the same nodes in the same order, balanced.\<close>

definition rebalanced :: "'n avl_tree \<Rightarrow> 'n avl_tree \<Rightarrow> 'n list \<Rightarrow> bool" where
  "rebalanced T T' xs \<longleftrightarrow> (\<exists>t. focus T' [] t \<and> avl t \<and> inord t = xs) \<and> avl_numnodes T' = avl_numnodes T \<and> avl_compare T' = avl_compare T"

lemma rebalancedI:
  "focus T' c t \<Longrightarrow> avl t \<Longrightarrow> bpath c (ht t) \<Longrightarrow> inord t = xs \<Longrightarrow> avl_numnodes T' = avl_numnodes T \<Longrightarrow> avl_compare T' = avl_compare T \<Longrightarrow>
   rebalanced T T' (before c @ xs @ after c)"
  unfolding rebalanced_def by (auto simp: focus_plug [of T' c t] avl_plug inord_plug)

lemma setbalance_fields [simp]: "avl_numnodes (AVL_SETBALANCE x k T) = avl_numnodes T" "avl_compare (AVL_SETBALANCE x k T) = avl_compare T"
  by (simp_all add: setters)

section \<open>After an insertion\<close>

lemma insert_loop_ok:
  assumes "focus T c t" "avl t" "bpath c n" "ht t = n + 1" "n = 0 \<or> (\<forall>b l y r. t \<noteq> mk b l y 0 r)"
  shows "\<exists>T'. insert_loop (cptr c) (cside c) T = Some T' \<and> rebalanced T T' (before c @ inord t @ after c)"
  using assms
proof (induction c arbitrary: T t n rule: before.induct)
  case 1
  then show ?case by (subst insert_loop.simps) (auto simp: rebalanced_def)
next
  case (2 b x k s c)
  let ?d = "avl_child2balance b"
  have node: "node_rep (avl_nodes T x) b (ptr t) (ptr s) k (cptr c) (cside c)" by (rule focus_node [OF "2.prems"(1)])
  then have bal: "avl_balance (avl_nodes T x) = k" by (simp add: node_rep_def)
  have k: "k = ?d * (int n - int (ht s))" "- 1 \<le> k" "k \<le> 1" "avl s" "bpath c (max n (ht s) + 1)" using "2.prems"(3) by auto
  consider "k + ?d = 0" | "k = 0" | "k = ?d" using k(2,3) d_cases(1) [of b] by fastforce
  then show ?case
  proof cases
    case 1
    then have "ht t = ht s" using k(1) "2.prems"(4) d_cases(1) [of b] by auto
    then have "avl (mk b t x 0 s)" "bpath c (ht (mk b t x 0 s))" using "2.prems"(2,4) k(4,5) by (auto simp: mk_balance max_def)
    from rebalancedI [OF focus_balance [OF "2.prems"(1), of 0] this refl, of T] 1 bal show ?thesis
      unfolding seq_up [of b x k s c t 0] by (subst insert_loop.simps) (simp add: Let_def)
  next
    case 2
    then have n: "n = ht s" using k(1) d_cases(1) [of b] by auto
    let ?T = "AVL_SETBALANCE x ?d T"
    have "avl (mk b t x ?d s)" "bpath c (max n (ht s) + 1)" "ht (mk b t x ?d s) = max n (ht s) + 1 + 1"
      using "2.prems"(2,4) k(4,5) n d_cases(1) [of b] by (auto simp: mk_balance max_def)
    moreover have "\<forall>b' l y r. mk b t x ?d s \<noteq> mk b' l y 0 r" using d_cases(1) [of b] by (auto dest: mk_eq_balance)
    ultimately obtain T' where T': "insert_loop (cptr c) (cside c) ?T = Some T'" "rebalanced ?T T' (before c @ inord (mk b t x ?d s) @ after c)"
      using "2.IH" [OF focus_balance [OF "2.prems"(1)]] by blast
    have "insert_loop (Some x) b T = insert_loop (cptr c) (avl_child_index (avl_nodes ?T x)) ?T"
      using 2 bal node d_cases(1) [of b] by (subst insert_loop.simps) (auto simp: Let_def setters node_rep_def)
    moreover have "insert_loop (cptr c) (avl_child_index (avl_nodes ?T x)) ?T = insert_loop (cptr c) (cside c) ?T"
      using node by (cases "cptr c") (auto simp: insert_loop.simps [of None] setters node_rep_def)
    ultimately show ?thesis using T' unfolding seq_up [of b x k s c t ?d] by (auto simp: rebalanced_def)
  next
    case 3
    then have n: "n = ht s + 1" using k(1) d_cases(1) [of b] by auto
    have f: "focus T c (mk b t x k s)" using "2.prems"(1) by (simp add: focus_up)
    obtain T' t' sh where T': "avl_tree_rotation T x (2 * ?d) = Some (T', sh)" "focus T' c t'" "avl t'" "inord t' = inord (mk b t x k s)"
      "ht t' = (if sh then ht t else ht t + 1)" "sh \<longleftrightarrow> (\<forall>l y r. t \<noteq> mk b l y 0 r)" "avl_numnodes T' = avl_numnodes T" "avl_compare T' = avl_compare T"
      using rotation_repairs [OF f "2.prems"(2) k(4)] n "2.prems"(4) by auto
    have sh: "sh" using T'(6) "2.prems"(5) n by auto
    then have "bpath c (ht t')" using T'(5) k(5) n "2.prems"(4) by (simp add: max_def)
    from rebalancedI [OF T'(2,3) this T'(4,7,8)] T'(1) 3 bal d_cases(1) [of b] show ?thesis
      unfolding seq_up [of b x k s c t k] by (subst insert_loop.simps) (auto simp: Let_def)
  qed
qed

section \<open>After a removal\<close>

lemma remove_loop_ok:
  assumes "focus T c t" "avl t" "bpath c (ht t + 1)"
  shows "\<exists>T'. (case cptr c of None \<Rightarrow> Some T | Some p \<Rightarrow> remove_loop p (cside c) T) = Some T' \<and> rebalanced T T' (before c @ inord t @ after c)"
  using assms
proof (induction c arbitrary: T t rule: before.induct)
  case 1
  then show ?case by (auto simp: rebalanced_def)
next
  case (2 b x k s c)
  let ?d = "avl_child2balance b"
  have node: "node_rep (avl_nodes T x) b (ptr t) (ptr s) k (cptr c) (cside c)" by (rule focus_node [OF "2.prems"(1)])
  then have bal: "avl_balance (avl_nodes T x) = k" "avl_parent (avl_nodes T x) = cptr c" by (simp_all add: node_rep_def)
  have up: "(case cptr c of None \<Rightarrow> Some T1 | Some p \<Rightarrow> remove_loop p (avl_child_index (avl_nodes T x)) T1) =
      (case cptr c of None \<Rightarrow> Some T1 | Some p \<Rightarrow> remove_loop p (cside c) T1)" for T1
    using node by (simp add: node_rep_def split: option.splits)
  have k: "k = ?d * (int (ht t) + 1 - int (ht s))" "- 1 \<le> k" "k \<le> 1" "avl s" "bpath c (max (ht t + 1) (ht s) + 1)" using "2.prems"(3) by auto
  consider "k = 0" | "k = ?d" | "k = - ?d" using k(2,3) d_cases(1) [of b] by fastforce
  then show ?case
  proof cases
    case 1
    then have "ht s = ht t + 1" using k(1) d_cases(1) [of b] by auto
    then have "avl (mk b t x (- ?d) s)" "bpath c (ht (mk b t x (- ?d) s))" using "2.prems"(2) k(4,5) d_cases(1) [of b] by (auto simp: mk_balance max_def)
    from rebalancedI [OF focus_balance [OF "2.prems"(1)] this refl, of T] 1 bal show ?thesis
      unfolding seq_up [of b x k s c t "- ?d"] by (subst remove_loop.simps) (simp add: Let_def)
  next
    case 2
    then have n: "ht t = ht s" using k(1) d_cases(1) [of b] by auto
    let ?T = "AVL_SETBALANCE x 0 T"
    have "avl (mk b t x 0 s)" "bpath c (ht (mk b t x 0 s) + 1)" using "2.prems"(2) k(4,5) n by (auto simp: mk_balance max_def)
    from "2.IH" [OF focus_balance [OF "2.prems"(1)] this] obtain T' where
      "(case cptr c of None \<Rightarrow> Some ?T | Some p \<Rightarrow> remove_loop p (cside c) ?T) = Some T'" "rebalanced ?T T' (before c @ inord (mk b t x 0 s) @ after c)" by blast
    then show ?thesis unfolding seq_up [of b x k s c t 0] using 2 bal up [of ?T] d_cases(1) [of b]
      by (auto simp: remove_loop.simps [of x b T] Let_def rebalanced_def)
  next
    case 3
    then have n: "ht s = ht t + 2" using k(1) d_cases(1) [of b] by auto
    have f: "focus T c (mk (\<not> b) s x k t)" using "2.prems"(1) by (simp add: focus_up mk_flip)
    obtain T1 t1 sh where T1: "avl_tree_rotation T x (2 * avl_child2balance (\<not> b)) = Some (T1, sh)" "focus T1 c t1" "avl t1" "inord t1 = inord (mk b t x k s)"
      "ht t1 = (if sh then ht s else ht s + 1)" "avl_numnodes T1 = avl_numnodes T" "avl_compare T1 = avl_compare T"
      using rotation_repairs [OF f k(4) "2.prems"(2) n] unfolding mk_flip by auto
    have rot: "avl_tree_rotation T x (k - ?d) = Some (T1, sh)" using T1(1) 3 d_cases(2) [of b] by simp
    show ?thesis
    proof (cases sh)
      case True
      then have "bpath c (ht t1 + 1)" using T1(5) k(5) n by (simp add: max_def)
      from "2.IH" [OF T1(2,3) this] obtain T' where
        "(case cptr c of None \<Rightarrow> Some T1 | Some p \<Rightarrow> remove_loop p (cside c) T1) = Some T'" "rebalanced T1 T' (before c @ inord t1 @ after c)" by blast
      then show ?thesis unfolding seq_up [of b x k s c t k] using 3 bal up [of T1] d_cases(1) [of b] rot True T1(4,6,7)
        by (auto simp: remove_loop.simps [of x b T] Let_def rebalanced_def)
    next
      case False
      then have "bpath c (ht t1)" using T1(5) k(5) n by (simp add: max_def)
      from rebalancedI [OF T1(2,3) this T1(4,6,7)] show ?thesis unfolding seq_up [of b x k s c t k]
        using 3 bal d_cases(1) [of b] rot False by (auto simp: remove_loop.simps [of x b T] Let_def)
    qed
  qed
qed

text \<open>A node with at most one child is taken out.\<close>

lemma remove_leaf_ok:
  assumes "focus T c (mk b t x k Tip)" "avl (mk b t x k Tip)" "bpath c (ht (mk b t x k Tip))" "avl_numnodes T \<noteq> 0"
  shows "\<exists>T'. remove_leaf x T = Some T' \<and> rebalanced (T\<lparr>avl_numnodes := avl_numnodes T - 1\<rparr>) T' (before c @ inord t @ after c)"
proof -
  let ?h = "avl_nodes T"
  define w where "w = avl_child_index (?h x)"
  define T1 where "T1 = T\<lparr>avl_numnodes := avl_numnodes T - 1\<rparr>"
  define T2 where "T2 = (case ptr t of None \<Rightarrow> T1 | Some n \<Rightarrow> AVL_SETCHILD n w (AVL_SETPARENT n (cptr c) T1))"
  define T3 where "T3 = hang (cptr c) w (ptr t) T2"
  have f: "crep ?h (avl_root T) (Some x) c" "node_rep (?h x) b (ptr t) None k (cptr c) (cside c)" "rep ?h (Some x) b t"
    and dist: "distinct (inord t)" "distinct (cnodes c)" "set (inord t) \<inter> set (cnodes c) = {}" "x \<notin> set (inord t)" "x \<notin> set (cnodes c)"
    using assms(1) by (auto simp: focus_def)
  have idx: "cptr c \<noteq> None \<longrightarrow> w = cside c" "cptr c = None \<longleftrightarrow> c = []" using f(2) by (cases c rule: cptr.cases; simp add: node_rep_def w_def)+
  have T2: "avl_nodes T2 z = (if ptr t = Some z then (?h z)\<lparr>avl_parent := cptr c, avl_child_index := w\<rparr> else ?h z)" "avl_root T2 = avl_root T" for z
    by (auto simp: T2_def T1_def setters split: option.splits)
  have "crep (avl_nodes T3) (avl_root T3) (ptr t) c"
    by (rule crep_move [OF f(1) dist(2)]) (use dist idx in \<open>auto simp: T3_def T2 dest: ptr_in cptr_in\<close>)
  moreover have "rep (avl_nodes T3) (cptr c) w t"
    by (rule rep_move [OF f(3) dist(1)]) (use dist in \<open>auto simp: T3_def T2 dest: ptr_in cptr_in\<close>)
  then have "rep (avl_nodes T3) (cptr c) (cside c) t" using idx(1) by (cases t) (auto simp: node_rep_def)
  ultimately have foc: "focus T3 c t" using dist by (simp add: focus_def)
  have "avl t" "bpath c (ht t + 1)" using assms(2,3) by (auto simp: mk_balance)
  from remove_loop_ok [OF foc this] obtain T' where T': "(case cptr c of None \<Rightarrow> Some T3 | Some p \<Rightarrow> remove_loop p (cside c) T3) = Some T'"
    "rebalanced T3 T' (before c @ inord t @ after c)" by blast
  have child: "(if avl_child (avl_nodes T1 x) False \<noteq> None then avl_child (avl_nodes T1 x) False else avl_child (avl_nodes T1 x) True) = ptr t"
    using f(2) by (cases b) (auto simp: node_rep_def T1_def)
  have links: "avl_parent (avl_nodes T1 x) = cptr c" "avl_child_index (avl_nodes T1 x) = w" using f(2) by (simp_all add: node_rep_def T1_def w_def)
  have "remove_leaf x T = (case cptr c of None \<Rightarrow> Some T3 | Some p \<Rightarrow> remove_loop p w T3)"
    using assms(4) unfolding remove_leaf_def Let_def T1_def [symmetric] child links T3_def T2_def by simp
  moreover have "avl_numnodes T3 = avl_numnodes T1" "avl_compare T3 = avl_compare T1" by (simp_all add: T3_def T2_def setters split: option.splits)
  ultimately show ?thesis using T' idx(1) by (auto simp: rebalanced_def T1_def split: option.splits)
qed


section \<open>Renaming nodes\<close>

definition renamed :: "('n \<Rightarrow> 'n) \<Rightarrow> 'n avl_tree_node \<Rightarrow> 'n avl_tree_node" where
  "renamed f d = d\<lparr>avl_child := map_option f \<circ> avl_child d, avl_parent := map_option f (avl_parent d)\<rparr>"

lemma map_simps [simp]:
  "ptr (map_atree f t) = map_option f (ptr t)" "inord (map_atree f t) = map f (inord t)" "ht (map_atree f t) = ht t" "avl (map_atree f t) = avl t"
  by (induction t) auto

lemma rep_map: "rep h p b t \<Longrightarrow> (\<And>z. z \<in> set (inord t) \<Longrightarrow> h' (f z) = renamed f (h z)) \<Longrightarrow> rep h' (map_option f p) b (map_atree f t)"
proof (induction t arbitrary: p b)
  case (Bin l x k r)
  have "rep h' (map_option f (Some x)) False (map_atree f l)" "rep h' (map_option f (Some x)) True (map_atree f r)"
    by (rule Bin.IH; use Bin.prems in auto)+
  then show ?case using Bin.prems by (auto simp: node_rep_def renamed_def)
qed simp

lemma focus_map:
  assumes "focus T [] t" "\<And>z. z \<in> set (inord t) \<Longrightarrow> avl_nodes T' (f z) = renamed f (avl_nodes T z)"
    "avl_root T' = map_option f (avl_root T)" "inj_on f (set (inord t))"
  shows "focus T' [] (map_atree f t)"
  using assms rep_map [of "avl_nodes T" None False t "avl_nodes T'" f] by (auto simp: focus_def distinct_map)

lemma map_same: "(\<And>z. z \<in> set (inord t) \<Longrightarrow> f z = z) \<Longrightarrow> map_atree f t = t"
  by (induction t) auto

lemma map_mk: "map_atree f (mk b s x k t) = mk b (map_atree f s) (f x) k (map_atree f t)"
  by (simp add: mk_def)

lemma map_plug: "(\<And>z. z \<in> set (cnodes c) \<Longrightarrow> f z = z) \<Longrightarrow> map_atree f (plug c t) = plug c (map_atree f t)"
proof (induction c t rule: plug.induct)
  case (2 b x k s c t)
  then show ?case by (simp add: map_mk map_same)
qed simp

text \<open>Two nodes of a tree point to each other as child and parent.\<close>

lemma rep_parent: "rep h p b t \<Longrightarrow> z \<in> set (inord t) \<Longrightarrow> ptr t \<noteq> Some z \<Longrightarrow>
    \<exists>y. avl_parent (h z) = Some y \<and> y \<in> set (inord t) \<and> avl_child (h y) (avl_child_index (h z)) = Some z"
proof (induction t arbitrary: p b)
  case (Bin l x k r)
  then show ?case
  proof (cases "ptr l = Some z \<or> ptr r = Some z")
    case True
    then show ?thesis using Bin.prems(1) by (cases l; cases r) (auto simp: node_rep_def)
  next
    case False
    then show ?thesis using Bin.prems Bin.IH(1) [of "Some x" False] Bin.IH(2) [of "Some x" True] by auto
  qed
qed simp

lemma rep_child: "rep h p b t \<Longrightarrow> y \<in> set (inord t) \<Longrightarrow> avl_child (h y) i = Some z \<Longrightarrow>
    z \<in> set (inord t) \<and> avl_parent (h z) = Some y \<and> avl_child_index (h z) = i"
proof (induction t arbitrary: p b)
  case (Bin l x k r)
  show ?case
  proof (cases "y = x")
    case True
    then have "ptr (if i then r else l) = Some z" using Bin.prems by (auto simp: node_rep_def)
    then show ?thesis using Bin.prems(1) True by (cases i; cases l; cases r) (auto simp: node_rep_def)
  next
    case False
    then show ?thesis using Bin by auto
  qed
qed simp

lemma root_parent: "rep h None b t \<Longrightarrow> distinct (inord t) \<Longrightarrow> z \<in> set (inord t) \<Longrightarrow> avl_parent (h z) = None \<longleftrightarrow> ptr t = Some z"
  using rep_parent [of h None b t z] by (cases t) (auto simp: node_rep_def)

text \<open>The far node of a subtree on one side.\<close>

lemma far_loop_ok:
  assumes "rep (avl_nodes T) p i t" "ptr t = Some n"
  shows "\<exists>q y ky u. t = plug q (mk r Tip y ky u) \<and> (\<forall>fr\<in>set q. fst fr = r) \<and> far_loop T r n = Some y"
  using assms
proof (induction t arbitrary: p i n)
  case (Bin l x k rr)
  obtain s u where s: "Bin l x k rr = mk r s x k u" by (cases r) (auto simp: mk_def)
  have n: "n = x" using Bin.prems(2) by simp
  have sub: "s = l \<or> s = rr" using s by (auto simp: mk_def split: if_splits)
  have rep: "rep (avl_nodes T) (Some x) r s" "avl_child (avl_nodes T x) r = ptr s" using Bin.prems(1) unfolding s by (auto simp: node_rep_def)
  show ?case
  proof (cases s)
    case Tip
    then show ?thesis using rep(2) n s by (intro exI [of _ "[]"]) (auto simp: far_loop.simps)
  next
    case (Bin l' x' k' r')
    then have "\<exists>q y ky u. s = plug q (mk r Tip y ky u) \<and> (\<forall>fr\<in>set q. fst fr = r) \<and> far_loop T r x' = Some y"
      using sub rep(1) Bin.IH by fastforce
    then obtain q y ky u' where q: "s = plug q (mk r Tip y ky u')" "\<forall>fr\<in>set q. fst fr = r" "far_loop T r x' = Some y" by blast
    have "plug (q @ [(r, x, k, u)]) (mk r Tip y ky u') = Bin l x k rr"
    proof -
      have "plug (q @ c) t = plug c (plug q t)" for c t by (induction q t rule: plug.induct) auto
      then show ?thesis using q(1) s by simp
    qed
    then show ?thesis using q(2,3) rep(2) n Bin
      by (intro exI [of _ "q @ [(r, x, k, u)]"] exI [of _ y] exI [of _ ky] exI [of _ u']) (auto simp: far_loop.simps [of T r x])
  qed
qed simp

lemma links:
  assumes "focus T [] W" "z \<in> set (inord W)" "w \<in> set (inord W)"
  shows "avl_child (avl_nodes T w) i = Some z \<longleftrightarrow> avl_parent (avl_nodes T z) = Some w \<and> avl_child_index (avl_nodes T z) = i"
proof -
  have r: "rep (avl_nodes T) None False W" "distinct (inord W)" using assms(1) by (simp_all add: focus_def)
  have "avl_child (avl_nodes T w) (avl_child_index (avl_nodes T z)) = Some z" if "avl_parent (avl_nodes T z) = Some w"
    using rep_parent [OF r(1) assms(2)] root_parent [OF r assms(2)] that by fastforce
  then show ?thesis using rep_child [OF r(1) assms(3)] by blast
qed

lemma rep_no_loop: "rep h p b t \<Longrightarrow> distinct (inord t) \<Longrightarrow> z \<in> set (inord t) \<Longrightarrow> avl_child (h z) i \<noteq> Some z"
proof (induction t arbitrary: p b)
  case (Bin l x k r)
  then show ?case
  proof (cases "z = x")
    case True
    then have "avl_child (h z) i = ptr (if i then r else l)" using Bin.prems(1) by (auto simp: node_rep_def)
    then show ?thesis using True Bin.prems(2) ptr_in [of "if i then r else l" z] by (auto split: if_splits)
  qed auto
qed simp

text \<open>
  What the exchange of a node with its neighbour does to the fields of the nodes: \<open>x\<close> is exchanged with
  \<open>y\<close>, \<open>n\<close> and \<open>m\<close> are the children of \<open>x\<close>, \<open>p\<close> is the parent of \<open>y\<close>.
\<close>

lemma swap_run:
  assumes b: "b = avl_balance2child (avl_balance (avl_nodes T x) + 1)"
    and n: "avl_child (avl_nodes T x) b = Some n" and m: "avl_child (avl_nodes T x) (\<not> b) = Some m" "m \<noteq> y"
    and far: "far_loop T (\<not> b) n = Some y" and yc: "avl_child (avl_nodes T y) (\<not> b) = None" "avl_child (avl_nodes T y) b \<noteq> Some y"
    and p: "avl_parent (avl_nodes T y) = Some p" "p \<noteq> y" "n = y \<Longrightarrow> avl_child_index (avl_nodes T y) = b" and px: "avl_parent (avl_nodes T x) \<noteq> Some y"
    and tmp: "tmp \<noteq> x" "tmp \<noteq> y" "tmp \<noteq> n" "tmp \<noteq> m" "tmp \<noteq> p" "avl_parent (avl_nodes T x) \<noteq> Some tmp" "avl_child (avl_nodes T y) b \<noteq> Some tmp"
  defines "cl \<equiv> (if n = y then tmp else n)" and "pt \<equiv> (if n = y then y else p)" and "u \<equiv> avl_child (avl_nodes T y) b"
  shows "\<exists>T'. swap_neighbour tmp T x = Some T' \<and>
    avl_nodes T' y = (avl_nodes T x)\<lparr>avl_child := (avl_child (avl_nodes T x))(b := Some cl)\<rparr> \<and>
    avl_nodes T' tmp = (avl_nodes T y)\<lparr>avl_parent := Some pt\<rparr> \<and>
    (\<forall>z. z \<noteq> y \<longrightarrow> z \<noteq> tmp \<longrightarrow> avl_nodes T' z =
      (avl_nodes T z)\<lparr>avl_child := (\<lambda>i. if pt = z \<and> avl_child_index (avl_nodes T y) = i then Some tmp
          else if avl_parent (avl_nodes T x) = Some z \<and> avl_child_index (avl_nodes T x) = i then Some y else avl_child (avl_nodes T z) i),
        avl_parent := if u = Some z then Some tmp else if z = cl \<or> z = m then Some y else avl_parent (avl_nodes T z)\<rparr>) \<and>
    avl_root T' = (if avl_parent (avl_nodes T x) = None then Some y else avl_root T) \<and> avl_numnodes T' = avl_numnodes T \<and> avl_compare T' = avl_compare T"
proof -
  let ?h = "avl_nodes T"
  define T3 where "T3 = (let t1 = upd_node tmp (\<lambda>_. ?h y) T; t2 = upd_node y (\<lambda>_. avl_nodes t1 x) t1 in
    if avl_child (avl_nodes t2 y) b = Some y then set_child y b (Some tmp) t2 else t2)"
  have N3: "avl_nodes T3 z = (if z = y then (?h x)\<lparr>avl_child := (avl_child (?h x))(b := Some cl)\<rparr> else if z = tmp then ?h y else ?h z)" for z
    using n tmp fun_upd_triv [of "avl_child (?h x)" b] by (auto simp: T3_def Let_def setters cl_def)
  define T4 where "T4 = hang (avl_parent (?h x)) (avl_child_index (?h x)) (Some y) T3"
  define T5 where "T5 = AVL_SETPARENT m (Some y) (AVL_SETPARENT cl (Some y) T4)"
  define T6 where "T6 = set_child pt (avl_child_index (?h y)) (Some tmp) T5"
  define T7 where "T7 = (case u of None \<Rightarrow> T6 | Some w \<Rightarrow> AVL_SETPARENT w (Some tmp) T6)"
  have N4: "avl_child (avl_nodes T4 y) b = Some cl" "avl_child (avl_nodes T4 y) (\<not> b) = Some m" using px m by (auto simp: T4_def N3)
  have N5: "avl_parent (avl_nodes T5 tmp) = Some pt" "avl_child_index (avl_nodes T5 tmp) = avl_child_index (?h y)"
    using tmp p by (auto simp: T5_def T4_def N3 setters cl_def pt_def)
  have N6: "avl_child (avl_nodes T6 tmp) b = u" "avl_child (avl_nodes T6 tmp) (\<not> b) = None"
    using tmp yc by (auto simp: T6_def T5_def T4_def N3 setters u_def pt_def)
  have u6: "avl_child (avl_nodes T6 tmp) (avl_child (avl_nodes T6 tmp) True \<noteq> None) = u" using N6 by (cases b; cases u) auto
  have y3: "avl_parent (avl_nodes T3 y) = avl_parent (?h x)" "avl_child_index (avl_nodes T3 y) = avl_child_index (?h x)" by (simp_all add: N3)
  have swap: "swap_neighbour tmp T x = Some T7"
    unfolding swap_neighbour_def b [symmetric] Let_def n option.case far
    unfolding T3_def [unfolded Let_def, symmetric] y3 T4_def [symmetric] N4 prod.case option.case T5_def [symmetric] N5 T6_def [symmetric] u6 T7_def by simp
  have f5: "avl_nodes T5 z = (if z = m \<or> z = cl then (avl_nodes T4 z)\<lparr>avl_parent := Some y\<rparr> else avl_nodes T4 z)" for z
    by (auto simp: T5_def setters)
  have f6: "avl_nodes T6 z = (if pt = z then (avl_nodes T5 z)\<lparr>avl_child := (avl_child (avl_nodes T5 z))(avl_child_index (?h y) := Some tmp)\<rparr> else avl_nodes T5 z)" for z
    by (auto simp: T6_def setters)
  have f7: "avl_nodes T7 z = (if u = Some z then (avl_nodes T6 z)\<lparr>avl_parent := Some tmp\<rparr> else avl_nodes T6 z)" for z
    by (cases u) (auto simp: T7_def setters)
  have "avl_nodes T7 y = (?h x)\<lparr>avl_child := (avl_child (?h x))(b := Some cl)\<rparr>"
  proof -
    have "y \<noteq> m" "y \<noteq> cl" using m(2) tmp by (auto simp: cl_def)
    then have "avl_nodes T5 y = (?h x)\<lparr>avl_child := (avl_child (?h x))(b := Some cl)\<rparr>" using px by (simp add: f5 T4_def N3)
    then show ?thesis using yc(2) p(2,3) by (simp add: f7 f6 u_def pt_def cl_def)
  qed
  moreover have "avl_nodes T7 tmp = (?h y)\<lparr>avl_parent := Some pt\<rparr>"
    using tmp p(1) by (simp add: f7 f6 f5 T4_def N3 u_def pt_def cl_def)
  moreover have "avl_nodes T7 z =
      (?h z)\<lparr>avl_child := (\<lambda>i. if pt = z \<and> avl_child_index (?h y) = i then Some tmp
          else if avl_parent (?h x) = Some z \<and> avl_child_index (?h x) = i then Some y else avl_child (?h z) i),
        avl_parent := if u = Some z then Some tmp else if z = cl \<or> z = m then Some y else avl_parent (?h z)\<rparr>" if "z \<noteq> y" "z \<noteq> tmp" for z
  proof -
    have "avl_nodes T4 z = (if avl_parent (?h x) = Some z then (?h z)\<lparr>avl_child := (avl_child (?h z))(avl_child_index (?h x) := Some y)\<rparr> else ?h z)"
      using that by (simp add: T4_def N3)
    then show ?thesis unfolding f7 f6 f5 by (intro avl_tree_node.equality) (auto simp: fun_eq_iff)
  qed
  moreover have "avl_root T7 = (if avl_parent (?h x) = None then Some y else avl_root T)" "avl_numnodes T7 = avl_numnodes T" "avl_compare T7 = avl_compare T"
    by (cases u; simp add: T7_def T6_def T5_def T4_def T3_def Let_def setters)+
  ultimately show ?thesis using swap by blast
qed

text \<open>So the exchange renames \<open>x\<close> to \<open>y\<close> and \<open>y\<close> to the node on the stack.\<close>

lemma swap_renames:
  assumes W: "focus T [] W" and x: "x \<in> set (inord W)" and y: "y \<in> set (inord W)" "x \<noteq> y" and tmp: "tmp \<notin> set (inord W)"
    and n: "avl_child (avl_nodes T x) b = Some n" and m: "avl_child (avl_nodes T x) (\<not> b) = Some m"
    and yc: "avl_child (avl_nodes T y) (\<not> b) = None" and p: "avl_parent (avl_nodes T y) = Some p" and pxy: "n \<noteq> y \<Longrightarrow> p \<noteq> x" "n = y \<Longrightarrow> p = x"
    and z: "z \<in> set (inord W)" "z \<noteq> x" "z \<noteq> y"
  shows "(avl_nodes T z)\<lparr>avl_child := (\<lambda>i. if (if n = y then y else p) = z \<and> avl_child_index (avl_nodes T y) = i then Some tmp
          else if avl_parent (avl_nodes T x) = Some z \<and> avl_child_index (avl_nodes T x) = i then Some y else avl_child (avl_nodes T z) i),
        avl_parent := if avl_child (avl_nodes T y) b = Some z then Some tmp else if z = (if n = y then tmp else n) \<or> z = m then Some y else avl_parent (avl_nodes T z)\<rparr> =
    renamed (id(x := y, y := tmp)) (avl_nodes T z)"
proof -
  let ?h = "avl_nodes T" and ?f = "id(x := y, y := tmp)"
  note L = links [OF W]
  have zt: "z \<noteq> tmp" using z tmp by auto
  have cx: "avl_child (?h z) i = Some x \<longleftrightarrow> avl_parent (?h x) = Some z \<and> avl_child_index (?h x) = i"
    and cy: "avl_child (?h z) i = Some y \<longleftrightarrow> p = z \<and> avl_child_index (?h y) = i" for i
    using L [OF x z(1)] L [OF y(1) z(1)] p by auto
  have zx: "avl_parent (?h z) = Some x \<longleftrightarrow> z = n \<or> z = m"
    using L [OF z(1) x] n m by (metis (full_types) option.inject)
  have zy: "avl_parent (?h z) = Some y \<longleftrightarrow> avl_child (?h y) b = Some z"
    using L [OF z(1) y(1)] yc by (metis (full_types) option.distinct(1))
  have pz: "(if n = y then y else p) = z \<longleftrightarrow> p = z" "z = (if n = y then tmp else n) \<longleftrightarrow> z = n" using pxy z zt by auto
  have "map_option ?f (avl_child (?h z) i) = (if p = z \<and> avl_child_index (?h y) = i then Some tmp
      else if avl_parent (?h x) = Some z \<and> avl_child_index (?h x) = i then Some y else avl_child (?h z) i)" for i
    using cx [of i] cy [of i] y(2) by (cases "avl_child (?h z) i") auto
  moreover have "map_option ?f (avl_parent (?h z)) = (if avl_child (?h y) b = Some z then Some tmp else if z = n \<or> z = m then Some y else avl_parent (?h z))"
    using zx zy y(2) by (cases "avl_parent (?h z)") auto
  ultimately show ?thesis unfolding pz by (simp add: renamed_def o_def)
qed

lemma swap_fields:
  assumes W: "focus T [] W" and x: "x \<in> set (inord W)" and y: "y \<in> set (inord W)" "x \<noteq> y" and tmp: "tmp \<notin> set (inord W)"
    and b: "b = avl_balance2child (avl_balance (avl_nodes T x) + 1)"
    and n: "avl_child (avl_nodes T x) b = Some n" and m: "avl_child (avl_nodes T x) (\<not> b) = Some m" "m \<noteq> y"
    and far: "far_loop T (\<not> b) n = Some y" and yc: "avl_child (avl_nodes T y) (\<not> b) = None" "avl_child (avl_nodes T y) b \<noteq> Some x"
    and p: "avl_parent (avl_nodes T y) = Some p" and px: "avl_parent (avl_nodes T x) \<noteq> Some y"
  shows "\<exists>T'. swap_neighbour tmp T x = Some T' \<and> (\<forall>z\<in>set (inord W). avl_nodes T' ((id(x := y, y := tmp)) z) = renamed (id(x := y, y := tmp)) (avl_nodes T z)) \<and>
    avl_root T' = map_option (id(x := y, y := tmp)) (avl_root T) \<and> avl_numnodes T' = avl_numnodes T \<and> avl_compare T' = avl_compare T"
proof -
  let ?h = "avl_nodes T" and ?f = "id(x := y, y := tmp)"
  let ?cl = "if n = y then tmp else n" and ?pt = "if n = y then y else p"
  note L = links [OF W]
  have r: "rep ?h None False W" "distinct (inord W)" "avl_root T = ptr W" using W by (simp_all add: focus_def)
  have inW: "n \<in> set (inord W)" "m \<in> set (inord W)" "p \<in> set (inord W)"
    using rep_child [OF r(1) x n] rep_child [OF r(1) x m(1)] rep_parent [OF r(1) y(1)] root_parent [OF r(1,2) y(1)] p by auto
  have ne: "tmp \<noteq> x" "tmp \<noteq> y" "tmp \<noteq> n" "tmp \<noteq> m" "tmp \<noteq> p" "avl_parent (?h x) \<noteq> Some tmp" "avl_child (?h y) b \<noteq> Some tmp"
    using tmp x y inW rep_parent [OF r(1) x] root_parent [OF r(1,2) x] rep_child [OF r(1) y(1)] by force+
  have par: "avl_parent (?h z) \<noteq> Some z" if "z \<in> set (inord W)" for z
    using L [OF that that, of "avl_child_index (?h z)"] rep_no_loop [OF r(1,2) that] by blast
  have idy: "n = y \<Longrightarrow> avl_child_index (?h y) = b" "n = y \<Longrightarrow> p = x" "p \<noteq> y" "avl_parent (?h x) \<noteq> Some x"
    using L [OF y(1) x, of b] n p par [OF y(1)] par [OF x] by auto
  have npx: "p \<noteq> x" if "n \<noteq> y"
    using L [OF y(1) x, of "avl_child_index (?h y)"] n m p that by (cases "avl_child_index (?h y) = b") auto
  have yl: "avl_child (?h y) b \<noteq> Some y" by (rule rep_no_loop [OF r(1,2) y(1)])
  obtain T' where T': "swap_neighbour tmp T x = Some T'" "avl_nodes T' y = (?h x)\<lparr>avl_child := (avl_child (?h x))(b := Some ?cl)\<rparr>"
    "avl_nodes T' tmp = (?h y)\<lparr>avl_parent := Some ?pt\<rparr>"
    and oth: "\<And>z. z \<noteq> y \<Longrightarrow> z \<noteq> tmp \<Longrightarrow> avl_nodes T' z =
      (?h z)\<lparr>avl_child := (\<lambda>i. if ?pt = z \<and> avl_child_index (?h y) = i then Some tmp
          else if avl_parent (?h x) = Some z \<and> avl_child_index (?h x) = i then Some y else avl_child (?h z) i),
        avl_parent := if avl_child (?h y) b = Some z then Some tmp else if z = ?cl \<or> z = m then Some y else avl_parent (?h z)\<rparr>"
    and keep: "avl_root T' = (if avl_parent (?h x) = None then Some y else avl_root T)" "avl_numnodes T' = avl_numnodes T" "avl_compare T' = avl_compare T"
    using swap_run [OF b n m far yc(1) yl p idy(3) idy(1) px ne] by blast
  have "avl_nodes T' y = renamed ?f (?h x)"
  proof -
    have "((avl_child (?h x))(b := Some ?cl)) i = map_option ?f (avl_child (?h x) i)" for i
      using n m rep_no_loop [OF r(1,2) x, of b] rep_no_loop [OF r(1,2) x, of "\<not> b"] by (cases "i = b") auto
    moreover have "map_option ?f (avl_parent (?h x)) = avl_parent (?h x)" using px idy(4) by (cases "avl_parent (?h x)") auto
    ultimately show ?thesis unfolding T'(2) by (simp add: renamed_def fun_eq_iff)
  qed
  moreover have "avl_nodes T' tmp = renamed ?f (?h y)"
  proof -
    have "map_option ?f (avl_child (?h y) i) = avl_child (?h y) i" for i
      using yl yc by (cases "i = b"; cases "avl_child (?h y) i") auto
    moreover have "map_option ?f (Some p) = Some ?pt" using idy npx by auto
    ultimately show ?thesis unfolding T'(3) using p by (simp add: renamed_def fun_eq_iff)
  qed
  moreover have "avl_nodes T' z = renamed ?f (?h z)" if "z \<in> set (inord W)" "z \<noteq> x" "z \<noteq> y" for z
    using swap_renames [OF W x y tmp n m(1) yc(1) p npx idy(2) that] oth [of z] that tmp by metis
  ultimately have "avl_nodes T' (?f z) = renamed ?f (?h z)" if "z \<in> set (inord W)" for z
    using that y(2) by (cases "z = x"; cases "z = y") auto
  moreover have "avl_root T' = map_option ?f (avl_root T)"
    using keep(1) root_parent [OF r(1,2) x] root_parent [OF r(1,2) y(1)] p y(2) unfolding r(3) by (cases "ptr W") auto
  ultimately show ?thesis using T'(1) keep(2,3) by blast
qed

section \<open>Removing a node\<close>

lemma path_ends: "\<forall>fr\<in>set q. fst fr = r \<Longrightarrow> if r then after q = [] else before q = []"
proof (induction q)
  case (Cons fr q)
  then show ?case by (cases fr) auto
qed simp

lemma plug_append: "plug (q @ c) t = plug c (plug q t)"
  by (induction q t rule: plug.induct) auto

lemma path_append: "before (q @ c) = before c @ before q" "after (q @ c) = after q @ after c"
  by (induction q rule: before.induct) auto

lemma set_cnodes_append: "set (cnodes (q @ c)) = set (cnodes q) \<union> set (cnodes c)"
  by (induction q rule: before.induct) auto

text \<open>A node with two children: its neighbour takes its place, and the stack node the place of the neighbour.\<close>

lemma swap_ok:
  assumes W: "focus T c (mk b L x k R)" and b: "b = avl_balance2child (k + 1)" and L: "L \<noteq> Tip" and R: "R \<noteq> Tip"
    and tmp: "tmp \<notin> set (inord (plug c (mk b L x k R)))"
  shows "\<exists>T' q y ky u. swap_neighbour tmp T x = Some T' \<and> L = plug q (mk (\<not> b) Tip y ky u) \<and> (\<forall>fr\<in>set q. fst fr = (\<not> b)) \<and>
    focus T' (q @ (b, y, k, R) # c) (mk (\<not> b) Tip tmp ky u) \<and> avl_numnodes T' = avl_numnodes T \<and> avl_compare T' = avl_compare T"
proof -
  let ?h = "avl_nodes T" and ?W = "plug c (mk b L x k R)"
  have f: "node_rep (?h x) b (ptr L) (ptr R) k (cptr c) (cside c)" "rep ?h (Some x) b L" "rep ?h (Some x) (\<not> b) R"
    using W by (simp_all add: focus_def)
  obtain n m where n: "ptr L = Some n" and m: "ptr R = Some m" using L R by (cases L; cases R) auto
  obtain q y ky u where q: "L = plug q (mk (\<not> b) Tip y ky u)" "\<forall>fr\<in>set q. fst fr = (\<not> b)" "far_loop T (\<not> b) n = Some y"
    using far_loop_ok [OF f(2) n, of "\<not> b"] by blast
  have inL: "y \<in> set (inord L)" "set (inord u) \<subseteq> set (inord L)" by (auto simp: q(1) set_plug)
  have dist: "x \<notin> set (inord L)" "x \<notin> set (inord R)" "set (inord L) \<inter> set (inord R) = {}" "x \<notin> set (cnodes c)"
    "set (inord L) \<inter> set (cnodes c) = {}" "set (inord R) \<inter> set (cnodes c) = {}" "distinct (inord L)"
    using W by (auto simp: focus_def)
  have fy: "focus T (q @ (b, x, k, R) # c) (mk (\<not> b) Tip y ky u)"
    using W unfolding focus_plug [of T c] focus_plug [of T "q @ (b, x, k, R) # c"] plug_append by (simp add: q(1))
  have ny: "node_rep (?h y) (\<not> b) None (ptr u) ky (cptr (q @ (b, x, k, R) # c)) (cside (q @ (b, x, k, R) # c))"
    using fy by (simp add: focus_def)
  obtain p where p: "cptr (q @ (b, x, k, R) # c) = Some p" by (cases q rule: cptr.cases) auto
  let ?f = "id(x := y, y := tmp)"
  have "\<exists>T'. swap_neighbour tmp T x = Some T' \<and> (\<forall>z\<in>set (inord ?W). avl_nodes T' (?f z) = renamed ?f (?h z)) \<and>
    avl_root T' = map_option ?f (avl_root T) \<and> avl_numnodes T' = avl_numnodes T \<and> avl_compare T' = avl_compare T"
  proof (rule swap_fields)
    show "focus T [] ?W" using W focus_plug by blast
    show "x \<in> set (inord ?W)" "y \<in> set (inord ?W)" "tmp \<notin> set (inord ?W)" using inL tmp by (auto simp: set_plug)
    show "x \<noteq> y" "m \<noteq> y" using inL dist(1,3) ptr_in [OF m] by auto
    show "avl_parent (?h x) \<noteq> Some y" using f(1) inL dist(5) cptr_in [of c y] by (auto simp: node_rep_def)
    show "avl_child (?h y) b \<noteq> Some x" using ny inL(2) dist(1) ptr_in [of u x] by (auto simp: node_rep_def)
    show "avl_parent (?h y) = Some p" using ny p by (simp add: node_rep_def)
    show "b = avl_balance2child (avl_balance (?h x) + 1)" "avl_child (?h x) b = Some n" "avl_child (?h x) (\<not> b) = Some m" using f(1) n m b by (auto simp: node_rep_def)
    show "far_loop T (\<not> b) n = Some y" by (rule q(3))
    show "avl_child (?h y) (\<not> b) = None" using ny by (simp add: node_rep_def)
  qed
  then obtain T' where T': "swap_neighbour tmp T x = Some T'" "\<And>z. z \<in> set (inord ?W) \<Longrightarrow> avl_nodes T' (?f z) = renamed ?f (?h z)"
    "avl_root T' = map_option ?f (avl_root T)" "avl_numnodes T' = avl_numnodes T" "avl_compare T' = avl_compare T" by blast
  have inj: "inj_on ?f (set (inord ?W))" using tmp inL by (auto simp: inj_on_def set_plug)
  have foc: "focus T' [] (map_atree ?f ?W)" using W focus_plug T' inj by (intro focus_map [of T]) blast+
  have yq: "y \<notin> set (cnodes q)" "y \<notin> set (inord u)" using dist(7) unfolding q(1) distinct_plug by auto
  have "map_atree ?f ?W = plug c (mk b (plug q (mk (\<not> b) Tip tmp ky u)) y k R)"
  proof -
    have "map_atree ?f R = R" by (rule map_same) (use dist inL in auto)
    moreover have "map_atree ?f u = u" by (rule map_same) (use yq dist(1) inL in auto)
    moreover have "map_atree ?f (plug q t) = plug q (map_atree ?f t)" for t
      using yq dist(1) by (intro map_plug) (auto simp: q(1) set_plug)
    moreover have "map_atree ?f (plug c t) = plug c (map_atree ?f t)" for t
      using dist(4,5) inL by (intro map_plug) auto
    moreover have "x \<noteq> y" using dist(1) inL by auto
    ultimately show ?thesis by (simp add: map_mk q(1))
  qed
  then have "focus T' (q @ (b, y, k, R) # c) (mk (\<not> b) Tip tmp ky u)"
    using foc unfolding focus_plug [of T' "q @ (b, y, k, R) # c"] plug_append by simp
  then show ?thesis using T'(1,4,5) q(1,2) by blast
qed


text \<open>Every node is at the end of a path, with what is before and after it.\<close>

lemma path_to: "x \<in> set (inord W) \<Longrightarrow> \<exists>c l k r. W = plug c (Bin l x k r)"
proof (induction W)
  case (Bin l y k r)
  then consider "x = y" | "x \<in> set (inord l)" | "x \<in> set (inord r)" by auto
  then show ?case
  proof cases
    case 1
    then show ?thesis by (intro exI [of _ "[]"]) auto
  next
    case 2
    then obtain c l' k' r' where "l = plug c (Bin l' x k' r')" using Bin.IH by blast
    then show ?thesis by (intro exI [of _ "c @ [(False, y, k, r)]"] exI) (simp add: plug_append mk_def)
  next
    case 3
    then obtain c l' k' r' where "r = plug c (Bin l' x k' r')" using Bin.IH by blast
    then show ?thesis by (intro exI [of _ "c @ [(True, y, k, l)]"] exI) (simp add: plug_append mk_def)
  qed
qed simp

lemma focus_at:
  assumes "focus T [] W" "inord W = xs @ x # ys"
  obtains c l k r where "W = plug c (Bin l x k r)" "focus T c (Bin l x k r)" "xs = before c @ inord l" "ys = inord r @ after c"
proof -
  obtain c l k r where c: "W = plug c (Bin l x k r)" using path_to [of x W] assms(2) by auto
  have "distinct (inord W)" using assms(1) by (simp add: focus_def)
  then have "xs = before c @ inord l" "ys = inord r @ after c"
    using assms(2) unfolding c inord_plug by (auto simp: append_eq_append_conv2 append_eq_Cons_conv Cons_eq_append_conv)
  then show thesis using that c assms(1) focus_plug by blast
qed

lemma bpath_rename: "bpath (q @ (b, x, k, s) # c) n = bpath (q @ (b, y, k, s) # c) n"
  by (induction q arbitrary: n rule: before.induct) auto

lemma remove_two:
  assumes foc: "focus T c (mk b L x k R)" and av: "avl (mk b L x k R)" "bpath c (ht (mk b L x k R))"
    and b: "b = avl_balance2child (k + 1)" and LR: "L \<noteq> Tip" "R \<noteq> Tip"
    and tmp: "tmp \<notin> set (inord (plug c (mk b L x k R)))" and nn: "avl_numnodes T \<noteq> 0"
  shows "\<exists>T' t1. swap_neighbour tmp T x = Some t1 \<and> remove_leaf tmp t1 = Some T' \<and>
    rebalanced (T\<lparr>avl_numnodes := avl_numnodes T - 1\<rparr>) T' (before c @ (if b then inord R @ inord L else inord L @ inord R) @ after c)"
proof -
  obtain T1 q y ky u where T1: "swap_neighbour tmp T x = Some T1" and q: "L = plug q (mk (\<not> b) Tip y ky u)" "\<forall>fr\<in>set q. fst fr = (\<not> b)"
    and f1: "focus T1 (q @ (b, y, k, R) # c) (mk b u tmp ky Tip)" and keep: "avl_numnodes T1 = avl_numnodes T" "avl_compare T1 = avl_compare T"
    using swap_ok [OF foc b LR tmp] unfolding mk_flip by blast
  have "avl (plug (q @ (b, x, k, R) # c) (mk b u y ky Tip))" using av unfolding plug_append by (simp add: avl_plug q(1) mk_flip)
  then have "avl (mk b u tmp ky Tip)" "bpath (q @ (b, y, k, R) # c) (ht (mk b u tmp ky Tip))"
    unfolding avl_plug using bpath_rename [of q b x k R c "ht (mk b u tmp ky Tip)" y] by (auto simp: mk_balance)
  from remove_leaf_ok [OF f1 this] keep nn obtain T' where T': "remove_leaf tmp T1 = Some T'"
    "rebalanced (T1\<lparr>avl_numnodes := avl_numnodes T - 1\<rparr>) T' (before (q @ (b, y, k, R) # c) @ inord u @ after (q @ (b, y, k, R) # c))" by auto
  have "before (q @ (b, y, k, R) # c) @ inord u @ after (q @ (b, y, k, R) # c) =
      before c @ (if b then inord R @ inord L else inord L @ inord R) @ after c"
    using path_ends [OF q(2)] by (cases b) (simp_all add: path_append q(1) inord_plug inord_mk)
  then show ?thesis using T1 T' keep by (auto simp: rebalanced_def)
qed

text \<open>Removal of a node of the tree, wherever it is.\<close>

lemma remove_found:
  assumes W: "focus T [] W" "avl W" "inord W = xs @ x # ys" and nn: "avl_numnodes T \<noteq> 0" and tmp: "tmp \<notin> set (inord W)"
  shows "\<exists>T'. (if avl_child (avl_nodes T x) False \<noteq> None \<and> avl_child (avl_nodes T x) True \<noteq> None
      then (case swap_neighbour tmp T x of None \<Rightarrow> None | Some t1 \<Rightarrow> map_option (\<lambda>t2. (t2, Some x)) (remove_leaf tmp t1))
      else map_option (\<lambda>t2. (t2, Some x)) (remove_leaf x T)) = Some (T', Some x) \<and>
    rebalanced (T\<lparr>avl_numnodes := avl_numnodes T - 1\<rparr>) T' (xs @ ys)"
proof -
  obtain c l k r where c: "W = plug c (Bin l x k r)" "focus T c (Bin l x k r)" "xs = before c @ inord l" "ys = inord r @ after c"
    by (rule focus_at [OF W(1,3)])
  have av: "avl (Bin l x k r)" "bpath c (ht (Bin l x k r))" using W(2) unfolding c avl_plug by auto
  have ch: "avl_child (avl_nodes T x) False = ptr l" "avl_child (avl_nodes T x) True = ptr r" using c(2) by (auto simp: focus_def node_rep_def)
  show ?thesis
  proof (cases "l = Tip \<or> r = Tip")
    case True
    define b where "b = (l = Tip)"
    define t where "t = (if l = Tip then r else l)"
    have mk: "Bin l x k r = mk b t x k Tip" using True by (auto simp: mk_def b_def t_def)
    show ?thesis using remove_leaf_ok [OF c(2) [unfolded mk] av [unfolded mk] nn] True ch
      by (auto simp: c(3,4) t_def)
  next
    case False
    define b where "b = avl_balance2child (k + 1)"
    have mk: "Bin l x k r = mk b (if b then r else l) x k (if b then l else r)" by (simp add: mk_def)
    have seq: "before c @ (if b then inord (if b then l else r) @ inord (if b then r else l) else inord (if b then r else l) @ inord (if b then l else r)) @ after c = xs @ ys"
      by (simp add: c(3,4))
    have ne: "(if b then r else l) \<noteq> Tip" "(if b then l else r) \<noteq> Tip" using False by auto
    from remove_two [OF c(2) [unfolded mk] av [unfolded mk] b_def ne tmp [unfolded c(1), unfolded mk] nn] False ch
    show ?thesis unfolding seq by auto
  qed
qed

end
