(* ===== verification/Avl_Destroy.thy ===== *)
theory Avl_Destroy
  imports Avl_Ops
begin

text \<open>
  The walk that takes a tree apart: it returns the nodes in post-order, each once, and leaves an empty tree.
\<close>

primrec postord :: "'n atree \<Rightarrow> 'n list" where
  "postord Tip = []"
| "postord (Bin l x k r) = postord l @ postord r @ [x]"

text \<open>What is left of the walk when the subtree at the end of a path has been returned.\<close>

fun rest :: "'n path \<Rightarrow> 'n list" where
  "rest [] = []"
| "rest ((b, y, k, s) # c) = (if b then [] else postord s) @ y # rest c"

fun dpath :: "'n path \<Rightarrow> bool" where
  "dpath [] \<longleftrightarrow> True"
| "dpath ((b, y, k, s) # c) \<longleftrightarrow> (if b then s = Tip else avl s) \<and> dpath c"

definition cookie_of :: "'n path \<Rightarrow> 'n avl_tree_index" where
  "cookie_of c = (if c = [] then \<lparr>ix_node = None, ix_child = True\<rparr> else \<lparr>ix_node = cptr c, ix_child = cside c\<rparr>)"

definition walked :: "'n avl_tree \<Rightarrow> 'n path \<Rightarrow> 'n \<Rightarrow> bool" where
  "walked T c x \<longleftrightarrow> crep (avl_nodes T) (avl_root T) (Some x) c \<and> dpath c \<and> distinct (cnodes c)"

lemma postord_mset: "mset (postord t) = mset (inord t)"
  by (induction t) auto

lemma rest_append: "rest (q @ c) = rest q @ rest c"
  by (induction q rule: rest.induct) auto

lemma dpath_append: "dpath (q @ c) \<longleftrightarrow> dpath q \<and> dpath c"
  by (induction q rule: dpath.induct) auto

lemma postord_plug: "\<forall>fr\<in>set q. fst fr = False \<Longrightarrow> postord (plug q t) = postord t @ rest q"
  by (induction q t rule: plug.induct) (auto simp: mk_def)

lemma dpath_plug: "\<forall>fr\<in>set q. fst fr = False \<Longrightarrow> avl (plug q t) \<Longrightarrow> dpath q \<and> avl t"
  by (induction q t rule: plug.induct) (auto simp: mk_def)

lemma done_ok:
  assumes "rep (avl_nodes T) (cptr c) (cside c) t" "ptr t = Some x" "crep (avl_nodes T) (avl_root T) (Some x) c"
  shows "destroy_done T (cptr c) x = Some (T, cookie_of c, Some x)"
  using assms by (cases c rule: cptr.cases; cases t) (auto simp: destroy_done_def cookie_of_def node_rep_def)

lemma check_right_ok:
  assumes f: "focus T c (Bin Tip w kw rw)" and av: "avl (Bin Tip w kw rw)" and dp: "dpath c"
  shows "\<exists>c' v. check_right_side T (cptr c) w = Some (T, cookie_of c', Some v) \<and> walked T c' v \<and> v # rest c' = postord (Bin Tip w kw rw) @ rest c"
proof (cases rw)
  case Tip
  have "avl_child (avl_nodes T w) True = None" "avl_balance (avl_nodes T w) = 0" using f av Tip by (auto simp: focus_def node_rep_def)
  moreover have "destroy_done T (cptr c) w = Some (T, cookie_of c, Some w)" by (rule done_ok [of _ _ "Bin Tip w kw rw"]) (use f in \<open>auto simp: focus_def\<close>)
  ultimately show ?thesis using f dp Tip by (intro exI [of _ c] exI [of _ w]) (auto simp: check_right_side_def walked_def focus_def)
next
  case (Bin l v k r)
  then have leaf: "l = Tip" "r = Tip" "kw = 1" using av by (auto, cases l, auto, cases r, auto)
  let ?c = "(True, w, kw, Tip) # c"
  have f': "focus T ?c (Bin Tip v k Tip)" using f Bin leaf by (simp add: focus_up mk_def)
  have "avl_child (avl_nodes T w) True = Some v" "avl_balance (avl_nodes T w) = 1" "avl_child (avl_nodes T v) False = None" "avl_child (avl_nodes T v) True = None"
    using f Bin leaf by (auto simp: focus_def node_rep_def)
  moreover have "destroy_done T (cptr ?c) v = Some (T, cookie_of ?c, Some v)" by (rule done_ok [of _ _ "Bin Tip v k Tip"]) (use f' in \<open>auto simp: focus_def\<close>)
  ultimately show ?thesis using f' dp Bin leaf by (intro exI [of _ ?c] exI [of _ v]) (auto simp: check_right_side_def walked_def focus_def)
qed

lemma left_loop_ok:
  assumes "rep (avl_nodes T) p i t" "ptr t = Some n"
  shows "left_loop T p n = map_option (\<lambda>y. (avl_parent (avl_nodes T y), y)) (far_loop T False n)"
  using assms
proof (induction t arbitrary: p i n)
  case (Bin l x k r)
  then have "avl_parent (avl_nodes T n) = p" "avl_child (avl_nodes T n) False = ptr l" by (auto simp: node_rep_def)
  moreover have "left_loop T (Some n) m = map_option (\<lambda>y. (avl_parent (avl_nodes T y), y)) (far_loop T False m)" if "ptr l = Some m" for m
    using Bin.IH(1) [of "Some n" False m] Bin.prems that by simp
  ultimately show ?case by (cases "ptr l") (simp_all add: left_loop.simps [of T p n] far_loop.simps [of T False n])
qed simp

text \<open>The leftmost node below the end of a path.\<close>

lemma leftmost:
  assumes "focus T c t" "ptr t = Some n" "avl t" "dpath c"
  obtains q w kw rw where "far_loop T False n = Some w" "focus T (q @ c) (Bin Tip w kw rw)" "avl_parent (avl_nodes T w) = cptr (q @ c)"
    "avl (Bin Tip w kw rw)" "dpath (q @ c)" "postord t @ rest c = postord (Bin Tip w kw rw) @ rest (q @ c)"
proof -
  have "rep (avl_nodes T) (cptr c) (cside c) t" using assms(1) by (simp add: focus_def)
  from far_loop_ok [OF this assms(2), of False] obtain q w kw rw where q: "t = plug q (Bin Tip w kw rw)" "\<forall>fr\<in>set q. fst fr = False" "far_loop T False n = Some w"
    by (auto simp: mk_def)
  have f: "focus T (q @ c) (Bin Tip w kw rw)" using assms(1) unfolding focus_plug [of T c] focus_plug [of T "q @ c"] plug_append q(1) .
  moreover have "avl_parent (avl_nodes T w) = cptr (q @ c)" using f by (simp add: focus_def node_rep_def)
  moreover have "avl (Bin Tip w kw rw)" "dpath (q @ c)" using dpath_plug [OF q(2), of "Bin Tip w kw rw"] assms(3,4) q(1) by (simp_all add: dpath_append)
  moreover have "postord t @ rest c = postord (Bin Tip w kw rw) @ rest (q @ c)" by (simp only: q(1) postord_plug [OF q(2)] rest_append append_assoc)
  ultimately show thesis by (rule that [OF q(3)])
qed

lemma first_step:
  assumes "focus T [] W" "avl W" "W \<noteq> Tip"
  shows "\<exists>c v. avl_tree_destroy_nodes T AVL_TREE_COOKIE_INIT = Some (T, cookie_of c, Some v) \<and> walked T c v \<and> v # rest c = postord W"
proof -
  obtain n where n: "ptr W = Some n" using assms(3) by (cases W) auto
  obtain q w kw rw where q: "far_loop T False n = Some w" "focus T (q @ []) (Bin Tip w kw rw)" "avl_parent (avl_nodes T w) = cptr (q @ [])"
    "avl (Bin Tip w kw rw)" "dpath (q @ [])" "postord W @ rest [] = postord (Bin Tip w kw rw) @ rest (q @ [])"
    by (rule leftmost [OF assms(1) n assms(2)]) auto
  have "avl_tree_first T = Some (Some w)" using assms(1) n q(1) by (simp add: avl_tree_first_def focus_def)
  then show ?thesis using check_right_ok [OF q(2,4,5)] q(3,6) by (auto simp: avl_tree_destroy_nodes_def AVL_TREE_COOKIE_INIT_def)
qed

lemma next_step:
  assumes w: "walked T c x" and c: "c \<noteq> []" and n: "avl_numnodes T = of_nat (Suc (length (rest c)))" "Suc (length (rest c)) < 2 ^ 32"
  shows "\<exists>T' c' v. avl_tree_destroy_nodes T (cookie_of c) = Some (T', cookie_of c', Some v) \<and> walked T' c' v \<and> rest c = v # rest c' \<and>
    avl_numnodes T' = avl_numnodes T - 1"
proof -
  obtain b y k s c0 where c0: "c = (b, y, k, s) # c0" using c by (cases c rule: cptr.cases) auto
  define T2 where "T2 = (set_child y b None T)\<lparr>avl_numnodes := avl_numnodes T - 1\<rparr>"
  have "crep (avl_nodes T2) (avl_root T2) None c"
  proof (rule crep_move)
    show "crep (avl_nodes T) (avl_root T) (Some x) c" "distinct (cnodes c)" using w by (simp_all add: walked_def)
  qed (simp_all add: c0 T2_def setters)
  then have cr: "node_rep (avl_nodes T2 y) b None (ptr s) k (cptr c0) (cside c0)" "rep (avl_nodes T2) (Some y) (\<not> b) s" "crep (avl_nodes T2) (avl_root T2) (Some y) c0"
    by (simp_all add: c0)
  have dc: "dpath c0" "if b then s = Tip else avl s" "distinct (y # inord s @ cnodes c0)" using w by (auto simp: walked_def c0)
  have "unat (avl_numnodes T) = Suc (length (rest c))" unfolding n(1) by (rule unat_of_nat_small [OF n(2)])
  then have "1 < unat (avl_numnodes T)" by (simp add: c0)
  then have big: "1 < avl_numnodes T" by (simp add: word_less_nat_alt)
  have step: "avl_tree_destroy_nodes T (cookie_of c) =
      (if b then destroy_done T2 (avl_parent (avl_nodes T2 y)) y
       else (case avl_child (avl_nodes T2 y) True of None \<Rightarrow> destroy_done T2 (avl_parent (avl_nodes T2 y)) y
         | Some n \<Rightarrow> (case left_loop T2 (Some y) n of None \<Rightarrow> None | Some (p, node) \<Rightarrow> check_right_side T2 p node)))"
  proof -
    have ck: "cookie_of c = \<lparr>ix_node = Some y, ix_child = b\<rparr>" by (simp add: cookie_of_def c0)
    have nn: "avl_numnodes (set_child y b None T) = avl_numnodes T" by (simp add: setters)
    show ?thesis using big
      unfolding avl_tree_destroy_nodes_def Let_def ck avl_tree_index.select_convs option.case nn T2_def [symmetric] by simp
  qed
  have num: "avl_numnodes T2 = avl_numnodes T - 1" by (simp add: T2_def)
  show ?thesis
  proof (cases "b \<or> s = Tip")
    case True
    have "rep (avl_nodes T2) (cptr c0) (cside c0) (mk b Tip y k s)" using cr by simp
    from done_ok [OF this _ cr(3)] have "destroy_done T2 (avl_parent (avl_nodes T2 y)) y = Some (T2, cookie_of c0, Some y)"
      using cr(1) by (simp add: node_rep_def)
    moreover have "avl_child (avl_nodes T2 y) True = None" if "\<not> b" using that True cr(1) by (auto simp: node_rep_def)
    ultimately show ?thesis using step num True dc cr(3)
      by (intro exI [of _ T2] exI [of _ c0] exI [of _ y]) (auto simp: c0 walked_def)
  next
    case False
    then obtain n where n: "ptr s = Some n" by (cases s) auto
    have foc: "focus T2 ((True, y, k, Tip) # c0) s" using cr False dc(3) by (auto simp: focus_def node_rep_def)
    obtain q w kw rw where q: "far_loop T2 False n = Some w" "focus T2 (q @ (True, y, k, Tip) # c0) (Bin Tip w kw rw)" "avl_parent (avl_nodes T2 w) = cptr (q @ (True, y, k, Tip) # c0)"
      "avl (Bin Tip w kw rw)" "dpath (q @ (True, y, k, Tip) # c0)" "postord s @ rest ((True, y, k, Tip) # c0) = postord (Bin Tip w kw rw) @ rest (q @ (True, y, k, Tip) # c0)"
      by (rule leftmost [OF foc n]) (use False dc in auto)
    have "left_loop T2 (Some y) n = Some (cptr (q @ (True, y, k, Tip) # c0), w)" using left_loop_ok [OF cr(2) n] q(1,3) by simp
    moreover have "avl_child (avl_nodes T2 y) True = Some n" using False cr(1) n by (simp add: node_rep_def)
    ultimately have "avl_tree_destroy_nodes T (cookie_of c) = check_right_side T2 (cptr (q @ (True, y, k, Tip) # c0)) w" using step False by simp
    moreover obtain c' v where "check_right_side T2 (cptr (q @ (True, y, k, Tip) # c0)) w = Some (T2, cookie_of c', Some v)" "walked T2 c' v"
      "v # rest c' = postord (Bin Tip w kw rw) @ rest (q @ (True, y, k, Tip) # c0)" using check_right_ok [OF q(2,4,5)] by blast
    moreover have "rest c = postord s @ rest ((True, y, k, Tip) # c0)" using False by (simp add: c0)
    ultimately show ?thesis using q(6) num by metis
  qed
qed


text \<open>The walk: calls with the same cookie until a null pointer comes back.\<close>

primrec destroy_calls :: "nat \<Rightarrow> 'n avl_tree \<Rightarrow> 'n avl_tree_index \<Rightarrow> ('n avl_tree \<times> 'n avl_tree_index \<times> 'n option list) option" where
  "destroy_calls 0 T ck = Some (T, ck, [])"
| "destroy_calls (Suc n) T ck =
     (case avl_tree_destroy_nodes T ck of
        None \<Rightarrow> None
      | Some (T1, ck1, r) \<Rightarrow> map_option (\<lambda>(T2, ck2, rs). (T2, ck2, r # rs)) (destroy_calls n T1 ck1))"

lemma walk_rest:
  assumes "walked T c x" "avl_numnodes T = of_nat (Suc (length (rest c)))" "Suc (length (rest c)) < 2 ^ 32"
  shows "\<exists>T' ck. destroy_calls (Suc (length (rest c))) T (cookie_of c) = Some (T', ck, map Some (rest c) @ [None]) \<and> avl_root T' = None \<and> avl_numnodes T' = 0"
  using assms
proof (induction "rest c" arbitrary: T c x)
  case Nil
  then have "c = []" by (cases c rule: cptr.cases) auto
  then show ?case using Nil.prems by (simp add: walked_def avl_tree_destroy_nodes_def cookie_of_def)
next
  case (Cons z zs)
  then have "c \<noteq> []" by auto
  from next_step [OF Cons.prems(1) this Cons.prems(2,3)] obtain T1 c1 v where s: "avl_tree_destroy_nodes T (cookie_of c) = Some (T1, cookie_of c1, Some v)"
    "walked T1 c1 v" "rest c = v # rest c1" "avl_numnodes T1 = avl_numnodes T - 1" by blast
  have zs: "zs = rest c1" using Cons.hyps(2) s(3) by simp
  obtain T' ck where "destroy_calls (Suc (length (rest c1))) T1 (cookie_of c1) = Some (T', ck, map Some (rest c1) @ [None])" "avl_root T' = None" "avl_numnodes T' = 0"
    using Cons.hyps(1) [OF zs s(2)] s(3,4) Cons.prems(2,3) by auto
  then show ?case using s(1) unfolding s(3) list.size add_Suc_right add_0_right destroy_calls.simps(2) [of "Suc _" T] by simp
qed

lemma destroy_walk:
  assumes "focus T [] W" "avl W" "avl_numnodes T = of_nat (length (inord W))" "length (inord W) < 2 ^ 32"
  shows "\<exists>T' ck. destroy_calls (Suc (length (inord W))) T AVL_TREE_COOKIE_INIT = Some (T', ck, map Some (postord W) @ [None]) \<and>
    avl_root T' = None \<and> avl_numnodes T' = 0"
proof (cases "W = Tip")
  case True
  then show ?thesis using assms(1,3) by (simp add: avl_tree_destroy_nodes_def AVL_TREE_COOKIE_INIT_def avl_tree_first_def focus_def)
next
  case False
  obtain c v where s: "avl_tree_destroy_nodes T AVL_TREE_COOKIE_INIT = Some (T, cookie_of c, Some v)" "walked T c v" "v # rest c = postord W"
    using first_step [OF assms(1,2) False] by blast
  have len: "length (inord W) = Suc (length (rest c))" using arg_cong [OF postord_mset, of size W] s(3) by (metis length_Cons size_mset)
  from walk_rest [OF s(2)] assms(3,4) obtain T' ck where
    "destroy_calls (Suc (length (rest c))) T (cookie_of c) = Some (T', ck, map Some (rest c) @ [None])" "avl_root T' = None" "avl_numnodes T' = 0"
    unfolding len by blast
  then show ?thesis using s(1) unfolding len s(3) [symmetric] destroy_calls.simps(2) [of "Suc _" T] by simp
qed

end
