(* ===== verification/Avl_Runs.thy ===== *)
theory Avl_Runs
  imports Avl_Destroy
begin

text \<open>
  What a comparison routine has to promise for the AVL tree to be an ordered sequence, and the
  operations of the tree as operations on that sequence.
\<close>

section \<open>Inserting at the end of a path\<close>

lemma insert_at:
  assumes "focus T c Tip" "avl (plug c Tip)" "n \<notin> set (cnodes c)"
  shows "\<exists>T'. avl_tree_insert T n \<lparr>ix_node = cptr c, ix_child = cside c\<rparr> = Some T' \<and>
    rebalanced (T\<lparr>avl_numnodes := avl_numnodes T + 1\<rparr>) T' (before c @ n # after c)"
proof -
  let ?h = "avl_nodes T"
  define T3 where "T3 = AVL_SETPARENT n (cptr c) (AVL_SETBALANCE n 0 (AVL_SETCHILD n (cside c)
    (set_child n True None (set_child n False None (T\<lparr>avl_numnodes := avl_numnodes T + 1\<rparr>)))))"
  define T4 where "T4 = hang (cptr c) (cside c) (Some n) T3"
  have cn: "cptr c \<noteq> Some n" using cptr_in [of c n] assms(3) by auto
  have f: "crep ?h (avl_root T) None c" "distinct (cnodes c)" using assms(1) by (simp_all add: focus_def)
  have N3: "avl_nodes T3 z = ?h z" if "z \<noteq> n" for z using that by (simp add: T3_def setters)
  have T3: "avl_root T3 = avl_root T" "avl_numnodes T3 = avl_numnodes T + 1" "avl_compare T3 = avl_compare T"
    by (simp_all add: T3_def setters)
  have free: "(case cptr c of Some p \<Rightarrow> avl_child (avl_nodes T3 p) (cside c) | None \<Rightarrow> avl_root T3) = None"
    using f(1) cn T3 by (cases c rule: cptr.cases) (auto simp: N3 node_rep_def)
  have "crep (avl_nodes T4) (avl_root T4) (Some n) c"
  proof (rule crep_move [OF f])
    show "avl_nodes T4 z = ?h z" if "z \<in> set (cnodes c)" "cptr c \<noteq> Some z" for z
      using that N3 [of z] assms(3) by (auto simp: T4_def)
    show "avl_nodes T4 z = (?h z)\<lparr>avl_child := (avl_child (?h z))(cside c := Some n)\<rparr>" if "cptr c = Some z" for z
      using that N3 [of z] cn by (auto simp: T4_def)
    show "avl_root T4 = (if c = [] then Some n else avl_root T)" by (cases c rule: cptr.cases) (simp_all add: T4_def T3)
  qed
  moreover have "node_rep (avl_nodes T4 n) False None None 0 (cptr c) (cside c)" using cn by (simp add: T4_def T3_def setters node_rep_def)
  ultimately have "focus T4 c (Bin Tip n 0 Tip)" using assms(3) f(2) by (simp add: focus_def)
  moreover have "bpath c 0" using assms(2) by (simp add: avl_plug)
  ultimately obtain T' where "insert_loop (cptr c) (cside c) T4 = Some T'" "rebalanced T4 T' (before c @ inord (Bin Tip n 0 Tip) @ after c)"
    using insert_loop_ok [of T4 c "Bin Tip n 0 Tip" 0] by auto
  moreover have "avl_tree_insert T n \<lparr>ix_node = cptr c, ix_child = cside c\<rparr> = insert_loop (cptr c) (cside c) T4"
    unfolding avl_tree_insert_def Let_def avl_tree_index.select_convs T3_def [symmetric] T4_def [symmetric] free by simp
  moreover have "avl_numnodes T4 = avl_numnodes T + 1" "avl_compare T4 = avl_compare T" by (simp_all add: T4_def T3)
  ultimately show ?thesis by (auto simp: rebalanced_def)
qed

section \<open>Comparison routines\<close>

definition in_order :: "('n \<Rightarrow> 'n \<Rightarrow> int) \<Rightarrow> 'n list \<Rightarrow> bool" where
  "in_order cmp xs \<longleftrightarrow> sorted_wrt (\<lambda>a b. cmp a b = - 1) xs"

text \<open>The insertion of an element before the first greater one.\<close>

definition ins_by :: "('n \<Rightarrow> 'n \<Rightarrow> int) \<Rightarrow> 'n \<Rightarrow> 'n list \<Rightarrow> 'n list" where
  "ins_by cmp n xs = takeWhile (\<lambda>a. cmp n a = 1) xs @ n # dropWhile (\<lambda>a. cmp n a = 1) xs"

definition avl_rep :: "'n avl_tree \<Rightarrow> 'n list \<Rightarrow> bool" where
  "avl_rep T xs \<longleftrightarrow> (\<exists>W. focus T [] W \<and> avl W \<and> inord W = xs) \<and> in_order (avl_compare T) xs \<and> avl_numnodes T = of_nat (length xs)"

text \<open>
  The elements of the tree and the values looked for are in a set \<open>S\<close> on which the routine answers \<open>- 1\<close>,
  \<open>0\<close> or \<open>1\<close>, answers the opposite when its arguments are exchanged, and is transitive for \<open>- 1\<close>. The
  answer \<open>0\<close> need not be transitive: address ranges that overlap compare equal. All elements fit
  into a 32-bit address space.
\<close>

locale avl_order =
  fixes cmp :: "'n \<Rightarrow> 'n \<Rightarrow> int" and S :: "'n set"
  assumes range: "a \<in> S \<Longrightarrow> b \<in> S \<Longrightarrow> cmp a b = - 1 \<or> cmp a b = 0 \<or> cmp a b = 1"
    and swap: "a \<in> S \<Longrightarrow> b \<in> S \<Longrightarrow> cmp b a = - cmp a b"
    and trans: "a \<in> S \<Longrightarrow> b \<in> S \<Longrightarrow> c \<in> S \<Longrightarrow> cmp a b = - 1 \<Longrightarrow> cmp b c = - 1 \<Longrightarrow> cmp a c = - 1"
    and small: "finite S" "card S < 2 ^ 32"
begin

lemma self: "a \<in> S \<Longrightarrow> cmp a a = 0"
  using swap [of a a] by simp

lemma swap1: "a \<in> S \<Longrightarrow> b \<in> S \<Longrightarrow> cmp a b = 1 \<longleftrightarrow> cmp b a = - 1"
  using swap [of a b] by auto

lemma in_order_distinct: "in_order cmp xs \<Longrightarrow> set xs \<subseteq> S \<Longrightarrow> distinct xs"
proof (induction xs)
  case (Cons x xs)
  then show ?case using self [of x] by (auto simp: in_order_def)
qed (simp add: in_order_def)

lemma length_small: "in_order cmp xs \<Longrightarrow> set xs \<subseteq> S \<Longrightarrow> length xs < 2 ^ 32"
  using in_order_distinct [of xs] card_mono [OF small(1), of "set xs"] small(2) distinct_card [of xs] by force

text \<open>All elements left of a smaller one are smaller, all elements right of a greater one are greater.\<close>

lemma left_of:
  assumes "in_order cmp (xs @ e # ys)" "set (xs @ e # ys) \<subseteq> S" "v \<in> S" "cmp v e = 1"
  shows "\<forall>a\<in>set (xs @ [e]). cmp v a = 1"
proof -
  have "cmp v a = 1" if "a \<in> set xs" for a
    using that assms swap1 [of v e] swap1 [of v a] trans [of a e v] by (auto simp: in_order_def sorted_wrt_append)
  then show ?thesis using assms(4) by auto
qed

lemma right_of:
  assumes "in_order cmp (xs @ e # ys)" "set (xs @ e # ys) \<subseteq> S" "v \<in> S" "cmp v e = - 1"
  shows "\<forall>a\<in>set (e # ys). cmp v a = - 1"
proof -
  have "cmp v a = - 1" if "a \<in> set ys" for a
    using that assms trans [of v e a] by (auto simp: in_order_def sorted_wrt_append)
  then show ?thesis using assms(4) by auto
qed

lemma find_loop_ok:
  assumes "focus T c t" "avl_compare T = cmp" "in_order cmp (before c @ inord t @ after c)" "set (before c @ inord t @ after c) \<subseteq> S" "v \<in> S"
    "\<forall>a\<in>set (before c). cmp v a = 1" "\<forall>a\<in>set (after c). cmp v a = - 1"
  shows "(\<exists>e ix. find_loop T v (ptr t) (cptr c) (cside c) = Some (Some e, ix) \<and> e \<in> set (inord t) \<and> cmp v e = 0) \<or>
    (\<exists>c'. find_loop T v (ptr t) (cptr c) (cside c) = Some (None, \<lparr>ix_node = cptr c', ix_child = cside c'\<rparr>) \<and> focus T c' Tip \<and> plug c' Tip = plug c t \<and>
       (\<forall>a\<in>set (before c'). cmp v a = 1) \<and> (\<forall>a\<in>set (after c'). cmp v a = - 1))"
  using assms
proof (induction t arbitrary: c)
  case Tip
  then show ?case by (intro disjI2 exI [of _ c]) (simp add: find_loop.simps)
next
  case (Bin l x k r)
  let ?h = "avl_nodes T"
  have ch: "avl_child (?h x) False = ptr l" "avl_child (?h x) True = ptr r" using Bin.prems(1) by (auto simp: focus_def node_rep_def)
  have xS: "x \<in> S" using Bin.prems(4) by simp
  consider "cmp v x = 0" | "cmp v x = 1" | "cmp v x = - 1" using range [OF Bin.prems(5) xS] by blast
  then show ?case
  proof cases
    case 1
    then show ?thesis using Bin.prems(2) by (intro disjI1) (auto simp: find_loop.simps [of T v "Some x"])
  next
    case 2
    have left: "\<forall>a\<in>set (before ((True, x, k, l) # c)). cmp v a = 1"
      using left_of [of "before c @ inord l" x "inord r @ after c" v] Bin.prems(3,4,5) 2 by auto
    have "focus T ((True, x, k, l) # c) r" using Bin.prems(1) by (simp add: focus_up mk_def)
    note ih = Bin.IH(2) [OF this Bin.prems(2) _ _ Bin.prems(5) left]
    have "find_loop T v (Some x) (cptr c) (cside c) = find_loop T v (ptr r) (Some x) True"
      using 2 Bin.prems(2) ch by (subst find_loop.simps) (simp add: avl_balance2child_def)
    then show ?thesis using ih Bin.prems(3,4,7) by (auto simp: mk_def)
  next
    case 3
    have right: "\<forall>a\<in>set (after ((False, x, k, r) # c)). cmp v a = - 1"
      using right_of [of "before c @ inord l" x "inord r @ after c" v] Bin.prems(3,4,5) 3 by auto
    have "focus T ((False, x, k, r) # c) l" using Bin.prems(1) by (simp add: focus_up mk_def)
    note ih = Bin.IH(1) [OF this Bin.prems(2) _ _ Bin.prems(5) _ right]
    have "find_loop T v (Some x) (cptr c) (cside c) = find_loop T v (ptr l) (Some x) False"
      using 3 Bin.prems(2) ch by (subst find_loop.simps) (simp add: avl_balance2child_def)
    then show ?thesis using ih Bin.prems(3,4,6) by (auto simp: mk_def)
  qed
qed

lemma find_ok:
  assumes "focus T [] W" "avl_compare T = cmp" "in_order cmp (inord W)" "set (inord W) \<subseteq> S" "v \<in> S"
  shows "(\<exists>e ix. avl_tree_find T v = Some (Some e, ix) \<and> e \<in> set (inord W) \<and> cmp v e = 0) \<or>
    (\<exists>c. avl_tree_find T v = Some (None, \<lparr>ix_node = cptr c, ix_child = cside c\<rparr>) \<and> focus T c Tip \<and> W = plug c Tip \<and>
       (\<forall>a\<in>set (before c). cmp v a = 1) \<and> (\<forall>a\<in>set (after c). cmp v a = - 1))"
proof -
  have "avl_root T = ptr W" using assms(1) by (simp add: focus_def)
  then show ?thesis using find_loop_ok [of T "[]" W v] assms by (auto simp: avl_tree_find_def)
qed


text \<open>No other element compares equal to an element of the tree.\<close>

lemma only_self:
  assumes "in_order cmp xs" "set xs \<subseteq> S" "a \<in> set xs" "b \<in> set xs" "cmp a b = 0"
  shows "a = b"
proof (rule ccontr)
  assume "a \<noteq> b"
  then obtain us vs where "xs = us @ a # vs \<and> b \<in> set vs \<or> xs = us @ b # vs \<and> a \<in> set vs"
    using assms(3,4) by (metis in_set_conv_decomp split_list_first append_Cons append_assoc in_set_conv_decomp_first set_ConsD Un_iff set_append)
  moreover have "a \<in> S" "b \<in> S" using assms by auto
  ultimately show False using assms(1,5) swap [of a b] by (auto simp: in_order_def sorted_wrt_append)
qed

lemma ins_by_split:
  assumes "\<forall>a\<in>set as. cmp n a = 1" "\<forall>a\<in>set bs. cmp n a = - 1"
  shows "ins_by cmp n (as @ bs) = as @ n # bs"
proof -
  have "takeWhile (\<lambda>a. cmp n a = 1) (as @ bs) = as @ takeWhile (\<lambda>a. cmp n a = 1) bs" using assms(1) by (simp add: takeWhile_append)
  moreover have "dropWhile (\<lambda>a. cmp n a = 1) (as @ bs) = dropWhile (\<lambda>a. cmp n a = 1) bs" using assms(1) by (simp add: dropWhile_append)
  moreover have "takeWhile (\<lambda>a. cmp n a = 1) bs = []" "dropWhile (\<lambda>a. cmp n a = 1) bs = bs" using assms(2) by (cases bs; simp)+
  ultimately show ?thesis by (simp add: ins_by_def)
qed

lemma in_order_ins:
  assumes "in_order cmp (as @ bs)" "set (as @ bs) \<subseteq> S" "n \<in> S" "\<forall>a\<in>set as. cmp n a = 1" "\<forall>a\<in>set bs. cmp n a = - 1"
  shows "in_order cmp (as @ n # bs)"
  using assms swap1 [of n] by (auto simp: in_order_def sorted_wrt_append)

lemma tree_add_ok:
  assumes "avl_rep T xs" "avl_compare T = cmp" "set xs \<subseteq> S" "n \<in> S"
  shows "\<exists>T'. avl_tree_add T n = Some (T', if \<exists>e\<in>set xs. cmp n e = 0 then None else Some n) \<and> avl_compare T' = cmp \<and>
    avl_rep T' (if \<exists>e\<in>set xs. cmp n e = 0 then xs else ins_by cmp n xs)"
proof -
  obtain W where W: "focus T [] W" "avl W" "inord W = xs" using assms(1) by (auto simp: avl_rep_def)
  have ord: "in_order cmp xs" "avl_numnodes T = of_nat (length xs)" using assms(1,2) by (auto simp: avl_rep_def)
  have "in_order cmp (inord W)" "set (inord W) \<subseteq> S" using ord W assms(3) by auto
  from find_ok [OF W(1) assms(2) this assms(4)] show ?thesis
  proof (elim disjE exE conjE)
    fix e ix assume "avl_tree_find T n = Some (Some e, ix)" "e \<in> set (inord W)" "cmp n e = 0"
    then show ?thesis using assms(1,2) W(3) by (auto simp: avl_tree_add_def)
  next
    fix c assume c: "avl_tree_find T n = Some (None, \<lparr>ix_node = cptr c, ix_child = cside c\<rparr>)" "focus T c Tip" "W = plug c Tip"
      "\<forall>a\<in>set (before c). cmp n a = 1" "\<forall>a\<in>set (after c). cmp n a = - 1"
    have xs: "xs = before c @ after c" using W(3) c(3) by (simp add: inord_plug)
    have none: "\<not> (\<exists>e\<in>set xs. cmp n e = 0)" using c(4,5) by (auto simp: xs)
    have "n \<notin> set (inord W)" using none self [OF assms(4)] W(3) by auto
    then have "n \<notin> set (cnodes c)" by (simp add: c(3) set_plug)
    then obtain T' where T': "avl_tree_insert T n \<lparr>ix_node = cptr c, ix_child = cside c\<rparr> = Some T'"
      "rebalanced (T\<lparr>avl_numnodes := avl_numnodes T + 1\<rparr>) T' (before c @ n # after c)"
      using insert_at [OF c(2)] W(2) c(3) by blast
    have "in_order cmp (before c @ n # after c)" using in_order_ins [OF _ _ assms(4) c(4,5)] ord assms(3) xs by auto
    then show ?thesis using T' c(1) none ord(2) assms(2) ins_by_split [OF c(4,5)]
      by (auto simp: avl_tree_add_def avl_rep_def rebalanced_def xs add.commute)
  qed
qed

lemma tree_remove_ok:
  assumes "avl_rep T xs" "avl_compare T = cmp" "set xs \<subseteq> S" "n \<in> S" "tmp \<notin> set xs"
  shows "\<exists>T'. avl_tree_remove tmp T n = Some (T', if n \<in> set xs then Some n else None) \<and> avl_compare T' = cmp \<and> avl_rep T' (remove1 n xs)"
proof -
  obtain W where W: "focus T [] W" "avl W" "inord W = xs" using assms(1) by (auto simp: avl_rep_def)
  have ord: "in_order cmp xs" "avl_numnodes T = of_nat (length xs)" using assms(1,2) by (auto simp: avl_rep_def)
  have "in_order cmp (inord W)" "set (inord W) \<subseteq> S" using ord W assms(3) by auto
  note found = find_ok [OF W(1) assms(2) this assms(4)]
  show ?thesis
  proof (cases "n \<in> set xs")
    case False
    then have "\<exists>r ix. avl_tree_find T n = Some (r, ix) \<and> r \<noteq> Some n" using found W(3) by auto
    then show ?thesis using False assms(1,2) by (auto simp: avl_tree_remove_def remove1_idem)
  next
    case True
    then obtain us vs where xs: "xs = us @ n # vs" by (auto simp: in_set_conv_decomp)
    have d: "distinct xs" using in_order_distinct [OF ord(1) assms(3)] .
    have "\<exists>ix. avl_tree_find T n = Some (Some n, ix)" using found
    proof (elim disjE exE conjE)
      fix e ix assume "avl_tree_find T n = Some (Some e, ix)" "e \<in> set (inord W)" "cmp n e = 0"
      then show ?thesis using only_self [OF ord(1) assms(3) True, of e] W(3) by auto
    next
      fix c assume "W = plug c Tip" "\<forall>a\<in>set (before c). cmp n a = 1" "\<forall>a\<in>set (after c). cmp n a = - 1"
      then show ?thesis using True W(3) self [OF assms(4)] by (auto simp: inord_plug)
    qed
    moreover have "avl_numnodes T \<noteq> 0" using length_small [OF ord(1) assms(3)] ord(2) xs by (simp del: of_nat_Suc of_nat_add)
    ultimately obtain T' where T': "avl_tree_remove tmp T n = Some (T', Some n)" "rebalanced (T\<lparr>avl_numnodes := avl_numnodes T - 1\<rparr>) T' (us @ vs)"
      using remove_found [OF W(1,2) W(3) [unfolded xs], of tmp] assms(5) W(3) by (auto simp: avl_tree_remove_def)
    have "in_order cmp (us @ vs)" using ord(1) by (auto simp: in_order_def xs sorted_wrt_append)
    moreover have "remove1 n xs = us @ vs" using d by (simp add: xs remove1_append)
    ultimately show ?thesis using T' True ord(2) assms(2) by (auto simp: avl_rep_def rebalanced_def xs)
  qed
qed


end

section \<open>Neighbours\<close>

lemma far_value:
  assumes "rep (avl_nodes T) p i t" "ptr t = Some n"
  shows "far_loop T r n = Some (if r then last (inord t) else hd (inord t))"
proof -
  obtain q y ky u where q: "t = plug q (mk r Tip y ky u)" "\<forall>fr\<in>set q. fst fr = r" "far_loop T r n = Some y" using far_loop_ok [OF assms] by blast
  then show ?thesis using path_ends [OF q(2)] by (cases r) (simp_all add: inord_plug inord_mk)
qed

lemma back_loop_ok:
  "focus T c t \<Longrightarrow> ptr t = Some x \<Longrightarrow> back_loop T r x = Some (if r then last_ptr (before c) None else first_ptr (after c) None)"
proof (induction c arbitrary: t x rule: before.induct)
  case 1
  then have "avl_parent (avl_nodes T x) = None" by (cases t) (auto simp: focus_def node_rep_def)
  then show ?case by (subst back_loop.simps) simp
next
  case (2 b y k s c)
  have "avl_parent (avl_nodes T x) = Some y" "avl_child_index (avl_nodes T x) = b" using "2.prems" by (cases t; auto simp: focus_def node_rep_def)+
  moreover have "back_loop T r y = Some (if r then last_ptr (before c) None else first_ptr (after c) None)" if "b \<noteq> r"
    using "2.IH" [of "mk b t y k s" y] "2.prems"(1) by (simp add: focus_up)
  ultimately show ?case by (subst back_loop.simps) (cases b; cases r; simp)
qed

lemma walk_ok:
  assumes "focus T c (Bin l x k r)"
  shows "avl_tree_walk T x False = Some (last_ptr (before c @ inord l) None)" "avl_tree_walk T x True = Some (first_ptr (inord r @ after c) None)"
proof -
  have f: "avl_child (avl_nodes T x) False = ptr l" "avl_child (avl_nodes T x) True = ptr r" "rep (avl_nodes T) (Some x) False l" "rep (avl_nodes T) (Some x) True r"
    using assms by (auto simp: focus_def node_rep_def)
  show "avl_tree_walk T x False = Some (last_ptr (before c @ inord l) None)"
    using f(1) far_value [OF f(3)] back_loop_ok [OF assms, of x True] by (cases l) (auto simp: avl_tree_walk_def last_ptr_def)
  show "avl_tree_walk T x True = Some (first_ptr (inord r @ after c) None)"
  proof (cases r)
    case Tip
    then show ?thesis using f(2) back_loop_ok [OF assms, of x False] by (simp add: avl_tree_walk_def)
  next
    case (Bin l' y k' r')
    then have "inord r \<noteq> []" by simp
    then show ?thesis using f(2) far_value [OF f(4), of y False] Bin by (cases "inord r") (auto simp: avl_tree_walk_def)
  qed
qed

lemma ends_ok:
  assumes "focus T [] W"
  shows "avl_tree_first T = Some (first_ptr (inord W) None)" "avl_tree_last T = Some (last_ptr (inord W) None)"
proof -
  have f: "avl_root T = ptr W" "rep (avl_nodes T) None False W" using assms by (auto simp: focus_def)
  show "avl_tree_first T = Some (first_ptr (inord W) None)"
  proof (cases W)
    case (Bin l x k r)
    then show ?thesis using f far_value [OF f(2), of x False] by (cases "inord l") (auto simp: avl_tree_first_def)
  qed (use f in \<open>simp add: avl_tree_first_def\<close>)
  show "avl_tree_last T = Some (last_ptr (inord W) None)"
  proof (cases W)
    case (Bin l x k r)
    then show ?thesis using f far_value [OF f(2), of x True] by (auto simp: avl_tree_last_def last_ptr_def)
  qed (use f in \<open>simp add: avl_tree_last_def\<close>)
qed

lemma nearest_ok:
  assumes "focus T c Tip"
  shows "avl_tree_nearest T \<lparr>ix_node = cptr c, ix_child = cside c\<rparr> False = Some (last_ptr (before c) None)"
    "avl_tree_nearest T \<lparr>ix_node = cptr c, ix_child = cside c\<rparr> True = Some (first_ptr (after c) None)"
proof -
  have "avl_tree_nearest T \<lparr>ix_node = cptr c, ix_child = cside c\<rparr> d = Some (if d then first_ptr (after c) None else last_ptr (before c) None)" for d
  proof (cases c rule: cptr.cases)
    case 1
    then show ?thesis using assms by (simp add: avl_tree_nearest_def focus_def)
  next
    case (2 b x k s c')
    have f: "focus T c' (mk b Tip x k s)" using assms 2 by (simp add: focus_up)
    then have "avl_child (avl_nodes T x) b = None" by (simp add: focus_def node_rep_def)
    moreover have "back_loop T (\<not> b) x = Some (if \<not> b then last_ptr (before c') None else first_ptr (after c') None)" by (rule back_loop_ok [OF f]) simp
    ultimately show ?thesis by (cases b; cases d) (simp_all add: avl_tree_nearest_def avl_tree_walk_def 2)
  qed
  from this [of False] this [of True] show
    "avl_tree_nearest T \<lparr>ix_node = cptr c, ix_child = cside c\<rparr> False = Some (last_ptr (before c) None)"
    "avl_tree_nearest T \<lparr>ix_node = cptr c, ix_child = cside c\<rparr> True = Some (first_ptr (after c) None)" by simp_all
qed

section \<open>Inserting next to a node\<close>

lemma here_loop_ok:
  assumes "rep (avl_nodes T) p i t" "ptr t = Some n" "\<forall>a\<in>set (inord t). order_check T v a r"
  shows "\<exists>q y ky u. t = plug q (mk r Tip y ky u) \<and> (\<forall>fr\<in>set q. fst fr = r) \<and> here_loop T v r n = Some y"
proof -
  have "here_loop T v r n = far_loop T r n" using assms
  proof (induction t arbitrary: p i n)
    case (Bin l x k rr)
    have "avl_child (avl_nodes T x) r = ptr (if r then rr else l)" using Bin.prems(1) by (cases r) (auto simp: node_rep_def)
    moreover have "here_loop T v r m = far_loop T r m" if "ptr (if r then rr else l) = Some m" for m
      using that Bin.prems Bin.IH by (cases r) auto
    ultimately show ?case using Bin.prems(2,3) by (cases "ptr (if r then rr else l)") (simp_all add: here_loop.simps [of T v r n] far_loop.simps [of T r n])
  qed simp
  then show ?thesis using far_loop_ok [OF assms(1,2), of r] by auto
qed

lemma insert_here_ok:
  assumes f: "focus T c (Bin l x k r)" and av: "avl (plug c (Bin l x k r))" and n: "n \<notin> set (inord (plug c (Bin l x k r)))"
    and chk: "\<forall>a\<in>set (before c @ inord l). order_check T n a True" "\<forall>a\<in>set (inord r @ after c). order_check T n a False" "order_check T n x d"
  shows "\<exists>T'. avl_tree_insert_here T n x d = Some T' \<and>
    rebalanced (T\<lparr>avl_numnodes := avl_numnodes T + 1\<rparr>) T' (before c @ inord l @ (if d then [x, n] else [n, x]) @ inord r @ after c)"
proof -
  define s where "s = (if d then r else l)"
  define u where "u = (if d then l else r)"
  have mk: "Bin l x k r = mk d s x k u" by (simp add: mk_def s_def u_def)
  have fs: "avl_child (avl_nodes T x) d = ptr s" "rep (avl_nodes T) (Some x) d s" using f unfolding mk by (auto simp: focus_def node_rep_def)
  let ?c = "(d, x, k, u) # c"
  have fc: "focus T ?c s" using f unfolding mk by (simp add: focus_up)
  have pl: "plug ?c s = plug c (Bin l x k r)" by (simp add: mk)
  show ?thesis
  proof (cases s)
    case Tip
    then obtain T' where "avl_tree_insert T n \<lparr>ix_node = Some x, ix_child = d\<rparr> = Some T'"
      "rebalanced (T\<lparr>avl_numnodes := avl_numnodes T + 1\<rparr>) T' (before ?c @ n # after ?c)"
      using insert_at [of T ?c n] fc av n pl by (auto simp: set_plug mk)
    then show ?thesis using chk(3) fs(1) Tip by (cases d) (auto simp: avl_tree_insert_here_def s_def u_def)
  next
    case (Bin l' m k' r')
    have "\<forall>a\<in>set (inord s). order_check T n a (\<not> d)" using chk by (auto simp: s_def)
    then obtain q y ky w where q: "s = plug q (mk (\<not> d) Tip y ky w)" "\<forall>fr\<in>set q. fst fr = (\<not> d)" "here_loop T n (\<not> d) m = Some y"
      using here_loop_ok [OF fs(2), of m n "\<not> d"] Bin by auto
    let ?p = "(\<not> d, y, ky, w) # q @ ?c"
    have pl2: "plug ?p Tip = plug c (Bin l x k r)" by (simp add: plug_append mk q(1))
    then have "focus T ?p Tip" using f by (metis focus_plug)
    moreover have "n \<notin> set (cnodes ?p)" "avl (plug ?p Tip)" using n av unfolding pl2 [symmetric] set_plug by auto
    ultimately obtain T' where T': "avl_tree_insert T n \<lparr>ix_node = Some y, ix_child = \<not> d\<rparr> = Some T'"
      "rebalanced (T\<lparr>avl_numnodes := avl_numnodes T + 1\<rparr>) T' (before ?p @ n # after ?p)"
      using insert_at [of T ?p n] by auto
    have "before ?p @ n # after ?p = before c @ inord l @ (if d then [x, n] else [n, x]) @ inord r @ after c"
    proof (cases d)
      case True
      then have "inord r = y # inord w @ after q" "before q = []" using q(1) path_ends [OF q(2)] by (auto simp: s_def inord_plug inord_mk)
      then show ?thesis using True by (simp add: path_append u_def)
    next
      case False
      then have "inord l = before q @ inord w @ [y]" "after q = []" using q(1) path_ends [OF q(2)] by (auto simp: s_def inord_plug inord_mk)
      then show ?thesis using False by (simp add: path_append u_def)
    qed
    then show ?thesis using T' q(3) chk(3) fs(1) Bin by (auto simp: avl_tree_insert_here_def)
  qed
qed

section \<open>Runs\<close>

datatype 'n avl_op = Add 'n | Remove 'n

primrec op_elem :: "'n avl_op \<Rightarrow> 'n" where
  "op_elem (Add n) = n"
| "op_elem (Remove n) = n"

primrec avl_exec :: "'n \<Rightarrow> 'n avl_tree \<Rightarrow> 'n avl_op \<Rightarrow> ('n avl_tree \<times> 'n option) option" where
  "avl_exec tmp T (Add n) = avl_tree_add T n"
| "avl_exec tmp T (Remove n) = avl_tree_remove tmp T n"

primrec avl_run :: "'n \<Rightarrow> 'n avl_tree \<Rightarrow> 'n avl_op list \<Rightarrow> ('n avl_tree \<times> 'n option list) option" where
  "avl_run tmp T [] = Some (T, [])"
| "avl_run tmp T (op # ops) =
     (case avl_exec tmp T op of
        None \<Rightarrow> None
      | Some (T1, r) \<Rightarrow> map_option (\<lambda>(T2, rs). (T2, r # rs)) (avl_run tmp T1 ops))"

primrec avl_spec :: "('n \<Rightarrow> 'n \<Rightarrow> int) \<Rightarrow> 'n list \<Rightarrow> 'n avl_op \<Rightarrow> 'n list \<times> 'n option" where
  "avl_spec cmp xs (Add n) = (if \<exists>e\<in>set xs. cmp n e = 0 then (xs, None) else (ins_by cmp n xs, Some n))"
| "avl_spec cmp xs (Remove n) = (remove1 n xs, if n \<in> set xs then Some n else None)"

primrec avl_spec_run :: "('n \<Rightarrow> 'n \<Rightarrow> int) \<Rightarrow> 'n list \<Rightarrow> 'n avl_op list \<Rightarrow> 'n list \<times> 'n option list" where
  "avl_spec_run cmp xs [] = (xs, [])"
| "avl_spec_run cmp xs (op # ops) = (let (ys, r) = avl_spec cmp xs op; (zs, rs) = avl_spec_run cmp ys ops in (zs, r # rs))"

lemma set_ins_by: "set (ins_by cmp n xs) = insert n (set xs)"
proof -
  have "set (takeWhile (\<lambda>a. cmp n a = 1) xs) \<union> set (dropWhile (\<lambda>a. cmp n a = 1) xs) = set xs" by (metis set_append takeWhile_dropWhile_id)
  then show ?thesis by (simp add: ins_by_def)
qed

text \<open>The depth of the tree is logarithmic in the number of its nodes.\<close>

lemma avl_depth: "avl t \<Longrightarrow> 2 ^ (ht t div 2) \<le> length (inord t) + 1"
proof (induction t)
  case (Bin l x k r)
  define h where "h = ht (Bin l x k r)"
  have hl: "h - 2 \<le> ht l" "h - 2 \<le> ht r" using Bin.prems by (auto simp: h_def)
  have "(2 :: nat) ^ ((h - 2) div 2) \<le> 2 ^ (ht l div 2)" "(2 :: nat) ^ ((h - 2) div 2) \<le> 2 ^ (ht r div 2)" using hl by (auto intro!: power_increasing div_le_mono)
  moreover have "2 ^ (ht l div 2) \<le> length (inord l) + 1" "2 ^ (ht r div 2) \<le> length (inord r) + 1" using Bin by auto
  ultimately have "(2 :: nat) ^ ((h - 2) div 2) \<le> length (inord l) + 1" "(2 :: nat) ^ ((h - 2) div 2) \<le> length (inord r) + 1"
    by (meson le_trans)+
  then have two: "2 * (2 :: nat) ^ ((h - 2) div 2) \<le> length (inord (Bin l x k r)) + 1" by simp
  show ?case
  proof (cases "h < 2")
    case True
    then have "h div 2 = 0" by simp
    then show ?thesis unfolding h_def [symmetric] by simp
  next
    case False
    then have "h div 2 = Suc ((h - 2) div 2)" by simp
    then show ?thesis using two unfolding h_def [symmetric] by simp
  qed
qed simp

lemma create_rep: "avl_rep (avl_tree_create cmp nodes) []" "avl_compare (avl_tree_create cmp nodes) = cmp"
  by (auto simp: avl_rep_def avl_tree_create_def focus_def in_order_def intro!: exI [of _ Tip])

context avl_order
begin

lemma exec_ok:
  assumes "avl_rep T xs" "avl_compare T = cmp" "set xs \<subseteq> S" "op_elem op \<in> S" "tmp \<notin> S"
  shows "\<exists>T'. avl_exec tmp T op = Some (T', snd (avl_spec cmp xs op)) \<and> avl_rep T' (fst (avl_spec cmp xs op)) \<and> avl_compare T' = cmp \<and> set (fst (avl_spec cmp xs op)) \<subseteq> S"
proof (cases op)
  case (Add n)
  then show ?thesis using tree_add_ok [OF assms(1-3), of n] assms(3,4) by (cases "\<exists>e\<in>set xs. cmp n e = 0") (simp_all add: set_ins_by, blast+)
next
  case (Remove n)
  have "set (remove1 n xs) \<subseteq> S" using assms(3) set_remove1_subset by fast
  moreover have "tmp \<notin> set xs" using assms(3,5) by auto
  ultimately show ?thesis using tree_remove_ok [OF assms(1-3), of n tmp] assms(4) Remove by auto
qed

lemma run_ok:
  assumes "avl_rep T xs" "avl_compare T = cmp" "set xs \<subseteq> S" "\<forall>op\<in>set ops. op_elem op \<in> S" "tmp \<notin> S"
  shows "\<exists>T'. avl_run tmp T ops = Some (T', snd (avl_spec_run cmp xs ops)) \<and> avl_rep T' (fst (avl_spec_run cmp xs ops)) \<and> avl_compare T' = cmp \<and>
    set (fst (avl_spec_run cmp xs ops)) \<subseteq> S"
  using assms
proof (induction ops arbitrary: T xs)
  case (Cons op ops)
  obtain T1 where T1: "avl_exec tmp T op = Some (T1, snd (avl_spec cmp xs op))" "avl_rep T1 (fst (avl_spec cmp xs op))" "avl_compare T1 = cmp" "set (fst (avl_spec cmp xs op)) \<subseteq> S"
    using exec_ok [OF Cons.prems(1-3), of op] Cons.prems(4,5) by auto
  from Cons.IH [OF T1(2-4)] Cons.prems(4,5) T1(1) show ?case by (auto simp: split_beta)
qed simp

lemma order_checks:
  assumes "avl_compare T = cmp" "n \<in> S" "a \<in> S"
  shows "order_check T n a d \<longleftrightarrow> cmp n a = (if d then 1 else - 1)"
  using range [OF assms(2,3)] assms(1) by (auto simp: order_check_def Let_def)

lemma insert_here_rep:
  assumes "avl_rep T (us @ x # vs)" "avl_compare T = cmp" "set (us @ x # vs) \<subseteq> S" "n \<in> S" "cmp n x = (if d then 1 else - 1)"
    "\<forall>a\<in>set us. cmp n a = 1" "\<forall>a\<in>set vs. cmp n a = - 1"
  shows "\<exists>T'. avl_tree_insert_here T n x d = Some T' \<and> avl_compare T' = cmp \<and> avl_rep T' (us @ (if d then [x, n] else [n, x]) @ vs)"
proof -
  obtain W where W: "focus T [] W" "avl W" "inord W = us @ x # vs" using assms(1) by (auto simp: avl_rep_def)
  obtain c l k r where c: "W = plug c (Bin l x k r)" "focus T c (Bin l x k r)" "us = before c @ inord l" "vs = inord r @ after c" by (rule focus_at [OF W(1,3)])
  have "cmp n a \<noteq> 0" if "a \<in> set (us @ x # vs)" for a using that assms(5-7) by (auto split: if_splits)
  then have "n \<notin> set (inord (plug c (Bin l x k r)))" using self [OF assms(4)] W(3) c(1) by metis
  moreover have "\<forall>a\<in>set (before c @ inord l). order_check T n a True" "\<forall>a\<in>set (inord r @ after c). order_check T n a False" "order_check T n x d"
    using order_checks [OF assms(2,4)] assms(3,5-7) c(3,4) by auto
  ultimately obtain T' where T': "avl_tree_insert_here T n x d = Some T'"
    "rebalanced (T\<lparr>avl_numnodes := avl_numnodes T + 1\<rparr>) T' (before c @ inord l @ (if d then [x, n] else [n, x]) @ inord r @ after c)"
    using insert_here_ok [OF c(2)] W(2) c(1) by blast
  have seq: "before c @ inord l @ (if d then [x, n] else [n, x]) @ inord r @ after c = us @ (if d then [x, n] else [n, x]) @ vs" by (simp add: c(3,4))
  have "in_order cmp (us @ (if d then [x, n] else [n, x]) @ vs)"
    using assms in_order_ins [of us "x # vs" n] in_order_ins [of "us @ [x]" vs n] by (auto simp: avl_rep_def)
  then show ?thesis using T' assms(1,2) unfolding seq by (auto simp: avl_rep_def rebalanced_def add.commute)
qed

lemma searches:
  assumes "avl_rep T xs" "avl_compare T = cmp" "set xs \<subseteq> S" "v \<in> S"
  shows "\<exists>r ix. avl_tree_find T v = Some (r, ix) \<and>
    (case r of
       Some e \<Rightarrow> e \<in> set xs \<and> cmp v e = 0
     | None \<Rightarrow> (\<forall>e\<in>set xs. cmp v e \<noteq> 0) \<and>
         avl_tree_nearest T ix False = Some (last_ptr (filter (\<lambda>a. cmp v a = 1) xs) None) \<and>
         avl_tree_nearest T ix True = Some (first_ptr (filter (\<lambda>a. cmp v a = - 1) xs) None))"
proof -
  obtain W where W: "focus T [] W" "avl W" "inord W = xs" using assms(1) by (auto simp: avl_rep_def)
  have "in_order cmp (inord W)" "set (inord W) \<subseteq> S" using assms W by (auto simp: avl_rep_def)
  from find_ok [OF W(1) assms(2) this assms(4)] show ?thesis
  proof (elim disjE exE conjE)
    fix e ix assume "avl_tree_find T v = Some (Some e, ix)" "e \<in> set (inord W)" "cmp v e = 0"
    then show ?thesis using W(3) by auto
  next
    fix c assume c: "avl_tree_find T v = Some (None, \<lparr>ix_node = cptr c, ix_child = cside c\<rparr>)" "focus T c Tip" "W = plug c Tip"
      "\<forall>a\<in>set (before c). cmp v a = 1" "\<forall>a\<in>set (after c). cmp v a = - 1"
    have xs: "xs = before c @ after c" using W(3) c(3) by (simp add: inord_plug)
    have "filter (\<lambda>a. cmp v a = 1) xs = before c" "filter (\<lambda>a. cmp v a = - 1) xs = after c" using c(4,5) by (auto simp: xs filter_empty_conv intro!: filter_True)
    then show ?thesis using c(1,4,5) nearest_ok [OF c(2)] by (auto simp: xs)
  qed
qed

end

section \<open>The comparison routines of the kernel\<close>

text \<open>Identifiers, page numbers and addresses are compared as unsigned numbers.\<close>

definition compare_id :: "('n \<Rightarrow> uint) \<Rightarrow> 'n \<Rightarrow> 'n \<Rightarrow> int" where
  "compare_id key a b = (if key a > key b then 1 else if key a < key b then - 1 else 0)"

text \<open>Address ranges that overlap compare equal.\<close>

definition compare_mapping :: "('n \<Rightarrow> addr_t) \<Rightarrow> ('n \<Rightarrow> addr_t) \<Rightarrow> 'n \<Rightarrow> 'n \<Rightarrow> int" where
  "compare_mapping start fin m1 m2 = (if start m1 > fin m2 then 1 else if fin m1 < start m2 then - 1 else 0)"

lemma valid_pointers: "finite {p :: addr_t. p \<noteq> 0 \<and> P p}" "card {p :: addr_t. p \<noteq> 0 \<and> P p} < 2 ^ 32"
proof -
  show "finite {p :: addr_t. p \<noteq> 0 \<and> P p}" by simp
  have "card {p :: addr_t. p \<noteq> 0 \<and> P p} < card (UNIV :: addr_t set)" by (rule psubset_card_mono) auto
  then show "card {p :: addr_t. p \<noteq> 0 \<and> P p} < 2 ^ 32" by (simp add: card_word)
qed

interpretation ids: avl_order "compare_id key" "{p :: addr_t. p \<noteq> 0}" for key
  by unfold_locales (use valid_pointers(2) [of "\<lambda>_. True"] in \<open>auto simp: compare_id_def split: if_splits\<close>)

interpretation ranges: avl_order "compare_mapping start fin" "{p :: addr_t. p \<noteq> 0 \<and> start p \<le> fin p}" for start fin
  by unfold_locales (use valid_pointers(2) [of "\<lambda>p. start p \<le> fin p"] in \<open>auto simp: compare_mapping_def split: if_splits\<close>)

lemma avl_order_subset: "avl_order cmp S \<Longrightarrow> S' \<subseteq> S \<Longrightarrow> avl_order cmp S'"
  unfolding avl_order_def by (meson card_mono finite_subset le_less_trans subsetD)

section \<open>Theorems\<close>

text \<open>
  C13. Every sequence of additions and removals on a new AVL tree returns, whatever the order of the
  elements: the tree always holds the elements of an ordered list with insertion and deletion, the
  results of the calls agree with that list, the stored number of nodes is its length, every stored
  balance is the difference of the heights below and at most one, and the height is logarithmic.
\<close>

theorem avl_run_refines_sequences:
  assumes "avl_order cmp S" "\<forall>op\<in>set ops. op_elem op \<in> S" "tmp \<notin> S"
  shows "\<exists>T' W. avl_run tmp (avl_tree_create cmp nodes) ops = Some (T', snd (avl_spec_run cmp [] ops)) \<and>
    focus T' [] W \<and> avl W \<and> inord W = fst (avl_spec_run cmp [] ops) \<and> in_order cmp (inord W) \<and>
    avl_numnodes T' = of_nat (length (inord W)) \<and> 2 ^ (ht W div 2) \<le> length (inord W) + 1"
proof -
  obtain T' where T': "avl_run tmp (avl_tree_create cmp nodes) ops = Some (T', snd (avl_spec_run cmp [] ops))"
    "avl_rep T' (fst (avl_spec_run cmp [] ops))" "avl_compare T' = cmp"
    using avl_order.run_ok [OF assms(1) create_rep(1) create_rep(2) _ assms(2,3)] by auto
  then show ?thesis using avl_depth by (fastforce simp: avl_rep_def)
qed

definition demo_ops :: "addr_t avl_op list" where
  "demo_ops = [Add 3, Add 1, Add 2, Add 2, Remove 3]"

lemma demo_order: "avl_order (compare_id (\<lambda>p. p)) {1, 2, 3 :: addr_t}"
  by (rule avl_order_subset [OF ids.avl_order_axioms]) auto

lemma demo_ops_ok: "\<forall>op\<in>set demo_ops. op_elem op \<in> {1, 2, 3}" "(100 :: addr_t) \<notin> {1, 2, 3}"
  by (auto simp: demo_ops_def)

lemma demo_spec: "avl_spec_run (compare_id (\<lambda>p. p)) [] demo_ops = ([1, 2], [Some 3, Some 1, Some 2, None, Some 3])"
  by (simp add: demo_ops_def compare_id_def ins_by_def)

theorem avl_run_refines_sequences_witness:
  "\<exists>T' W. avl_run 100 (avl_tree_create (compare_id (\<lambda>p. p)) (\<lambda>_. undefined)) demo_ops = Some (T', [Some 3, Some 1, Some 2, None, Some 3]) \<and>
    focus T' [] W \<and> inord W = [1, 2] \<and> avl_numnodes T' = 2"
  using avl_run_refines_sequences [OF demo_order demo_ops_ok, of "\<lambda>_. undefined"] by (fastforce simp: demo_spec)

lemma rep_balance: "rep h p b t \<Longrightarrow> avl t \<Longrightarrow> z \<in> set (inord t) \<Longrightarrow> avl_balance (h z) \<in> {- 1, 0, 1}"
  by (induction t arbitrary: p b) (auto simp: node_rep_def)

text \<open>
  C16. In every tree that additions and removals produce, the nodes are well formed: a balance is -1, 0
  or 1; a child belongs to the tree, has the node as its parent and knows on which side it is; a
  parent belongs to the tree and has the node as the child of the stored index; and only the root
  has no parent. The removed nodes and the node on the stack are not referred to any more.
\<close>

theorem avl_nodes_well_formed:
  assumes "avl_order cmp S" "\<forall>op\<in>set ops. op_elem op \<in> S" "tmp \<notin> S" "avl_run tmp (avl_tree_create cmp nodes) ops = Some (T, rs)"
    "x \<in> set (fst (avl_spec_run cmp [] ops))"
  shows "avl_balance (avl_nodes T x) \<in> {- 1, 0, 1} \<and>
    (\<forall>i y. avl_child (avl_nodes T x) i = Some y \<longrightarrow>
       y \<in> set (fst (avl_spec_run cmp [] ops)) \<and> avl_parent (avl_nodes T y) = Some x \<and> avl_child_index (avl_nodes T y) = i) \<and>
    (\<forall>p. avl_parent (avl_nodes T x) = Some p \<longrightarrow>
       p \<in> set (fst (avl_spec_run cmp [] ops)) \<and> avl_child (avl_nodes T p) (avl_child_index (avl_nodes T x)) = Some x) \<and>
    (avl_parent (avl_nodes T x) = None \<longleftrightarrow> avl_root T = Some x)"
proof -
  obtain W where W: "focus T [] W" "avl W" "inord W = fst (avl_spec_run cmp [] ops)"
    using avl_order.run_ok [OF assms(1) create_rep(1) create_rep(2) _ assms(2,3), of nodes] assms(4) by (auto simp: avl_rep_def)
  have r: "rep (avl_nodes T) None False W" "distinct (inord W)" "avl_root T = ptr W" "x \<in> set (inord W)" using W assms(5) by (auto simp: focus_def)
  have "p \<in> set (inord W) \<and> avl_child (avl_nodes T p) (avl_child_index (avl_nodes T x)) = Some x" if "avl_parent (avl_nodes T x) = Some p" for p
    using rep_parent [OF r(1,4)] root_parent [OF r(1,2,4)] that by fastforce
  then show ?thesis unfolding W(3) [symmetric]
    using rep_balance [OF r(1) W(2) r(4)] rep_child [OF r(1,4)] root_parent [OF r(1,2,4)] r(3) by auto
qed

theorem avl_nodes_well_formed_witness:
  "\<exists>T rs. avl_run 100 (avl_tree_create (compare_id (\<lambda>p. p)) (\<lambda>_. undefined)) demo_ops = Some (T, rs) \<and>
    avl_balance (avl_nodes T 1) \<in> {- 1, 0, 1} \<and> (avl_parent (avl_nodes T 1) = None \<longleftrightarrow> avl_root T = Some 1)"
proof -
  obtain T rs where T: "avl_run 100 (avl_tree_create (compare_id (\<lambda>p. p)) (\<lambda>_. undefined)) demo_ops = Some (T, rs)"
    using avl_order.run_ok [OF demo_order create_rep(1) create_rep(2) _ demo_ops_ok, of "\<lambda>_. undefined"] by auto
  then show ?thesis using avl_nodes_well_formed [OF demo_order demo_ops_ok T, of 1] by (auto simp: demo_spec)
qed

text \<open>
  C17. On a tree that represents an ordered list, \<^verbatim>\<open>avl_tree_find\<close> returns an element that compares equal
  to the value, or a null pointer when there is none, with a place from which \<^verbatim>\<open>avl_tree_nearest\<close> gives the
  greatest smaller and the least greater element; \<^verbatim>\<open>avl_tree_first\<close> and \<^verbatim>\<open>avl_tree_last\<close> return the ends and
  \<^verbatim>\<open>avl_tree_walk\<close> the neighbours of an element in the list.
\<close>

theorem avl_searches_correct:
  assumes "avl_order cmp S" "avl_rep T xs" "avl_compare T = cmp" "set xs \<subseteq> S" "v \<in> S"
  shows "(\<exists>r ix. avl_tree_find T v = Some (r, ix) \<and>
     (case r of
       Some e \<Rightarrow> e \<in> set xs \<and> cmp v e = 0
     | None \<Rightarrow> (\<forall>e\<in>set xs. cmp v e \<noteq> 0) \<and>
         avl_tree_nearest T ix False = Some (last_ptr (filter (\<lambda>a. cmp v a = 1) xs) None) \<and>
         avl_tree_nearest T ix True = Some (first_ptr (filter (\<lambda>a. cmp v a = - 1) xs) None))) \<and>
    avl_tree_first T = Some (first_ptr xs None) \<and> avl_tree_last T = Some (last_ptr xs None) \<and>
    (\<forall>us x vs. xs = us @ x # vs \<longrightarrow> avl_tree_walk T x False = Some (last_ptr us None) \<and> avl_tree_walk T x True = Some (first_ptr vs None))"
proof (intro conjI allI impI)
  obtain W where W: "focus T [] W" "avl W" "inord W = xs" using assms(2) by (auto simp: avl_rep_def)
  show "avl_tree_first T = Some (first_ptr xs None)" "avl_tree_last T = Some (last_ptr xs None)" using ends_ok [OF W(1)] W(3) by auto
  fix us x vs assume "xs = us @ x # vs"
  then obtain c l k r where c: "focus T c (Bin l x k r)" "us = before c @ inord l" "vs = inord r @ after c" using focus_at [OF W(1), of us x vs] W(3) by metis
  show "avl_tree_walk T x False = Some (last_ptr us None)" "avl_tree_walk T x True = Some (first_ptr vs None)" using walk_ok [OF c(1)] c(2,3) by simp_all
qed (rule avl_order.searches [OF assms])

theorem avl_searches_correct_witness:
  "\<exists>T. avl_tree_first T = Some (Some (1 :: addr_t)) \<and> avl_tree_walk T 1 True = Some (Some 2) \<and> avl_tree_walk T 2 True = Some None"
proof -
  obtain T where T: "avl_rep T [1, 2 :: addr_t]" "avl_compare T = compare_id (\<lambda>p. p)"
    using avl_order.run_ok [OF demo_order create_rep(1) create_rep(2) _ demo_ops_ok, of undefined] by (auto simp: demo_spec)
  note s = avl_searches_correct [OF demo_order T, of 1, THEN conjunct2]
  have "avl_tree_walk T 1 True = Some (first_ptr [2] None)" "avl_tree_walk T 2 True = Some (first_ptr [] None)"
    using s [THEN conjunct2, THEN conjunct2, THEN spec, THEN spec, THEN spec, of "[]" 1 "[2]"]
      s [THEN conjunct2, THEN conjunct2, THEN spec, THEN spec, THEN spec, of "[1]" 2 "[]"] by simp_all
  then show ?thesis using s by auto
qed

text \<open>
  C18. Taking a tree apart with \<^verbatim>\<open>avl_tree_destroy_nodes\<close> returns every node exactly once and then a null
  pointer, after as many calls as there are nodes and one more; no assertion fails on the way, and the
  tree left behind is accepted by \<^verbatim>\<open>avl_tree_destroy\<close>.
\<close>

theorem avl_destroy_returns_all:
  assumes "avl_rep T xs" "length xs < 2 ^ 32"
  shows "\<exists>T' ck ys. destroy_calls (Suc (length xs)) T AVL_TREE_COOKIE_INIT = Some (T', ck, map Some ys @ [None]) \<and>
    mset ys = mset xs \<and> distinct ys \<and> avl_tree_destroy T' = Some 0"
proof -
  obtain W where W: "focus T [] W" "avl W" "inord W = xs" "avl_numnodes T = of_nat (length xs)" using assms(1) by (auto simp: avl_rep_def)
  obtain T' ck where T': "destroy_calls (Suc (length xs)) T AVL_TREE_COOKIE_INIT = Some (T', ck, map Some (postord W) @ [None])"
    "avl_root T' = None" "avl_numnodes T' = 0" using destroy_walk [OF W(1,2)] W(3,4) assms(2) by auto
  have m: "mset (postord W) = mset xs" by (simp add: postord_mset W(3))
  moreover have "distinct (postord W)" using W(1,3) mset_eq_imp_distinct_iff [OF m] by (simp add: focus_def)
  ultimately show ?thesis using T' by (auto simp: avl_tree_destroy_def)
qed

theorem avl_destroy_returns_all_witness:
  "\<exists>T T' ck ys. destroy_calls 3 T AVL_TREE_COOKIE_INIT = Some (T', ck, map Some ys @ [None]) \<and> mset ys = {#1, 2 :: addr_t#} \<and> avl_tree_destroy T' = Some 0"
proof -
  obtain T where T: "avl_rep T [1, 2 :: addr_t]"
    using avl_order.run_ok [OF demo_order create_rep(1) create_rep(2) _ demo_ops_ok, of undefined] by (auto simp: demo_spec)
  from avl_destroy_returns_all [OF this] show ?thesis by (auto simp: numeral_3_eq_3 simp del: destroy_calls.simps)
qed

end
