(* ===== verification/Sorted_Index.thy ===== *)
theory Sorted_Index
  imports Avl_Runs Xlist
begin

text \<open>
  Several modules keep their elements in an AVL tree and in a list that is sorted like the tree: a new
  element is linked into the list next to the node the search in the tree ended at. The comparison
  routine reads the elements in memory, so it changes when an element is initialised, while the tree
  is the same.
\<close>

definition tree_seq :: "'n avl_tree \<Rightarrow> 'n list \<Rightarrow> bool" where
  "tree_seq T xs \<longleftrightarrow> (\<exists>W. focus T [] W \<and> avl W \<and> inord W = xs) \<and> avl_numnodes T = of_nat (length xs)"

lemma avl_rep_seq: "avl_rep T xs \<longleftrightarrow> tree_seq T xs \<and> in_order (avl_compare T) xs"
  by (auto simp: avl_rep_def tree_seq_def)

lemma focus_compare [simp]: "focus (T\<lparr>avl_compare := f\<rparr>) c t \<longleftrightarrow> focus T c t"
  by (simp add: focus_def)

lemma tree_seq_compare [simp]: "tree_seq (T\<lparr>avl_compare := f\<rparr>) xs \<longleftrightarrow> tree_seq T xs"
  by (simp add: tree_seq_def)

lemma tree_seq_distinct: "tree_seq T xs \<Longrightarrow> distinct xs"
  by (auto simp: tree_seq_def focus_def)

lemma tree_seq_create: "tree_seq (avl_tree_create cmp nodes) []"
  using create_rep(1) by (metis avl_rep_seq)

text \<open>A place of the tree that divides its elements in two parts.\<close>

definition place :: "'n avl_tree \<Rightarrow> 'n avl_tree_index \<Rightarrow> 'n list \<Rightarrow> 'n list \<Rightarrow> bool" where
  "place T ix us vs \<longleftrightarrow> (\<exists>c. ix = \<lparr>ix_node = cptr c, ix_child = cside c\<rparr> \<and> focus T c Tip \<and> avl (plug c Tip) \<and> us = before c \<and> vs = after c)"

lemma place_compare [simp]: "place (T\<lparr>avl_compare := f\<rparr>) ix us vs \<longleftrightarrow> place T ix us vs"
  by (simp add: place_def)

lemma place_neighbour:
  assumes "place T ix us vs"
  obtains "ix_node ix = None" "us = []" "vs = []"
  | p ws where "ix_node ix = Some p" "\<not> ix_child ix" "vs = p # ws"
  | p ws where "ix_node ix = Some p" "ix_child ix" "us = ws @ [p]"
proof -
  obtain c where c: "ix = \<lparr>ix_node = cptr c, ix_child = cside c\<rparr>" "us = before c" "vs = after c" using assms by (auto simp: place_def)
  show thesis
  proof (cases c rule: cptr.cases)
    case 1
    then show thesis using c that(1) by simp
  next
    case (2 b x k s d)
    then show thesis using c that(2,3) by (cases b) simp_all
  qed
qed

lemma insert_place:
  assumes "place T ix us vs" "n \<notin> set (us @ vs)" "avl_numnodes T = of_nat (length (us @ vs))"
  shows "\<exists>T'. avl_tree_insert T n ix = Some T' \<and> tree_seq T' (us @ n # vs) \<and> avl_compare T' = avl_compare T"
proof -
  obtain c where c: "ix = \<lparr>ix_node = cptr c, ix_child = cside c\<rparr>" "focus T c Tip" "avl (plug c Tip)" "us = before c" "vs = after c"
    using assms(1) by (auto simp: place_def)
  have "n \<notin> set (inord (plug c Tip))" using assms(2) c(4,5) by (simp add: inord_plug)
  then have "n \<notin> set (cnodes c)" by (simp add: set_plug)
  from insert_at [OF c(2,3) this] show ?thesis using assms(3) c by (auto simp: rebalanced_def tree_seq_def add.commute)
qed

context avl_order
begin

lemma find_place:
  assumes "tree_seq T xs" "in_order cmp xs" "avl_compare T = cmp" "set xs \<subseteq> S" "v \<in> S"
  obtains e ix where "avl_tree_find T v = Some (Some e, ix)" "e \<in> set xs" "cmp v e = 0"
  | ix us vs where "avl_tree_find T v = Some (None, ix)" "xs = us @ vs" "place T ix us vs"
      "\<forall>a\<in>set us. cmp v a = 1" "\<forall>a\<in>set vs. cmp v a = - 1"
proof -
  obtain W where W: "focus T [] W" "avl W" "inord W = xs" using assms(1) by (auto simp: tree_seq_def)
  have "in_order cmp (inord W)" "set (inord W) \<subseteq> S" using assms W by auto
  from find_ok [OF W(1) assms(3) this assms(5)] show thesis
  proof (elim disjE exE conjE)
    fix e ix assume "avl_tree_find T v = Some (Some e, ix)" "e \<in> set (inord W)" "cmp v e = 0"
    then show thesis using that(1) W(3) by simp
  next
    fix c assume c: "avl_tree_find T v = Some (None, \<lparr>ix_node = cptr c, ix_child = cside c\<rparr>)" "focus T c Tip" "W = plug c Tip"
      "\<forall>a\<in>set (before c). cmp v a = 1" "\<forall>a\<in>set (after c). cmp v a = - 1"
    have "xs = before c @ after c" using W(3) c(3) by (simp add: inord_plug)
    moreover have "place T \<lparr>ix_node = cptr c, ix_child = cside c\<rparr> (before c) (after c)" using c(2,3) W(2) by (auto simp: place_def)
    ultimately show thesis using that(2) c(1,4,5) by blast
  qed
qed

lemma remove_seq:
  assumes "tree_seq T xs" "in_order cmp xs" "avl_compare T = cmp" "set xs \<subseteq> S" "n \<in> S" "tmp \<notin> set xs"
  shows "\<exists>T'. avl_tree_remove tmp T n = Some (T', if n \<in> set xs then Some n else None) \<and> avl_compare T' = cmp \<and> tree_seq T' (remove1 n xs)"
  using tree_remove_ok [OF _ assms(3,4,5,6)] assms(1,2,3) by (auto simp: avl_rep_seq)

end

section \<open>The list next to the tree\<close>

text \<open>The list is linked at the place where the tree was extended.\<close>

definition link_unsafe :: "'n nodes \<Rightarrow> 'n xlist \<Rightarrow> 'n avl_tree_index \<Rightarrow> 'n \<Rightarrow> 'n nodes \<times> 'n xlist \<times> uint" where
  "link_unsafe h l ix n =
     (case ix_node ix of
        None \<Rightarrow> xlist_add_first h l n
      | Some parent \<Rightarrow> if \<not> ix_child ix then xlist_insert_before_unsafe h l parent n else xlist_insert_after_unsafe h l parent n)"

definition link_checked :: "'n nodes \<Rightarrow> 'n xlist \<Rightarrow> 'n avl_tree_index \<Rightarrow> 'n \<Rightarrow> ('n nodes \<times> 'n xlist \<times> uint) option" where
  "link_checked h l ix n =
     (case ix_node ix of
        None \<Rightarrow> Some (xlist_add_first h l n)
      | Some parent \<Rightarrow> if \<not> ix_child ix then xlist_insert_before h l parent n else xlist_insert_after h l parent n)"

lemma link_unsafe_ok:
  assumes "place T ix us vs" "xlist_rep h l (us @ vs)" "n \<notin> set (us @ vs)" "link_unsafe h l ix n = (h', l', r)"
  shows "xlist_rep h' l' (us @ n # vs) \<and> r = 1 \<and> same_outside (insert n (set (us @ vs))) h h'"
proof (rule place_neighbour [OF assms(1)])
  assume "ix_node ix = None" "us = []" "vs = []"
  then show ?thesis using assms(2,4) xlist_add_first_rep [of h l "[]" n] by (simp add: link_unsafe_def)
next
  fix p ws assume "ix_node ix = Some p" "\<not> ix_child ix" "vs = p # ws"
  then show ?thesis using assms xlist_insert_before_unsafe_rep [of h l us p ws n h' l' r]
    by (simp add: link_unsafe_def insert_commute)
next
  fix p ws assume "ix_node ix = Some p" "ix_child ix" "us = ws @ [p]"
  then show ?thesis using assms xlist_insert_after_unsafe_rep [of h l ws p vs n h' l' r]
    by (simp add: link_unsafe_def insert_commute)
qed

lemma link_checked_unsafe:
  assumes "place T ix us vs" "xlist_rep h l (us @ vs)"
  shows "link_checked h l ix n = Some (link_unsafe h l ix n)"
  by (rule place_neighbour [OF assms(1)])
     (use assms(2) in \<open>auto simp: link_checked_def link_unsafe_def xlist_insert_before_def xlist_insert_after_def xlist_search_rep\<close>)

end
