(* ===== verification/Vm_Map.thy ===== *)
theory Vm_Map
  imports Sorted_Index Boot_Alloc
begin

text \<open>
  The memory map of an address space (\<^verbatim>\<open>kernel/vm/vm_address_space.c\<close>): mappings of address ranges in a sorted
  list and in an AVL tree, the search for a gap, and the creation, deletion and lookup of mappings.

  The mappings of all address spaces are structures at addresses of the kernel heap, with their
  links; the result of \<^verbatim>\<open>kmalloc\<close> is an argument of the operations, as is the address of a structure on
  the stack. The spinlock of the address space is held over each operation.
\<close>

section \<open>Data\<close>

datatype mapping_type = VM_MAPPING_TYPE_HOLE | VM_MAPPING_TYPE_OBJECT | VM_MAPPING_TYPE_SUBMAP

record vm_mapping =
  mp_start :: addr_t
  mp_end :: addr_t
  mp_mmap :: addr_t
  mp_object :: "addr_t option"
  mp_offset :: addr_t
  mp_type :: mapping_type
  mp_protect :: uint

record mapping_store =
  ms_map :: "addr_t \<Rightarrow> vm_mapping"
  ms_list_node :: "addr_t nodes"
  ms_obj_list_node :: "addr_t nodes"

record vm_memory_map =
  mm_base :: addr_t
  mm_size :: size_t
  mm_aspace :: addr_t
  mm_list :: "addr_t xlist"
  mm_tree :: "addr_t avl_tree"

datatype vm_panic = No_Memory_For_Mapping | Failed_To_Remove_Mapping | No_Mapping_In_Object

type_synonym 'a vresult = "(vm_panic + 'a) option"

definition USER_BASE :: addr_t where "USER_BASE = 0x00001000"
definition USER_SIZE :: size_t where "USER_SIZE = 0xBFFFE000"
definition USER_TOP :: addr_t where "USER_TOP = USER_BASE + USER_SIZE - 1"

text \<open>The tree compares the mappings in memory.\<close>

definition mappings_tree :: "mapping_store \<Rightarrow> vm_memory_map \<Rightarrow> addr_t avl_tree" where
  "mappings_tree ms mm = (mm_tree mm)\<lparr>avl_compare := compare_mapping (\<lambda>p. mp_start (ms_map ms p)) (\<lambda>p. mp_end (ms_map ms p))\<rparr>"

section \<open>Operations\<close>

text \<open>The memory map of a new address space.\<close>

definition init_memory_map :: "mapping_store \<Rightarrow> addr_t \<Rightarrow> size_t \<Rightarrow> addr_t \<Rightarrow> vm_memory_map \<Rightarrow> vm_memory_map" where
  "init_memory_map ms base sz aspace mm =
     mm\<lparr>mm_base := base, mm_size := sz, mm_list := fst (xlist_init (mm_list mm)),
        mm_tree := avl_tree_create (compare_mapping (\<lambda>p. mp_start (ms_map ms p)) (\<lambda>p. mp_end (ms_map ms p))) (avl_nodes (mm_tree mm)), mm_aspace := aspace\<rparr>"

text \<open>A gap before a mapping, or where the space after the last one starts.\<close>

partial_function (option) gap_loop :: "mapping_store \<Rightarrow> size_t \<Rightarrow> addr_t option \<Rightarrow> addr_t \<Rightarrow> (addr_t + addr_t) option" where
  "gap_loop ms sz item start =
     (case item of
        None \<Rightarrow> Some (Inr start)
      | Some mapping \<Rightarrow>
          (let fin = mp_start (ms_map ms mapping) - 1 in
           if sz \<le> fin - start + 1 then Some (Inl start)
           else gap_loop ms sz (xlist_peek_next (ms_list_node ms) mapping) (mp_end (ms_map ms mapping) + 1)))"

definition locate_memory_gap :: "mapping_store \<Rightarrow> vm_memory_map \<Rightarrow> size_t \<Rightarrow> addr_t option option" where
  "locate_memory_gap ms mm sz =
     (case xlist_peek_first (mm_list mm) of
        None \<Rightarrow> Some (if sz \<le> mm_size mm then Some (mm_base mm) else None)
      | Some item \<Rightarrow>
          (case gap_loop ms sz (Some item) (mm_base mm) of
             None \<Rightarrow> None
           | Some (Inl start) \<Rightarrow> Some (Some start)
           | Some (Inr start) \<Rightarrow>
               (let fin = mm_base mm + mm_size mm - 1 in
                Some (if sz \<le> fin - start + 1 then Some start else None))))"

definition put_mapping_to_aspace ::
  "mapping_store \<Rightarrow> vm_memory_map \<Rightarrow> addr_t \<Rightarrow> (mapping_store \<times> vm_memory_map \<times> bool) option" where
  "put_mapping_to_aspace ms mm mapping =
     (case avl_tree_find (mappings_tree ms mm) mapping of
        None \<Rightarrow> None
      | Some (Some _, _) \<Rightarrow> Some (ms, mm, False)
      | Some (None, ix) \<Rightarrow>
          (case avl_tree_insert (mappings_tree ms mm) mapping ix of
             None \<Rightarrow> None
           | Some t \<Rightarrow>
               (let (h, l, _) = link_unsafe (ms_list_node ms) (mm_list mm) ix mapping
                in Some (ms\<lparr>ms_list_node := h\<rparr>, mm\<lparr>mm_tree := t, mm_list := l\<rparr>, True))))"

definition remove_mapping_from_aspace ::
  "addr_t \<Rightarrow> mapping_store \<Rightarrow> vm_memory_map \<Rightarrow> addr_t \<Rightarrow> (mapping_store \<times> vm_memory_map \<times> bool) option" where
  "remove_mapping_from_aspace stk ms mm mapping =
     (case avl_tree_remove stk (mappings_tree ms mm) mapping of
        None \<Rightarrow> None
      | Some (t, None) \<Rightarrow> Some (ms, mm\<lparr>mm_tree := t\<rparr>, False)
      | Some (t, Some _) \<Rightarrow>
          (case xlist_remove (ms_list_node ms) (mm_list mm) mapping of
             None \<Rightarrow> None
           | Some (h, l, r) \<Rightarrow> Some (ms\<lparr>ms_list_node := h\<rparr>, mm\<lparr>mm_tree := t, mm_list := l\<rparr>, r \<noteq> 0)))"

definition new_mapping :: "vm_memory_map \<Rightarrow> addr_t \<Rightarrow> size_t \<Rightarrow> vm_mapping" where
  "new_mapping mm base sz =
     \<lparr>mp_start = base, mp_end = base + sz - 1, mp_mmap = mm_aspace mm, mp_object = None, mp_offset = 0, mp_type = VM_MAPPING_TYPE_HOLE, mp_protect = 0\<rparr>"

definition vm_aspace_create_mapping_exactly ::
  "addr_t option \<Rightarrow> mapping_store \<Rightarrow> vm_memory_map \<Rightarrow> addr_t \<Rightarrow> size_t \<Rightarrow> (mapping_store \<times> vm_memory_map \<times> status \<times> addr_t) vresult" where
  "vm_aspace_create_mapping_exactly kmem ms mm base sz =
     (if base < mm_base mm \<or> sz > mm_size mm \<or> sz = 0 then Some (Inr (ms, mm, ERR_INVALID_ARGS, 0))
      else (case kmem of
              None \<Rightarrow> Some (Inl No_Memory_For_Mapping)
            | Some mapping \<Rightarrow>
                (let ms1 = ms\<lparr>ms_map := (ms_map ms)(mapping := new_mapping mm base sz)\<rparr>;
                     ms2 = ms1\<lparr>ms_list_node := fst (xlist_elem_init (ms_list_node ms1) mapping)\<rparr>;
                     ms3 = ms2\<lparr>ms_obj_list_node := fst (xlist_elem_init (ms_obj_list_node ms2) mapping)\<rparr>
                 in case put_mapping_to_aspace ms3 mm mapping of
                      None \<Rightarrow> None
                    | Some (ms4, mm1, ok) \<Rightarrow> Some (Inr (ms4, mm1, if ok then NO_ERROR else ERR_VM_BAD_ADDRESS, mapping)))))"

definition vm_aspace_create_mapping ::
  "addr_t option \<Rightarrow> mapping_store \<Rightarrow> vm_memory_map \<Rightarrow> size_t \<Rightarrow> uint \<Rightarrow> (mapping_store \<times> vm_memory_map \<times> status \<times> addr_t) vresult" where
  "vm_aspace_create_mapping kmem ms mm sz npg_align =
     (if sz = 0 then Some (Inr (ms, mm, ERR_INVALID_ARGS, 0))
      else
        (let (align, size_pad) = (if npg_align < 2 then (0, 0) else (npg_align * PAGE_SIZE, npg_align * PAGE_SIZE - PAGE_SIZE))
         in case locate_memory_gap ms mm (sz + size_pad) of
              None \<Rightarrow> None
            | Some None \<Rightarrow> Some (Inr (ms, mm, ERR_VM_NO_MAPPING_GAP, 0))
            | Some (Some base_addr) \<Rightarrow>
                (let base_addr = (if align \<noteq> 0 then (base_addr + align - 1) div align * align else base_addr)
                 in vm_aspace_create_mapping_exactly kmem ms mm base_addr sz)))"

definition vm_aspace_delete_mapping ::
  "addr_t \<Rightarrow> mapping_store \<Rightarrow> vm_memory_map \<Rightarrow> addr_t \<Rightarrow> (mapping_store \<times> vm_memory_map) vresult" where
  "vm_aspace_delete_mapping stk ms mm mapping =
     (case remove_mapping_from_aspace stk ms mm mapping of
        None \<Rightarrow> None
      | Some (ms1, mm1, ok) \<Rightarrow> Some (if ok then Inr (ms1, mm1) else Inl Failed_To_Remove_Mapping))"

definition vm_aspace_get_mapping :: "addr_t \<Rightarrow> mapping_store \<Rightarrow> vm_memory_map \<Rightarrow> addr_t \<Rightarrow> (status \<times> addr_t option) option" where
  "vm_aspace_get_mapping stk ms mm vaddr =
     (if vaddr < mm_base mm \<or> vaddr > mm_base mm + mm_size mm - 1 then Some (ERR_VM_BAD_ADDRESS, None)
      else (let ms1 = ms\<lparr>ms_map := (ms_map ms)(stk := (ms_map ms stk)\<lparr>mp_start := vaddr, mp_end := vaddr\<rparr>)\<rparr>
            in case avl_tree_find (mappings_tree ms1 mm) stk of
                 None \<Rightarrow> None
               | Some (None, _) \<Rightarrow> Some (ERR_VM_NO_MAPPING, None)
               | Some (Some mapping, _) \<Rightarrow> Some (NO_ERROR, Some mapping)))"

declare gap_loop.simps [code]

section \<open>Representation\<close>

lemma unat_last:
  fixes b n :: "32 word"
  assumes "unat b + unat n \<le> 2 ^ 32" "0 < n"
  shows "unat (b + n - 1) = unat b + unat n - 1"
proof -
  have pos: "0 < unat n" using assms(2) by (simp add: word_less_nat_alt)
  have n1: "unat (n - 1) = unat n - 1" using assms(2) by (simp add: unat_minus_one word_neq_0_conv)
  have "unat (b + (n - 1)) = unat b + unat (n - 1)" by (rule unat_add_small) (use assms(1) pos n1 in simp)
  then show ?thesis using n1 pos by (simp add: add_diff_eq)
qed

definition first_addr :: "mapping_store \<Rightarrow> addr_t \<Rightarrow> nat" where
  "first_addr ms m = unat (mp_start (ms_map ms m))"

definition past_addr :: "mapping_store \<Rightarrow> addr_t \<Rightarrow> nat" where
  "past_addr ms m = unat (mp_end (ms_map ms m)) + 1"

lemma addr_small: "first_addr ms m < 2 ^ 32" "past_addr ms m \<le> 2 ^ 32"
proof -
  have "unat (mp_end (ms_map ms m)) < 2 ^ LENGTH(32)" "unat (mp_start (ms_map ms m)) < 2 ^ LENGTH(32)" by (rule unsigned_less)+
  then show "first_addr ms m < 2 ^ 32" "past_addr ms m \<le> 2 ^ 32" by (simp_all add: first_addr_def past_addr_def)
qed

definition ranges_ok :: "mapping_store \<Rightarrow> addr_t list \<Rightarrow> bool" where
  "ranges_ok ms xs \<longleftrightarrow> sorted_wrt (\<lambda>a b. past_addr ms a \<le> first_addr ms b) xs \<and> (\<forall>m\<in>set xs. m \<noteq> 0 \<and> first_addr ms m < past_addr ms m)"

definition map_rep :: "mapping_store \<Rightarrow> vm_memory_map \<Rightarrow> addr_t list \<Rightarrow> bool" where
  "map_rep ms mm xs \<longleftrightarrow> tree_seq (mm_tree mm) xs \<and> xlist_rep (ms_list_node ms) (mm_list mm) xs \<and> ranges_ok ms xs"

definition map_inside :: "mapping_store \<Rightarrow> vm_memory_map \<Rightarrow> addr_t list \<Rightarrow> bool" where
  "map_inside ms mm xs \<longleftrightarrow> (\<forall>m\<in>set xs. unat (mm_base mm) \<le> first_addr ms m \<and> past_addr ms m \<le> unat (mm_base mm) + unat (mm_size mm))"

text \<open>The \<open>n\<close> addresses from \<open>b\<close> on are in the map and in no mapping.\<close>

definition free_at :: "mapping_store \<Rightarrow> vm_memory_map \<Rightarrow> addr_t list \<Rightarrow> nat \<Rightarrow> nat \<Rightarrow> bool" where
  "free_at ms mm xs n b \<longleftrightarrow> unat (mm_base mm) \<le> b \<and> b + n \<le> unat (mm_base mm) + unat (mm_size mm) \<and>
     (\<forall>m\<in>set xs. past_addr ms m \<le> b \<or> b + n \<le> first_addr ms m)"

abbreviation map_compare :: "mapping_store \<Rightarrow> addr_t \<Rightarrow> addr_t \<Rightarrow> int" where
  "map_compare ms \<equiv> compare_mapping (\<lambda>p. mp_start (ms_map ms p)) (\<lambda>p. mp_end (ms_map ms p))"

lemma compare_addr:
  "map_compare ms a b = (if past_addr ms b \<le> first_addr ms a then 1 else if past_addr ms a \<le> first_addr ms b then - 1 else 0)"
  by (simp add: compare_mapping_def past_addr_def first_addr_def word_less_nat_alt Suc_le_eq)

lemma ranges_in_order:
  assumes "ranges_ok ms xs"
  shows "in_order (map_compare ms) xs" "set xs \<subseteq> {p. p \<noteq> 0 \<and> mp_start (ms_map ms p) \<le> mp_end (ms_map ms p)}"
proof -
  have "map_compare ms x y = - 1" if "x \<in> set xs" "y \<in> set xs" "past_addr ms x \<le> first_addr ms y" for x y
  proof -
    have "first_addr ms x < past_addr ms x" "first_addr ms y < past_addr ms y" using assms that(1,2) by (simp_all add: ranges_ok_def)
    then show ?thesis using that(3) by (simp add: compare_addr)
  qed
  then have "sorted_wrt (\<lambda>a b. map_compare ms a b = - 1) xs"
    by (rule sorted_wrt_mono_rel [where P = "\<lambda>a b. past_addr ms a \<le> first_addr ms b"]) (use assms in \<open>auto simp: ranges_ok_def\<close>)
  then show "in_order (map_compare ms) xs" by (simp add: in_order_def)
  show "set xs \<subseteq> {p. p \<noteq> 0 \<and> mp_start (ms_map ms p) \<le> mp_end (ms_map ms p)}"
    using assms by (auto simp: ranges_ok_def past_addr_def first_addr_def word_le_nat_alt less_Suc_eq_le)
qed

lemma in_order_ranges:
  assumes "in_order (map_compare ms) xs" "\<forall>m\<in>set xs. m \<noteq> 0 \<and> first_addr ms m < past_addr ms m"
  shows "ranges_ok ms xs"
proof -
  have "sorted_wrt (\<lambda>a b. past_addr ms a \<le> first_addr ms b) xs"
    by (rule sorted_wrt_mono_rel [where P = "\<lambda>a b. map_compare ms a b = - 1"])
       (use assms(1) in \<open>auto simp: in_order_def compare_addr split: if_splits\<close>)
  then show ?thesis using assms(2) by (simp add: ranges_ok_def)
qed

lemma ranges_cong:
  assumes "\<forall>m\<in>set xs. ms_map ms' m = ms_map ms m"
  shows "ranges_ok ms' xs \<longleftrightarrow> ranges_ok ms xs"
  using assms by (induction xs) (auto simp: ranges_ok_def past_addr_def first_addr_def)

section \<open>Putting and removing mappings\<close>

definition overlaps :: "mapping_store \<Rightarrow> addr_t \<Rightarrow> addr_t \<Rightarrow> bool" where
  "overlaps ms a b \<longleftrightarrow> first_addr ms a < past_addr ms b \<and> first_addr ms b < past_addr ms a"

definition same_map :: "vm_memory_map \<Rightarrow> vm_memory_map \<Rightarrow> bool" where
  "same_map mm mm' \<longleftrightarrow> mm_base mm' = mm_base mm \<and> mm_size mm' = mm_size mm \<and> mm_aspace mm' = mm_aspace mm"

lemma put_mapping_ok:
  assumes "map_rep ms mm xs" "m \<noteq> 0" "m \<notin> set xs" "first_addr ms m < past_addr ms m"
  obtains e where "e \<in> set xs" "overlaps ms m e" "put_mapping_to_aspace ms mm m = Some (ms, mm, False)"
  | us vs h mm' where "xs = us @ vs" "\<forall>e\<in>set xs. \<not> overlaps ms m e"
      "put_mapping_to_aspace ms mm m = Some (ms\<lparr>ms_list_node := h\<rparr>, mm', True)" "map_rep (ms\<lparr>ms_list_node := h\<rparr>) mm' (us @ m # vs)"
      "same_map mm mm'" "same_outside (insert m (set xs)) (ms_list_node ms) h"
proof -
  let ?T = "mappings_tree ms mm" and ?S = "{p. p \<noteq> 0 \<and> mp_start (ms_map ms p) \<le> mp_end (ms_map ms p)}"
  have rep: "tree_seq (mm_tree mm) xs" "xlist_rep (ms_list_node ms) (mm_list mm) xs" "ranges_ok ms xs" using assms(1) by (simp_all add: map_rep_def)
  have T: "tree_seq ?T xs" "avl_compare ?T = map_compare ms" "avl_numnodes ?T = of_nat (length xs)"
    using rep(1) by (simp_all add: mappings_tree_def) (simp add: tree_seq_def)
  have mS: "m \<in> ?S" using assms(2,4) by (auto simp: first_addr_def past_addr_def word_le_nat_alt)
  from ranges.find_place [OF T(1) ranges_in_order(1) [OF rep(3)] T(2) ranges_in_order(2) [OF rep(3)] mS] show thesis
  proof cases
    case (1 e ix)
    then have "overlaps ms m e" by (auto simp: overlaps_def compare_addr split: if_splits)
    then show thesis using that(1) 1 by (simp add: put_mapping_to_aspace_def)
  next
    case (2 ix us vs)
    obtain h l r where link: "link_unsafe (ms_list_node ms) (mm_list mm) ix m = (h, l, r)" by (metis prod_cases3)
    have m: "m \<notin> set (us @ vs)" using assms(3) 2(2) by simp
    obtain T' where T': "avl_tree_insert ?T m ix = Some T'" "tree_seq T' (us @ m # vs)" "avl_compare T' = map_compare ms"
      using insert_place [OF 2(3) m] T 2(2) by auto
    have L: "xlist_rep h l (us @ m # vs)" "same_outside (insert m (set xs)) (ms_list_node ms) h"
      using link_unsafe_ok [OF 2(3) _ m link] rep(2) 2(2) by simp_all
    have ord: "in_order (map_compare ms) (us @ m # vs)"
      using ranges.in_order_ins [OF _ _ mS 2(4,5)] ranges_in_order [OF rep(3)] 2(2) by simp
    have "ranges_ok ms (us @ m # vs)" by (rule in_order_ranges [OF ord]) (use rep(3) assms(2,4) 2(2) in \<open>auto simp: ranges_ok_def\<close>)
    then have "map_rep (ms\<lparr>ms_list_node := h\<rparr>) (mm\<lparr>mm_tree := T', mm_list := l\<rparr>) (us @ m # vs)"
      using T'(2) L(1) ranges_cong [of "us @ m # vs" "ms\<lparr>ms_list_node := h\<rparr>" ms] by (simp add: map_rep_def)
    moreover have "\<forall>e\<in>set xs. \<not> overlaps ms m e" using 2(2,4,5) by (auto simp: overlaps_def compare_addr split: if_splits)
    ultimately show thesis using that(2) 2(1,2) T'(1) link L(2) by (simp add: put_mapping_to_aspace_def same_map_def)
  qed
qed

lemma delete_mapping_ok:
  assumes "map_rep ms mm xs" "m \<in> set xs" "stk \<notin> set xs"
  shows "\<exists>h mm'. vm_aspace_delete_mapping stk ms mm m = Some (Inr (ms\<lparr>ms_list_node := h\<rparr>, mm')) \<and>
    map_rep (ms\<lparr>ms_list_node := h\<rparr>) mm' (remove1 m xs) \<and> same_map mm mm' \<and> same_outside (set xs) (ms_list_node ms) h"
proof -
  let ?T = "mappings_tree ms mm"
  have rep: "tree_seq (mm_tree mm) xs" "xlist_rep (ms_list_node ms) (mm_list mm) xs" "ranges_ok ms xs" using assms(1) by (simp_all add: map_rep_def)
  have T: "tree_seq ?T xs" "avl_compare ?T = map_compare ms" using rep(1) by (simp_all add: mappings_tree_def)
  obtain T' where T': "avl_tree_remove stk ?T m = Some (T', Some m)" "tree_seq T' (remove1 m xs)"
    using ranges.remove_seq [OF T(1) ranges_in_order(1) [OF rep(3)] T(2) ranges_in_order(2) [OF rep(3)] _ assms(3), of m]
      ranges_in_order(2) [OF rep(3)] assms(2) by auto
  obtain h l r where l: "xlist_remove (ms_list_node ms) (mm_list mm) m = Some (h, l, r)" "xlist_rep h l (remove1 m xs)" "r = 1"
    "same_outside (set xs) (ms_list_node ms) h" using xlist_remove_rep [OF rep(2), of m] assms(2) by auto
  have "ranges_ok ms (remove1 m xs)"
    using rep(3) tree_seq_distinct [OF rep(1)] by (auto simp: ranges_ok_def distinct_remove1_removeAll removeAll_filter_not_eq sorted_wrt_filter)
  then have "ranges_ok (ms\<lparr>ms_list_node := h\<rparr>) (remove1 m xs)" using ranges_cong [of "remove1 m xs" "ms\<lparr>ms_list_node := h\<rparr>" ms] by simp
  then show ?thesis using T' l
    by (auto simp: vm_aspace_delete_mapping_def remove_mapping_from_aspace_def map_rep_def same_map_def)
qed

lemma get_mapping_ok:
  assumes "map_rep ms mm xs" "stk \<noteq> 0" "stk \<notin> set xs" "unat (mm_base mm) + unat (mm_size mm) \<le> 2 ^ 32" "0 < mm_size mm"
  shows "vm_aspace_get_mapping stk ms mm vaddr =
    Some (if unat vaddr < unat (mm_base mm) \<or> unat (mm_base mm) + unat (mm_size mm) \<le> unat vaddr then (ERR_VM_BAD_ADDRESS, None)
          else case List.find (\<lambda>m. first_addr ms m \<le> unat vaddr \<and> unat vaddr < past_addr ms m) xs of
                 Some m \<Rightarrow> (NO_ERROR, Some m) | None \<Rightarrow> (ERR_VM_NO_MAPPING, None))"
proof -
  define ms1 where "ms1 = ms\<lparr>ms_map := (ms_map ms)(stk := (ms_map ms stk)\<lparr>mp_start := vaddr, mp_end := vaddr\<rparr>)\<rparr>"
  let ?T = "mappings_tree ms1 mm" and ?S = "{p. p \<noteq> 0 \<and> mp_start (ms_map ms1 p) \<le> mp_end (ms_map ms1 p)}"
  let ?in = "\<lambda>m. first_addr ms m \<le> unat vaddr \<and> unat vaddr < past_addr ms m"
  have same: "first_addr ms1 m = first_addr ms m" "past_addr ms1 m = past_addr ms m" if "m \<in> set xs" for m
    using that assms(3) by (auto simp: ms1_def first_addr_def past_addr_def)
  have key: "first_addr ms1 stk = unat vaddr" "past_addr ms1 stk = unat vaddr + 1" by (simp_all add: ms1_def first_addr_def past_addr_def)
  have "ranges_ok ms1 xs" using assms(1,3) ranges_cong [of xs ms1 ms] by (auto simp: map_rep_def ms1_def)
  note R = ranges_in_order [OF this]
  have T: "tree_seq ?T xs" "avl_compare ?T = map_compare ms1" using assms(1) by (simp_all add: mappings_tree_def map_rep_def)
  have kS: "stk \<in> ?S" using assms(2) by (simp add: ms1_def)
  have pos: "0 < unat (mm_size mm)" using assms(5) by (simp add: word_less_nat_alt)
  note top = unat_last [OF assms(4,5)]
  have out: "vaddr < mm_base mm \<or> vaddr > mm_base mm + mm_size mm - 1 \<longleftrightarrow> unat vaddr < unat (mm_base mm) \<or> unat (mm_base mm) + unat (mm_size mm) \<le> unat vaddr"
    using pos by (auto simp: word_less_nat_alt top)
  have "(\<exists>ix. avl_tree_find ?T stk = Some (List.find ?in xs, ix))"
  proof (rule ranges.find_place [OF T(1) R(1) T(2) R(2) kS])
    fix e ix assume e: "avl_tree_find ?T stk = Some (Some e, ix)" "e \<in> set xs" "map_compare ms1 stk e = 0"
    have "?in e" using e(3) same [OF e(2)] key by (auto simp: compare_addr split: if_splits)
    moreover have "a = e" if "a \<in> set xs" "?in a" for a
      by (rule ranges.only_self [OF R(1,2) that(1) e(2)]) (use that calculation same [OF that(1)] same [OF e(2)] in \<open>auto simp: compare_addr\<close>)
    ultimately have "List.find ?in xs = Some e" using e(2) by (metis (no_types, lifting) find_None_iff find_Some_iff not_None_eq nth_mem)
    then show ?thesis using e(1) by simp
  next
    fix ix us vs assume n: "avl_tree_find ?T stk = Some (None, ix)" "xs = us @ vs" "\<forall>a\<in>set us. map_compare ms1 stk a = 1" "\<forall>a\<in>set vs. map_compare ms1 stk a = - 1"
    have "\<not> ?in a" if "a \<in> set xs" for a using n(2,3,4) that same [OF that] key by (force simp: compare_addr split: if_splits)
    then have "List.find ?in xs = None" by (simp add: find_None_iff)
    then show ?thesis using n(1) by simp
  qed
  then show ?thesis unfolding vm_aspace_get_mapping_def out Let_def ms1_def [symmetric] by (auto split: option.split)
qed

section \<open>The search for a gap\<close>

lemma gap_loop_ok:
  assumes "dseg (ms_list_node ms) p ys None" "ranges_ok ms ys" "\<forall>m\<in>set ys. s \<le> first_addr ms m" "start = of_nat s" "s \<le> 2 ^ 32"
  shows "\<exists>r. gap_loop ms sz (first_ptr ys None) start = Some r \<and>
    (case r of
       Inl b \<Rightarrow> s \<le> unat b \<and> (\<exists>m\<in>set ys. unat b + unat sz \<le> first_addr ms m) \<and> (\<forall>m\<in>set ys. past_addr ms m \<le> unat b \<or> unat b + unat sz \<le> first_addr ms m) \<and>
         (\<forall>b' < unat b. s \<le> b' \<longrightarrow> (\<exists>m\<in>set ys. b' < past_addr ms m \<and> first_addr ms m < b' + unat sz))
     | Inr b \<Rightarrow> \<exists>e \<ge> s. e \<le> 2 ^ 32 \<and> b = of_nat e \<and> e = (if ys = [] then s else past_addr ms (last ys)) \<and>
         (\<forall>b' < e. s \<le> b' \<longrightarrow> (\<exists>m\<in>set ys. b' < past_addr ms m \<and> first_addr ms m < b' + unat sz)))"
  using assms
proof (induction ys arbitrary: p s start)
  case Nil
  then show ?case by (subst gap_loop.simps) auto
next
  case (Cons m ys)
  have m: "first_addr ms m < past_addr ms m" "s \<le> first_addr ms m" "\<forall>a\<in>set ys. past_addr ms m \<le> first_addr ms a" "ranges_ok ms ys"
    using Cons.prems(2,3) by (auto simp: ranges_ok_def)
  have small: "first_addr ms m < 2 ^ 32" "past_addr ms m \<le> 2 ^ 32" by (rule addr_small)+
  have s: "unat start = s" using m(2) small(1) Cons.prems(4) by (simp add: unsigned_of_nat take_bit_nat_eq_self)
  have "mp_start (ms_map ms m) - 1 - start + 1 = mp_start (ms_map ms m) - start" by simp
  moreover have "unat (mp_start (ms_map ms m) - start) = first_addr ms m - s"
    using m(2) s by (simp add: first_addr_def unat_sub word_le_nat_alt)
  ultimately have gap: "sz \<le> mp_start (ms_map ms m) - 1 - start + 1 \<longleftrightarrow> unat sz \<le> first_addr ms m - s" by (simp add: word_le_nat_alt)
  show ?case
  proof (cases "unat sz \<le> first_addr ms m - s")
    case True
    then have "gap_loop ms sz (first_ptr (m # ys) None) start = Some (Inl start)" using gap by (subst gap_loop.simps) simp
    moreover have "s + unat sz \<le> first_addr ms a" if "a \<in> set (m # ys)" for a
    proof -
      have "first_addr ms m \<le> first_addr ms a" using that m(1,3) by force
      then show ?thesis using True m(2) by linarith
    qed
    ultimately show ?thesis using s by auto
  next
    case False
    have next_item: "xlist_peek_next (ms_list_node ms) m = first_ptr ys None" using Cons.prems(1) by (simp add: xlist_peek_next_def)
    have step: "gap_loop ms sz (first_ptr (m # ys) None) start = gap_loop ms sz (first_ptr ys None) (mp_end (ms_map ms m) + 1)"
      using False gap next_item by (subst gap_loop.simps) simp
    have "mp_end (ms_map ms m) + 1 = of_nat (past_addr ms m)" by (simp add: past_addr_def)
    from Cons.IH [OF _ m(4) m(3) this small(2), of "Some m"] Cons.prems(1)
    obtain r where r: "gap_loop ms sz (first_ptr ys None) (mp_end (ms_map ms m) + 1) = Some r"
      "case r of
       Inl b \<Rightarrow> past_addr ms m \<le> unat b \<and> (\<exists>m\<in>set ys. unat b + unat sz \<le> first_addr ms m) \<and> (\<forall>m\<in>set ys. past_addr ms m \<le> unat b \<or> unat b + unat sz \<le> first_addr ms m) \<and>
         (\<forall>b' < unat b. past_addr ms m \<le> b' \<longrightarrow> (\<exists>m\<in>set ys. b' < past_addr ms m \<and> first_addr ms m < b' + unat sz))
     | Inr b \<Rightarrow> \<exists>e \<ge> past_addr ms m. e \<le> 2 ^ 32 \<and> b = of_nat e \<and> e = (if ys = [] then past_addr ms m else past_addr ms (last ys)) \<and>
         (\<forall>b' < e. past_addr ms m \<le> b' \<longrightarrow> (\<exists>m\<in>set ys. b' < past_addr ms m \<and> first_addr ms m < b' + unat sz))" by auto
    have covered: "\<exists>a\<in>set (m # ys). b' < past_addr ms a \<and> first_addr ms a < b' + unat sz" if "s \<le> b'" "past_addr ms m \<le> b' \<Longrightarrow> \<exists>a\<in>set ys. b' < past_addr ms a \<and> first_addr ms a < b' + unat sz" for b'
      using that False m(2) by (cases "past_addr ms m \<le> b'") auto
    have "s \<le> past_addr ms m" using m(1,2) by linarith
    then show ?thesis unfolding step r(1) using r(2) covered m(1,2) by (cases r) (auto 0 3)
  qed
qed

lemma not_free_below:
  assumes "\<forall>b' < e. unat (mm_base mm) \<le> b' \<longrightarrow> (\<exists>m\<in>set xs. b' < past_addr ms m \<and> first_addr ms m < b' + n)" "b < e"
  shows "\<not> free_at ms mm xs n b"
proof
  assume f: "free_at ms mm xs n b"
  then obtain m where "m \<in> set xs" "b < past_addr ms m" "first_addr ms m < b + n" using assms by (auto simp: free_at_def)
  then show False using f by (auto simp: free_at_def dest: bspec [where x = m])
qed

lemma past_last:
  assumes "ranges_ok ms xs" "m \<in> set xs"
  shows "past_addr ms m \<le> past_addr ms (last xs)"
proof (cases xs rule: rev_cases)
  case (snoc ys y)
  then have "m = y \<or> past_addr ms m \<le> first_addr ms y" "first_addr ms y < past_addr ms y" using assms by (auto simp: ranges_ok_def sorted_wrt_append)
  then show ?thesis using snoc by auto
qed (use assms in simp)

lemma locate_ok:
  assumes "map_rep ms mm xs" "map_inside ms mm xs" "unat (mm_base mm) + unat (mm_size mm) \<le> 2 ^ 32" "0 < sz"
  shows "\<exists>r. locate_memory_gap ms mm sz = Some r \<and>
    (case r of Some b \<Rightarrow> free_at ms mm xs (unat sz) (unat b) \<and> (\<forall>b' < unat b. \<not> free_at ms mm xs (unat sz) b') | None \<Rightarrow> \<forall>b'. \<not> free_at ms mm xs (unat sz) b')"
proof -
  let ?B = "unat (mm_base mm)" and ?E = "unat (mm_base mm) + unat (mm_size mm)"
  have rep: "dseg (ms_list_node ms) None xs None" "xlist_peek_first (mm_list mm) = first_ptr xs None" "ranges_ok ms xs"
    using assms(1) xlist_peek_rep by (auto simp: map_rep_def xlist_rep_def)
  show ?thesis
  proof (cases xs)
    case Nil
    then show ?thesis using rep(2) by (auto simp: locate_memory_gap_def free_at_def word_le_nat_alt)
  next
    case (Cons x ys)
    have low: "\<forall>m\<in>set xs. ?B \<le> first_addr ms m" using assms(2) by (simp add: map_inside_def)
    have B: "mm_base mm = of_nat ?B" "?B \<le> 2 ^ 32" using assms(3) by simp_all
    obtain r where r: "gap_loop ms sz (first_ptr xs None) (mm_base mm) = Some r"
      "case r of
       Inl b \<Rightarrow> ?B \<le> unat b \<and> (\<exists>m\<in>set xs. unat b + unat sz \<le> first_addr ms m) \<and> (\<forall>m\<in>set xs. past_addr ms m \<le> unat b \<or> unat b + unat sz \<le> first_addr ms m) \<and>
         (\<forall>b' < unat b. ?B \<le> b' \<longrightarrow> (\<exists>m\<in>set xs. b' < past_addr ms m \<and> first_addr ms m < b' + unat sz))
     | Inr b \<Rightarrow> \<exists>e \<ge> ?B. e \<le> 2 ^ 32 \<and> b = of_nat e \<and> e = (if xs = [] then ?B else past_addr ms (last xs)) \<and>
         (\<forall>b' < e. ?B \<le> b' \<longrightarrow> (\<exists>m\<in>set xs. b' < past_addr ms m \<and> first_addr ms m < b' + unat sz))"
      using gap_loop_ok [OF rep(1,3) low B, of sz] by blast
    have item: "xlist_peek_first (mm_list mm) = Some x" "first_ptr xs None = Some x" using rep(2) Cons by simp_all
    show ?thesis
    proof (cases r)
      case (Inl b)
      then have "locate_memory_gap ms mm sz = Some (Some b)" using r(1) item by (simp add: locate_memory_gap_def)
      moreover obtain m where "m \<in> set xs" "unat b + unat sz \<le> first_addr ms m" using r(2) Inl by auto
      then have "first_addr ms m < past_addr ms m" "past_addr ms m \<le> ?E" using assms(2) rep(3) by (simp_all add: map_inside_def ranges_ok_def)
      then have "free_at ms mm xs (unat sz) (unat b)" using r(2) Inl \<open>unat b + unat sz \<le> first_addr ms m\<close> by (simp add: free_at_def)
      moreover have "\<not> free_at ms mm xs (unat sz) b'" if "b' < unat b" for b' by (rule not_free_below [OF _ that]) (use r(2) Inl in simp)
      ultimately show ?thesis by simp
    next
      case (Inr b)
      define e where "e = past_addr ms (last xs)"
      have b: "b = of_nat e" "?B \<le> e" and busy: "\<forall>b' < e. ?B \<le> b' \<longrightarrow> (\<exists>m\<in>set xs. b' < past_addr ms m \<and> first_addr ms m < b' + unat sz)"
        using r(2) Inr Cons by (auto simp: e_def)
      have e: "e \<le> ?E" "0 < e" using assms(2) Cons by (simp_all add: map_inside_def e_def past_addr_def)
      have past: "past_addr ms m \<le> e" if "m \<in> set xs" for m
        using past_last [OF rep(3) that] by (simp add: e_def)
      have "mm_base mm + mm_size mm - 1 - b + 1 = of_nat (?E - e)" using e(1) by (simp add: b(1))
      moreover have "?E - e < 2 ^ 32" using e assms(3) by auto
      ultimately have "unat (mm_base mm + mm_size mm - 1 - b + 1) = ?E - e" by (simp only: unsigned_of_nat) (simp add: take_bit_nat_eq_self)
      then have loc: "locate_memory_gap ms mm sz = Some (if unat sz \<le> ?E - e then Some b else None)" using r(1) item Inr
        by (simp add: locate_memory_gap_def word_le_nat_alt)
      have sz: "0 < unat sz" using assms(4) by (simp add: word_less_nat_alt)
      have lower: "\<not> free_at ms mm xs (unat sz) b'" if "b' < e" for b' by (rule not_free_below [OF busy that])
      show ?thesis
      proof (cases "unat sz \<le> ?E - e")
        case True
        then have "unat b = e" using e assms(3) sz by (simp add: b(1) unsigned_of_nat take_bit_nat_eq_self)
        then show ?thesis using True loc lower past b(2) e(1) sz by (auto simp: free_at_def)
      next
        case False
        then have "\<not> free_at ms mm xs (unat sz) b'" for b' using lower [of b'] by (cases "b' < e") (auto simp: free_at_def)
        then show ?thesis using loc False by simp
      qed
    qed
  qed
qed

end
