(* ===== verification/Vm_Map_Runs.thy ===== *)
theory Vm_Map_Runs
  imports Vm_Map
begin

text \<open>
  The operations on a memory map as operations on a set of disjoint address ranges, and runs of them.
\<close>

section \<open>Creating a mapping\<close>

definition hits :: "mapping_store \<Rightarrow> nat \<Rightarrow> nat \<Rightarrow> addr_t \<Rightarrow> bool" where
  "hits ms b n e \<longleftrightarrow> b < past_addr ms e \<and> first_addr ms e < b + n"

lemma create_exactly_ok:
  assumes "map_rep ms mm xs" "m \<noteq> 0" "m \<notin> set xs" "unat base + unat sz \<le> 2 ^ 32" "mm_base mm \<le> base" "sz \<le> mm_size mm" "0 < sz"
  obtains e ms' where "e \<in> set xs" "hits ms (unat base) (unat sz) e" "map_rep ms' mm xs"
      "vm_aspace_create_mapping_exactly (Some m) ms mm base sz = Some (Inr (ms', mm, ERR_VM_BAD_ADDRESS, m))"
      "ms_map ms' = (ms_map ms)(m := new_mapping mm base sz)" "same_outside {m} (ms_list_node ms) (ms_list_node ms')"
      "same_outside {m} (ms_obj_list_node ms) (ms_obj_list_node ms')"
  | us vs ms' mm' where "xs = us @ vs" "\<forall>e\<in>set xs. \<not> hits ms (unat base) (unat sz) e" "map_rep ms' mm' (us @ m # vs)" "same_map mm mm'"
      "vm_aspace_create_mapping_exactly (Some m) ms mm base sz = Some (Inr (ms', mm', NO_ERROR, m))"
      "ms_map ms' = (ms_map ms)(m := new_mapping mm base sz)" "same_outside (insert m (set xs)) (ms_list_node ms) (ms_list_node ms')"
      "same_outside {m} (ms_obj_list_node ms) (ms_obj_list_node ms')"
proof -
  define ms1 where "ms1 = ms\<lparr>ms_map := (ms_map ms)(m := new_mapping mm base sz), ms_list_node := fst (xlist_elem_init (ms_list_node ms) m),
    ms_obj_list_node := fst (xlist_elem_init (ms_obj_list_node ms) m)\<rparr>"
  have addr: "first_addr ms1 m = unat base" "past_addr ms1 m = unat base + unat sz"
    using unat_last [OF assms(4,7)] assms(7) by (simp_all add: ms1_def first_addr_def past_addr_def new_mapping_def word_less_nat_alt)
  have same: "first_addr ms1 e = first_addr ms e" "past_addr ms1 e = past_addr ms e" if "e \<in> set xs" for e
    using that assms(3) by (auto simp: ms1_def first_addr_def past_addr_def)
  have out: "same_outside {m} (ms_list_node ms) (ms_list_node ms1)" "same_outside {m} (ms_obj_list_node ms) (ms_obj_list_node ms1)"
    by (simp_all add: ms1_def xlist_elem_init_def same_outside_def)
  have rep: "map_rep ms1 mm xs"
    using assms(1,3) ranges_cong [of xs ms1 ms] xlist_rep_frame [OF _ out(1)] by (auto simp: map_rep_def ms1_def)
  have run: "vm_aspace_create_mapping_exactly (Some m) ms mm base sz =
    (case put_mapping_to_aspace ms1 mm m of None \<Rightarrow> None | Some (ms4, mm1, ok) \<Rightarrow> Some (Inr (ms4, mm1, if ok then NO_ERROR else ERR_VM_BAD_ADDRESS, m)))"
    using assms(5-6) less_imp_neq [OF assms(7)] by (auto simp add: vm_aspace_create_mapping_exactly_def ms1_def not_less [symmetric])
  have hits: "overlaps ms1 m e \<longleftrightarrow> hits ms (unat base) (unat sz) e" if "e \<in> set xs" for e
    using addr same [OF that] by (auto simp: overlaps_def hits_def)
  have "first_addr ms1 m < past_addr ms1 m" using addr assms(7) by (simp add: word_less_nat_alt)
  from put_mapping_ok [OF rep assms(2,3) this] show thesis
  proof cases
    case (1 e)
    then show thesis using that(1) [of e ms1] hits rep run out by (simp add: ms1_def)
  next
    case (2 us vs h mm')
    have "same_outside (insert m (set xs)) (ms_list_node ms) h"
      using 2(6) out(1) by (auto simp: same_outside_def)
    then show thesis using that(2) [of us vs "ms1\<lparr>ms_list_node := h\<rparr>" mm'] 2 hits run out(2) by (simp add: ms1_def)
  qed
qed

lemma create_free_ok:
  assumes "map_rep ms mm xs" "m \<noteq> 0 \<and> m \<notin> set xs" "unat base + unat sz \<le> 2 ^ 32 \<and> mm_base mm \<le> base \<and> sz \<le> mm_size mm \<and> 0 < sz"
    "\<forall>e\<in>set xs. \<not> hits ms (unat base) (unat sz) e"
  shows "\<exists>us vs ms' mm'. vm_aspace_create_mapping_exactly (Some m) ms mm base sz = Some (Inr (ms', mm', NO_ERROR, m)) \<and> xs = us @ vs \<and> map_rep ms' mm' (us @ m # vs) \<and>
    ms_map ms' = (ms_map ms)(m := new_mapping mm base sz) \<and> mm_base mm' = mm_base mm \<and> mm_size mm' = mm_size mm"
proof -
  have a: "m \<noteq> 0" "m \<notin> set xs" "unat base + unat sz \<le> 2 ^ 32" "mm_base mm \<le> base" "sz \<le> mm_size mm" "0 < sz" using assms(2,3) by auto
  show ?thesis by (rule create_exactly_ok [OF assms(1) a]) (use assms(4) in \<open>blast, unfold same_map_def, blast\<close>)
qed

section \<open>Sets of ranges\<close>

text \<open>A range is the pair of its first address and the address past it.\<close>

definition ranges_of :: "mapping_store \<Rightarrow> addr_t list \<Rightarrow> (nat \<times> nat) set" where
  "ranges_of ms xs = (\<lambda>m. (first_addr ms m, past_addr ms m)) ` set xs"

definition free_in :: "nat \<Rightarrow> nat \<Rightarrow> (nat \<times> nat) set \<Rightarrow> nat \<Rightarrow> nat \<Rightarrow> bool" where
  "free_in lo hi R n b \<longleftrightarrow> lo \<le> b \<and> b + n \<le> hi \<and> (\<forall>(s, e)\<in>R. e \<le> b \<or> b + n \<le> s)"

definition first_gap :: "nat \<Rightarrow> nat \<Rightarrow> (nat \<times> nat) set \<Rightarrow> nat \<Rightarrow> nat option" where
  "first_gap lo hi R n = (let bs = Set.filter (free_in lo hi R n) (insert lo (snd ` R)) in if bs = {} then None else Some (Min bs))"

lemma free_at_in: "free_at ms mm xs n b \<longleftrightarrow> free_in (unat (mm_base mm)) (unat (mm_base mm) + unat (mm_size mm)) (ranges_of ms xs) n b"
  by (auto simp: free_at_def free_in_def ranges_of_def)

text \<open>The lowest free place is the start of the map or follows a range.\<close>

lemma lowest_free:
  assumes "free_in lo hi R n b" "\<forall>b' < b. \<not> free_in lo hi R n b'"
  shows "b \<in> insert lo (snd ` R)"
proof (rule ccontr)
  assume b: "b \<notin> insert lo (snd ` R)"
  then have "lo < b" using assms(1) by (auto simp: free_in_def)
  then have "\<not> free_in lo hi R n (b - 1)" using assms(2) by simp
  moreover have "lo \<le> b - 1" "b - 1 + n \<le> hi" using \<open>lo < b\<close> assms(1) by (auto simp: free_in_def)
  ultimately obtain r where r: "r \<in> R" "\<not> (case r of (s, e) \<Rightarrow> e \<le> b - 1 \<or> b - 1 + n \<le> s)" unfolding free_in_def by blast
  then obtain s e where "(s, e) \<in> R" "b - 1 < e" "s < b - 1 + n" by (cases r) auto
  moreover from this have "e \<noteq> b" using b by force
  ultimately show False using assms(1) \<open>lo < b\<close> by (fastforce simp: free_in_def)
qed

lemma first_gap_eq:
  assumes "finite R" "free_in lo hi R n b" "\<forall>b' < b. \<not> free_in lo hi R n b'"
  shows "first_gap lo hi R n = Some b"
proof -
  let ?bs = "Set.filter (free_in lo hi R n) (insert lo (snd ` R))"
  have "b \<in> ?bs" using lowest_free [OF assms(2,3)] assms(2) by simp
  moreover have "Min ?bs = b" by (rule Min_eqI) (use assms(1,3) calculation in \<open>auto simp: not_less [symmetric]\<close>)
  ultimately show ?thesis unfolding first_gap_def Let_def by auto
qed

lemma first_gap_None: "\<forall>b. \<not> free_in lo hi R n b \<Longrightarrow> first_gap lo hi R n = None"
  by (auto simp: first_gap_def)

lemma locate_first_gap:
  assumes "map_rep ms mm xs" "map_inside ms mm xs" "unat (mm_base mm) + unat (mm_size mm) \<le> 2 ^ 32" "0 < sz"
  shows "\<exists>r. locate_memory_gap ms mm sz = Some r \<and>
    map_option unat r = first_gap (unat (mm_base mm)) (unat (mm_base mm) + unat (mm_size mm)) (ranges_of ms xs) (unat sz)"
proof -
  obtain r where r: "locate_memory_gap ms mm sz = Some r"
    "case r of Some b \<Rightarrow> free_at ms mm xs (unat sz) (unat b) \<and> (\<forall>b' < unat b. \<not> free_at ms mm xs (unat sz) b') | None \<Rightarrow> \<forall>b'. \<not> free_at ms mm xs (unat sz) b'"
    using locate_ok [OF assms] by blast
  moreover have "finite (ranges_of ms xs)" by (simp add: ranges_of_def)
  ultimately show ?thesis using first_gap_eq first_gap_None by (cases r) (auto simp: free_at_in)
qed

section \<open>Alignment\<close>

lemma align_up:
  fixes b a n :: nat
  assumes "page_bytes dvd b" "page_bytes dvd a" "0 < a"
  shows "b \<le> (b + a - 1) div a * a" "(b + a - 1) div a * a + page_bytes \<le> b + a"
proof -
  let ?c = "(b + a - 1) div a * a"
  have "?c + (b + a - 1) mod a = b + a - 1" by simp
  moreover have "(b + a - 1) mod a < a" using assms(3) by simp
  ultimately show le: "b \<le> ?c" using assms(3) by linarith
  have "?c < b + a" using \<open>?c + _ = _\<close> assms(3) by linarith
  moreover have "page_bytes dvd ?c" using assms(2) by simp
  moreover have "page_bytes dvd b + a" using assms(1,2) by simp
  ultimately show "?c + page_bytes \<le> b + a" using dvd_imp_le [of page_bytes "b + a - ?c"] by (simp add: dvd_diff_nat)
qed

lemma unat_align_up:
  fixes b a :: "32 word"
  assumes "unat b + unat a \<le> 2 ^ 32" "0 < a"
  shows "unat ((b + a - 1) div a * a) = (unat b + unat a - 1) div unat a * unat a"
proof -
  have d: "unat ((b + a - 1) div a) = (unat b + unat a - 1) div unat a" by (simp add: unat_div unat_last [OF assms])
  have "(unat b + unat a - 1) div unat a * unat a \<le> unat b + unat a - 1" by (rule div_times_less_eq_dividend)
  also have "\<dots> < 2 ^ 32" using assms by (auto simp: word_less_nat_alt)
  finally have "unat ((b + a - 1) div a) * unat a < 2 ^ LENGTH(32)" using d by simp
  then show ?thesis unfolding d [symmetric] by (simp add: unat_mult_lem [THEN iffD1])
qed

section \<open>The reference behaviour\<close>

datatype map_op = Create_Exactly addr_t addr_t size_t | Create addr_t size_t uint | Delete_Hole addr_t | Get addr_t

text \<open>The body of \<^verbatim>\<open>vm_delete_memory_hole\<close> under the lock of the address space.\<close>

definition delete_hole_at :: "addr_t \<Rightarrow> mapping_store \<Rightarrow> vm_memory_map \<Rightarrow> addr_t \<Rightarrow> (mapping_store \<times> vm_memory_map \<times> status) vresult" where
  "delete_hole_at stk ms mm vaddr =
     (case vm_aspace_get_mapping stk ms mm vaddr of
        None \<Rightarrow> None
      | Some (err, None) \<Rightarrow> Some (Inr (ms, mm, err))
      | Some (err, Some mapping) \<Rightarrow>
          if mp_type (ms_map ms mapping) \<noteq> VM_MAPPING_TYPE_HOLE then Some (Inr (ms, mm, ERR_VM_BAD_ADDRESS))
          else (case vm_aspace_delete_mapping stk ms mm mapping of
                  None \<Rightarrow> None
                | Some (Inl e) \<Rightarrow> Some (Inl e)
                | Some (Inr (ms1, mm1)) \<Rightarrow> Some (Inr (ms1, mm1, err))))"

definition created :: "(mapping_store \<times> vm_memory_map \<times> status \<times> addr_t) vresult \<Rightarrow> (mapping_store \<times> vm_memory_map \<times> status \<times> nat option) vresult" where
  "created = map_option (map_sum id (\<lambda>(ms, mm, st, m). (ms, mm, st, if st = NO_ERROR then Some (first_addr ms m) else None)))"

primrec map_exec :: "addr_t \<Rightarrow> map_op \<Rightarrow> mapping_store \<Rightarrow> vm_memory_map \<Rightarrow> (mapping_store \<times> vm_memory_map \<times> status \<times> nat option) vresult" where
  "map_exec stk (Create_Exactly kmem base sz) ms mm = created (vm_aspace_create_mapping_exactly (Some kmem) ms mm base sz)"
| "map_exec stk (Create kmem sz npg_align) ms mm = created (vm_aspace_create_mapping (Some kmem) ms mm sz npg_align)"
| "map_exec stk (Delete_Hole vaddr) ms mm = map_option (map_sum id (\<lambda>(ms1, mm1, st). (ms1, mm1, st, None))) (delete_hole_at stk ms mm vaddr)"
| "map_exec stk (Get vaddr) ms mm = map_option (\<lambda>(st, m). Inr (ms, mm, st, map_option (first_addr ms) m)) (vm_aspace_get_mapping stk ms mm vaddr)"

fun map_run :: "addr_t \<Rightarrow> map_op list \<Rightarrow> mapping_store \<Rightarrow> vm_memory_map \<Rightarrow> (mapping_store \<times> vm_memory_map \<times> (status \<times> nat option) list) vresult" where
  "map_run stk [] ms mm = Some (Inr (ms, mm, []))"
| "map_run stk (op # ops) ms mm =
     (case map_exec stk op ms mm of
        None \<Rightarrow> None
      | Some (Inl e) \<Rightarrow> Some (Inl e)
      | Some (Inr (ms1, mm1, r)) \<Rightarrow> map_option (map_sum id (\<lambda>(ms2, mm2, rs). (ms2, mm2, r # rs))) (map_run stk ops ms1 mm1))"

text \<open>The same operations on a set of ranges.\<close>

definition spec_exactly :: "nat \<Rightarrow> nat \<Rightarrow> nat \<Rightarrow> nat \<Rightarrow> (nat \<times> nat) set \<Rightarrow> (nat \<times> nat) set \<times> status \<times> nat option" where
  "spec_exactly lo hi a n R =
     (if a < lo \<or> hi - lo < n \<or> n = 0 then (R, ERR_INVALID_ARGS, None)
      else if \<exists>(s, e)\<in>R. a < e \<and> s < a + n then (R, ERR_VM_BAD_ADDRESS, None)
      else (insert (a, a + n) R, NO_ERROR, Some a))"

definition spec_create :: "nat \<Rightarrow> nat \<Rightarrow> nat \<Rightarrow> nat \<Rightarrow> (nat \<times> nat) set \<Rightarrow> (nat \<times> nat) set \<times> status \<times> nat option" where
  "spec_create lo hi n k R =
     (if n = 0 then (R, ERR_INVALID_ARGS, None)
      else (case first_gap lo hi R (if k < 2 then n else n + (k - 1) * page_bytes) of
              None \<Rightarrow> (R, ERR_VM_NO_MAPPING_GAP, None)
            | Some b \<Rightarrow> (let a = (if k < 2 then b else (b + k * page_bytes - 1) div (k * page_bytes) * (k * page_bytes))
                         in (insert (a, a + n) R, NO_ERROR, Some a))))"

definition covering :: "nat \<Rightarrow> (nat \<times> nat) set \<Rightarrow> (nat \<times> nat) set" where
  "covering v R = Set.filter (\<lambda>(s, e). s \<le> v \<and> v < e) R"

definition spec_lookup :: "nat \<Rightarrow> nat \<Rightarrow> nat \<Rightarrow> (nat \<times> nat) set \<Rightarrow> status \<times> nat option" where
  "spec_lookup lo hi v R =
     (if v < lo \<or> hi \<le> v then (ERR_VM_BAD_ADDRESS, None)
      else if covering v R = {} then (ERR_VM_NO_MAPPING, None) else (NO_ERROR, Some (Min (fst ` covering v R))))"

primrec map_spec :: "nat \<Rightarrow> nat \<Rightarrow> map_op \<Rightarrow> (nat \<times> nat) set \<Rightarrow> (nat \<times> nat) set \<times> status \<times> nat option" where
  "map_spec lo hi (Create_Exactly kmem base sz) R = spec_exactly lo hi (unat base) (unat sz) R"
| "map_spec lo hi (Create kmem sz npg_align) R = spec_create lo hi (unat sz) (unat npg_align) R"
| "map_spec lo hi (Delete_Hole vaddr) R =
     (let (st, r) = spec_lookup lo hi (unat vaddr) R in (if r = None then R else R - covering (unat vaddr) R, st, None))"
| "map_spec lo hi (Get vaddr) R = (R, spec_lookup lo hi (unat vaddr) R)"

fun map_spec_run :: "nat \<Rightarrow> nat \<Rightarrow> map_op list \<Rightarrow> (nat \<times> nat) set \<Rightarrow> (nat \<times> nat) set \<times> (status \<times> nat option) list" where
  "map_spec_run lo hi [] R = (R, [])"
| "map_spec_run lo hi (op # ops) R = (let (R1, r) = map_spec lo hi op R; (R2, rs) = map_spec_run lo hi ops R1 in (R2, r # rs))"

text \<open>
  What the callers keep to: whole pages, requests that do not reach beyond the end of the map (the code
  does not check that), and fresh memory for every mapping.
\<close>

fun map_legal :: "nat \<Rightarrow> nat \<Rightarrow> map_op \<Rightarrow> bool" where
  "map_legal lo hi (Create_Exactly kmem base sz) \<longleftrightarrow> page_bytes dvd unat base \<and> page_bytes dvd unat sz \<and> (unat base < lo \<or> unat base + unat sz \<le> hi)"
| "map_legal lo hi (Create kmem sz npg_align) \<longleftrightarrow> page_bytes dvd unat sz \<and> unat sz + unat npg_align * page_bytes \<le> 2 ^ 32"
| "map_legal lo hi _ \<longleftrightarrow> True"

fun kmems :: "map_op list \<Rightarrow> addr_t list" where
  "kmems [] = []"
| "kmems (Create_Exactly kmem _ _ # ops) = kmem # kmems ops"
| "kmems (Create kmem _ _ # ops) = kmem # kmems ops"
| "kmems (_ # ops) = kmems ops"

definition map_inv :: "nat \<Rightarrow> nat \<Rightarrow> mapping_store \<Rightarrow> vm_memory_map \<Rightarrow> addr_t list \<Rightarrow> bool" where
  "map_inv lo hi ms mm xs \<longleftrightarrow> map_rep ms mm xs \<and> map_inside ms mm xs \<and> unat (mm_base mm) = lo \<and> lo + unat (mm_size mm) = hi \<and> lo < hi \<and> hi \<le> 2 ^ 32 \<and>
     page_bytes dvd lo \<and> (\<forall>m\<in>set xs. page_bytes dvd past_addr ms m \<and> mp_type (ms_map ms m) = VM_MAPPING_TYPE_HOLE)"

section \<open>Every operation implements its reference\<close>

lemma exactly_inv:
  assumes "map_inv lo hi ms mm xs" "m \<noteq> 0" "m \<notin> set xs" "page_bytes dvd unat base" "page_bytes dvd unat sz" "unat base < lo \<or> unat base + unat sz \<le> hi"
  shows "\<exists>ms' mm' xs' r. created (vm_aspace_create_mapping_exactly (Some m) ms mm base sz) = Some (Inr (ms', mm', r)) \<and> map_inv lo hi ms' mm' xs' \<and>
    set xs' \<subseteq> insert m (set xs) \<and> spec_exactly lo hi (unat base) (unat sz) (ranges_of ms xs) = (ranges_of ms' xs', r)"
proof (cases "base < mm_base mm \<or> mm_size mm < sz \<or> sz = 0")
  case True
  then have "created (vm_aspace_create_mapping_exactly (Some m) ms mm base sz) = Some (Inr (ms, mm, ERR_INVALID_ARGS, None))"
    by (simp add: vm_aspace_create_mapping_exactly_def created_def)
  moreover have "unat base < lo \<or> hi - lo < unat sz \<or> unat sz = 0" using True assms(1) by (auto simp: map_inv_def word_less_nat_alt unat_eq_0)
  ultimately show ?thesis using assms(1) by (intro exI [of _ ms] exI [of _ mm] exI [of _ xs]) (auto simp: spec_exactly_def)
next
  case False
  have inv: "map_rep ms mm xs" "map_inside ms mm xs" "unat (mm_base mm) = lo" "lo + unat (mm_size mm) = hi" "hi \<le> 2 ^ 32" using assms(1) by (auto simp: map_inv_def)
  have ok: "mm_base mm \<le> base" "sz \<le> mm_size mm" "0 < sz" "lo \<le> unat base" "unat sz \<le> hi - lo" "unat sz \<noteq> 0"
    using False inv(3,4) by (auto simp: word_le_nat_alt word_less_nat_alt unat_eq_0 word_neq_0_conv not_less)
  have fit: "unat base + unat sz \<le> hi" using assms(6) ok(4) by simp
  then have "unat base + unat sz \<le> 2 ^ 32" using inv(5) by simp
  from create_exactly_ok [OF inv(1) assms(2,3) this ok(1-3)] show ?thesis
  proof cases
    case (1 e ms')
    have same: "first_addr ms' x = first_addr ms x" "past_addr ms' x = past_addr ms x" "ms_map ms' x = ms_map ms x" if "x \<in> set xs" for x
      using that assms(3) 1(5) by (auto simp: first_addr_def past_addr_def)
    then have "ranges_of ms' xs = ranges_of ms xs" by (simp add: ranges_of_def)
    moreover have "map_inv lo hi ms' mm xs" using assms(1) 1(3) same by (auto simp: map_inv_def map_inside_def)
    moreover have "\<exists>(s, t)\<in>ranges_of ms xs. unat base < t \<and> s < unat base + unat sz" using 1(1,2) by (auto simp: ranges_of_def hits_def)
    ultimately show ?thesis using 1(4) ok(4-6) by (intro exI [of _ ms'] exI [of _ mm] exI [of _ xs]) (auto simp: spec_exactly_def created_def)
  next
    case (2 us vs ms' mm')
    have same: "first_addr ms' x = first_addr ms x" "past_addr ms' x = past_addr ms x" "ms_map ms' x = ms_map ms x" if "x \<in> set xs" for x
      using that assms(3) 2(6) by (auto simp: first_addr_def past_addr_def)
    have m: "first_addr ms' m = unat base" "past_addr ms' m = unat base + unat sz" "mp_type (ms_map ms' m) = VM_MAPPING_TYPE_HOLE"
      using 2(6) unat_last [of base sz] \<open>unat base + unat sz \<le> 2 ^ 32\<close> ok(3,6) by (auto simp: first_addr_def past_addr_def new_mapping_def)
    have set: "set (us @ m # vs) = insert m (set xs)" using 2(1) by auto
    then have "ranges_of ms' (us @ m # vs) = insert (unat base, unat base + unat sz) (ranges_of ms xs)"
      using same m unfolding ranges_of_def set by auto
    moreover have "map_inv lo hi ms' mm' (us @ m # vs)"
      using assms(1,4,5) 2(3,4) same m ok(4) fit unfolding map_inv_def map_inside_def set by (auto simp: same_map_def)
    moreover have "\<not> (\<exists>(s, t)\<in>ranges_of ms xs. unat base < t \<and> s < unat base + unat sz)" using 2(2) by (auto simp: ranges_of_def hits_def)
    ultimately show ?thesis using 2(5) ok(4-6) m(1) set
      by (intro exI [of _ ms'] exI [of _ mm'] exI [of _ "us @ m # vs"]) (auto simp: spec_exactly_def created_def)
  qed
qed

lemma spec_exactly_free:
  assumes "free_in lo hi R n' b" "b \<le> a" "a + n \<le> b + n'" "0 < n"
  shows "spec_exactly lo hi a n R = (insert (a, a + n) R, NO_ERROR, Some a)"
proof -
  have "\<not> (\<exists>(s, e)\<in>R. a < e \<and> s < a + n)"
  proof
    assume "\<exists>(s, e)\<in>R. a < e \<and> s < a + n"
    then obtain s e where "(s, e) \<in> R" "a < e" "s < a + n" by auto
    then show False using assms(1-3) by (fastforce simp: free_in_def)
  qed
  moreover have "\<not> (a < lo \<or> hi - lo < n \<or> n = 0)" using assms by (auto simp: free_in_def)
  ultimately show ?thesis by (simp add: spec_exactly_def)
qed

text \<open>The size with the padding, and the aligned address, as numbers.\<close>

lemma padded_size:
  fixes sz npg :: "32 word"
  assumes "\<not> npg < 2" "unat sz + unat npg * page_bytes \<le> 2 ^ 32" "0 < sz"
  shows "unat (npg * PAGE_SIZE) = unat npg * page_bytes" "unat (sz + (npg * PAGE_SIZE - PAGE_SIZE)) = unat sz + (unat npg - 1) * page_bytes"
proof -
  have k: "2 \<le> unat npg" using assms(1) by (simp add: word_less_nat_alt not_less)
  have n: "0 < unat sz" using assms(3) by (simp add: word_less_nat_alt)
  have "unat npg * page_bytes < 2 ^ 32" using assms(2) n by linarith
  then show a: "unat (npg * PAGE_SIZE) = unat npg * page_bytes" by (simp add: unat_mult_lem [THEN iffD1])
  have "page_bytes \<le> unat npg * page_bytes" using k by simp
  then have "PAGE_SIZE \<le> npg * PAGE_SIZE" using a by (simp add: word_le_nat_alt)
  then have p: "unat (npg * PAGE_SIZE - PAGE_SIZE) = (unat npg - 1) * page_bytes" using a by (simp add: unat_sub diff_mult_distrib)
  have "unat npg * page_bytes = (unat npg - 1) * page_bytes + page_bytes" using k by (cases "unat npg") simp_all
  then have "unat sz + (unat npg - 1) * page_bytes < 2 ^ 32" using assms(2) page_bytes_pos(1) by linarith
  then show "unat (sz + (npg * PAGE_SIZE - PAGE_SIZE)) = unat sz + (unat npg - 1) * page_bytes" using p by (subst unat_add_small) simp_all
qed

lemma aligned_base:
  fixes b sz npg :: "32 word"
  assumes "page_bytes dvd unat b" "page_bytes dvd unat sz" "unat sz + unat npg * page_bytes \<le> 2 ^ 32" "0 < sz"
    "unat b + (if unat npg < 2 then unat sz else unat sz + (unat npg - 1) * page_bytes) \<le> 2 ^ 32"
    "al = (if npg < 2 then 0 else npg * PAGE_SIZE)" "a = (if al \<noteq> 0 then (b + al - 1) div al * al else b)"
  shows "unat a = (if unat npg < 2 then unat b else (unat b + unat npg * page_bytes - 1) div (unat npg * page_bytes) * (unat npg * page_bytes)) \<and>
    unat b \<le> unat a \<and> unat a + unat sz \<le> unat b + (if unat npg < 2 then unat sz else unat sz + (unat npg - 1) * page_bytes) \<and> page_bytes dvd unat a"
proof (cases "npg < 2")
  case True
  then show ?thesis
    using assms(1,6,7) by (simp add: word_less_nat_alt)
next
  case False
  have al: "unat al = unat npg * page_bytes" using padded_size(1) [OF False assms(3,4)] False assms(6) by simp
  have two: "2 \<le> unat npg" "\<not> unat npg < 2" using False by (simp_all add: word_less_nat_alt)
  then have al0: "0 < unat al" "0 < al" "al \<noteq> 0" and split: "unat npg * page_bytes = (unat npg - 1) * page_bytes + page_bytes"
    using al by (auto simp: word_less_nat_alt diff_mult_distrib)
  have "page_bytes \<le> unat sz" by (rule dvd_imp_le) (use assms(2,4) in \<open>simp_all add: word_less_nat_alt\<close>)
  then have "unat b + unat al \<le> 2 ^ 32" using assms(5) split al two by simp
  note ua = unat_align_up [OF this al0(2)]
  have "page_bytes dvd unat al" using al by simp
  note up = align_up [OF assms(1) this al0(1)]
  have "unat a = (unat b + unat al - 1) div unat al * unat al" using ua al0(3) assms(7) by simp
  then show ?thesis
    using up al two split by simp
qed

lemma gap_aligned:
  assumes "map_inv lo hi ms mm xs" "free_in lo hi (ranges_of ms xs) n b" "\<forall>b' < b. \<not> free_in lo hi (ranges_of ms xs) n b'"
  shows "page_bytes dvd b"
  using lowest_free [OF assms(2,3)] assms(1) by (auto simp: map_inv_def ranges_of_def)

lemma create_inv:
  assumes inv: "map_inv lo hi ms mm xs" and m: "m \<noteq> 0" "m \<notin> set xs" and sz: "page_bytes dvd unat sz" "unat sz + unat npg * page_bytes \<le> 2 ^ 32"
  shows "\<exists>ms' mm' xs' r. created (vm_aspace_create_mapping (Some m) ms mm sz npg) = Some (Inr (ms', mm', r)) \<and> map_inv lo hi ms' mm' xs' \<and>
    set xs' \<subseteq> insert m (set xs) \<and> spec_create lo hi (unat sz) (unat npg) (ranges_of ms xs) = (ranges_of ms' xs', r)"
proof (cases "sz = 0")
  case True
  then show ?thesis using inv by (intro exI [of _ ms] exI [of _ mm] exI [of _ xs]) (auto simp: vm_aspace_create_mapping_def created_def spec_create_def)
next
  case False
  define pad where "pad = (if npg < 2 then 0 else npg * PAGE_SIZE - PAGE_SIZE)"
  define n' where "n' = (if unat npg < 2 then unat sz else unat sz + (unat npg - 1) * page_bytes)"
  have pos: "0 < sz" "0 < unat sz" using False by (simp_all add: word_neq_0_conv word_less_nat_alt)
  have two: "npg < 2 \<longleftrightarrow> unat npg < 2" by (simp add: word_less_nat_alt)
  have n': "unat (sz + pad) = n'" using padded_size(2) [OF _ sz(2) pos(1)] two by (simp add: pad_def n'_def)
  have rep: "map_rep ms mm xs" "map_inside ms mm xs" "unat (mm_base mm) + unat (mm_size mm) \<le> 2 ^ 32" and lo: "unat (mm_base mm) = lo" "lo + unat (mm_size mm) = hi" "hi \<le> 2 ^ 32"
    using inv by (auto simp: map_inv_def)
  have "unat sz \<le> n'" by (simp add: n'_def)
  then have "0 < sz + pad" using n' pos(2) by (simp add: word_less_nat_alt)
  note loc = locate_ok [OF rep this, unfolded n' free_at_in lo]
  define al where "al = (if npg < 2 then 0 else npg * PAGE_SIZE)"
  have run: "vm_aspace_create_mapping (Some m) ms mm sz npg =
    (case locate_memory_gap ms mm (sz + pad) of
       None \<Rightarrow> None
     | Some None \<Rightarrow> Some (Inr (ms, mm, ERR_VM_NO_MAPPING_GAP, 0))
     | Some (Some b) \<Rightarrow> vm_aspace_create_mapping_exactly (Some m) ms mm (if al \<noteq> 0 then (b + al - 1) div al * al else b) sz)"
    using False by (auto simp: vm_aspace_create_mapping_def Let_def pad_def al_def split: option.split)
  have fin: "finite (ranges_of ms xs)" by (simp add: ranges_of_def)
  obtain r where r: "locate_memory_gap ms mm (sz + pad) = Some r"
    "case r of Some b \<Rightarrow> free_in lo hi (ranges_of ms xs) n' (unat b) \<and> (\<forall>b' < unat b. \<not> free_in lo hi (ranges_of ms xs) n' b') | None \<Rightarrow> \<forall>b'. \<not> free_in lo hi (ranges_of ms xs) n' b'"
    using loc by blast
  show ?thesis
  proof (cases r)
    case None
    then have "first_gap lo hi (ranges_of ms xs) n' = None" using r(2) first_gap_None by simp
    then show ?thesis using None r(1) run inv pos(2)
      by (intro exI [of _ ms] exI [of _ mm] exI [of _ xs]) (auto simp: created_def spec_create_def n'_def)
  next
    case (Some b)
    have free: "free_in lo hi (ranges_of ms xs) n' (unat b)" "\<forall>b' < unat b. \<not> free_in lo hi (ranges_of ms xs) n' b'" using r(2) Some by simp_all
    define a where "a = (if al \<noteq> 0 then (b + al - 1) div al * al else b)"
    have b: "page_bytes dvd unat b" "unat b + n' \<le> hi" using gap_aligned [OF inv free] free(1) by (simp_all add: free_in_def)
    have "unat b + n' \<le> 2 ^ 32" using b(2) lo(3) by simp
    note al = aligned_base [OF b(1) sz pos(1) this [unfolded n'_def] al_def a_def, folded n'_def]
    note a = al [THEN conjunct1] al [THEN conjunct2, THEN conjunct1] al [THEN conjunct2, THEN conjunct2, THEN conjunct1] al [THEN conjunct2, THEN conjunct2, THEN conjunct2]
    have "unat a < lo \<or> unat a + unat sz \<le> hi" using a(3) b(2) by simp
    note ex = exactly_inv [OF inv m a(4) sz(1) this, unfolded spec_exactly_free [OF free(1) a(2,3) pos(2)]]
    have "spec_create lo hi (unat sz) (unat npg) (ranges_of ms xs) = (insert (unat a, unat a + unat sz) (ranges_of ms xs), NO_ERROR, Some (unat a))"
      using first_gap_eq [OF fin free] pos(2) a(1) by (simp add: spec_create_def n'_def [symmetric] Let_def)
    then show ?thesis using ex run r(1) Some by (simp add: a_def [symmetric])
  qed
qed

lemma ranges_disjoint: "ranges_ok ms xs \<Longrightarrow> a \<in> set xs \<Longrightarrow> b \<in> set xs \<Longrightarrow> a \<noteq> b \<Longrightarrow> past_addr ms a \<le> first_addr ms b \<or> past_addr ms b \<le> first_addr ms a"
  by (induction xs) (auto simp: ranges_ok_def)

lemma covering_one:
  assumes "ranges_ok ms xs" "m \<in> set xs" "first_addr ms m \<le> v" "v < past_addr ms m"
  shows "covering v (ranges_of ms xs) = {(first_addr ms m, past_addr ms m)}"
proof -
  have "a = m" if "a \<in> set xs" "first_addr ms a \<le> v" "v < past_addr ms a" for a
  proof (rule ccontr)
    assume "a \<noteq> m"
    then show False using ranges_disjoint [OF assms(1) that(1) assms(2)] that(2,3) assms(3,4) by linarith
  qed
  then have "r = (first_addr ms m, past_addr ms m)" if "r \<in> covering v (ranges_of ms xs)" for r
    using that by (cases r) (auto simp: covering_def ranges_of_def)
  moreover have "(first_addr ms m, past_addr ms m) \<in> covering v (ranges_of ms xs)" using assms(2-4) by (auto simp: covering_def ranges_of_def)
  ultimately show ?thesis by blast
qed

lemma get_inv:
  assumes "map_inv lo hi ms mm xs" "stk \<noteq> 0" "stk \<notin> set xs"
  obtains st where "vm_aspace_get_mapping stk ms mm vaddr = Some (st, None)" "spec_lookup lo hi (unat vaddr) (ranges_of ms xs) = (st, None)"
  | m where "vm_aspace_get_mapping stk ms mm vaddr = Some (NO_ERROR, Some m)" "m \<in> set xs"
      "spec_lookup lo hi (unat vaddr) (ranges_of ms xs) = (NO_ERROR, Some (first_addr ms m))"
      "covering (unat vaddr) (ranges_of ms xs) = {(first_addr ms m, past_addr ms m)}"
proof -
  have inv: "map_rep ms mm xs" "ranges_ok ms xs" "unat (mm_base mm) = lo" "lo + unat (mm_size mm) = hi" "lo < hi" "hi \<le> 2 ^ 32"
    using assms(1) by (auto simp: map_inv_def map_rep_def)
  let ?in = "\<lambda>m. first_addr ms m \<le> unat vaddr \<and> unat vaddr < past_addr ms m"
  have "unat (mm_base mm) + unat (mm_size mm) \<le> 2 ^ 32" "0 < mm_size mm" using inv(3-6) by (auto simp: word_less_nat_alt)
  note get = get_mapping_ok [OF inv(1) assms(2,3) this, of vaddr, unfolded inv(3,4)]
  show thesis
  proof (cases "unat vaddr < lo \<or> hi \<le> unat vaddr")
    case True
    then show thesis using that(1) get by (simp add: spec_lookup_def)
  next
    case False
    show thesis
    proof (cases "List.find ?in xs")
      case None
      then have "covering (unat vaddr) (ranges_of ms xs) = {}" by (auto simp: find_None_iff covering_def ranges_of_def)
      then show thesis using that(1) get False None by (simp add: spec_lookup_def)
    next
      case (Some m)
      then have m: "m \<in> set xs" "first_addr ms m \<le> unat vaddr" "unat vaddr < past_addr ms m" by (auto simp: find_Some_iff)
      note c = covering_one [OF inv(2) m]
      then show thesis using that(2) get False Some m(1) by (simp add: spec_lookup_def)
    qed
  qed
qed

lemma delete_inv:
  assumes "map_inv lo hi ms mm xs" "stk \<notin> set xs" "m \<in> set xs"
  shows "\<exists>ms' mm'. vm_aspace_delete_mapping stk ms mm m = Some (Inr (ms', mm')) \<and> map_inv lo hi ms' mm' (remove1 m xs) \<and>
    ranges_of ms' (remove1 m xs) = ranges_of ms xs - {(first_addr ms m, past_addr ms m)}"
proof -
  have inv: "map_rep ms mm xs" "ranges_ok ms xs" using assms(1) by (auto simp: map_inv_def map_rep_def)
  obtain h mm' where d: "vm_aspace_delete_mapping stk ms mm m = Some (Inr (ms\<lparr>ms_list_node := h\<rparr>, mm'))"
    "map_rep (ms\<lparr>ms_list_node := h\<rparr>) mm' (remove1 m xs)" "same_map mm mm'" using delete_mapping_ok [OF inv(1) assms(3,2)] by blast
  have same: "first_addr (ms\<lparr>ms_list_node := h\<rparr>) x = first_addr ms x" "past_addr (ms\<lparr>ms_list_node := h\<rparr>) x = past_addr ms x" for x
    by (simp_all add: first_addr_def past_addr_def)
  have "distinct xs" using inv(1) tree_seq_distinct by (auto simp: map_rep_def)
  then have set: "set (remove1 m xs) = set xs - {m}" by simp
  have "(first_addr ms x, past_addr ms x) \<noteq> (first_addr ms m, past_addr ms m)" if "x \<in> set xs" "x \<noteq> m" for x
  proof -
    have "first_addr ms m < past_addr ms m" "first_addr ms x < past_addr ms x" using inv(2) assms(3) that(1) by (simp_all add: ranges_ok_def)
    then show ?thesis using ranges_disjoint [OF inv(2) that(1) assms(3) that(2)] by auto
  qed
  then have "ranges_of (ms\<lparr>ms_list_node := h\<rparr>) (remove1 m xs) = ranges_of ms xs - {(first_addr ms m, past_addr ms m)}"
    unfolding ranges_of_def set same by auto
  moreover have "map_inv lo hi (ms\<lparr>ms_list_node := h\<rparr>) mm' (remove1 m xs)"
    using assms(1) d(2,3) unfolding map_inv_def map_inside_def set same by (auto simp: same_map_def)
  ultimately show ?thesis using d(1) by blast
qed

lemma exec_inv:
  assumes "map_inv lo hi ms mm xs" "stk \<noteq> 0" "stk \<notin> set xs" "map_legal lo hi op" "0 \<notin> set (kmems [op])" "set (kmems [op]) \<inter> set xs = {}"
  shows "\<exists>ms' mm' xs' r. map_exec stk op ms mm = Some (Inr (ms', mm', r)) \<and> map_inv lo hi ms' mm' xs' \<and> set xs' \<subseteq> set (kmems [op]) \<union> set xs \<and>
    map_spec lo hi op (ranges_of ms xs) = (ranges_of ms' xs', r)"
proof (cases op)
  case (Create_Exactly kmem base sz)
  then show ?thesis using exactly_inv [OF assms(1), of kmem base sz] assms(4-6) by auto
next
  case (Create kmem sz npg)
  then show ?thesis using create_inv [OF assms(1), of kmem sz npg] assms(4-6) by auto
next
  case (Get vaddr)
  show ?thesis by (rule get_inv [OF assms(1-3), of vaddr]) (use Get assms(1) in auto)
next
  case (Delete_Hole vaddr)
  show ?thesis
  proof (rule get_inv [OF assms(1-3), of vaddr])
    fix st assume "vm_aspace_get_mapping stk ms mm vaddr = Some (st, None)" "spec_lookup lo hi (unat vaddr) (ranges_of ms xs) = (st, None)"
    then show ?thesis using Delete_Hole assms(1) by (auto simp: delete_hole_at_def)
  next
    fix m assume m: "vm_aspace_get_mapping stk ms mm vaddr = Some (NO_ERROR, Some m)" "m \<in> set xs"
      "spec_lookup lo hi (unat vaddr) (ranges_of ms xs) = (NO_ERROR, Some (first_addr ms m))"
      "covering (unat vaddr) (ranges_of ms xs) = {(first_addr ms m, past_addr ms m)}"
    obtain ms' mm' where d: "vm_aspace_delete_mapping stk ms mm m = Some (Inr (ms', mm'))" "map_inv lo hi ms' mm' (remove1 m xs)"
      "ranges_of ms' (remove1 m xs) = ranges_of ms xs - {(first_addr ms m, past_addr ms m)}" using delete_inv [OF assms(1,3) m(2)] by blast
    moreover have "mp_type (ms_map ms m) = VM_MAPPING_TYPE_HOLE" using assms(1) m(2) by (simp add: map_inv_def)
    moreover have "set (remove1 m xs) \<subseteq> set xs" by (rule set_remove1_subset)
    ultimately show ?thesis using m Delete_Hole by (intro exI [of _ ms'] exI [of _ mm'] exI [of _ "remove1 m xs"]) (auto simp: delete_hole_at_def)
  qed
qed

lemma kmems_Cons: "kmems (op # ops) = kmems [op] @ kmems ops"
  by (cases op) simp_all

lemma run_inv:
  assumes "map_inv lo hi ms mm xs" "stk \<noteq> 0" "stk \<notin> set xs" "\<forall>op\<in>set ops. map_legal lo hi op" "distinct (kmems ops)" "0 \<notin> set (kmems ops)"
    "stk \<notin> set (kmems ops)" "set (kmems ops) \<inter> set xs = {}"
  shows "\<exists>ms' mm' xs'. map_run stk ops ms mm = Some (Inr (ms', mm', snd (map_spec_run lo hi ops (ranges_of ms xs)))) \<and> map_inv lo hi ms' mm' xs' \<and>
    ranges_of ms' xs' = fst (map_spec_run lo hi ops (ranges_of ms xs))"
  using assms
proof (induction ops arbitrary: ms mm xs)
  case Nil
  then show ?case by auto
next
  case (Cons op ops)
  note k = kmems_Cons [of op ops]
  have op: "map_legal lo hi op" "0 \<notin> set (kmems [op])" "set (kmems [op]) \<inter> set xs = {}" using Cons.prems(4,6,8) k by (auto simp del: kmems.simps)
  obtain ms1 mm1 xs1 r where e: "map_exec stk op ms mm = Some (Inr (ms1, mm1, r))" "map_inv lo hi ms1 mm1 xs1" "set xs1 \<subseteq> set (kmems [op]) \<union> set xs"
    "map_spec lo hi op (ranges_of ms xs) = (ranges_of ms1 xs1, r)"
    using exec_inv [OF Cons.prems(1-3) op] by blast
  have "stk \<notin> set xs1" "set (kmems ops) \<inter> set xs1 = {}" using e(3) Cons.prems(3,5,7,8) k by auto
  then obtain ms2 mm2 xs2 where r: "map_run stk ops ms1 mm1 = Some (Inr (ms2, mm2, snd (map_spec_run lo hi ops (ranges_of ms1 xs1))))" "map_inv lo hi ms2 mm2 xs2"
    "ranges_of ms2 xs2 = fst (map_spec_run lo hi ops (ranges_of ms1 xs1))"
    using Cons.IH [OF e(2) Cons.prems(2)] Cons.prems(4-7) k by auto
  then show ?case using e(1,4) by (intro exI [of _ ms2] exI [of _ mm2] exI [of _ xs2]) (auto split: prod.split)
qed

section \<open>Theorems\<close>

lemma init_inv:
  assumes "page_bytes dvd unat base" "unat base + unat sz \<le> 2 ^ 32" "0 < sz"
  shows "map_inv (unat base) (unat base + unat sz) ms (init_memory_map ms base sz aspace mm) []"
  using assms tree_seq_create [of "map_compare ms" "avl_nodes (mm_tree mm)"] xlist_init_rep [of "mm_list mm" "fst (xlist_init (mm_list mm))" 1]
  by (auto simp: map_inv_def map_rep_def init_memory_map_def ranges_ok_def map_inside_def word_less_nat_alt xlist_init_def)


definition blank_store :: mapping_store where
  "blank_store = \<lparr>ms_map = (\<lambda>_. \<lparr>mp_start = 0, mp_end = 0, mp_mmap = 0, mp_object = None, mp_offset = 0, mp_type = VM_MAPPING_TYPE_HOLE, mp_protect = 0\<rparr>),
     ms_list_node = blank_nodes, ms_obj_list_node = blank_nodes\<rparr>"

definition blank_map :: vm_memory_map where
  "blank_map = \<lparr>mm_base = 0, mm_size = 0, mm_aspace = 0, mm_list = empty_xlist,
     mm_tree = avl_tree_create (\<lambda>_ _. 0) (\<lambda>_. \<lparr>avl_child = (\<lambda>_. None), avl_parent = None, avl_child_index = False, avl_balance = 0\<rparr>)\<rparr>"

definition demo_map_ops :: "map_op list" where
  "demo_map_ops = [Create 10 0x2000 3, Create 11 0x1000 0, Get 0x3FFF, Create_Exactly 12 0x2000 0x2000, Delete_Hole 0x3000, Get 0x3000]"

lemma set_filter_simps: "Set.filter P {} = {}" "Set.filter P (insert a A) = (if P a then insert a (Set.filter P A) else Set.filter P A)"
  by auto


text \<open>
  C40. The check of a given place compares the size with the size of the map but not the end of the
  range with the end of the map. In a user address space a mapping that ends beyond the map, at the
  address space of the kernel, is accepted; after it the search for a gap computes a wrapped size
  and hands out the first page of the kernel.
\<close>

theorem mapping_reaches_kernel_space:
  "\<exists>ms1 mm1 ms2 mm2 ms3 mm3.
     vm_aspace_create_mapping_exactly (Some 10) ms (init_memory_map ms USER_BASE USER_SIZE aspace mm) USER_BASE (USER_SIZE - PAGE_SIZE) = Some (Inr (ms1, mm1, NO_ERROR, 10)) \<and>
     vm_aspace_create_mapping_exactly (Some 11) ms1 mm1 (USER_TOP + 1 - PAGE_SIZE) (2 * PAGE_SIZE) = Some (Inr (ms2, mm2, NO_ERROR, 11)) \<and>
     vm_aspace_create_mapping (Some 12) ms2 mm2 PAGE_SIZE 0 = Some (Inr (ms3, mm3, NO_ERROR, 12)) \<and>
     USER_TOP < mp_end (ms_map ms3 11) \<and> mp_start (ms_map ms3 12) = KERNEL_BASE"
proof -
  let ?mm = "init_memory_map ms USER_BASE USER_SIZE aspace mm"
  have num: "USER_BASE = 0x1000" "USER_SIZE = 0xBFFFE000" "PAGE_SIZE = 0x1000" "USER_TOP = 0xBFFFEFFF" "KERNEL_BASE = 0xC0000000"
    by (simp_all add: USER_BASE_def USER_SIZE_def USER_TOP_def PAGE_SIZE_def KERNEL_BASE_def)
  have mm: "mm_base ?mm = 0x1000" "mm_size ?mm = 0xBFFFE000" by (simp_all add: init_memory_map_def num)
  have "map_rep ms ?mm []" using init_inv [of USER_BASE USER_SIZE ms aspace mm] by (simp add: map_inv_def num page_bytes_def)
  from create_free_ok [OF this, of 10 "0x1000" "0xBFFFD000"] obtain ms1 mm1 where
    1: "vm_aspace_create_mapping_exactly (Some 10) ms ?mm 0x1000 0xBFFFD000 = Some (Inr (ms1, mm1, NO_ERROR, 10))"
    "map_rep ms1 mm1 [10]" "ms_map ms1 10 = new_mapping ?mm 0x1000 0xBFFFD000" and mm1: "mm_base mm1 = 0x1000" "mm_size mm1 = 0xBFFFE000" by (auto simp: mm)
  have a1: "first_addr ms1 10 = 0x1000" "past_addr ms1 10 = 0xBFFFE000" by (simp_all add: 1(3) first_addr_def past_addr_def new_mapping_def)
  from create_free_ok [OF 1(2), of 11 "0xBFFFE000" "0x2000"] obtain us vs ms2 mm2 where
    2: "vm_aspace_create_mapping_exactly (Some 11) ms1 mm1 0xBFFFE000 0x2000 = Some (Inr (ms2, mm2, NO_ERROR, 11))"
    "[10] = us @ vs" "map_rep ms2 mm2 (us @ 11 # vs)" "ms_map ms2 = (ms_map ms1)(11 := new_mapping mm1 0xBFFFE000 0x2000)"
    and mm2: "mm_base mm2 = 0x1000" "mm_size mm2 = 0xBFFFE000" by (auto simp: mm1 hits_def a1)
  have a2: "first_addr ms2 10 = 0x1000" "past_addr ms2 10 = 0xBFFFE000" "first_addr ms2 11 = 0xBFFFE000" "past_addr ms2 11 = 0xC0000000"
    using a1 by (simp_all add: 2(4) first_addr_def past_addr_def new_mapping_def)
  have "us = [10]" "vs = []" using 2(2,3) a2 by (auto simp: map_rep_def ranges_ok_def Cons_eq_append_conv)
  then have rep: "map_rep ms2 mm2 [10, 11]" using 2(3) by simp
  have links: "xlist_peek_first (mm_list mm2) = Some 10" "le_next (ms_list_node ms2 10) = Some 11" "le_next (ms_list_node ms2 11) = None"
    using rep by (auto simp: map_rep_def xlist_rep_def xlist_peek_first_def)
  have w: "mp_start (ms_map ms2 10) = 0x1000" "mp_end (ms_map ms2 10) = 0xBFFFDFFF" "mp_start (ms_map ms2 11) = 0xBFFFE000" "mp_end (ms_map ms2 11) = 0xBFFFFFFF"
    by (simp_all add: 2(4) 1(3) new_mapping_def)
  have "gap_loop ms2 0x1000 (Some 10) 0x1000 = Some (Inr 0xC0000000)"
    by (subst gap_loop.simps, subst gap_loop.simps, subst gap_loop.simps) (simp add: w links xlist_peek_next_def)
  then have "locate_memory_gap ms2 mm2 0x1000 = Some (Some 0xC0000000)" by (simp add: locate_memory_gap_def links mm2)
  then have run: "vm_aspace_create_mapping (Some 12) ms2 mm2 0x1000 0 = vm_aspace_create_mapping_exactly (Some 12) ms2 mm2 0xC0000000 0x1000"
    by (simp add: vm_aspace_create_mapping_def)
  from create_free_ok [OF rep, of 12 "0xC0000000" "0x1000"] obtain ms3 mm3 where
    3: "vm_aspace_create_mapping_exactly (Some 12) ms2 mm2 0xC0000000 0x1000 = Some (Inr (ms3, mm3, NO_ERROR, 12))"
    "ms_map ms3 = (ms_map ms2)(12 := new_mapping mm2 0xC0000000 0x1000)" by (auto simp: mm2 hits_def a2)
  show ?thesis using 1(1) 2(1) 3 run w by (auto simp: num new_mapping_def)
qed

end
