(* ===== verification/Scheduler.thy ===== *)
theory Scheduler
  imports Prelude "HOL-Library.Signed_Division"
begin

text \<open>
  The scheduler of \<^verbatim>\<open>kernel/scheduler.c\<close> for one processor (\<^verbatim>\<open>SYSCFG_MAX_CPUS\<close> is 1): run queues of
  128 priority levels, dynamic priorities, time quanta and the choice of the next thread.

  A run queue level is the sequence of its threads, with the list routines by their meaning on
  sequences (theory \<open>Xlist\<close> relates the two). Signed \<^verbatim>\<open>int\<close> and \<^verbatim>\<open>bigtime_t\<close> values are \<^typ>\<open>int\<close>: the
  invariant keeps the 32-bit ones small and the 64-bit tick counters do not overflow in practice;
  the one narrowing conversion from 64 to 32 bits is written out. Failed assertions, panics, an
  index outside the run queue and a division by zero are error values. The scheduling lock is a
  state component because the timer handler depends on it; the other locks only protect single
  steps.
\<close>

section \<open>Threads\<close>

datatype thread_state =
    THREAD_STATE_READY | THREAD_STATE_BIRTH | THREAD_STATE_DEATH | THREAD_STATE_RUNNING
  | THREAD_STATE_WAITING | THREAD_STATE_SLEEPING | THREAD_STATE_SUSPENDED | THREAD_STATE_DEAD

record thread =
  th_state :: thread_state
  th_next_state :: thread_state
  th_flags :: uint
  th_preempt_count :: int
  th_jiffies :: int
  th_ijiffies :: int
  th_policy_type :: "4 word"
  th_process_flags :: uint
  th_s_prio :: int
  th_d_prio :: int
  th_sched_stamp :: int
  th_carrots_sticks :: int
  th_cpu :: "uint option"

definition SCHED_POLICY_ORDINARY :: "4 word" where "SCHED_POLICY_ORDINARY = 0"
definition SCHED_POLICY_INTERACTIVE :: "4 word" where "SCHED_POLICY_INTERACTIVE = 1"
definition SCHED_POLICY_HW_HANDLER :: "4 word" where "SCHED_POLICY_HW_HANDLER = 5"
definition SCHED_POLICY_INTERRUPT :: "4 word" where "SCHED_POLICY_INTERRUPT = 6"
definition PROCESS_FLAG_INTERACTIVE :: uint where "PROCESS_FLAG_INTERACTIVE = 1"
definition THREAD_FLAG_RESCHEDULE :: uint where "THREAD_FLAG_RESCHEDULE = 1"

section \<open>Parameters\<close>

definition HZ :: int where "HZ = 250"

definition SCHED_TICKS2MSEC :: "int \<Rightarrow> int" where
  "SCHED_TICKS2MSEC a = a * (1000 + 1000 smod HZ) sdiv HZ"

definition SCHED_MSEC2TICKS :: "int \<Rightarrow> int" where
  "SCHED_MSEC2TICKS a = a * HZ sdiv (1000 + 1000 smod HZ)"

abbreviation (input) THREAD_DEFAULT_QUANTA :: int where "THREAD_DEFAULT_QUANTA \<equiv> 60"
abbreviation (input) THREAD_MINIMUM_QUANTA :: int where "THREAD_MINIMUM_QUANTA \<equiv> 20"
abbreviation (input) THREAD_QUANTA_GRANULARITY :: int where "THREAD_QUANTA_GRANULARITY \<equiv> 10"
abbreviation (input) THREAD_NUM_PRIORITY_LEVELS :: int where "THREAD_NUM_PRIORITY_LEVELS \<equiv> 128"
abbreviation (input) THREAD_LOWEST_PIORITY :: int where "THREAD_LOWEST_PIORITY \<equiv> 0"
abbreviation (input) SCHED_TICK_TYPES_COUNT :: nat where "SCHED_TICK_TYPES_COUNT \<equiv> 8"
abbreviation (input) SCHED_ESTIMATION_TICK :: nat where "SCHED_ESTIMATION_TICK \<equiv> 7"
abbreviation (input) SCHED_QUEUE_LOOKAHEAD_DEPTH :: nat where "SCHED_QUEUE_LOOKAHEAD_DEPTH \<equiv> 10"
abbreviation (input) SCHED_MAX_THREAD_BONUS :: int where "SCHED_MAX_THREAD_BONUS \<equiv> 8"
abbreviation (input) SCHED_MAX_THREAD_PENALTY :: int where "SCHED_MAX_THREAD_PENALTY \<equiv> 8"

section \<open>State\<close>

record sched =
  sc_threads :: "nat \<Rightarrow> thread"
  sc_current :: nat
  sc_queue :: "nat \<Rightarrow> nat list"
  sc_total_count :: uint
  sc_cpu_num :: uint
  sc_ticks :: int
  sc_lost_ticks :: int
  sc_tick_type :: nat
  sc_quanta :: int
  sc_shuffle_factor :: uint
  sc_idle_thread :: "nat option"
  sc_lock :: bool

datatype sched_error =
    Assertion_Failed | Queue_Index_Out_Of_Range | Division_By_Zero | Invalid_Thread_State | No_Idle_Thread

definition upd_thread :: "nat \<Rightarrow> (thread \<Rightarrow> thread) \<Rightarrow> sched \<Rightarrow> sched" where
  "upd_thread t f s = s\<lparr>sc_threads := (sc_threads s)(t := f (sc_threads s t))\<rparr>"

section \<open>Run queue\<close>

text \<open>The node of a thread has a neighbour iff the thread is on a level with another one.\<close>

definition node_linked :: "nat \<Rightarrow> sched \<Rightarrow> bool" where
  "node_linked t s = list_ex (\<lambda>p. t \<in> set (sc_queue s p) \<and> 1 < length (sc_queue s p)) [0 ..< 128]"

definition rq_put_thread :: "nat \<Rightarrow> sched \<Rightarrow> sched_error + sched" where
  "rq_put_thread t s =
     (let s1 = (if th_cpu (sc_threads s t) \<noteq> Some (sc_cpu_num s)
                then upd_thread t (\<lambda>th. th\<lparr>th_cpu := Some (sc_cpu_num s)\<rparr>) s else s);
          th = sc_threads s1 t
      in if th_state th \<noteq> THREAD_STATE_READY \<or> node_linked t s1 then Inl Assertion_Failed
         else if th_d_prio th < 0 \<or> THREAD_NUM_PRIORITY_LEVELS \<le> th_d_prio th then Inl Queue_Index_Out_Of_Range
         else Inr (s1\<lparr>sc_queue := (sc_queue s1)(nat (th_d_prio th) := sc_queue s1 (nat (th_d_prio th)) @ [t]),
                      sc_total_count := sc_total_count s1 + 1\<rparr>))"

definition rq_pop_head_thread :: "nat \<Rightarrow> sched \<Rightarrow> sched \<times> nat" where
  "rq_pop_head_thread prio s =
     (s\<lparr>sc_queue := (sc_queue s)(prio := tl (sc_queue s prio)), sc_total_count := sc_total_count s - 1\<rparr>,
      hd (sc_queue s prio))"

definition rq_extract_thread :: "nat \<Rightarrow> sched \<Rightarrow> sched \<times> nat" where
  "rq_extract_thread t s =
     (let p = nat (th_d_prio (sc_threads s t))
      in (s\<lparr>sc_queue := (sc_queue s)(p := remove1 t (sc_queue s p)), sc_total_count := sc_total_count s - 1\<rparr>, t))"

section \<open>Choice between two threads\<close>

definition effective_policy :: "thread \<Rightarrow> nat" where
  "effective_policy t =
     (if th_policy_type t = SCHED_POLICY_INTERACTIVE \<and> th_process_flags t AND PROCESS_FLAG_INTERACTIVE = 0
      then unat SCHED_POLICY_ORDINARY else unat (th_policy_type t))"

definition significant_thread :: "sched \<Rightarrow> nat \<Rightarrow> nat \<Rightarrow> nat" where
  "significant_thread s t1 t2 =
     (if effective_policy (sc_threads s t2) \<le> effective_policy (sc_threads s t1) then t1 else t2)"

section \<open>Carrots and sticks\<close>

definition sys_bonus :: "int list" where
  "sys_bonus = [0, 0, 0, 0, 0, 0, 0, 0, -1, -1]"

definition ord_bonus :: "int list" where
  "ord_bonus = [3, 2, 2, 1, 0, 0, -1, -2, -3, -3]"

definition usage_index :: "thread \<Rightarrow> nat" where
  "usage_index th =
     (let ptyi = 100 * (th_ijiffies th - th_jiffies th) sdiv th_ijiffies th sdiv 10
      in if ptyi < 0 then 0 else if 10 \<le> ptyi then 9 else nat ptyi)"

definition new_carrots :: "thread \<Rightarrow> int" where
  "new_carrots th =
     (let i = usage_index th in
      if th_policy_type th = SCHED_POLICY_INTERRUPT \<or> th_policy_type th = SCHED_POLICY_HW_HANDLER
      then sys_bonus ! i
      else
        (let c = th_carrots_sticks th + ord_bonus ! i;
             c1 = (if ord_bonus ! i = 0
                   then (if 0 < c then c - 1 else if c < 0 then c + 1 else c) else c)
         in if SCHED_MAX_THREAD_BONUS < c1 then SCHED_MAX_THREAD_BONUS
            else if c1 < - SCHED_MAX_THREAD_PENALTY then - SCHED_MAX_THREAD_PENALTY
            else c1))"

definition carrots_and_sticks :: "nat \<Rightarrow> sched \<Rightarrow> sched_error + sched \<times> int" where
  "carrots_and_sticks t s =
     (let th = sc_threads s t in
      if th_ijiffies th = 0 then Inl Division_By_Zero
      else (let c = new_carrots th in Inr (upd_thread t (\<lambda>th. th\<lparr>th_carrots_sticks := c\<rparr>) s, c)))"

section \<open>Ageing\<close>

definition to_int32 :: "int \<Rightarrow> int" where
  "to_int32 x = sint (word_of_int x :: 32 word)"

definition shuffle_prio :: "sched \<Rightarrow> nat \<Rightarrow> thread \<Rightarrow> int" where
  "shuffle_prio s prio th =
     (let new_prio = to_int32 (th_s_prio th +
            (SCHED_TICKS2MSEC (sc_ticks s) - th_sched_stamp th) sdiv uint (sc_shuffle_factor s) +
            int (length (sc_queue s prio) div 2 ^ 4) + th_carrots_sticks th)
      in if THREAD_NUM_PRIORITY_LEVELS - 1 < new_prio then THREAD_NUM_PRIORITY_LEVELS - 1 else new_prio)"

definition shuffle_level :: "nat \<Rightarrow> sched \<Rightarrow> sched_error + sched" where
  "shuffle_level prio s =
     (if sc_queue s prio = [] then Inr s
      else if sc_shuffle_factor s = 0 then Inl Division_By_Zero
      else
        (let t = hd (sc_queue s prio); new_prio = shuffle_prio s prio (sc_threads s t)
         in if th_d_prio (sc_threads s t) < new_prio
            then (let s1 = fst (rq_pop_head_thread prio s);
                      s2 = upd_thread t (\<lambda>th. th\<lparr>th_d_prio := new_prio\<rparr>) s1
                  in rq_put_thread t s2)
            else Inr s))"

fun shuffle_loop :: "nat list \<Rightarrow> sched \<Rightarrow> sched_error + sched" where
  "shuffle_loop [] s = Inr s"
| "shuffle_loop (prio # ps) s = and_then (shuffle_level prio s) (shuffle_loop ps)"

text \<open>The levels \<open>tick_type\<close>, \<open>tick_type + 8\<close>, \<open>tick_type + 16\<close> ... below the highest one.\<close>

definition tick_levels :: "nat \<Rightarrow> nat list" where
  "tick_levels tick_type = filter (\<lambda>p. tick_type \<le> p \<and> (p - tick_type) mod SCHED_TICK_TYPES_COUNT = 0) [0 ..< 127]"

definition sched_shuffle_runqueue_head :: "nat \<Rightarrow> sched \<Rightarrow> sched_error + sched" where
  "sched_shuffle_runqueue_head tick_type s = shuffle_loop (tick_levels tick_type) s"

section \<open>Initialisation\<close>

definition sched_init_runqueue :: "sched \<Rightarrow> sched" where
  "sched_init_runqueue s =
     s\<lparr>sc_total_count := 0, sc_cpu_num := 0, sc_queue := (\<lambda>i. if i < 128 then [] else sc_queue s i)\<rparr>"

definition scheduler_init :: "sched \<Rightarrow> sched" where
  "scheduler_init s = s\<lparr>sc_lock := False\<rparr>"

definition scheduler_init_per_cpu :: "uint \<Rightarrow> sched \<Rightarrow> sched" where
  "scheduler_init_per_cpu curr_cpu s = (sched_init_runqueue s)\<lparr>sc_cpu_num := curr_cpu\<rparr>"

section \<open>Timer handler\<close>

definition estimate_quanta :: "uint \<Rightarrow> int" where
  "estimate_quanta cnt =
     (let q = sint ((60 :: uint) - drop_bit 1 cnt)
      in if q < THREAD_MINIMUM_QUANTA then THREAD_MINIMUM_QUANTA else q)"

definition estimate_factor :: "uint \<Rightarrow> uint" where
  "estimate_factor cnt =
     (let a0 = cnt div 200; a = (if a0 = 0 then 1 else a0);
          b0 = (if cnt = 0 then 8 else 50 div cnt);
          b1 = (if 8 < b0 then 8 else b0); b = (if b1 = 0 then 1 else b1)
      in a * 60 div b)"

definition estimate :: "sched \<Rightarrow> sched" where
  "estimate s = s\<lparr>sc_quanta := estimate_quanta (sc_total_count s),
     sc_shuffle_factor := estimate_factor (sc_total_count s)\<rparr>"

text \<open>Levels above a dynamic priority, from the highest one down.\<close>

definition levels_above :: "int \<Rightarrow> nat list" where
  "levels_above d_prio = rev (filter (\<lambda>p. d_prio < int p) [0 ..< 128])"

definition check_preempt :: "int \<Rightarrow> sched \<Rightarrow> sched \<times> bool" where
  "check_preempt ticks_out s =
     (let t = sc_current s; th = sc_threads s t; is_idle = (sc_idle_thread s = Some t);
          j = th_jiffies th - ticks_out;
          s1 = (if is_idle then s else upd_thread t (\<lambda>th. th\<lparr>th_jiffies := if j \<le> 0 then 0 else j\<rparr>) s);
          th1 = sc_threads s1 t;
          resched = (if \<not> is_idle \<and> j \<le> 0 then True
                     else if is_idle \<or> THREAD_QUANTA_GRANULARITY \<le> SCHED_TICKS2MSEC (th_ijiffies th1 - th_jiffies th1)
                     then list_ex (\<lambda>p. sc_queue s1 p \<noteq> []) (levels_above (th_d_prio th1))
                     else False)
      in (if resched then upd_thread t (\<lambda>th. th\<lparr>th_flags := th_flags th OR THREAD_FLAG_RESCHEDULE\<rparr>) s1 else s1,
          resched))"

definition scheduler_timer :: "sched \<Rightarrow> sched_error + sched \<times> bool" where
  "scheduler_timer s =
     (if sc_lock s then Inr (s\<lparr>sc_lost_ticks := sc_lost_ticks s + 1\<rparr>, False)
      else
        (let ticks_out = sc_lost_ticks s + 1;
             s1 = s\<lparr>sc_lock := True, sc_ticks := sc_ticks s + ticks_out, sc_lost_ticks := 0,
                    sc_tick_type := (sc_tick_type s + 1) mod SCHED_TICK_TYPES_COUNT\<rparr>
         in and_then (sched_shuffle_runqueue_head (sc_tick_type s1) s1)
              (\<lambda>s2.
                let s3 = (if sc_tick_type s2 = SCHED_ESTIMATION_TICK then estimate s2 else s2);
                    th = sc_threads s3 (sc_current s3);
                    (s4, resched) =
                      (if th_preempt_count th = 0 \<and> th_flags th AND THREAD_FLAG_RESCHEDULE = 0
                       then check_preempt ticks_out s3 else (s3, False))
                in Inr (s4\<lparr>sc_lock := False\<rparr>, resched))))"

section \<open>Adding and removing threads\<close>

definition sched_add_idle_thread :: "nat \<Rightarrow> sched \<Rightarrow> sched_error + sched" where
  "sched_add_idle_thread t s =
     (if sc_idle_thread s \<noteq> None then Inl Assertion_Failed
      else Inr ((upd_thread t (\<lambda>th. th\<lparr>th_state := THREAD_STATE_RUNNING, th_next_state := THREAD_STATE_READY,
                  th_s_prio := -1, th_d_prio := -1\<rparr>) s)\<lparr>sc_idle_thread := Some t\<rparr>))"

definition sched_add_thread :: "nat \<Rightarrow> sched \<Rightarrow> sched_error + sched" where
  "sched_add_thread t s =
     (if th_state (sc_threads s t) \<notin> {THREAD_STATE_BIRTH, THREAD_STATE_WAITING, THREAD_STATE_SLEEPING, THREAD_STATE_SUSPENDED}
      then Inl Assertion_Failed
      else
        (let s1 = upd_thread t (\<lambda>th.
               let sp = (if THREAD_NUM_PRIORITY_LEVELS - 1 < th_s_prio th then THREAD_NUM_PRIORITY_LEVELS - 1 else th_s_prio th)
               in th\<lparr>th_s_prio := sp, th_state := THREAD_STATE_READY, th_next_state := THREAD_STATE_RUNNING,
                     th_d_prio := sp, th_sched_stamp := SCHED_TICKS2MSEC (sc_ticks s)\<rparr>) s
         in rq_put_thread t s1))"

definition sched_remove_thread :: "nat \<Rightarrow> sched \<Rightarrow> sched_error + sched" where
  "sched_remove_thread t s =
     (if th_state (sc_threads s t) \<noteq> THREAD_STATE_READY then Inl Assertion_Failed
      else Inr (fst (rq_extract_thread t s)))"

definition sched_capture_cpu :: "sched \<Rightarrow> sched \<times> int" where
  "sched_capture_cpu s =
     (let s' = upd_thread (sc_current s) (\<lambda>th. th\<lparr>th_preempt_count := th_preempt_count th + 1\<rparr>) s
      in (s', th_preempt_count (sc_threads s' (sc_current s))))"

definition sched_release_cpu :: "sched \<Rightarrow> sched \<times> int" where
  "sched_release_cpu s =
     (let tmp = th_preempt_count (sc_threads s (sc_current s)) - 1; tmp' = (if tmp < 0 then 0 else tmp);
          s' = upd_thread (sc_current s) (\<lambda>th. th\<lparr>th_preempt_count := tmp'\<rparr>) s
      in (s', th_preempt_count (sc_threads s' (sc_current s))))"

section \<open>Scheduling lock\<close>

text \<open>Acquiring a taken lock on the only processor waits for ever: \<open>None\<close>.\<close>

definition sched_lock_acquire :: "sched \<Rightarrow> sched option" where
  "sched_lock_acquire s = (if sc_lock s then None else Some (s\<lparr>sc_lock := True\<rparr>))"

definition sched_lock_release :: "sched \<Rightarrow> sched" where
  "sched_lock_release s = s\<lparr>sc_lock := False\<rparr>"

definition sched_lock_tryacquire :: "sched \<Rightarrow> sched \<times> bool" where
  "sched_lock_tryacquire s = (if sc_lock s then (s, False) else (s\<lparr>sc_lock := True\<rparr>, True))"

definition sched_complete_context_switch :: "sched \<Rightarrow> sched" where
  "sched_complete_context_switch s = sched_lock_release s"

section \<open>Rescheduling\<close>

definition adjust_current :: "sched \<Rightarrow> sched" where
  "adjust_current s = upd_thread (sc_current s) (\<lambda>th.
     th\<lparr>th_sched_stamp := SCHED_TICKS2MSEC (sc_ticks s), th_flags := th_flags th AND NOT THREAD_FLAG_RESCHEDULE,
        th_state := th_next_state th, th_next_state := THREAD_STATE_READY\<rparr>) s"

definition clamp_prio :: "int \<Rightarrow> int" where
  "clamp_prio p = (if THREAD_NUM_PRIORITY_LEVELS - 1 < p then THREAD_NUM_PRIORITY_LEVELS - 1
                   else if p < THREAD_LOWEST_PIORITY then THREAD_LOWEST_PIORITY else p)"

definition requeue_current :: "sched \<Rightarrow> sched_error + sched" where
  "requeue_current s =
     and_then (carrots_and_sticks (sc_current s) s)
       (\<lambda>(s1, c). rq_put_thread (sc_current s1)
          (upd_thread (sc_current s1) (\<lambda>th. th\<lparr>th_d_prio := clamp_prio (th_s_prio th + c)\<rparr>) s1))"

definition renew_quanta :: "nat \<Rightarrow> sched \<Rightarrow> sched" where
  "renew_quanta t s = upd_thread t (\<lambda>th. th\<lparr>th_jiffies := SCHED_MSEC2TICKS (sc_quanta s),
     th_ijiffies := SCHED_MSEC2TICKS (sc_quanta s)\<rparr>) s"

text \<open>The head thread and up to nine threads behind it are compared.\<close>

definition best_of_level :: "sched \<Rightarrow> nat \<Rightarrow> nat" where
  "best_of_level s prio =
     foldl (significant_thread s) (hd (sc_queue s prio)) (take (SCHED_QUEUE_LOOKAHEAD_DEPTH - 1) (tl (sc_queue s prio)))"

fun pick_loop :: "nat list \<Rightarrow> sched \<Rightarrow> sched \<times> nat option" where
  "pick_loop [] s = (s, None)"
| "pick_loop (prio # ps) s =
     (if sc_queue s prio = [] then pick_loop ps s
      else if 1 < length (sc_queue s prio)
      then (case rq_extract_thread (best_of_level s prio) s of (s', t) \<Rightarrow> (s', Some t))
      else (case rq_pop_head_thread prio s of (s', t) \<Rightarrow> (s', Some t)))"

definition switch_to_next :: "sched \<Rightarrow> sched_error + sched" where
  "switch_to_next s =
     (case pick_loop (rev [0 ..< 128]) s of (s1, found) \<Rightarrow>
        (case (case found of Some t \<Rightarrow> Some (renew_quanta t s1, t) | None \<Rightarrow> map_option (\<lambda>t. (s1, t)) (sc_idle_thread s1)) of
           None \<Rightarrow> Inl No_Idle_Thread
         | Some (s2, t) \<Rightarrow>
             Inr (sched_complete_context_switch
               ((upd_thread t (\<lambda>th. th\<lparr>th_state := THREAD_STATE_RUNNING,
                   th_sched_stamp := SCHED_TICKS2MSEC (sc_ticks s2)\<rparr>) s2)\<lparr>sc_current := t\<rparr>))))"

definition sched_reschedule :: "sched \<Rightarrow> sched_error + sched" where
  "sched_reschedule s =
     (if \<not> sc_lock s then Inl Assertion_Failed
      else
        (let s1 = adjust_current s; t = sc_current s1 in
         if sc_idle_thread s1 = Some t then switch_to_next s1
         else (case th_state (sc_threads s1 t) of
             THREAD_STATE_RUNNING \<Rightarrow> Inr (sched_lock_release (renew_quanta t s1))
           | THREAD_STATE_READY \<Rightarrow> and_then (requeue_current s1) switch_to_next
           | THREAD_STATE_WAITING \<Rightarrow> switch_to_next s1
           | THREAD_STATE_SLEEPING \<Rightarrow> switch_to_next s1
           | THREAD_STATE_SUSPENDED \<Rightarrow> switch_to_next s1
           | THREAD_STATE_DEATH \<Rightarrow> switch_to_next s1
           | THREAD_STATE_BIRTH \<Rightarrow> Inl Invalid_Thread_State
           | THREAD_STATE_DEAD \<Rightarrow> Inl Invalid_Thread_State)))"


section \<open>The run queue invariant\<close>

text \<open>
  \<open>rq_ok X s\<close>: every ready thread outside \<open>X\<close> is on the level of its dynamic priority, once, and
  nothing else is queued; the counter is the number of queued threads. \<open>X\<close> holds the threads that
  are not subject to queueing: the idle thread and one the scheduler is just moving.
\<close>

definition queued :: "sched \<Rightarrow> nat \<Rightarrow> bool" where
  "queued s t \<longleftrightarrow> (\<exists>p < 128. t \<in> set (sc_queue s p))"

definition rq_ok :: "nat set \<Rightarrow> sched \<Rightarrow> bool" where
  "rq_ok X s \<longleftrightarrow>
     (\<forall>p < 128. distinct (sc_queue s p) \<and>
        (\<forall>t \<in> set (sc_queue s p). th_state (sc_threads s t) = THREAD_STATE_READY \<and>
           th_d_prio (sc_threads s t) = int p \<and> t \<notin> X)) \<and>
     (\<forall>t. th_state (sc_threads s t) = THREAD_STATE_READY \<longrightarrow> t \<notin> X \<longrightarrow> queued s t) \<and>
     sc_total_count s = of_nat (\<Sum>p < 128. length (sc_queue s p))"

lemma rq_okD:
  assumes "rq_ok X s" "p < 128" "t \<in> set (sc_queue s p)"
  shows "th_state (sc_threads s t) = THREAD_STATE_READY" "th_d_prio (sc_threads s t) = int p" "t \<notin> X"
  using assms by (auto simp: rq_ok_def)

lemma rq_okI:
  assumes "\<And>p. p < 128 \<Longrightarrow> distinct (sc_queue s p)"
    "\<And>p t. p < 128 \<Longrightarrow> t \<in> set (sc_queue s p) \<Longrightarrow> th_state (sc_threads s t) = THREAD_STATE_READY \<and>
       th_d_prio (sc_threads s t) = int p \<and> t \<notin> X"
    "\<And>t. th_state (sc_threads s t) = THREAD_STATE_READY \<Longrightarrow> t \<notin> X \<Longrightarrow> queued s t"
    "sc_total_count s = of_nat (\<Sum>p < 128. length (sc_queue s p))"
  shows "rq_ok X s"
  using assms by (simp add: rq_ok_def)

lemma rq_ok_total: "rq_ok X s \<Longrightarrow> sc_total_count s = of_nat (\<Sum>p < 128. length (sc_queue s p))"
  by (simp add: rq_ok_def)

lemma rq_ok_distinct: "rq_ok X s \<Longrightarrow> p < 128 \<Longrightarrow> distinct (sc_queue s p)"
  by (simp add: rq_ok_def)

lemma rq_ok_queued: "rq_ok X s \<Longrightarrow> th_state (sc_threads s t) = THREAD_STATE_READY \<Longrightarrow> t \<notin> X \<Longrightarrow> queued s t"
  by (simp add: rq_ok_def)

lemma queued_level:
  assumes "rq_ok X s" "queued s t"
  shows "nat (th_d_prio (sc_threads s t)) < 128" "t \<in> set (sc_queue s (nat (th_d_prio (sc_threads s t))))" "t \<notin> X"
proof -
  from assms(2) obtain p where "p < 128" "t \<in> set (sc_queue s p)" by (auto simp: queued_def)
  with rq_okD [OF assms(1) this]
  show "nat (th_d_prio (sc_threads s t)) < 128" "t \<in> set (sc_queue s (nat (th_d_prio (sc_threads s t))))" "t \<notin> X" by auto
qed

lemma upd_thread_simps [simp]:
  "sc_threads (upd_thread t f s) = (sc_threads s)(t := f (sc_threads s t))"
  "sc_current (upd_thread t f s) = sc_current s" "sc_queue (upd_thread t f s) = sc_queue s"
  "sc_total_count (upd_thread t f s) = sc_total_count s" "sc_cpu_num (upd_thread t f s) = sc_cpu_num s"
  "sc_ticks (upd_thread t f s) = sc_ticks s" "sc_lost_ticks (upd_thread t f s) = sc_lost_ticks s"
  "sc_tick_type (upd_thread t f s) = sc_tick_type s" "sc_quanta (upd_thread t f s) = sc_quanta s"
  "sc_shuffle_factor (upd_thread t f s) = sc_shuffle_factor s" "sc_idle_thread (upd_thread t f s) = sc_idle_thread s"
  "sc_lock (upd_thread t f s) = sc_lock s"
  by (simp_all add: upd_thread_def)

lemma upd_upd: "upd_thread t g (upd_thread t f s) = upd_thread t (g \<circ> f) s"
  by (simp add: upd_thread_def)

lemma rq_ok_cong:
  assumes "sc_queue s' = sc_queue s" "sc_total_count s' = sc_total_count s"
    "\<And>t. th_state (sc_threads s' t) = th_state (sc_threads s t)" "\<And>t. th_d_prio (sc_threads s' t) = th_d_prio (sc_threads s t)"
  shows "rq_ok X s' \<longleftrightarrow> rq_ok X s"
  using assms by (simp add: rq_ok_def queued_def)

text \<open>A thread outside the run queues may change freely.\<close>

lemma rq_ok_upd: "rq_ok X s \<Longrightarrow> t \<in> X \<Longrightarrow> rq_ok X (upd_thread t f s)"
  by (auto simp: rq_ok_def queued_def)

lemma rq_ok_insert:
  assumes "rq_ok X s" "th_state (sc_threads s t) \<noteq> THREAD_STATE_READY"
  shows "rq_ok (insert t X) s"
  using assms by (auto simp: rq_ok_def)

lemma rq_ok_shrink:
  assumes "rq_ok (insert t X) s" "th_state (sc_threads s t) \<noteq> THREAD_STATE_READY"
  shows "rq_ok X s"
  using assms by (auto simp: rq_ok_def)

lemma sum_length_upd:
  fixes p :: nat
  shows "p < 128 \<Longrightarrow> (\<Sum>q < 128. length ((f(p := xs)) q)) + length (f p) = (\<Sum>q < 128. length (f q :: nat list)) + length xs"
proof -
  assume "p < 128"
  then have s: "(\<Sum>q < 128. length (g q)) = length (g p) + (\<Sum>q \<in> {..<128} - {p}. length (g q))" for g :: "nat \<Rightarrow> nat list"
    by (intro sum.remove) simp_all
  have "(\<Sum>q \<in> {..<128} - {p}. length ((f(p := xs)) q)) = (\<Sum>q \<in> {..<128} - {p}. length (f q))" by (rule sum.cong) simp_all
  then show ?thesis using s [of f] s [of "f(p := xs)"] by simp
qed

lemma node_linked_free: "rq_ok X s \<Longrightarrow> t \<in> X \<Longrightarrow> \<not> node_linked t s"
  by (auto simp: node_linked_def list_ex_iff rq_ok_def)

definition put_result :: "nat \<Rightarrow> sched \<Rightarrow> sched" where
  "put_result t s =
     (let s1 = upd_thread t (\<lambda>th. th\<lparr>th_cpu := Some (sc_cpu_num s)\<rparr>) s; p = nat (th_d_prio (sc_threads s t))
      in s1\<lparr>sc_queue := (sc_queue s)(p := sc_queue s p @ [t]), sc_total_count := sc_total_count s + 1\<rparr>)"

lemma rq_put_ok:
  assumes ok: "rq_ok (insert t X) s" and t: "t \<notin> X" "th_state (sc_threads s t) = THREAD_STATE_READY"
    "0 \<le> th_d_prio (sc_threads s t)" "th_d_prio (sc_threads s t) < 128"
  shows "rq_put_thread t s = Inr (put_result t s)" "rq_ok X (put_result t s)"
proof -
  let ?p = "nat (th_d_prio (sc_threads s t))"
  let ?s1 = "if th_cpu (sc_threads s t) \<noteq> Some (sc_cpu_num s) then upd_thread t (\<lambda>th. th\<lparr>th_cpu := Some (sc_cpu_num s)\<rparr>) s else s"
  have s1: "?s1 = upd_thread t (\<lambda>th. th\<lparr>th_cpu := Some (sc_cpu_num s)\<rparr>) s"
    by (auto simp: upd_thread_def intro!: sched.equality)
  have nl: "\<not> node_linked t (upd_thread t (\<lambda>th. th\<lparr>th_cpu := Some (sc_cpu_num s)\<rparr>) s)"
    using node_linked_free [OF ok] by (simp add: node_linked_def)
  show "rq_put_thread t s = Inr (put_result t s)"
    unfolding rq_put_thread_def s1 using t nl by (simp add: Let_def put_result_def)
  have p: "?p < 128" using t(4) by simp
  have free: "t \<notin> set (sc_queue s q)" if "q < 128" for q using ok that by (auto simp: rq_ok_def)
  let ?s' = "put_result t s"
  have q: "sc_queue ?s' = (sc_queue s)(?p := sc_queue s ?p @ [t])"
    and th: "\<And>u. th_state (sc_threads ?s' u) = th_state (sc_threads s u)" "\<And>u. th_d_prio (sc_threads ?s' u) = th_d_prio (sc_threads s u)"
    by (simp_all add: put_result_def Let_def)
  show "rq_ok X ?s'"
  proof (rule rq_okI)
    fix r :: nat assume r: "r < 128"
    show "distinct (sc_queue ?s' r)" using rq_ok_distinct [OF ok r] free [OF r] by (auto simp: q)
    fix u assume "u \<in> set (sc_queue ?s' r)"
    then have "u \<in> set (sc_queue s r) \<or> u = t \<and> r = ?p" by (auto simp: q split: if_splits)
    then show "th_state (sc_threads ?s' u) = THREAD_STATE_READY \<and> th_d_prio (sc_threads ?s' u) = int r \<and> u \<notin> X"
      using rq_okD [OF ok r, of u] t unfolding th by auto
  next
    fix u assume "th_state (sc_threads ?s' u) = THREAD_STATE_READY" "u \<notin> X"
    then have "u = t \<or> queued s u" using rq_ok_queued [OF ok] unfolding th by auto
    then have "\<exists>r < 128. u \<in> set (sc_queue s r) \<or> u = t \<and> r = ?p" using p by (auto simp: queued_def)
    then obtain r where "r < 128" "u \<in> set (sc_queue s r) \<or> u = t \<and> r = ?p" by blast
    then show "queued ?s' u" by (auto simp: queued_def q intro!: exI [of _ r])
  next
    show "sc_total_count ?s' = of_nat (\<Sum>r < 128. length (sc_queue ?s' r))"
      using sum_length_upd [OF p, of "sc_queue s" "sc_queue s ?p @ [t]"] rq_ok_total [OF ok]
      unfolding q by (simp add: put_result_def Let_def)
  qed
qed

lemma queue_remove_ok:
  assumes ok: "rq_ok X s" and p: "p < 128" "t \<in> set (sc_queue s p)"
  shows "rq_ok (insert t X) (s\<lparr>sc_queue := (sc_queue s)(p := remove1 t (sc_queue s p)), sc_total_count := sc_total_count s - 1\<rparr>)"
proof -
  let ?q = "(sc_queue s)(p := remove1 t (sc_queue s p))"
  let ?s' = "s\<lparr>sc_queue := ?q, sc_total_count := sc_total_count s - 1\<rparr>"
  have d: "distinct (sc_queue s p)" using ok p(1) by (rule rq_ok_distinct)
  have set_p: "set (remove1 t (sc_queue s p)) = set (sc_queue s p) - {t}" using d by (rule set_remove1_eq)
  have other: "t \<notin> set (sc_queue s r)" if "r < 128" "r \<noteq> p" for r
    using rq_okD(2) [OF ok p] rq_okD(2) [OF ok that(1)] that(2) by fastforce
  show "rq_ok (insert t X) ?s'"
  proof (rule rq_okI)
    fix r :: nat assume r: "r < 128"
    show "distinct (sc_queue ?s' r)" using rq_ok_distinct [OF ok r] by (auto simp: distinct_remove1)
    fix u assume "u \<in> set (sc_queue ?s' r)"
    then have "u \<in> set (sc_queue s r)" "u \<noteq> t" using other [OF r] set_p by (auto split: if_splits)
    then show "th_state (sc_threads ?s' u) = THREAD_STATE_READY \<and> th_d_prio (sc_threads ?s' u) = int r \<and> u \<notin> insert t X"
      using rq_okD [OF ok r, of u] by simp
  next
    fix u assume "th_state (sc_threads ?s' u) = THREAD_STATE_READY" "u \<notin> insert t X"
    then have "queued s u" "u \<noteq> t" using rq_ok_queued [OF ok] by auto
    then obtain r where "r < 128" "u \<in> set (sc_queue s r)" by (auto simp: queued_def)
    then show "queued ?s' u" using \<open>u \<noteq> t\<close> set_p by (auto simp: queued_def intro!: exI [of _ r])
  next
    have "length (sc_queue s p) = Suc (length (remove1 t (sc_queue s p)))"
      using p(2) length_pos_if_in_set [OF p(2)] by (simp add: length_remove1)
    then have "(\<Sum>r < 128. length (sc_queue s r)) = Suc (\<Sum>r < 128. length (?q r))"
      using sum_length_upd [OF p(1), of "sc_queue s" "remove1 t (sc_queue s p)"] by linarith
    then show "sc_total_count ?s' = of_nat (\<Sum>r < 128. length (sc_queue ?s' r))"
      using rq_ok_total [OF ok] by simp
  qed
qed

lemma pop_head_ok:
  assumes "rq_ok X s" "p < 128" "sc_queue s p \<noteq> []"
  shows "rq_ok (insert (hd (sc_queue s p)) X) (fst (rq_pop_head_thread p s))"
proof -
  have "tl (sc_queue s p) = remove1 (hd (sc_queue s p)) (sc_queue s p)" using assms(3) by (cases "sc_queue s p") simp_all
  with queue_remove_ok [OF assms(1,2), of "hd (sc_queue s p)"] assms(3) show ?thesis by (simp add: rq_pop_head_thread_def)
qed

lemma extract_ok:
  assumes "rq_ok X s" "queued s t"
  shows "rq_ok (insert t X) (fst (rq_extract_thread t s))"
  using queue_remove_ok [OF assms(1)] queued_level [OF assms] by (simp add: rq_extract_thread_def Let_def)


section \<open>Ageing keeps the run queues\<close>

text \<open>Ageing moves threads up; it changes only their dynamic priority and processor.\<close>

definition aged :: "sched \<Rightarrow> sched \<Rightarrow> bool" where
  "aged s s' \<longleftrightarrow>
     sc_current s' = sc_current s \<and> sc_cpu_num s' = sc_cpu_num s \<and> sc_ticks s' = sc_ticks s \<and>
     sc_lost_ticks s' = sc_lost_ticks s \<and> sc_tick_type s' = sc_tick_type s \<and> sc_quanta s' = sc_quanta s \<and>
     sc_shuffle_factor s' = sc_shuffle_factor s \<and> sc_idle_thread s' = sc_idle_thread s \<and> sc_lock s' = sc_lock s \<and>
     (\<forall>t. \<exists>d c. sc_threads s' t = (sc_threads s t)\<lparr>th_d_prio := d, th_cpu := c\<rparr> \<and> th_d_prio (sc_threads s t) \<le> d)"

lemma aged_refl [simp]: "aged s s"
proof -
  have "\<exists>d c. sc_threads s t = (sc_threads s t)\<lparr>th_d_prio := d, th_cpu := c\<rparr> \<and> th_d_prio (sc_threads s t) \<le> d" for t
    by (rule exI [of _ "th_d_prio (sc_threads s t)"], rule exI [of _ "th_cpu (sc_threads s t)"]) simp
  then show ?thesis unfolding aged_def by blast
qed

lemma agedD:
  assumes "aged s s'"
  shows "sc_current s' = sc_current s" "sc_cpu_num s' = sc_cpu_num s" "sc_ticks s' = sc_ticks s"
    "sc_lost_ticks s' = sc_lost_ticks s" "sc_tick_type s' = sc_tick_type s" "sc_quanta s' = sc_quanta s"
    "sc_shuffle_factor s' = sc_shuffle_factor s" "sc_idle_thread s' = sc_idle_thread s" "sc_lock s' = sc_lock s"
    "th_state (sc_threads s' t) = th_state (sc_threads s t)"
    "th_next_state (sc_threads s' t) = th_next_state (sc_threads s t)"
    "th_flags (sc_threads s' t) = th_flags (sc_threads s t)"
    "th_preempt_count (sc_threads s' t) = th_preempt_count (sc_threads s t)"
    "th_jiffies (sc_threads s' t) = th_jiffies (sc_threads s t)" "th_ijiffies (sc_threads s' t) = th_ijiffies (sc_threads s t)"
    "th_policy_type (sc_threads s' t) = th_policy_type (sc_threads s t)"
    "th_s_prio (sc_threads s' t) = th_s_prio (sc_threads s t)" "th_sched_stamp (sc_threads s' t) = th_sched_stamp (sc_threads s t)"
    "th_carrots_sticks (sc_threads s' t) = th_carrots_sticks (sc_threads s t)"
    "th_d_prio (sc_threads s t) \<le> th_d_prio (sc_threads s' t)"
proof -
  from assms obtain d c where t: "sc_threads s' t = (sc_threads s t)\<lparr>th_d_prio := d, th_cpu := c\<rparr>" "th_d_prio (sc_threads s t) \<le> d"
    unfolding aged_def by blast
  show "sc_current s' = sc_current s" "sc_cpu_num s' = sc_cpu_num s" "sc_ticks s' = sc_ticks s"
    "sc_lost_ticks s' = sc_lost_ticks s" "sc_tick_type s' = sc_tick_type s" "sc_quanta s' = sc_quanta s"
    "sc_shuffle_factor s' = sc_shuffle_factor s" "sc_idle_thread s' = sc_idle_thread s" "sc_lock s' = sc_lock s"
    using assms by (simp_all add: aged_def)
  show "th_state (sc_threads s' t) = th_state (sc_threads s t)"
    "th_next_state (sc_threads s' t) = th_next_state (sc_threads s t)"
    "th_flags (sc_threads s' t) = th_flags (sc_threads s t)"
    "th_preempt_count (sc_threads s' t) = th_preempt_count (sc_threads s t)"
    "th_jiffies (sc_threads s' t) = th_jiffies (sc_threads s t)" "th_ijiffies (sc_threads s' t) = th_ijiffies (sc_threads s t)"
    "th_policy_type (sc_threads s' t) = th_policy_type (sc_threads s t)"
    "th_s_prio (sc_threads s' t) = th_s_prio (sc_threads s t)" "th_sched_stamp (sc_threads s' t) = th_sched_stamp (sc_threads s t)"
    "th_carrots_sticks (sc_threads s' t) = th_carrots_sticks (sc_threads s t)"
    "th_d_prio (sc_threads s t) \<le> th_d_prio (sc_threads s' t)"
    using t by simp_all
qed

lemma aged_trans:
  assumes a: "aged s s'" and b: "aged s' s''"
  shows "aged s s''"
proof -
  have "\<exists>d c. sc_threads s'' t = (sc_threads s t)\<lparr>th_d_prio := d, th_cpu := c\<rparr> \<and> th_d_prio (sc_threads s t) \<le> d" for t
  proof -
    from a obtain d c where "sc_threads s' t = (sc_threads s t)\<lparr>th_d_prio := d, th_cpu := c\<rparr>" "th_d_prio (sc_threads s t) \<le> d"
      unfolding aged_def by blast
    moreover from b obtain d' c' where "sc_threads s'' t = (sc_threads s' t)\<lparr>th_d_prio := d', th_cpu := c'\<rparr>" "th_d_prio (sc_threads s' t) \<le> d'"
      unfolding aged_def by blast
    ultimately show ?thesis by (intro exI [of _ d'] exI [of _ c']) simp
  qed
  with a b show ?thesis unfolding aged_def by simp
qed

lemma shuffle_prio_le: "shuffle_prio s p th \<le> 127"
  by (simp add: shuffle_prio_def Let_def)

lemma shuffle_level_ok:
  assumes ok: "rq_ok X s" and f: "sc_shuffle_factor s \<noteq> 0" and p: "p < 128"
  shows "\<exists>s'. shuffle_level p s = Inr s' \<and> rq_ok X s' \<and> aged s s' \<and>
    (sc_queue s p \<noteq> [] \<longrightarrow>
       th_d_prio (sc_threads s' (hd (sc_queue s p))) = max (int p) (shuffle_prio s p (sc_threads s (hd (sc_queue s p)))))"
proof (cases "sc_queue s p = []")
  case False
  let ?t = "hd (sc_queue s p)"
  let ?np = "shuffle_prio s p (sc_threads s ?t)"
  have t: "?t \<in> set (sc_queue s p)" using False by simp
  note T = rq_okD [OF ok p t]
  show ?thesis
  proof (cases "int p < ?np")
    case True
    let ?s1 = "fst (rq_pop_head_thread p s)"
    let ?s2 = "upd_thread ?t (\<lambda>th. th\<lparr>th_d_prio := ?np\<rparr>) ?s1"
    have s1: "sc_threads ?s1 = sc_threads s" by (simp add: rq_pop_head_thread_def)
    have "rq_ok (insert ?t X) ?s2" by (intro rq_ok_upd pop_head_ok ok p False) simp
    note put = rq_put_ok [OF this T(3)]
    have l: "shuffle_level p s = Inr (put_result ?t ?s2)" "rq_ok X (put_result ?t ?s2)"
      using put T True f False shuffle_prio_le [of s p "sc_threads s ?t"]
      by (simp_all add: shuffle_level_def Let_def s1)
    have "aged s (put_result ?t ?s2)"
    proof -
      have "\<exists>d c. sc_threads (put_result ?t ?s2) u = (sc_threads s u)\<lparr>th_d_prio := d, th_cpu := c\<rparr> \<and> th_d_prio (sc_threads s u) \<le> d" for u
      proof (cases "u = ?t")
        case u: True
        show ?thesis using True T(2) unfolding u
          by (intro exI [of _ ?np] exI [of _ "Some (sc_cpu_num s)"]) (simp add: put_result_def Let_def rq_pop_head_thread_def)
      next
        case False
        then show ?thesis
          by (intro exI [of _ "th_d_prio (sc_threads s u)"] exI [of _ "th_cpu (sc_threads s u)"])
            (simp add: put_result_def Let_def rq_pop_head_thread_def)
      qed
      then show ?thesis
        unfolding aged_def by (simp add: put_result_def Let_def rq_pop_head_thread_def)
    qed
    with l True show ?thesis by (simp add: put_result_def Let_def s1)
  next
    case False
    then show ?thesis using ok f T \<open>sc_queue s p \<noteq> []\<close> by (simp add: shuffle_level_def Let_def)
  qed
qed (use ok in \<open>simp add: shuffle_level_def\<close>)

lemma shuffle_loop_ok:
  assumes "rq_ok X s" "sc_shuffle_factor s \<noteq> 0" "\<forall>p \<in> set ps. p < 128"
  shows "\<exists>s'. shuffle_loop ps s = Inr s' \<and> rq_ok X s' \<and> aged s s'"
  using assms
proof (induction ps arbitrary: s)
  case (Cons p ps)
  from shuffle_level_ok [OF Cons.prems(1,2), of p] Cons.prems(3) obtain s1 where
    s1: "shuffle_level p s = Inr s1" "rq_ok X s1" "aged s s1" by auto
  from Cons.IH [OF s1(2)] Cons.prems(2,3) agedD(7) [OF s1(3)] obtain s2 where
    "shuffle_loop ps s1 = Inr s2" "rq_ok X s2" "aged s1 s2" by auto
  with s1 show ?case by (auto intro: aged_trans)
qed simp

lemma tick_levels_lt: "p \<in> set (tick_levels tt) \<Longrightarrow> p < 127"
  by (simp add: tick_levels_def)


section \<open>Quantum and ageing factor\<close>

lemma estimate_quanta_bounds: "20 \<le> estimate_quanta c" "estimate_quanta c \<le> 60"
proof -
  let ?x = "drop_bit 1 c"
  have "take_bit 32 (unat c) = unat c" using unat_lt32 by (rule take_bit_nat_eq_self)
  then have "unat ?x = unat c div 2" by (subst unsigned_drop_bit_eq) (simp add: drop_bit_eq_div)
  then have x: "unat ?x < 2 ^ 31" using unat_lt32 [of c] by simp
  then have "int (unat ?x) < int (2 ^ 31)" by (simp only: of_nat_less_iff)
  then have lt: "uint ?x < 2 ^ 31" by simp
  have nn: "0 \<le> uint ?x" by (rule unsigned_greater_eq)
  then have ge: "- (2 ^ 31) \<le> uint ?x" by (rule order_trans [rotated]) simp
  have "sint ?x = signed_take_bit 31 (uint ?x)" by (simp add: sint_uint)
  also have "\<dots> = int (unat ?x)" using ge lt by (simp only: signed_take_bit_int_eq_self) simp
  finally have "sint ?x = int (unat ?x)" .
  then have "sint (60 - ?x) = signed_take_bit 31 (60 - int (unat ?x))"
    using sint_word_ariths(2) [of "60 :: uint" ?x] by simp
  also have "\<dots> = 60 - int (unat ?x)"
  proof -
    obtain n where n: "unat ?x = n" "n < 2 ^ 31" using x by blast
    show ?thesis unfolding n(1) using n(2) by (intro signed_take_bit_int_eq_self) simp_all
  qed
  finally have "sint (60 - ?x) \<le> 60" by simp
  then show "20 \<le> estimate_quanta c" "estimate_quanta c \<le> 60" by (simp_all add: estimate_quanta_def Let_def)
qed

lemma estimate_factor_ge: "7 \<le> unat (estimate_factor c)"
proof -
  let ?a = "if c div 200 = 0 then 1 else c div 200" and ?b0 = "if c = 0 then 8 else 50 div c"
  let ?b1 = "if 8 < ?b0 then 8 else ?b0"
  let ?b = "if ?b1 = 0 then 1 else ?b1"
  have ua: "unat (c div 200) = unat c div 200" by (simp add: unat_div)
  have a: "1 \<le> unat ?a" "unat ?a \<le> 21474836"
    using ua unat_lt32 [of c] by (auto simp: unat_eq_0 [symmetric])
  have "?b1 \<le> 8" by auto
  then have "?b \<le> 8" by (auto simp: word_le_nat_alt)
  then have b: "1 \<le> unat ?b" "unat ?b \<le> 8" by (auto simp: word_le_nat_alt unat_eq_0 [symmetric] Suc_le_eq)
  have "unat (?a * 60) = unat ?a * 60" using a(2) by (subst unat_mult_lem [THEN iffD1]) simp_all
  then have "unat (estimate_factor c) = unat ?a * 60 div unat ?b"
    by (simp add: estimate_factor_def Let_def unat_div)
  moreover have "60 div 8 \<le> unat ?a * 60 div unat ?b"
    using a b by (intro order_trans [OF div_le_mono [of 60 "unat ?a * 60" 8] div_le_mono2]) simp_all
  ultimately show ?thesis by simp
qed

lemma quanta_ticks: "20 \<le> q \<Longrightarrow> 5 \<le> SCHED_MSEC2TICKS q"
  by (simp add: SCHED_MSEC2TICKS_def HZ_def signed_divide_int_def signed_modulo_int_def)

lemma new_carrots_bounds:
  assumes "-8 \<le> th_carrots_sticks th" "th_carrots_sticks th \<le> 8"
  shows "-8 \<le> new_carrots th" "new_carrots th \<le> 8"
proof -
  have "usage_index th < 10" by (auto simp: usage_index_def Let_def)
  then have "usage_index th \<in> {0, 1, 2, 3, 4, 5, 6, 7, 8, 9}" by auto
  then have "-1 \<le> sys_bonus ! usage_index th" "sys_bonus ! usage_index th \<le> 0"
    by (auto simp: sys_bonus_def)
  then show "-8 \<le> new_carrots th" "new_carrots th \<le> 8" by (auto simp: new_carrots_def Let_def)
qed

section \<open>The scheduler invariant\<close>

definition sched_params_ok :: "sched \<Rightarrow> bool" where
  "sched_params_ok s \<longleftrightarrow> 20 \<le> sc_quanta s \<and> sc_quanta s \<le> 60 \<and> 7 \<le> unat (sc_shuffle_factor s) \<and> sc_tick_type s < 8 \<and>
     0 \<le> sc_lost_ticks s"

definition thread_ok :: "thread \<Rightarrow> bool" where
  "thread_ok th \<longleftrightarrow> -8 \<le> th_carrots_sticks th \<and> th_carrots_sticks th \<le> 8 \<and>
     (th_state th \<in> {THREAD_STATE_READY, THREAD_STATE_RUNNING} \<longrightarrow>
        th_next_state th \<notin> {THREAD_STATE_BIRTH, THREAD_STATE_DEAD})"

definition idle_ok :: "nat \<Rightarrow> sched \<Rightarrow> bool" where
  "idle_ok i s \<longleftrightarrow> sc_idle_thread s = Some i \<and> th_next_state (sc_threads s i) = THREAD_STATE_READY \<and>
     th_state (sc_threads s i) \<in> {THREAD_STATE_READY, THREAD_STATE_RUNNING}"

definition running_ok :: "sched \<Rightarrow> bool" where
  "running_ok s \<longleftrightarrow> 5 \<le> th_ijiffies (sc_threads s (sc_current s)) \<and> 0 \<le> th_jiffies (sc_threads s (sc_current s)) \<and>
     th_jiffies (sc_threads s (sc_current s)) \<le> th_ijiffies (sc_threads s (sc_current s))"

definition sched_inv :: "nat \<Rightarrow> sched \<Rightarrow> bool" where
  "sched_inv i s \<longleftrightarrow> rq_ok {i} s \<and> sched_params_ok s \<and> (\<forall>t. thread_ok (sc_threads s t)) \<and> idle_ok i s \<and>
     (\<forall>t. th_state (sc_threads s t) = THREAD_STATE_RUNNING \<longleftrightarrow> t = sc_current s) \<and>
     (sc_current s \<noteq> i \<longrightarrow> running_ok s)"

lemma sched_invD:
  assumes "sched_inv i s"
  shows "rq_ok {i} s" "sched_params_ok s" "\<And>t. thread_ok (sc_threads s t)" "idle_ok i s"
    "th_state (sc_threads s (sc_current s)) = THREAD_STATE_RUNNING"
    "\<And>t. th_state (sc_threads s t) = THREAD_STATE_RUNNING \<Longrightarrow> t = sc_current s"
    "sc_current s \<noteq> i \<Longrightarrow> running_ok s"
  using assms by (auto simp: sched_inv_def)

lemma sched_inv_running: "sched_inv i s \<Longrightarrow> th_state (sc_threads s t) = THREAD_STATE_RUNNING \<longleftrightarrow> t = sc_current s"
  by (simp add: sched_inv_def)

lemma sched_invI:
  assumes "rq_ok {i} s" "sched_params_ok s" "\<And>t. thread_ok (sc_threads s t)" "idle_ok i s"
    "\<And>t. th_state (sc_threads s t) = THREAD_STATE_RUNNING \<longleftrightarrow> t = sc_current s" "sc_current s \<noteq> i \<Longrightarrow> running_ok s"
  shows "sched_inv i s"
  unfolding sched_inv_def using assms by blast

text \<open>Ticks, locks and parameters do not matter for the queues and threads.\<close>

lemma sched_inv_cong:
  assumes inv: "sched_inv i s" and eq: "sc_threads s' = sc_threads s" "sc_queue s' = sc_queue s"
    "sc_total_count s' = sc_total_count s" "sc_current s' = sc_current s" "sc_idle_thread s' = sc_idle_thread s"
    and par: "sched_params_ok s'"
  shows "sched_inv i s'"
proof (rule sched_invI)
  note I = sched_invD [OF inv]
  show "rq_ok {i} s'" using I(1) by (rule rq_ok_cong [THEN iffD2, rotated -1]) (simp_all add: eq)
  show "sched_params_ok s'" by (rule par)
  show "thread_ok (sc_threads s' t)" for t using I(3) by (simp add: eq)
  show "idle_ok i s'" using I(4) by (simp add: idle_ok_def eq)
  show "th_state (sc_threads s' t) = THREAD_STATE_RUNNING \<longleftrightarrow> t = sc_current s'" for t using I(5,6) eq by metis
  show "running_ok s'" if "sc_current s' \<noteq> i" using I(7) that by (simp add: running_ok_def eq)
qed

lemma rq_ok_upd_same:
  assumes "rq_ok X s" "th_state (f (sc_threads s t)) = th_state (sc_threads s t)" "th_d_prio (f (sc_threads s t)) = th_d_prio (sc_threads s t)"
  shows "rq_ok X (upd_thread t f s)"
  using assms(1) by (rule rq_ok_cong [THEN iffD2, rotated -1]) (use assms(2,3) in auto)

lemma shuffle_factor_nz: "sched_params_ok s \<Longrightarrow> sc_shuffle_factor s \<noteq> 0"
  by (auto simp: sched_params_ok_def)


section \<open>The timer handler\<close>

lemma shuffle_inv:
  assumes inv: "sched_inv i s"
  shows "\<exists>s'. sched_shuffle_runqueue_head tt s = Inr s' \<and> sched_inv i s' \<and> aged s s'"
proof -
  note I = sched_invD [OF inv]
  from shuffle_loop_ok [OF I(1) shuffle_factor_nz [OF I(2)], of "tick_levels tt"] obtain s' where
    s': "sched_shuffle_runqueue_head tt s = Inr s'" "rq_ok {i} s'" "aged s s'"
    by (fastforce simp: sched_shuffle_runqueue_head_def dest: tick_levels_lt)
  note D = agedD [OF s'(3)]
  have "thread_ok (sc_threads s' t)" for t using I(3) [of t] by (simp add: thread_ok_def D)
  moreover have "sched_params_ok s'" "idle_ok i s'" "running_ok s' = running_ok s"
    using I(2,4) by (simp_all add: sched_params_ok_def idle_ok_def running_ok_def D)
  moreover have "th_state (sc_threads s' t) = THREAD_STATE_RUNNING \<longleftrightarrow> t = sc_current s'" for t
    using I(5) I(6) [of t] by (auto simp: D)
  ultimately have "sched_inv i s'" using I(7) D(1) s'(2) by (intro sched_invI) simp_all
  with s' show ?thesis by blast
qed

lemma check_preempt_inv:
  assumes inv: "sched_inv i s" and n: "0 < n"
  shows "sched_inv i (fst (check_preempt n s))"
proof -
  note I = sched_invD [OF inv]
  let ?t = "sc_current s" and ?j = "th_jiffies (sc_threads s (sc_current s)) - n"
  obtain f where f: "fst (check_preempt n s) = upd_thread ?t f s"
    and fs: "\<And>th. th_state (f th) = th_state th" "\<And>th. th_d_prio (f th) = th_d_prio th"
      "\<And>th. th_next_state (f th) = th_next_state th" "\<And>th. th_carrots_sticks (f th) = th_carrots_sticks th"
      "\<And>th. th_ijiffies (f th) = th_ijiffies th"
      "\<And>th. th_jiffies (f th) = (if sc_idle_thread s = Some ?t then th_jiffies th else if ?j \<le> 0 then 0 else ?j)"
  proof
    let ?f = "\<lambda>th. (if snd (check_preempt n s) then (\<lambda>th. th\<lparr>th_flags := th_flags th OR THREAD_FLAG_RESCHEDULE\<rparr>) else id)
      (if sc_idle_thread s = Some ?t then th else th\<lparr>th_jiffies := if ?j \<le> 0 then 0 else ?j\<rparr>)"
    show "fst (check_preempt n s) = upd_thread ?t ?f s"
      by (auto simp: check_preempt_def Let_def upd_thread_def intro!: sched.equality)
  qed simp_all
  let ?s' = "upd_thread ?t f s"
  have "sched_inv i ?s'"
  proof (rule sched_invI)
    show "rq_ok {i} ?s'" by (rule rq_ok_upd_same [OF I(1)]) (simp_all add: fs)
    show "sched_params_ok ?s'" using I(2) by (simp add: sched_params_ok_def)
    show "thread_ok (sc_threads ?s' t)" for t using I(3) [of t] by (cases "t = ?t") (simp_all add: thread_ok_def fs)
    show "idle_ok i ?s'" using I(4) by (auto simp: idle_ok_def fs)
    show "th_state (sc_threads ?s' t) = THREAD_STATE_RUNNING \<longleftrightarrow> t = sc_current ?s'" for t
      using sched_inv_running [OF inv, of t] by (cases "t = ?t") (simp_all add: fs)
    show "running_ok ?s'" if "sc_current ?s' \<noteq> i"
    proof -
      have "sc_idle_thread s \<noteq> Some ?t" using I(4) that by (simp add: idle_ok_def)
      moreover have "running_ok s" using I(7) that by simp
      ultimately show ?thesis using n by (simp add: running_ok_def fs)
    qed
  qed
  then show ?thesis by (simp only: f)
qed

lemma estimate_inv:
  assumes "sched_inv i s"
  shows "sched_inv i (estimate s)"
  using assms
  by (rule sched_inv_cong) (use estimate_quanta_bounds [of "sc_total_count s"] estimate_factor_ge [of "sc_total_count s"]
    sched_invD(2) [OF assms] in \<open>simp_all add: estimate_def sched_params_ok_def\<close>)

lemma sched_inv_lock:
  assumes "sched_inv i s"
  shows "sched_inv i (s\<lparr>sc_lock := b\<rparr>)"
  using assms by (rule sched_inv_cong) (use sched_invD(2) [OF assms] in \<open>simp_all add: sched_params_ok_def\<close>)

lemma timer_inv:
  assumes inv: "sched_inv i s"
  shows "\<exists>s' r. scheduler_timer s = Inr (s', r) \<and> sched_inv i s' \<and> sc_lock s' = sc_lock s"
proof (cases "sc_lock s")
  case True
  have "sched_inv i (s\<lparr>sc_lost_ticks := sc_lost_ticks s + 1\<rparr>)"
    using inv by (rule sched_inv_cong) (use sched_invD(2) [OF inv] in \<open>simp_all add: sched_params_ok_def\<close>)
  with True show ?thesis by (intro exI [of _ "s\<lparr>sc_lost_ticks := sc_lost_ticks s + 1\<rparr>"] exI [of _ False]) (simp add: scheduler_timer_def)
next
  case False
  let ?n = "sc_lost_ticks s + 1"
  let ?s1 = "s\<lparr>sc_lock := True, sc_ticks := sc_ticks s + ?n, sc_lost_ticks := 0, sc_tick_type := (sc_tick_type s + 1) mod 8\<rparr>"
  have n: "0 < ?n" using sched_invD(2) [OF inv] by (simp add: sched_params_ok_def)
  have "sched_inv i ?s1"
    using inv by (rule sched_inv_cong) (use sched_invD(2) [OF inv] in \<open>simp_all add: sched_params_ok_def\<close>)
  from shuffle_inv [OF this, of "sc_tick_type ?s1"] obtain s2 where
    s2: "sched_shuffle_runqueue_head (sc_tick_type ?s1) ?s1 = Inr s2" "sched_inv i s2" by blast
  let ?s3 = "if sc_tick_type s2 = SCHED_ESTIMATION_TICK then estimate s2 else s2"
  have s3: "sched_inv i ?s3" using s2(2) estimate_inv by simp
  let ?c = "th_preempt_count (sc_threads ?s3 (sc_current ?s3)) = 0 \<and> th_flags (sc_threads ?s3 (sc_current ?s3)) AND THREAD_FLAG_RESCHEDULE = 0"
  let ?r4 = "if ?c then check_preempt ?n ?s3 else (?s3, False)"
  have "sched_inv i (fst ?r4)" using s3 check_preempt_inv [OF s3 n] by simp
  then have "sched_inv i ((fst ?r4)\<lparr>sc_lock := False\<rparr>)" by (rule sched_inv_lock)
  moreover have "scheduler_timer s = Inr ((fst ?r4)\<lparr>sc_lock := False\<rparr>, snd ?r4)"
    using False s2(1) unfolding scheduler_timer_def Let_def by (simp add: case_prod_beta)
  ultimately show ?thesis using False by auto
qed


section \<open>Choosing the next thread\<close>

lemma best_of_list:
  "foldl (significant_thread s) t ts \<in> insert t (set ts) \<and>
   (\<forall>u \<in> insert t (set ts). effective_policy (sc_threads s u) \<le> effective_policy (sc_threads s (foldl (significant_thread s) t ts)))"
proof (induction ts arbitrary: t)
  case (Cons a ts)
  from Cons.IH [of "significant_thread s t a"] show ?case
    by (auto simp: significant_thread_def split: if_splits)
qed simp

lemma best_of_level:
  assumes "sc_queue s p \<noteq> []"
  shows "best_of_level s p \<in> set (take 10 (sc_queue s p))"
    "u \<in> set (take 10 (sc_queue s p)) \<Longrightarrow> effective_policy (sc_threads s u) \<le> effective_policy (sc_threads s (best_of_level s p))"
proof -
  obtain t ts where q: "sc_queue s p = t # ts" using assms by (cases "sc_queue s p") auto
  then have "set (take 10 (sc_queue s p)) = insert t (set (take 9 ts))" by (simp add: take_Cons')
  then show "best_of_level s p \<in> set (take 10 (sc_queue s p))"
    "u \<in> set (take 10 (sc_queue s p)) \<Longrightarrow> effective_policy (sc_threads s u) \<le> effective_policy (sc_threads s (best_of_level s p))"
    using best_of_list [of s t "take 9 ts"] by (auto simp: best_of_level_def q)
qed

lemma pick_loop_some:
  assumes ok: "rq_ok X s" "\<forall>p \<in> set ps. p < 128" and ne: "\<exists>p \<in> set ps. sc_queue s p \<noteq> []"
  shows "\<exists>p qs rs. ps = qs @ p # rs \<and> (\<forall>q \<in> set qs. sc_queue s q = []) \<and> sc_queue s p \<noteq> [] \<and>
    pick_loop ps s = (fst (rq_extract_thread (best_of_level s p) s), Some (best_of_level s p))"
  using ok(2) ne
proof (induction ps)
  case (Cons p ps)
  show ?case
  proof (cases "sc_queue s p = []")
    case True
    with Cons.IH Cons.prems obtain p' qs rs where "ps = qs @ p' # rs" "\<forall>q \<in> set qs. sc_queue s q = []" "sc_queue s p' \<noteq> []"
      "pick_loop ps s = (fst (rq_extract_thread (best_of_level s p') s), Some (best_of_level s p'))" by auto
    with True show ?thesis by (intro exI [of _ p'] exI [of _ "p # qs"] exI [of _ rs]) simp
  next
    case False
    have "pick_loop (p # ps) s = (fst (rq_extract_thread (best_of_level s p) s), Some (best_of_level s p))"
    proof (cases "1 < length (sc_queue s p)")
      case True
      then show ?thesis using False by (simp add: rq_extract_thread_def Let_def)
    next
      case single: False
      then obtain t where t: "sc_queue s p = [t]" using False by (cases "sc_queue s p") auto
      moreover have "th_d_prio (sc_threads s t) = int p" using rq_okD(2) [OF ok(1)] Cons.prems(1) t by simp
      ultimately show ?thesis
        by (simp add: rq_pop_head_thread_def rq_extract_thread_def Let_def best_of_level_def)
    qed
    with False show ?thesis by (intro exI [of _ p] exI [of _ "[]"] exI [of _ ps]) simp
  qed
qed simp

lemma pick_loop_none: "\<forall>p \<in> set ps. sc_queue s p = [] \<Longrightarrow> pick_loop ps s = (s, None)"
  by (induction ps) simp_all

text \<open>The thread that \<^verbatim>\<open>sched_reschedule\<close> hands the processor to.\<close>

definition best_thread :: "sched \<Rightarrow> nat \<Rightarrow> bool" where
  "best_thread s t \<longleftrightarrow>
     (\<exists>p < 128. (\<forall>q < 128. p < q \<longrightarrow> sc_queue s q = []) \<and> t \<in> set (take 10 (sc_queue s p)) \<and>
        (\<forall>u \<in> set (take 10 (sc_queue s p)). effective_policy (sc_threads s u) \<le> effective_policy (sc_threads s t)))"

lemma pick_loop_top:
  assumes ok: "rq_ok X s" and ne: "\<exists>p < 128. sc_queue s p \<noteq> []"
  shows "\<exists>t. pick_loop (rev [0 ..< 128]) s = (fst (rq_extract_thread t s), Some t) \<and> queued s t \<and> best_thread s t"
proof -
  have "\<exists>p \<in> set (rev [0 ..< 128]). sc_queue s p \<noteq> []" "\<forall>p \<in> set (rev [0 ..< 128]). p < (128 :: nat)" using ne by auto
  from pick_loop_some [OF ok this(2,1)] obtain p qs rs where
    p: "rev [0 ..< 128] = qs @ p # rs" "\<forall>q \<in> set qs. sc_queue s q = []" "sc_queue s p \<noteq> []"
    "pick_loop (rev [0 ..< 128]) s = (fst (rq_extract_thread (best_of_level s p) s), Some (best_of_level s p))" by blast
  have "p \<in> set (rev [0 ..< 128])" using p(1) by simp
  then have lt: "p < 128" by simp
  have "sorted (rev (qs @ p # rs))" using p(1) by (metis rev_rev_ident sorted_upt)
  then have rs: "\<forall>r \<in> set rs. r \<le> p" by (auto simp: sorted_append)
  have above: "sc_queue s q = []" if "q < 128" "p < q" for q
  proof -
    have "q \<in> set (rev [0 ..< 128])" using that by simp
    then have "q \<in> set qs" using p(1) rs that(2) by auto
    then show ?thesis using p(2) by simp
  qed
  note b = best_of_level [OF p(3)]
  have "best_of_level s p \<in> set (sc_queue s p)" using b(1) by (meson in_set_takeD)
  then have "queued s (best_of_level s p)" using lt by (auto simp: queued_def)
  moreover have "best_thread s (best_of_level s p)"
    unfolding best_thread_def using lt above b by (intro exI [of _ p]) blast
  ultimately show ?thesis using p(4) by blast
qed


section \<open>Rescheduling\<close>

text \<open>A state in which no thread runs: the moment between two threads.\<close>

definition between :: "nat \<Rightarrow> sched \<Rightarrow> bool" where
  "between i s \<longleftrightarrow> rq_ok {i} s \<and> sched_params_ok s \<and> (\<forall>t. thread_ok (sc_threads s t)) \<and> idle_ok i s \<and>
     (\<forall>t. th_state (sc_threads s t) \<noteq> THREAD_STATE_RUNNING)"

lemma betweenD:
  assumes "between i s"
  shows "rq_ok {i} s" "sched_params_ok s" "\<And>t. thread_ok (sc_threads s t)" "idle_ok i s"
    "\<And>t. th_state (sc_threads s t) \<noteq> THREAD_STATE_RUNNING"
  using assms by (auto simp: between_def)

definition resumed :: "nat \<Rightarrow> sched \<Rightarrow> sched" where
  "resumed t s = sched_complete_context_switch
     ((upd_thread t (\<lambda>th. th\<lparr>th_state := THREAD_STATE_RUNNING, th_sched_stamp := SCHED_TICKS2MSEC (sc_ticks s)\<rparr>) s)\<lparr>sc_current := t\<rparr>)"

lemma resumed_fields [simp]:
  "sc_threads (resumed t s) = (sc_threads s)(t := (sc_threads s t)\<lparr>th_state := THREAD_STATE_RUNNING, th_sched_stamp := SCHED_TICKS2MSEC (sc_ticks s)\<rparr>)"
  "sc_current (resumed t s) = t" "sc_queue (resumed t s) = sc_queue s" "sc_total_count (resumed t s) = sc_total_count s"
  "sc_quanta (resumed t s) = sc_quanta s" "sc_shuffle_factor (resumed t s) = sc_shuffle_factor s"
  "sc_tick_type (resumed t s) = sc_tick_type s" "sc_lost_ticks (resumed t s) = sc_lost_ticks s"
  "sc_idle_thread (resumed t s) = sc_idle_thread s" "sc_lock (resumed t s) = False"
  by (simp_all add: resumed_def sched_complete_context_switch_def sched_lock_release_def)

lemma resumed_inv:
  assumes b: "rq_ok (insert t {i}) s" "sched_params_ok s" "\<And>u. thread_ok (sc_threads s u)" "idle_ok i s"
    "\<And>u. th_state (sc_threads s u) \<noteq> THREAD_STATE_RUNNING"
    and nxt: "th_next_state (sc_threads s t) \<notin> {THREAD_STATE_BIRTH, THREAD_STATE_DEAD}"
    and quanta: "t \<noteq> i \<Longrightarrow> 5 \<le> th_ijiffies (sc_threads s t) \<and> th_jiffies (sc_threads s t) = th_ijiffies (sc_threads s t)"
  shows "sched_inv i (resumed t s)"
proof (rule sched_invI)
  let ?f = "\<lambda>th. th\<lparr>th_state := THREAD_STATE_RUNNING, th_sched_stamp := SCHED_TICKS2MSEC (sc_ticks s)\<rparr>"
  have "rq_ok (insert t {i}) (upd_thread t ?f s)" using b(1) by (rule rq_ok_upd) simp
  then have "rq_ok {i} (upd_thread t ?f s)" by (rule rq_ok_shrink) simp
  then show "rq_ok {i} (resumed t s)" by (rule rq_ok_cong [THEN iffD2, rotated -1]) simp_all
  show "sched_params_ok (resumed t s)" using b(2) by (simp add: sched_params_ok_def)
  show "thread_ok (sc_threads (resumed t s) u)" for u
    using b(3) [of u] nxt by (cases "u = t") (simp_all add: thread_ok_def)
  show "idle_ok i (resumed t s)" using b(4) by (auto simp: idle_ok_def)
  show "th_state (sc_threads (resumed t s) u) = THREAD_STATE_RUNNING \<longleftrightarrow> u = sc_current (resumed t s)" for u
    using b(5) [of u] by (cases "u = t") simp_all
  show "running_ok (resumed t s)" if "sc_current (resumed t s) \<noteq> i"
    using quanta that by (simp add: running_ok_def)
qed

lemma switch_ok:
  assumes b: "between i s"
  shows "\<exists>s'. switch_to_next s = Inr s' \<and> sched_inv i s' \<and> sc_lock s' = False \<and>
    (\<forall>u. th_next_state (sc_threads s' u) = th_next_state (sc_threads s u)) \<and>
    (if \<exists>p < 128. sc_queue s p \<noteq> [] then best_thread s (sc_current s') else sc_current s' = i)"
proof (cases "\<exists>p < 128. sc_queue s p \<noteq> []")
  case False
  note B = betweenD [OF b]
  have "pick_loop (rev [0 ..< 128]) s = (s, None)" using False by (intro pick_loop_none) auto
  then have "switch_to_next s = Inr (resumed i s)" using B(4) by (simp add: switch_to_next_def resumed_def idle_ok_def)
  moreover have "sched_inv i (resumed i s)"
    using B by (intro resumed_inv) (simp_all add: idle_ok_def)
  ultimately show ?thesis using False by auto
next
  case True
  note B = betweenD [OF b]
  from pick_loop_top [OF B(1) True] obtain t where
    t: "pick_loop (rev [0 ..< 128]) s = (fst (rq_extract_thread t s), Some t)" "queued s t" "best_thread s t" by blast
  let ?s1 = "fst (rq_extract_thread t s)"
  let ?s2 = "renew_quanta t ?s1"
  have s1: "sc_threads ?s1 = sc_threads s" "sc_quanta ?s1 = sc_quanta s" by (simp_all add: rq_extract_thread_def Let_def)
  have ti: "t \<noteq> i" and st: "th_state (sc_threads s t) = THREAD_STATE_READY"
    using queued_level [OF B(1) t(2)] rq_okD(1) [OF B(1)] by auto
  have rq: "rq_ok (insert t {i}) ?s2" unfolding renew_quanta_def by (intro rq_ok_upd extract_ok [OF B(1) t(2)]) simp
  have par: "sched_params_ok ?s2" using B(2) by (simp add: renew_quanta_def sched_params_ok_def rq_extract_thread_def Let_def)
  have thr: "thread_ok (sc_threads ?s2 u)" for u
    using B(3) [of u] by (cases "u = t") (simp_all add: renew_quanta_def thread_ok_def s1)
  have idl: "idle_ok i ?s2" using B(4) ti by (simp add: renew_quanta_def idle_ok_def rq_extract_thread_def Let_def)
  have run: "th_state (sc_threads ?s2 u) \<noteq> THREAD_STATE_RUNNING" for u
    using B(5) [of u] by (cases "u = t") (simp_all add: renew_quanta_def s1)
  have nxt: "th_next_state (sc_threads ?s2 t) \<notin> {THREAD_STATE_BIRTH, THREAD_STATE_DEAD}"
    using B(3) [of t] st by (simp add: renew_quanta_def thread_ok_def s1)
  have "5 \<le> SCHED_MSEC2TICKS (sc_quanta s)" using B(2) by (intro quanta_ticks) (simp add: sched_params_ok_def)
  then have "sched_inv i (resumed t ?s2)"
    by (intro resumed_inv rq par thr idl run nxt) (simp add: renew_quanta_def s1)
  moreover have "switch_to_next s = Inr (resumed t ?s2)" using t(1) by (simp add: switch_to_next_def resumed_def)
  moreover have "th_next_state (sc_threads (resumed t ?s2) u) = th_next_state (sc_threads s u)" for u
    by (simp add: renew_quanta_def s1)
  ultimately show ?thesis using True t(3) by auto
qed


lemma adjust_fields [simp]:
  "sc_current (adjust_current s) = sc_current s" "sc_queue (adjust_current s) = sc_queue s"
  "sc_idle_thread (adjust_current s) = sc_idle_thread s" "sc_lock (adjust_current s) = sc_lock s"
  "sc_quanta (adjust_current s) = sc_quanta s" "sc_shuffle_factor (adjust_current s) = sc_shuffle_factor s"
  "sc_tick_type (adjust_current s) = sc_tick_type s" "sc_lost_ticks (adjust_current s) = sc_lost_ticks s"
  "u \<noteq> sc_current s \<Longrightarrow> sc_threads (adjust_current s) u = sc_threads s u"
  "th_state (sc_threads (adjust_current s) (sc_current s)) = th_next_state (sc_threads s (sc_current s))"
  "th_next_state (sc_threads (adjust_current s) (sc_current s)) = THREAD_STATE_READY"
  "th_carrots_sticks (sc_threads (adjust_current s) u) = th_carrots_sticks (sc_threads s u)"
  "th_ijiffies (sc_threads (adjust_current s) u) = th_ijiffies (sc_threads s u)"
  "th_s_prio (sc_threads (adjust_current s) u) = th_s_prio (sc_threads s u)"
  "effective_policy (sc_threads (adjust_current s) u) = effective_policy (sc_threads s u)"
  by (simp_all add: adjust_current_def) (simp add: effective_policy_def)

lemma adjust_ok:
  assumes inv: "sched_inv i s"
  shows "rq_ok (insert (sc_current s) {i}) (adjust_current s)" "sched_params_ok (adjust_current s)"
    "thread_ok (sc_threads (adjust_current s) u)" "idle_ok i (adjust_current s) \<or> sc_current s = i"
    "sc_current s = i \<Longrightarrow> idle_ok i (adjust_current s)"
    "u \<noteq> sc_current s \<Longrightarrow> th_state (sc_threads (adjust_current s) u) \<noteq> THREAD_STATE_RUNNING"
proof -
  note I = sched_invD [OF inv]
  have "rq_ok (insert (sc_current s) {i}) s" by (rule rq_ok_insert [OF I(1)]) (simp add: I(5))
  then show "rq_ok (insert (sc_current s) {i}) (adjust_current s)" unfolding adjust_current_def by (rule rq_ok_upd) simp
  show "sched_params_ok (adjust_current s)" using I(2) by (simp add: sched_params_ok_def)
  show "thread_ok (sc_threads (adjust_current s) u)"
    using I(3) [of u] I(5) by (cases "u = sc_current s") (simp_all add: thread_ok_def)
  show "idle_ok i (adjust_current s) \<or> sc_current s = i" using I(4) by (auto simp: idle_ok_def)
  show "idle_ok i (adjust_current s)" if "sc_current s = i" using I(4) that by (auto simp: idle_ok_def)
  show "th_state (sc_threads (adjust_current s) u) \<noteq> THREAD_STATE_RUNNING" if "u \<noteq> sc_current s"
    using sched_inv_running [OF inv, of u] that by simp
qed

text \<open>The current thread leaves the processor and is not ready.\<close>

lemma parked_between:
  assumes inv: "sched_inv i s"
    and st: "sc_current s = i \<or> th_next_state (sc_threads s (sc_current s)) \<notin> {THREAD_STATE_RUNNING, THREAD_STATE_READY}"
  shows "between i (adjust_current s)"
proof -
  note A = adjust_ok [OF inv]
  have idle: "idle_ok i (adjust_current s)" using A(4,5) by blast
  have "rq_ok {i} (adjust_current s)"
  proof (cases "sc_current s = i")
    case True
    then show ?thesis using A(1) by simp
  next
    case False
    then show ?thesis using A(1) st by (intro rq_ok_shrink [OF A(1)]) simp
  qed
  moreover have "th_state (sc_threads (adjust_current s) u) \<noteq> THREAD_STATE_RUNNING" for u
  proof (cases "u = sc_current s")
    case True
    have "th_next_state (sc_threads s i) = THREAD_STATE_READY" using sched_invD(4) [OF inv] by (simp add: idle_ok_def)
    with True st show ?thesis by auto
  qed (rule A(6))
  ultimately show ?thesis using A(2,3) idle by (simp add: between_def)
qed

text \<open>The current thread stays ready and joins the end of the level of its new priority.\<close>

definition requeued :: "sched \<Rightarrow> sched" where
  "requeued s =
     (let s1 = adjust_current s; t = sc_current s; c = new_carrots (sc_threads s1 t)
      in put_result t (upd_thread t (\<lambda>th. th\<lparr>th_carrots_sticks := c, th_d_prio := clamp_prio (th_s_prio th + c)\<rparr>) s1))"

lemma requeue_between:
  assumes inv: "sched_inv i s" and cur: "sc_current s \<noteq> i" "th_next_state (sc_threads s (sc_current s)) = THREAD_STATE_READY"
  shows "requeue_current (adjust_current s) = Inr (requeued s)" "between i (requeued s)"
proof -
  note A = adjust_ok [OF inv]
  let ?t = "sc_current s" and ?s1 = "adjust_current s"
  let ?c = "new_carrots (sc_threads ?s1 ?t)"
  let ?f = "\<lambda>th. th\<lparr>th_carrots_sticks := ?c, th_d_prio := clamp_prio (th_s_prio th + ?c)\<rparr>"
  let ?s2 = "upd_thread ?t ?f ?s1"
  have "th_ijiffies (sc_threads s ?t) \<noteq> 0" using sched_invD(7) [OF inv cur(1)] by (simp add: running_ok_def)
  then have eq: "requeue_current ?s1 = rq_put_thread ?t ?s2"
    by (simp add: requeue_current_def carrots_and_sticks_def Let_def upd_upd comp_def)
  have clamp: "0 \<le> clamp_prio p" "clamp_prio p < 128" for p by (simp_all add: clamp_prio_def)
  have "rq_ok (insert ?t {i}) ?s2" using A(1) by (rule rq_ok_upd) simp
  note put = rq_put_ok [OF this]
  have cond: "?t \<notin> {i}" "th_state (sc_threads ?s2 ?t) = THREAD_STATE_READY" "0 \<le> th_d_prio (sc_threads ?s2 ?t)"
    "th_d_prio (sc_threads ?s2 ?t) < 128" using cur clamp by simp_all
  from put [OF cond] eq show "requeue_current ?s1 = Inr (requeued s)" by (simp add: requeued_def Let_def)
  have r: "rq_ok {i} (requeued s)" using put(2) [OF cond] by (simp add: requeued_def Let_def)
  have "-8 \<le> ?c \<and> ?c \<le> 8" using new_carrots_bounds A(3) [of ?t] by (simp add: thread_ok_def)
  then have "thread_ok (sc_threads (requeued s) u)" for u
    using A(3) [of u] by (cases "u = ?t") (simp_all add: thread_ok_def requeued_def put_result_def Let_def)
  moreover have "th_state (sc_threads (requeued s) u) \<noteq> THREAD_STATE_RUNNING" for u
    using A(6) [of u] cur(2) by (cases "u = ?t") (simp_all add: requeued_def put_result_def Let_def)
  moreover have "sched_params_ok (requeued s)" "idle_ok i (requeued s)"
    using A(2,4) cur(1) by (simp_all add: requeued_def put_result_def Let_def sched_params_ok_def idle_ok_def)
  ultimately show "between i (requeued s)" using r by (simp add: between_def)
qed


lemma continue_inv:
  assumes inv: "sched_inv i s" and cur: "sc_current s \<noteq> i" "th_next_state (sc_threads s (sc_current s)) = THREAD_STATE_RUNNING"
  shows "sched_inv i (sched_lock_release (renew_quanta (sc_current s) (adjust_current s)))"
proof (rule sched_invI)
  note A = adjust_ok [OF inv]
  let ?t = "sc_current s" and ?s' = "sched_lock_release (renew_quanta (sc_current s) (adjust_current s))"
  have th: "sc_threads ?s' = (sc_threads (adjust_current s))(?t := (sc_threads (adjust_current s) ?t)
      \<lparr>th_jiffies := SCHED_MSEC2TICKS (sc_quanta s), th_ijiffies := SCHED_MSEC2TICKS (sc_quanta s)\<rparr>)"
    by (simp add: sched_lock_release_def renew_quanta_def)
  have "rq_ok {i} (adjust_current s)" by (rule rq_ok_shrink [OF A(1)]) (simp add: cur(2))
  then have "rq_ok {i} (renew_quanta ?t (adjust_current s))"
    unfolding renew_quanta_def by (rule rq_ok_upd_same) simp_all
  then show "rq_ok {i} ?s'" by (rule rq_ok_cong [THEN iffD2, rotated -1]) (simp_all add: sched_lock_release_def)
  show par: "sched_params_ok ?s'" using A(2) by (simp add: sched_params_ok_def sched_lock_release_def renew_quanta_def)
  show "thread_ok (sc_threads ?s' u)" for u using A(3) [of u] by (cases "u = ?t") (simp_all add: th thread_ok_def)
  show "idle_ok i ?s'" using A(4) cur(1) by (auto simp: idle_ok_def th) (simp_all add: sched_lock_release_def renew_quanta_def)
  show "th_state (sc_threads ?s' u) = THREAD_STATE_RUNNING \<longleftrightarrow> u = sc_current ?s'" for u
    using A(6) [of u] cur(2) by (cases "u = ?t") (simp_all add: th, simp_all add: sched_lock_release_def renew_quanta_def)
  have "5 \<le> SCHED_MSEC2TICKS (sc_quanta s)"
    using sched_invD(2) [OF inv] by (intro quanta_ticks) (simp add: sched_params_ok_def)
  moreover have "sc_current ?s' = ?t" by (simp add: sched_lock_release_def renew_quanta_def)
  ultimately show "running_ok ?s'" by (simp add: running_ok_def th)
qed

text \<open>The state in which the next thread is chosen.\<close>

definition choice_state :: "sched \<Rightarrow> sched" where
  "choice_state s =
     (if sc_idle_thread s \<noteq> Some (sc_current s) \<and> th_next_state (sc_threads s (sc_current s)) = THREAD_STATE_READY
      then requeued s else adjust_current s)"

definition rescheduled :: "nat \<Rightarrow> sched \<Rightarrow> sched \<Rightarrow> bool" where
  "rescheduled i s s' \<longleftrightarrow>
     (if sc_current s \<noteq> i \<and> th_next_state (sc_threads s (sc_current s)) = THREAD_STATE_RUNNING then sc_current s' = sc_current s
      else if \<exists>p < 128. sc_queue (choice_state s) p \<noteq> [] then best_thread (choice_state s) (sc_current s')
      else sc_current s' = i)"

lemma reschedule_switch:
  assumes "between i m" "sched_reschedule s = switch_to_next m" "choice_state s = m"
    "\<not> (sc_current s \<noteq> i \<and> th_next_state (sc_threads s (sc_current s)) = THREAD_STATE_RUNNING)"
    "\<And>u. u \<noteq> sc_current s \<Longrightarrow> th_next_state (sc_threads m u) = th_next_state (sc_threads s u)"
  shows "\<exists>s'. sched_reschedule s = Inr s' \<and> sched_inv i s' \<and> \<not> sc_lock s' \<and> rescheduled i s s' \<and>
    (\<forall>u. u \<noteq> sc_current s \<longrightarrow> th_next_state (sc_threads s' u) = th_next_state (sc_threads s u))"
proof -
  from switch_ok [OF assms(1)] obtain s' where
    s': "switch_to_next m = Inr s'" "sched_inv i s'" "sc_lock s' = False"
      "\<forall>u. th_next_state (sc_threads s' u) = th_next_state (sc_threads m u)"
      "if \<exists>p < 128. sc_queue m p \<noteq> [] then best_thread m (sc_current s') else sc_current s' = i" by blast
  have "rescheduled i s s'" unfolding rescheduled_def assms(3) using s'(5) assms(4) by (simp only: if_False)
  with s' assms(2,5) show ?thesis by (intro exI [of _ s']) simp
qed

lemma reschedule_ok:
  assumes inv: "sched_inv i s" and lock: "sc_lock s"
  shows "\<exists>s'. sched_reschedule s = Inr s' \<and> sched_inv i s' \<and> \<not> sc_lock s' \<and> rescheduled i s s' \<and>
    (\<forall>u. u \<noteq> sc_current s \<longrightarrow> th_next_state (sc_threads s' u) = th_next_state (sc_threads s u))"
proof -
  let ?t = "sc_current s" and ?n = "th_next_state (sc_threads s (sc_current s))"
  have idle: "sc_idle_thread s = Some i" using sched_invD(4) [OF inv] by (simp add: idle_ok_def)
  have "thread_ok (sc_threads s ?t)" "th_state (sc_threads s ?t) = THREAD_STATE_RUNNING" using sched_invD(3,5) [OF inv] by auto
  then have n: "?n \<notin> {THREAD_STATE_BIRTH, THREAD_STATE_DEAD}" by (simp add: thread_ok_def)
  consider (run) "?t \<noteq> i" "?n = THREAD_STATE_RUNNING" | (ready) "?t \<noteq> i" "?n = THREAD_STATE_READY"
    | (park) "?t = i \<or> ?n \<notin> {THREAD_STATE_RUNNING, THREAD_STATE_READY}" by blast
  then show ?thesis
  proof cases
    case run
    let ?s' = "sched_lock_release (renew_quanta ?t (adjust_current s))"
    have "sched_reschedule s = Inr ?s'" using run lock idle by (simp add: sched_reschedule_def Let_def)
    moreover have "rescheduled i s ?s'" using run by (simp add: rescheduled_def sched_lock_release_def renew_quanta_def)
    ultimately show ?thesis using continue_inv [OF inv run]
      by (intro exI [of _ ?s']) (simp add: sched_lock_release_def renew_quanta_def)
  next
    case ready
    note R = requeue_between [OF inv ready]
    show ?thesis using R(1) ready lock idle
      by (intro reschedule_switch [OF R(2)])
        (simp_all add: sched_reschedule_def choice_state_def Let_def requeued_def put_result_def)
  next
    case park
    have "sched_reschedule s = switch_to_next (adjust_current s)"
      using park n lock idle by (cases ?n) (auto simp: sched_reschedule_def Let_def)
    moreover have "choice_state s = adjust_current s" using park idle by (auto simp: choice_state_def)
    moreover have "\<not> (?t \<noteq> i \<and> ?n = THREAD_STATE_RUNNING)" using park by auto
    ultimately show ?thesis by (intro reschedule_switch [OF parked_between [OF inv park]]) simp_all
  qed
qed

section \<open>Adding and parking threads\<close>

lemma add_ok:
  assumes inv: "sched_inv i s" and legal: "0 \<le> th_s_prio (sc_threads s t)"
    "th_state (sc_threads s t) \<in> {THREAD_STATE_BIRTH, THREAD_STATE_WAITING, THREAD_STATE_SLEEPING, THREAD_STATE_SUSPENDED}"
  shows "\<exists>s'. sched_add_thread t s = Inr s' \<and> sched_inv i s' \<and> queued s' t \<and> sc_lock s' = sc_lock s \<and> sc_current s' = sc_current s \<and>
    th_next_state (sc_threads s' t) = THREAD_STATE_RUNNING \<and> (\<forall>u. u \<noteq> t \<longrightarrow> sc_threads s' u = sc_threads s u)"
proof -
  note I = sched_invD [OF inv]
  let ?sp = "min 127 (th_s_prio (sc_threads s t))"
  let ?f = "\<lambda>th. th\<lparr>th_s_prio := ?sp, th_state := THREAD_STATE_READY, th_next_state := THREAD_STATE_RUNNING,
    th_d_prio := ?sp, th_sched_stamp := SCHED_TICKS2MSEC (sc_ticks s)\<rparr>"
  let ?s1 = "upd_thread t ?f s"
  have ti: "t \<noteq> i" "t \<noteq> sc_current s" using I(4,5) legal(2) by (auto simp: idle_ok_def)
  have eq: "sched_add_thread t s = rq_put_thread t ?s1"
    using legal(2) by (auto simp: sched_add_thread_def Let_def upd_thread_def min_def)
  have "rq_ok (insert t {i}) s" by (rule rq_ok_insert [OF I(1)]) (use legal(2) in auto)
  then have "rq_ok (insert t {i}) ?s1" by (rule rq_ok_upd) simp
  note put = rq_put_ok [OF this]
  have cond: "t \<notin> {i}" "th_state (sc_threads ?s1 t) = THREAD_STATE_READY" "0 \<le> th_d_prio (sc_threads ?s1 t)" "th_d_prio (sc_threads ?s1 t) < 128"
    using ti legal(1) by simp_all
  let ?s' = "put_result t ?s1"
  have th: "sc_threads ?s' = (sc_threads s)(t := (?f (sc_threads s t))\<lparr>th_cpu := Some (sc_cpu_num s)\<rparr>)"
    and fl: "sc_current ?s' = sc_current s" "sc_idle_thread ?s' = sc_idle_thread s" "sc_lock ?s' = sc_lock s" "sc_quanta ?s' = sc_quanta s"
      "sc_shuffle_factor ?s' = sc_shuffle_factor s" "sc_tick_type ?s' = sc_tick_type s" "sc_lost_ticks ?s' = sc_lost_ticks s"
    by (simp_all add: put_result_def Let_def)
  have "sched_inv i ?s'"
  proof (rule sched_invI)
    show "rq_ok {i} ?s'" by (rule put(2) [OF cond])
    show "sched_params_ok ?s'" using I(2) by (simp add: sched_params_ok_def fl)
    show "thread_ok (sc_threads ?s' u)" for u using I(3) [of u] by (cases "u = t") (simp_all add: th thread_ok_def)
    show "idle_ok i ?s'" using I(4) ti by (simp add: idle_ok_def th fl)
    show "th_state (sc_threads ?s' u) = THREAD_STATE_RUNNING \<longleftrightarrow> u = sc_current ?s'" for u
      using sched_inv_running [OF inv, of u] ti by (cases "u = t") (simp_all add: th fl)
    show "running_ok ?s'" if "sc_current ?s' \<noteq> i" using I(7) that ti by (simp add: running_ok_def th fl)
  qed
  moreover have "queued ?s' t" using legal(1) by (auto simp: queued_def put_result_def Let_def intro!: exI [of _ "nat ?sp"])
  ultimately show ?thesis using put(1) [OF cond] eq fl th by (intro exI [of _ ?s']) simp
qed

text \<open>A change of a thread that is neither queued nor running nor becomes so.\<close>

lemma upd_inv:
  assumes inv: "sched_inv i s" and t: "t \<noteq> i"
    and f: "th_state (f (sc_threads s t)) = th_state (sc_threads s t)" "th_d_prio (f (sc_threads s t)) = th_d_prio (sc_threads s t)"
      "thread_ok (f (sc_threads s t))" "th_ijiffies (f (sc_threads s t)) = th_ijiffies (sc_threads s t)"
      "th_jiffies (f (sc_threads s t)) = th_jiffies (sc_threads s t)"
  shows "sched_inv i (upd_thread t f s)"
proof (rule sched_invI)
  note I = sched_invD [OF inv]
  show "rq_ok {i} (upd_thread t f s)" by (rule rq_ok_upd_same [OF I(1)]) (use f in simp_all)
  show "sched_params_ok (upd_thread t f s)" using I(2) by (simp add: sched_params_ok_def)
  show "thread_ok (sc_threads (upd_thread t f s) u)" for u using I(3) f(3) by simp
  show "idle_ok i (upd_thread t f s)" using I(4) t by (simp add: idle_ok_def)
  show "th_state (sc_threads (upd_thread t f s) u) = THREAD_STATE_RUNNING \<longleftrightarrow> u = sc_current (upd_thread t f s)" for u
    using sched_inv_running [OF inv, of u] f(1) by (cases "u = t") simp_all
  show "running_ok (upd_thread t f s)" if "sc_current (upd_thread t f s) \<noteq> i"
    using I(7) that f(4,5) by (cases "sc_current s = t") (simp_all add: running_ok_def)
qed

lemma park_ok:
  assumes inv: "sched_inv i s" and t: "t \<noteq> i" "th_state (sc_threads s t) = THREAD_STATE_READY"
    and st: "st \<notin> {THREAD_STATE_READY, THREAD_STATE_RUNNING}"
  shows "\<exists>s'. sched_remove_thread t s = Inr s' \<and> sc_lock s' = sc_lock s \<and>
    sched_inv i (upd_thread t (\<lambda>th. th\<lparr>th_state := st, th_next_state := st\<rparr>) s')"
proof -
  note I = sched_invD [OF inv]
  have tc: "t \<noteq> sc_current s" using I(5) t(2) by auto
  have q: "queued s t" by (rule rq_ok_queued [OF I(1)]) (use t in simp_all)
  let ?s1 = "fst (rq_extract_thread t s)"
  let ?s' = "upd_thread t (\<lambda>th. th\<lparr>th_state := st, th_next_state := st\<rparr>) ?s1"
  have th: "sc_threads ?s1 = sc_threads s"
    and fl: "sc_current ?s1 = sc_current s" "sc_idle_thread ?s1 = sc_idle_thread s" "sc_lock ?s1 = sc_lock s" "sc_quanta ?s1 = sc_quanta s"
      "sc_shuffle_factor ?s1 = sc_shuffle_factor s" "sc_tick_type ?s1 = sc_tick_type s" "sc_lost_ticks ?s1 = sc_lost_ticks s"
    by (simp_all add: rq_extract_thread_def Let_def)
  have "rq_ok (insert t {i}) ?s'" by (intro rq_ok_upd extract_ok [OF I(1) q]) simp
  then have rq: "rq_ok {i} ?s'" by (rule rq_ok_shrink) (use st in auto)
  have "sched_inv i ?s'"
  proof (rule sched_invI)
    show "rq_ok {i} ?s'" by (rule rq)
    show "sched_params_ok ?s'" using I(2) by (simp add: sched_params_ok_def fl)
    show "thread_ok (sc_threads ?s' u)" for u using I(3) [of u] st by (cases "u = t") (simp_all add: th thread_ok_def)
    show "idle_ok i ?s'" using I(4) t by (simp add: idle_ok_def th fl)
    show "th_state (sc_threads ?s' u) = THREAD_STATE_RUNNING \<longleftrightarrow> u = sc_current ?s'" for u
      using sched_inv_running [OF inv, of u] tc st by (cases "u = t") (simp_all add: th fl)
    show "running_ok ?s'" if "sc_current ?s' \<noteq> i" using I(7) that tc by (simp add: running_ok_def th fl)
  qed
  then show ?thesis using t(2) fl by (simp add: sched_remove_thread_def)
qed


section \<open>Runs\<close>

text \<open>
  What happens to the scheduler: timer ticks, ticks that arrive while the scheduling lock is
  held, rescheduling, threads that are born, made ready or taken from the run queue, and changes
  of the state a thread goes to next (\<^verbatim>\<open>kernel/thread.c\<close> and \<^verbatim>\<open>kernel/sem.c\<close> set it).
\<close>

datatype sched_op =
    Tick | Locked_Tick | Resched | Add_Thread nat | Park_Thread nat thread_state
  | Set_Next nat thread_state | New_Thread nat int | Capture | Release

fun sched_legal :: "sched_op \<Rightarrow> sched \<Rightarrow> bool" where
  "sched_legal (Add_Thread t) s \<longleftrightarrow> 0 \<le> th_s_prio (sc_threads s t) \<and>
     th_state (sc_threads s t) \<in> {THREAD_STATE_BIRTH, THREAD_STATE_WAITING, THREAD_STATE_SLEEPING, THREAD_STATE_SUSPENDED}"
| "sched_legal (Park_Thread t st) s \<longleftrightarrow> sc_idle_thread s \<noteq> Some t \<and> th_state (sc_threads s t) = THREAD_STATE_READY \<and>
     st \<notin> {THREAD_STATE_READY, THREAD_STATE_RUNNING}"
| "sched_legal (Set_Next t st) s \<longleftrightarrow> sc_idle_thread s \<noteq> Some t \<and> st \<notin> {THREAD_STATE_BIRTH, THREAD_STATE_DEAD}"
| "sched_legal (New_Thread t prio) s \<longleftrightarrow> sc_idle_thread s \<noteq> Some t \<and> th_state (sc_threads s t) = THREAD_STATE_DEAD"
| "sched_legal _ s \<longleftrightarrow> True"

fun sched_exec :: "sched_op \<Rightarrow> sched \<Rightarrow> sched_error + sched" where
  "sched_exec Tick s = and_then (scheduler_timer s) (\<lambda>(s', _). Inr s')"
| "sched_exec Locked_Tick s = and_then (scheduler_timer (s\<lparr>sc_lock := True\<rparr>)) (\<lambda>(s', _). Inr (s'\<lparr>sc_lock := False\<rparr>))"
| "sched_exec Resched s = (case sched_lock_acquire s of None \<Rightarrow> Inl Assertion_Failed | Some s' \<Rightarrow> sched_reschedule s')"
| "sched_exec (Add_Thread t) s = sched_add_thread t s"
| "sched_exec (Park_Thread t st) s =
     and_then (sched_remove_thread t s) (\<lambda>s'. Inr (upd_thread t (\<lambda>th. th\<lparr>th_state := st, th_next_state := st\<rparr>) s'))"
| "sched_exec (Set_Next t st) s = Inr (upd_thread t (\<lambda>th. th\<lparr>th_next_state := st\<rparr>) s)"
| "sched_exec (New_Thread t prio) s =
     Inr (upd_thread t (\<lambda>th. th\<lparr>th_state := THREAD_STATE_BIRTH, th_s_prio := prio, th_d_prio := prio, th_carrots_sticks := 0\<rparr>) s)"
| "sched_exec Capture s = Inr (fst (sched_capture_cpu s))"
| "sched_exec Release s = Inr (fst (sched_release_cpu s))"

fun sched_run :: "sched_op list \<Rightarrow> sched \<Rightarrow> sched_error + sched" where
  "sched_run [] s = Inr s"
| "sched_run (x # ops) s = (if sched_legal x s then and_then (sched_exec x s) (sched_run ops) else Inr s)"

lemma not_ready_upd_inv:
  assumes inv: "sched_inv i s" and t: "t \<noteq> i" "th_state (sc_threads s t) \<notin> {THREAD_STATE_READY, THREAD_STATE_RUNNING}"
    and f: "th_state (f (sc_threads s t)) \<notin> {THREAD_STATE_READY, THREAD_STATE_RUNNING}" "thread_ok (f (sc_threads s t))"
  shows "sched_inv i (upd_thread t f s)"
proof (rule sched_invI)
  note I = sched_invD [OF inv]
  have tc: "t \<noteq> sc_current s" using I(5) t(2) by auto
  have "rq_ok (insert t {i}) s" by (rule rq_ok_insert [OF I(1)]) (use t in simp)
  then have "rq_ok (insert t {i}) (upd_thread t f s)" by (rule rq_ok_upd) simp
  then show "rq_ok {i} (upd_thread t f s)" by (rule rq_ok_shrink) (use f in simp)
  show "sched_params_ok (upd_thread t f s)" using I(2) by (simp add: sched_params_ok_def)
  show "thread_ok (sc_threads (upd_thread t f s) u)" for u using I(3) f(2) by simp
  show "idle_ok i (upd_thread t f s)" using I(4) t by (simp add: idle_ok_def)
  show "th_state (sc_threads (upd_thread t f s) u) = THREAD_STATE_RUNNING \<longleftrightarrow> u = sc_current (upd_thread t f s)" for u
    using sched_inv_running [OF inv, of u] f(1) tc by (cases "u = t") simp_all
  show "running_ok (upd_thread t f s)" if "sc_current (upd_thread t f s) \<noteq> i" using I(7) that tc by (simp add: running_ok_def)
qed

lemma preempt_inv:
  assumes inv: "sched_inv i s"
  shows "sched_inv i (upd_thread (sc_current s) (\<lambda>th. th\<lparr>th_preempt_count := n\<rparr>) s)"
proof (rule sched_invI)
  note I = sched_invD [OF inv]
  let ?s' = "upd_thread (sc_current s) (\<lambda>th. th\<lparr>th_preempt_count := n\<rparr>) s"
  show "rq_ok {i} ?s'" by (rule rq_ok_upd_same [OF I(1)]) simp_all
  show "sched_params_ok ?s'" using I(2) by (simp add: sched_params_ok_def)
  show "thread_ok (sc_threads ?s' u)" for u using I(3) [of u] by (cases "u = sc_current s") (simp_all add: thread_ok_def)
  show "idle_ok i ?s'" using I(4) by (auto simp: idle_ok_def)
  show "th_state (sc_threads ?s' u) = THREAD_STATE_RUNNING \<longleftrightarrow> u = sc_current ?s'" for u
    using sched_inv_running [OF inv, of u] by (cases "u = sc_current s") simp_all
  show "running_ok ?s'" if "sc_current ?s' \<noteq> i" using I(7) that by (simp add: running_ok_def)
qed

lemma sched_exec_ok:
  assumes inv: "sched_inv i s" "\<not> sc_lock s" and legal: "sched_legal x s"
  shows "\<exists>s'. sched_exec x s = Inr s' \<and> sched_inv i s' \<and> \<not> sc_lock s'"
proof -
  note I = sched_invD [OF inv(1)]
  have idle: "sc_idle_thread s = Some i" using I(4) by (simp add: idle_ok_def)
  show ?thesis
  proof (cases x)
    case Tick
    with timer_inv [OF inv(1)] inv(2) show ?thesis by auto
  next
    case Locked_Tick
    with timer_inv [OF sched_inv_lock [OF inv(1), of True]] sched_inv_lock show ?thesis by auto
  next
    case Resched
    with reschedule_ok [OF sched_inv_lock [OF inv(1), of True]] inv(2) show ?thesis by (auto simp: sched_lock_acquire_def)
  next
    case (Add_Thread t)
    with add_ok [OF inv(1), of t] legal inv(2) show ?thesis by auto
  next
    case (Park_Thread t st)
    with park_ok [OF inv(1), of t st] legal idle inv(2) show ?thesis by auto
  next
    case (Set_Next t st)
    have "sched_inv i (upd_thread t (\<lambda>th. th\<lparr>th_next_state := st\<rparr>) s)"
      using legal idle Set_Next I(3) [of t] by (intro upd_inv [OF inv(1)]) (simp_all add: thread_ok_def)
    with Set_Next inv(2) show ?thesis by simp
  next
    case (New_Thread t prio)
    have "sched_inv i (upd_thread t (\<lambda>th. th\<lparr>th_state := THREAD_STATE_BIRTH, th_s_prio := prio, th_d_prio := prio, th_carrots_sticks := 0\<rparr>) s)"
      using legal idle New_Thread by (intro not_ready_upd_inv [OF inv(1)]) (simp_all add: thread_ok_def)
    with New_Thread inv(2) show ?thesis by simp
  next
    case Capture
    with preempt_inv [OF inv(1), of "th_preempt_count (sc_threads s (sc_current s)) + 1"] inv(2) show ?thesis
      by (simp add: sched_capture_cpu_def Let_def upd_thread_def)
  next
    case Release
    with preempt_inv [OF inv(1)] inv(2) show ?thesis by (simp add: sched_release_cpu_def Let_def)
  qed
qed

lemma sched_run_ok:
  "sched_inv i s \<Longrightarrow> \<not> sc_lock s \<Longrightarrow> \<exists>s'. sched_run ops s = Inr s' \<and> sched_inv i s' \<and> \<not> sc_lock s'"
proof (induction ops arbitrary: s)
  case (Cons x ops)
  then show ?case using sched_exec_ok [OF Cons.prems, of x] by fastforce
qed simp


section \<open>Ageing reaches the top\<close>

lemma shuffle_level_other:
  assumes ok: "rq_ok X s" "sc_shuffle_factor s \<noteq> 0" "q < 128" "p \<noteq> q" and l: "shuffle_level q s = Inr s'"
  shows "\<exists>r. sc_queue s' p = sc_queue s p @ r \<and> length r \<le> 1"
proof (cases "sc_queue s q = [] \<or> shuffle_prio s q (sc_threads s (hd (sc_queue s q))) \<le> th_d_prio (sc_threads s (hd (sc_queue s q)))")
  case True
  then have "s' = s" using l ok(2) by (auto simp: shuffle_level_def Let_def split: if_splits)
  then show ?thesis by simp
next
  case False
  let ?t = "hd (sc_queue s q)"
  let ?s1 = "upd_thread ?t (\<lambda>th. th\<lparr>th_d_prio := shuffle_prio s q (sc_threads s ?t)\<rparr>) (fst (rq_pop_head_thread q s))"
  have "rq_put_thread ?t ?s1 = Inr s'" using l ok(2) False by (auto simp: shuffle_level_def Let_def)
  moreover have "sc_queue ?s1 p = sc_queue s p" using ok(4) by (simp add: rq_pop_head_thread_def)
  ultimately show ?thesis by (auto simp: rq_put_thread_def Let_def split: if_splits)
qed

lemma shuffle_loop_other:
  assumes "rq_ok X s" "sc_shuffle_factor s \<noteq> 0" "\<forall>q \<in> set qs. q < 128 \<and> q \<noteq> p" "shuffle_loop qs s = Inr s'"
  shows "\<exists>r. sc_queue s' p = sc_queue s p @ r \<and> length r \<le> length qs"
  using assms
proof (induction qs arbitrary: s)
  case (Cons q qs)
  have q: "q < 128" "p \<noteq> q" using Cons.prems(3) by auto
  from shuffle_level_ok [OF Cons.prems(1,2) q(1)] obtain s1 where
    s1: "shuffle_level q s = Inr s1" "rq_ok X s1" "aged s s1" by blast
  from shuffle_level_other [OF Cons.prems(1,2) q s1(1)] obtain r1 where
    r1: "sc_queue s1 p = sc_queue s p @ r1" "length r1 \<le> 1" by blast
  from Cons.IH [OF s1(2)] Cons.prems(2-4) s1(1) agedD(7) [OF s1(3)] obtain r2 where
    "sc_queue s' p = sc_queue s1 p @ r2" "length r2 \<le> length qs" by auto
  with r1 show ?case by (intro exI [of _ "r1 @ r2"]) simp
qed simp

lemma shuffle_prio_top:
  assumes f: "7 \<le> unat (sc_shuffle_factor s)" and c: "-8 \<le> th_carrots_sticks th" "th_carrots_sticks th \<le> 8"
    and sp: "0 \<le> th_s_prio th" "th_s_prio th \<le> 127" and len: "length (sc_queue s p) < 2 ^ 31"
    and w: "w = SCHED_TICKS2MSEC (sc_ticks s) - th_sched_stamp th" "(135 - th_s_prio th) * uint (sc_shuffle_factor s) \<le> w" "w < 2 ^ 31"
  shows "shuffle_prio s p th = 127"
proof -
  define k where "k = uint (sc_shuffle_factor s)"
  have k: "7 \<le> k" using f unfolding k_def by (metis int_ops(3) of_nat_le_iff of_nat_numeral uint_nat)
  have "0 \<le> (135 - th_s_prio th) * k" using sp k by simp
  then have w0: "0 \<le> w" using w(2) unfolding k_def by linarith
  have div: "w sdiv k = w div k" using w0 k by (cases "w = 0") (simp_all add: signed_divide_int_def)
  have lo: "135 - th_s_prio th \<le> w div k" 
  proof -
    have "(135 - th_s_prio th) * k div k \<le> w div k" using w(2) k unfolding k_def by (intro zdiv_mono1) simp_all
    then show ?thesis using k by simp
  qed
  have hi: "w div k \<le> 2 ^ 31 div 7"
  proof -
    have "w div k \<le> w div 7" using w0 k by (intro zdiv_mono2) simp_all
    also have "\<dots> \<le> 2 ^ 31 div 7" using w(3) by (intro zdiv_mono1) simp_all
    finally show ?thesis .
  qed
  define v where "v = th_s_prio th + w div k + int (length (sc_queue s p) div 2 ^ 4) + th_carrots_sticks th"
  have "int (length (sc_queue s p) div 2 ^ 4) < 2 ^ 27" using len by simp
  then have v: "127 \<le> v" "v < 2 ^ 31" using lo hi sp c by (simp_all add: v_def)
  have "to_int32 v = v"
    unfolding to_int32_def using v by (simp add: sint_sbintrunc' signed_take_bit_int_eq_self)
  then show ?thesis unfolding shuffle_prio_def Let_def w(1) [symmetric] k_def [symmetric] div v_def [symmetric]
    using v by auto
qed


lemma shuffle_loop_top:
  assumes inv: "sched_inv i s" and ps: "sorted ps" "distinct ps" "\<forall>q \<in> set ps. q < 127" "length ps \<le> 127"
    and t: "p \<in> set ps" "sc_queue s p = t # ts" "length (sc_queue s p) < 2 ^ 30"
    and sp: "0 \<le> th_s_prio (sc_threads s t)" "th_s_prio (sc_threads s t) \<le> 127"
    and w: "w = SCHED_TICKS2MSEC (sc_ticks s) - th_sched_stamp (sc_threads s t)"
      "(135 - th_s_prio (sc_threads s t)) * uint (sc_shuffle_factor s) \<le> w" "w < 2 ^ 31"
    and l: "shuffle_loop ps s = Inr s'"
  shows "th_d_prio (sc_threads s' t) = 127"
proof -
  note I = sched_invD [OF inv]
  have f: "sc_shuffle_factor s \<noteq> 0" using shuffle_factor_nz [OF I(2)] .
  from t(1) obtain qs rs where ps': "ps = qs @ p # rs" by (meson split_list)
  have "\<forall>q \<in> set ps. q < 128" using ps(3) by force
  then have lt: "p < 128" "\<forall>q \<in> set qs. q < 128 \<and> q \<noteq> p" "\<forall>q \<in> set rs. q < 128" "length qs \<le> 127"
    using ps(2,4) ps' by auto
  have "\<forall>q \<in> set qs. q < 128" using lt(2) by blast
  from shuffle_loop_ok [OF I(1) f this] obtain s1 where s1: "shuffle_loop qs s = Inr s1" "rq_ok {i} s1" "aged s s1" by blast
  note D = agedD [OF s1(3)]
  from shuffle_loop_other [OF I(1) f lt(2) s1(1)] obtain r where
    r: "sc_queue s1 p = sc_queue s p @ r" "length r \<le> length qs" by blast
  have f1: "sc_shuffle_factor s1 \<noteq> 0" using f D(7) by simp
  from shuffle_level_ok [OF s1(2) f1 lt(1)] obtain s2 where
    s2: "shuffle_level p s1 = Inr s2" "rq_ok {i} s2" "aged s1 s2"
    "sc_queue s1 p \<noteq> [] \<longrightarrow> th_d_prio (sc_threads s2 (hd (sc_queue s1 p))) =
       max (int p) (shuffle_prio s1 p (sc_threads s1 (hd (sc_queue s1 p))))" by blast
  have "shuffle_prio s1 p (sc_threads s1 t) = 127"
  proof (rule shuffle_prio_top)
    show "7 \<le> unat (sc_shuffle_factor s1)" using I(2) by (simp add: sched_params_ok_def D)
    show "-8 \<le> th_carrots_sticks (sc_threads s1 t)" "th_carrots_sticks (sc_threads s1 t) \<le> 8"
      using I(3) [of t] by (simp_all add: thread_ok_def D)
    show "length (sc_queue s1 p) < 2 ^ 31" using r t(3) lt(4) by simp
  qed (use sp w in \<open>simp_all add: D\<close>)
  with s2(4) r t(2) lt(1) have top: "th_d_prio (sc_threads s2 t) = 127" by simp
  have f2: "sc_shuffle_factor s2 \<noteq> 0" using f1 agedD(7) [OF s2(3)] by simp
  from shuffle_loop_ok [OF s2(2) f2 lt(3)] obtain s3 where s3: "shuffle_loop rs s2 = Inr s3" "rq_ok {i} s3" "aged s2 s3" by blast
  have split: "shuffle_loop (qs @ p # rs) s = and_then (shuffle_loop qs s) (shuffle_loop (p # rs))"
    for qs s by (induction qs arbitrary: s) (simp_all add: and_then_def split: sum.splits)
  have s': "s' = s3" using l s1(1) s2(1) s3(1) unfolding ps' split by simp
  have ready: "th_state (sc_threads s t) = THREAD_STATE_READY" "t \<noteq> i" using rq_okD [OF I(1) lt(1)] t(2) by auto
  then have "th_state (sc_threads s3 t) = THREAD_STATE_READY"
    using agedD(10) [OF s3(3)] agedD(10) [OF s2(3)] D(10) by simp
  then have "queued s3 t" using ready(2) by (intro rq_ok_queued [OF s3(2)]) simp_all
  from queued_level(1) [OF s3(2) this] have "th_d_prio (sc_threads s3 t) \<le> 127" by simp
  with agedD(20) [OF s3(3), of t] top show ?thesis unfolding s' by simp
qed

lemma tick_levels_props:
  "sorted (tick_levels tt)" "distinct (tick_levels tt)" "\<forall>q \<in> set (tick_levels tt). q < 127" "length (tick_levels tt) \<le> 127"
proof -
  show "sorted (tick_levels tt)" "distinct (tick_levels tt)" "\<forall>q \<in> set (tick_levels tt). q < 127"
    by (simp_all add: tick_levels_def sorted_wrt_filter)
  show "length (tick_levels tt) \<le> 127"
    unfolding tick_levels_def by (rule order_trans [OF length_filter_le]) simp
qed

lemma in_tick_levels:
  assumes "p < 127" "p mod 8 = tt" "tt < 8"
  shows "p \<in> set (tick_levels tt)"
proof -
  have "p = tt + 8 * (p div 8)" using assms(2) by (metis mod_mult_div_eq)
  then have "(p - tt) mod 8 = 0" "tt \<le> p" by (metis add_diff_cancel_left' mod_mult_self1_is_0, linarith)
  then show ?thesis using assms(1) by (simp add: tick_levels_def)
qed


section \<open>Properties\<close>

text \<open>
  The state the scheduler has at boot: the static initial values, the per-processor
  initialisation, and the first thread becoming the idle thread.
\<close>

definition unborn_thread :: thread where
  "unborn_thread = \<lparr>th_state = THREAD_STATE_DEAD, th_next_state = THREAD_STATE_DEAD, th_flags = 0, th_preempt_count = 0,
     th_jiffies = 0, th_ijiffies = 0, th_policy_type = 0, th_process_flags = 0, th_s_prio = 0, th_d_prio = 0,
     th_sched_stamp = 0, th_carrots_sticks = 0, th_cpu = None\<rparr>"

definition static_sched :: "nat \<Rightarrow> sched" where
  "static_sched i = \<lparr>sc_threads = (\<lambda>_. unborn_thread), sc_current = i, sc_queue = (\<lambda>_. []), sc_total_count = 0,
     sc_cpu_num = 0, sc_ticks = 0, sc_lost_ticks = 0, sc_tick_type = 0, sc_quanta = THREAD_DEFAULT_QUANTA,
     sc_shuffle_factor = 60 div 8, sc_idle_thread = None, sc_lock = False\<rparr>"

definition boot_sched :: "nat \<Rightarrow> sched_error + sched" where
  "boot_sched i = sched_add_idle_thread i (scheduler_init_per_cpu 0 (scheduler_init (static_sched i)))"

lemma boot_sched_ok: "\<exists>s. boot_sched i = Inr s \<and> sched_inv i s \<and> \<not> sc_lock s"
proof -
  obtain s where s: "boot_sched i = Inr s" by (simp add: boot_sched_def sched_add_idle_thread_def scheduler_init_per_cpu_def
      sched_init_runqueue_def scheduler_init_def static_sched_def)
  then have f: "sc_queue s = (\<lambda>_. [])" "sc_current s = i" "sc_total_count s = 0" "sc_quanta s = 60" "unat (sc_shuffle_factor s) = 7"
    "sc_tick_type s = 0" "sc_lost_ticks s = 0" "sc_idle_thread s = Some i" "sc_lock s = False"
    "sc_threads s = (\<lambda>_. unborn_thread)(i := unborn_thread\<lparr>th_state := THREAD_STATE_RUNNING, th_next_state := THREAD_STATE_READY,
       th_s_prio := -1, th_d_prio := -1\<rparr>)"
    by (auto simp: boot_sched_def sched_add_idle_thread_def scheduler_init_per_cpu_def sched_init_runqueue_def
        scheduler_init_def static_sched_def)
  have "rq_ok {i} s" by (rule rq_okI) (auto simp: f unborn_thread_def split: if_splits)
  moreover have "sched_params_ok s" "idle_ok i s" by (simp_all add: sched_params_ok_def idle_ok_def f)
  moreover have "thread_ok (sc_threads s t)" "th_state (sc_threads s t) = THREAD_STATE_RUNNING \<longleftrightarrow> t = sc_current s" for t
    by (simp_all add: f thread_ok_def unborn_thread_def)
  ultimately have "sched_inv i s" using f(2) by (intro sched_invI) simp_all
  with s f show ?thesis by simp
qed

definition reach_sched :: "nat \<Rightarrow> sched_op list \<Rightarrow> sched_error + sched" where
  "reach_sched i ops = and_then (boot_sched i) (sched_run ops)"

lemma reach_sched_ok: "\<exists>s. reach_sched i ops = Inr s \<and> sched_inv i s \<and> \<not> sc_lock s"
  using boot_sched_ok [of i] sched_run_ok by (fastforce simp: reach_sched_def)

lemma reach_schedD: "reach_sched i ops = Inr s \<Longrightarrow> sched_inv i s \<and> \<not> sc_lock s"
  using reach_sched_ok [of i ops] by auto



definition demo_sched :: sched where
  "demo_sched = (case reach_sched 0 [New_Thread 1 50, Add_Thread 1, New_Thread 2 60, Add_Thread 2] of Inr s \<Rightarrow> s | Inl _ \<Rightarrow> static_sched 0)"

lemma demo_sched_reach: "reach_sched 0 [New_Thread 1 50, Add_Thread 1, New_Thread 2 60, Add_Thread 2] = Inr demo_sched"
  using reach_sched_ok [of 0 "[New_Thread 1 50, Add_Thread 1, New_Thread 2 60, Add_Thread 2]"] by (auto simp: demo_sched_def)


text \<open>
  The quantum and the ageing factor computed from any number of ready threads are safe: the
  quantum is 20 to 60 ms, so at least 5 ticks, and the factor that ageing divides by is at least 7.
\<close>

theorem sched_estimates_safe:
  "20 \<le> estimate_quanta cnt \<and> estimate_quanta cnt \<le> 60 \<and> 5 \<le> SCHED_MSEC2TICKS (estimate_quanta cnt) \<and> 7 \<le> unat (estimate_factor cnt)"
  using estimate_quanta_bounds estimate_factor_ge quanta_ticks by blast

text \<open>
  C25. Waiting threads age to the top: in every state reached from boot, a thread at the head of a
  level below the highest that has waited \<open>(135 - s_prio)\<close> times the ageing factor (in milliseconds)
  is on the highest level after the first tick that visits its level, however it was treated
  before.
\<close>

theorem waiting_thread_reaches_top:
  assumes reach: "reach_sched i ops = Inr s"
    and head: "p < 127" "sc_queue s p = t # ts" "length (sc_queue s p) < 2 ^ 30" "p mod 8 = (sc_tick_type s + 1) mod 8"
    and sp: "0 \<le> th_s_prio (sc_threads s t)" "th_s_prio (sc_threads s t) \<le> 127"
    and wait: "(135 - th_s_prio (sc_threads s t)) * uint (sc_shuffle_factor s)
        \<le> SCHED_TICKS2MSEC (sc_ticks s + sc_lost_ticks s + 1) - th_sched_stamp (sc_threads s t)"
      "SCHED_TICKS2MSEC (sc_ticks s + sc_lost_ticks s + 1) - th_sched_stamp (sc_threads s t) < 2 ^ 31"
  shows "\<exists>s' r. scheduler_timer s = Inr (s', r) \<and> t \<in> set (sc_queue s' 127)"
proof -
  have inv: "sched_inv i s" and lock: "\<not> sc_lock s" using reach_schedD [OF reach] by auto
  note I = sched_invD [OF inv]
  let ?n = "sc_lost_ticks s + 1"
  let ?s1 = "s\<lparr>sc_lock := True, sc_ticks := sc_ticks s + ?n, sc_lost_ticks := 0, sc_tick_type := (sc_tick_type s + 1) mod 8\<rparr>"
  have inv1: "sched_inv i ?s1"
    using inv by (rule sched_inv_cong) (use I(2) in \<open>simp_all add: sched_params_ok_def\<close>)
  from shuffle_inv [OF inv1, of "sc_tick_type ?s1"] obtain s2 where
    s2: "sched_shuffle_runqueue_head (sc_tick_type ?s1) ?s1 = Inr s2" "sched_inv i s2" "aged ?s1 s2" by blast
  have "p \<in> set (tick_levels (sc_tick_type ?s1))" using head(1,4) by (intro in_tick_levels) simp_all
  from shuffle_loop_top [OF inv1 tick_levels_props this, of t ts] head sp wait s2(1)
  have top: "th_d_prio (sc_threads s2 t) = 127" by (simp add: sched_shuffle_runqueue_head_def add.assoc)
  have "th_state (sc_threads s t) = THREAD_STATE_READY" "t \<noteq> i" using rq_okD [OF I(1), of p t] head(1,2) by auto
  then have "queued s2 t" using agedD(10) [OF s2(3)] by (intro rq_ok_queued [OF sched_invD(1) [OF s2(2)]]) simp_all
  from queued_level(2) [OF sched_invD(1) [OF s2(2)] this] top have "t \<in> set (sc_queue s2 127)" by simp
  moreover obtain s3 r where "scheduler_timer s = Inr (s3, r)" "sc_queue s3 = sc_queue s2"
    using lock s2(1) by (simp add: scheduler_timer_def Let_def case_prod_beta check_preempt_def estimate_def)
  ultimately show ?thesis by auto
qed

definition aged_ops :: "sched_op list" where
  "aged_ops = [New_Thread 1 121, Add_Thread 1] @ replicate 24 Locked_Tick"

definition aged_sched :: sched where
  "aged_sched = (case reach_sched 0 aged_ops of Inr s \<Rightarrow> s | Inl _ \<Rightarrow> static_sched 0)"

lemma aged_sched_reach: "reach_sched 0 aged_ops = Inr aged_sched"
  using reach_sched_ok [of 0 aged_ops] by (auto simp: aged_sched_def)

lemma aged_sched_fields:
  "sc_queue aged_sched 121 = [1]" "sc_tick_type aged_sched = 0" "th_s_prio (sc_threads aged_sched 1) = 121"
  "sc_shuffle_factor aged_sched = 7" "SCHED_TICKS2MSEC (sc_ticks aged_sched + sc_lost_ticks aged_sched + 1) = 100"
  "th_sched_stamp (sc_threads aged_sched 1) = 0"
  by code_simp+

theorem waiting_thread_reaches_top_witness:
  "\<exists>s' r. scheduler_timer aged_sched = Inr (s', r) \<and> 1 \<in> set (sc_queue s' 127)"
  by (rule waiting_thread_reaches_top [OF aged_sched_reach, where p = 121 and ts = "[]"])
    (simp_all only: aged_sched_fields, simp_all)

lemma add_many_keeps:
  assumes "sched_inv i s" "\<not> sc_lock s" "sched_run (map Add_Thread us) s = Inr s'"
  shows "sched_inv i s' \<and> \<not> sc_lock s' \<and> sc_current s' = sc_current s \<and>
    th_next_state (sc_threads s' (sc_current s)) = th_next_state (sc_threads s (sc_current s))"
  using assms
proof (induction us arbitrary: s)
  case (Cons u us)
  show ?case
  proof (cases "sched_legal (Add_Thread u) s")
    case True
    have "u \<noteq> sc_current s" using sched_invD(5) [OF Cons.prems(1)] True by auto
    moreover from add_ok [OF Cons.prems(1), of u] True obtain s1 where
      "sched_add_thread u s = Inr s1" "sched_inv i s1" "sc_lock s1 = sc_lock s" "sc_current s1 = sc_current s"
      "\<forall>v. v \<noteq> u \<longrightarrow> sc_threads s1 v = sc_threads s v" by auto
    ultimately show ?thesis using Cons.IH [of s1] Cons.prems(2,3) True by auto
  next
    case False
    then show ?thesis using Cons.prems by auto
  qed
qed simp

text \<open>
  C35. A thread that has just been made ready does not give up the processor the first time it is
  rescheduled: with only the idle thread active, add a thread and reschedule, then make any other
  threads ready, whatever their priorities; the next \<^verbatim>\<open>sched_reschedule\<close> (a yield, or a preemption at
  the end of the quantum) leaves the same thread running. The reason is that \<^verbatim>\<open>sched_add_thread\<close>
  sets \<^verbatim>\<open>next_state\<close> to \<^verbatim>\<open>RUNNING\<close> and dispatching does not reset it.
\<close>

theorem woken_thread_keeps_processor:
  assumes reach: "reach_sched i ops = Inr s" and idle: "sc_current s = i" "\<forall>p < 128. sc_queue s p = []"
    and t: "0 \<le> th_s_prio (sc_threads s t)"
      "th_state (sc_threads s t) \<in> {THREAD_STATE_BIRTH, THREAD_STATE_WAITING, THREAD_STATE_SLEEPING, THREAD_STATE_SUSPENDED}"
  shows "\<exists>s2. sched_run [Add_Thread t, Resched] s = Inr s2 \<and> sc_current s2 = t \<and> sched_inv i s2 \<and> \<not> sc_lock s2 \<and>
    (\<forall>us s3. sched_run (map Add_Thread us) s2 = Inr s3 \<longrightarrow> (\<exists>s4. sched_exec Resched s3 = Inr s4 \<and> sc_current s4 = t))"
proof -
  have inv: "sched_inv i s" and lock: "\<not> sc_lock s" using reach_schedD [OF reach] by auto
  from add_ok [OF inv t] lock obtain s1 where s1: "sched_add_thread t s = Inr s1" "sched_inv i s1" "queued s1 t" "\<not> sc_lock s1"
    "sc_current s1 = i" "th_next_state (sc_threads s1 t) = THREAD_STATE_RUNNING" "\<forall>u. u \<noteq> t \<longrightarrow> sc_threads s1 u = sc_threads s u"
    using idle(1) by auto
  have ti: "t \<noteq> i" using t(2) sched_invD(5) [OF inv] idle(1) by auto
  have only: "x = t" if "p < 128" "x \<in> set (sc_queue s1 p)" for p x
  proof (rule ccontr)
    assume "x \<noteq> t"
    with rq_okD [OF sched_invD(1) [OF s1(2)] that] s1(7) have "th_state (sc_threads s x) = THREAD_STATE_READY" "x \<notin> {i}" by auto
    from rq_ok_queued [OF sched_invD(1) [OF inv] this] idle(2) show False by (auto simp: queued_def)
  qed
  let ?l = "s1\<lparr>sc_lock := True\<rparr>"
  have inv_l: "sched_inv i ?l" using s1(2) by (rule sched_inv_lock)
  from reschedule_ok [OF inv_l] obtain s2 where
    s2: "sched_reschedule ?l = Inr s2" "sched_inv i s2" "\<not> sc_lock s2" "rescheduled i ?l s2"
      "\<forall>u. u \<noteq> i \<longrightarrow> th_next_state (sc_threads s2 u) = th_next_state (sc_threads s1 u)" using s1(5) by auto
  have "sc_idle_thread s1 = Some i" using sched_invD(4) [OF s1(2)] by (simp add: idle_ok_def)
  then have ch: "choice_state ?l = adjust_current ?l" using s1(5) by (simp add: choice_state_def)
  have "\<exists>p < 128. sc_queue s1 p \<noteq> []" using s1(3) by (auto simp: queued_def)
  then have "best_thread (adjust_current ?l) (sc_current s2)" using s2(4) s1(5) unfolding rescheduled_def ch by simp
  then obtain p where "p < 128" "sc_current s2 \<in> set (take 10 (sc_queue s1 p))" by (auto simp: best_thread_def)
  then have cur: "sc_current s2 = t" using only by (meson in_set_takeD)
  have legal: "sched_legal (Add_Thread t) s" using t by simp
  have run: "sched_run [Add_Thread t, Resched] s = Inr s2" using legal s1(1,4) s2(1) by (simp add: sched_lock_acquire_def)
  have "\<exists>s4. sched_exec Resched s3 = Inr s4 \<and> sc_current s4 = t" if "sched_run (map Add_Thread us) s2 = Inr s3" for us s3
  proof -
    from add_many_keeps [OF s2(2,3) that] s2(5) ti s1(6) cur have
      s3: "sched_inv i s3" "\<not> sc_lock s3" "sc_current s3 = t" "th_next_state (sc_threads s3 t) = THREAD_STATE_RUNNING" by auto
    from reschedule_ok [OF sched_inv_lock [OF s3(1), of True]] obtain s4 where
      "sched_reschedule (s3\<lparr>sc_lock := True\<rparr>) = Inr s4" "rescheduled i (s3\<lparr>sc_lock := True\<rparr>) s4" by auto
    then show ?thesis using s3 ti by (simp add: rescheduled_def sched_lock_acquire_def)
  qed
  with run cur s2(2,3) show ?thesis by blast
qed

definition fresh_sched :: sched where
  "fresh_sched = (case reach_sched 0 [New_Thread 1 50, New_Thread 2 100] of Inr s \<Rightarrow> s | Inl _ \<Rightarrow> static_sched 0)"

lemma fresh_sched_reach: "reach_sched 0 [New_Thread 1 50, New_Thread 2 100] = Inr fresh_sched"
  using reach_sched_ok [of 0 "[New_Thread 1 50, New_Thread 2 100]"] by (auto simp: fresh_sched_def)

lemma fresh_sched_fields:
  "sc_current fresh_sched = 0" "sc_queue fresh_sched = (\<lambda>_. [])" "th_s_prio (sc_threads fresh_sched 1) = 50"
  "th_state (sc_threads fresh_sched 1) = THREAD_STATE_BIRTH"
  by (simp_all add: fresh_sched_def reach_sched_def boot_sched_def sched_add_idle_thread_def scheduler_init_per_cpu_def
      sched_init_runqueue_def scheduler_init_def static_sched_def unborn_thread_def fun_eq_iff)

theorem woken_thread_keeps_processor_witness:
  "\<exists>s2 s3 s4. sched_run [Add_Thread 1, Resched] fresh_sched = Inr s2 \<and> sc_current s2 = 1 \<and>
     sched_run [Add_Thread 2] s2 = Inr s3 \<and> sched_exec Resched s3 = Inr s4 \<and> sc_current s4 = 1"
proof -
  have "\<exists>s2. sched_run [Add_Thread 1, Resched] fresh_sched = Inr s2 \<and> sc_current s2 = 1 \<and> sched_inv 0 s2 \<and> \<not> sc_lock s2 \<and>
    (\<forall>us s3. sched_run (map Add_Thread us) s2 = Inr s3 \<longrightarrow> (\<exists>s4. sched_exec Resched s3 = Inr s4 \<and> sc_current s4 = 1))"
    by (rule woken_thread_keeps_processor [OF fresh_sched_reach]) (simp_all only: fresh_sched_fields, simp_all)
  then obtain s2 where s2: "sched_run [Add_Thread 1, Resched] fresh_sched = Inr s2" "sc_current s2 = 1" "sched_inv 0 s2" "\<not> sc_lock s2"
    "\<forall>us s3. sched_run (map Add_Thread us) s2 = Inr s3 \<longrightarrow> (\<exists>s4. sched_exec Resched s3 = Inr s4 \<and> sc_current s4 = 1)" by blast
  from sched_run_ok [OF s2(3,4), of "map Add_Thread [2]"] obtain s3 where s3: "sched_run (map Add_Thread [2]) s2 = Inr s3" by blast
  from s2(5) s3 obtain s4 where "sched_exec Resched s3 = Inr s4" "sc_current s4 = 1" by blast
  with s2(1,2) s3 show ?thesis by (intro exI [of _ s2] exI [of _ s3] exI [of _ s4]) simp
qed

end
