(* ===== verification/Sched_Frame.thy ===== *)
theory Sched_Frame
  imports Scheduler
begin

text \<open>
  What the operations of the scheduler leave alone: static priorities, the states of threads that
  are neither ready nor running, and in particular the set of sleeping threads. The clients of the
  scheduler (the timer, and the operations of \<^verbatim>\<open>kernel/thread.c\<close> that stop threads) rest on these facts and
  on \<open>sinv\<close>, the scheduler invariant between two operations.
\<close>

section \<open>Rescheduling\<close>

lemma pick_loop_threads: "sc_threads (fst (pick_loop ps s)) = sc_threads s \<and> sc_idle_thread (fst (pick_loop ps s)) = sc_idle_thread s"
  by (induction ps s rule: pick_loop.induct) (auto simp: rq_extract_thread_def rq_pop_head_thread_def Let_def)

lemma switch_frame:
  assumes "switch_to_next m = Inr s'"
  shows "th_s_prio (sc_threads s' u) = th_s_prio (sc_threads m u)"
    "th_next_state (sc_threads s' u) = th_next_state (sc_threads m u)"
    "u \<noteq> sc_current s' \<Longrightarrow> th_state (sc_threads s' u) = th_state (sc_threads m u)"
proof -
  obtain s1 found where p: "pick_loop (rev [0 ..< 128]) m = (s1, found)" by (cases "pick_loop (rev [0 ..< 128]) m")
  have s1: "sc_threads s1 = sc_threads m" using pick_loop_threads [of "rev [0 ..< 128]" m] p by simp
  obtain s2 t where t: "s' = resumed t s2" "s2 = s1 \<or> s2 = renew_quanta t s1"
    using assms p by (cases found; cases "sc_idle_thread s1") (auto simp: switch_to_next_def resumed_def)
  then show "th_s_prio (sc_threads s' u) = th_s_prio (sc_threads m u)"
    "th_next_state (sc_threads s' u) = th_next_state (sc_threads m u)"
    "u \<noteq> sc_current s' \<Longrightarrow> th_state (sc_threads s' u) = th_state (sc_threads m u)"
    by (auto simp: renew_quanta_def s1)
qed

lemma switch_picks_ready:
  assumes b: "between i m" and s': "switch_to_next m = Inr s'"
  shows "th_state (sc_threads m (sc_current s')) = THREAD_STATE_READY"
proof -
  note B = betweenD [OF b]
  have i: "th_state (sc_threads m i) = THREAD_STATE_READY" using B(4) B(5) [of i] by (simp add: idle_ok_def)
  have "if \<exists>p < 128. sc_queue m p \<noteq> [] then best_thread m (sc_current s') else sc_current s' = i"
    using switch_ok [OF b] s' by auto
  then show ?thesis using i rq_okD(1) [OF B(1)] by (auto simp: best_thread_def dest: in_set_takeD split: if_splits)
qed

definition in_state :: "thread_state \<Rightarrow> sched \<Rightarrow> nat set" where
  "in_state st s = {t. th_state (sc_threads s t) = st}"

abbreviation sleepers :: "sched \<Rightarrow> nat set" where
  "sleepers \<equiv> in_state THREAD_STATE_SLEEPING"

abbreviation waiting :: "sched \<Rightarrow> nat set" where
  "waiting \<equiv> in_state THREAD_STATE_WAITING"

abbreviation parked :: "thread_state \<Rightarrow> bool" where
  "parked st \<equiv> st \<notin> {THREAD_STATE_READY, THREAD_STATE_RUNNING}"

lemma reschedule_frame_switch:
  assumes st: "parked st" and b: "between i m" and r: "sched_reschedule s = switch_to_next m" and s': "sched_reschedule s = Inr s'"
    and inv: "sched_inv i s'"
    and m: "\<And>u. th_s_prio (sc_threads m u) = th_s_prio (sc_threads s u)"
      "\<And>u. u \<noteq> sc_current s \<Longrightarrow> th_next_state (sc_threads m u) = th_next_state (sc_threads s u)"
      "th_next_state (sc_threads m (sc_current s)) = THREAD_STATE_READY" "in_state st m = A"
  shows "th_s_prio (sc_threads s' u) = th_s_prio (sc_threads s u)"
    "u \<noteq> sc_current s \<Longrightarrow> th_next_state (sc_threads s' u) = th_next_state (sc_threads s u)"
    "th_next_state (sc_threads s' (sc_current s)) = THREAD_STATE_READY" "in_state st s' = A"
proof -
  have sw: "switch_to_next m = Inr s'" using r s' by simp
  note f = switch_frame [OF sw]
  show "th_s_prio (sc_threads s' u) = th_s_prio (sc_threads s u)"
    "u \<noteq> sc_current s \<Longrightarrow> th_next_state (sc_threads s' u) = th_next_state (sc_threads s u)"
    "th_next_state (sc_threads s' (sc_current s)) = THREAD_STATE_READY"
    using f(1,2) m(1-3) by simp_all
  have c: "th_state (sc_threads s' (sc_current s')) = THREAD_STATE_RUNNING" using sched_invD(5) [OF inv] .
  have "(th_state (sc_threads s' u) = st) = (th_state (sc_threads m u) = st)" for u
    using f(3) [of u] switch_picks_ready [OF b sw] c st by (cases "u = sc_current s'") auto
  then show "in_state st s' = A" using m(4) by (simp add: in_state_def)
qed

lemma in_state_cong: "(\<And>t. th_state (sc_threads s' t) = th_state (sc_threads s t)) \<Longrightarrow> in_state st s' = in_state st s"
  by (simp add: in_state_def)

definition goes_to :: "thread_state \<Rightarrow> nat \<Rightarrow> sched \<Rightarrow> nat set" where
  "goes_to st i s =
     (if sc_current s \<noteq> i \<and> th_next_state (sc_threads s (sc_current s)) = st then {sc_current s} else {})"

lemma adjust_in_state:
  assumes inv: "sched_inv i s" and st: "parked st"
  shows "in_state st (adjust_current s) = in_state st s \<union> goes_to st i s"
proof -
  have c: "th_state (sc_threads s (sc_current s)) = THREAD_STATE_RUNNING" using sched_invD(5) [OF inv] .
  have "th_next_state (sc_threads s i) = THREAD_STATE_READY" using sched_invD(4) [OF inv] by (simp add: idle_ok_def)
  then have "(th_state (sc_threads (adjust_current s) u) = st) \<longleftrightarrow> th_state (sc_threads s u) = st \<or> u \<in> goes_to st i s" for u
    using c st by (cases "u = sc_current s") (auto simp: goes_to_def)
  then show ?thesis by (auto simp: in_state_def)
qed

lemma reschedule_frame:
  assumes st: "parked st" and inv: "sched_inv i s" and lock: "sc_lock s" and s': "sched_reschedule s = Inr s'"
  shows "th_s_prio (sc_threads s' u) = th_s_prio (sc_threads s u)"
    "u \<noteq> sc_current s \<Longrightarrow> th_next_state (sc_threads s' u) = th_next_state (sc_threads s u)"
    "th_next_state (sc_threads s' (sc_current s)) = THREAD_STATE_READY"
    "in_state st s' = in_state st s \<union> goes_to st i s"
proof -
  let ?t = "sc_current s" and ?n = "th_next_state (sc_threads s (sc_current s))"
  have inv': "sched_inv i s'" using reschedule_ok [OF inv lock] s' by auto
  have idle: "sc_idle_thread s = Some i" using sched_invD(4) [OF inv] by (simp add: idle_ok_def)
  have n: "?n \<notin> {THREAD_STATE_BIRTH, THREAD_STATE_DEAD}" using sched_invD(3,5) [OF inv] by (simp add: thread_ok_def)
  consider (run) "?t \<noteq> i" "?n = THREAD_STATE_RUNNING" | (ready) "?t \<noteq> i" "?n = THREAD_STATE_READY"
    | (park) "?t = i \<or> ?n \<notin> {THREAD_STATE_RUNNING, THREAD_STATE_READY}" by blast
  then have "th_s_prio (sc_threads s' u) = th_s_prio (sc_threads s u) \<and>
    (u \<noteq> sc_current s \<longrightarrow> th_next_state (sc_threads s' u) = th_next_state (sc_threads s u)) \<and>
    th_next_state (sc_threads s' (sc_current s)) = THREAD_STATE_READY \<and>
    in_state st s' = in_state st s \<union> goes_to st i s"
  proof cases
    case run
    then have eq: "s' = sched_lock_release (renew_quanta ?t (adjust_current s))"
      using s' lock idle by (simp add: sched_reschedule_def Let_def)
    have "in_state st s' = in_state st (adjust_current s)"
      by (rule in_state_cong) (simp add: eq sched_lock_release_def renew_quanta_def)
    then show ?thesis using adjust_in_state [OF inv st]
      by (cases "u = ?t") (simp_all add: eq sched_lock_release_def renew_quanta_def)
  next
    case ready
    note q = requeue_between [OF inv ready]
    have r: "sched_reschedule s = switch_to_next (requeued s)"
      using ready lock idle q(1) by (simp add: sched_reschedule_def Let_def)
    have th: "th_s_prio (sc_threads (requeued s) u) = th_s_prio (sc_threads s u)"
      "th_next_state (sc_threads (requeued s) u) = th_next_state (sc_threads (adjust_current s) u)"
      "th_state (sc_threads (requeued s) u) = th_state (sc_threads (adjust_current s) u)" for u
      by (simp_all add: requeued_def put_result_def Let_def)
    have sl: "in_state st (requeued s) = in_state st s \<union> goes_to st i s"
      using in_state_cong [of "requeued s" "adjust_current s", OF th(3)] adjust_in_state [OF inv st] by simp
    show ?thesis using reschedule_frame_switch [OF st q(2) r s' inv' _ _ _ sl] th by simp
  next
    case park
    have r: "sched_reschedule s = switch_to_next (adjust_current s)"
      using park n lock idle by (cases ?n) (auto simp: sched_reschedule_def Let_def)
    show ?thesis
      using reschedule_frame_switch [OF st parked_between [OF inv park] r s' inv' _ _ _ adjust_in_state [OF inv st]] by simp
  qed
  then show "th_s_prio (sc_threads s' u) = th_s_prio (sc_threads s u)"
    "u \<noteq> sc_current s \<Longrightarrow> th_next_state (sc_threads s' u) = th_next_state (sc_threads s u)"
    "th_next_state (sc_threads s' (sc_current s)) = THREAD_STATE_READY"
    "in_state st s' = in_state st s \<union> goes_to st i s" by blast+
qed

section \<open>The timer handler and the invariant of the clients\<close>


lemma check_preempt_frame:
  "th_s_prio (sc_threads (fst (check_preempt n s)) u) = th_s_prio (sc_threads s u)"
  "th_next_state (sc_threads (fst (check_preempt n s)) u) = th_next_state (sc_threads s u)"
  "th_state (sc_threads (fst (check_preempt n s)) u) = th_state (sc_threads s u)"
  "sc_current (fst (check_preempt n s)) = sc_current s"
  by (simp_all add: check_preempt_def Let_def)

lemma timer_frame:
  assumes inv: "sched_inv i s" and t: "scheduler_timer s = Inr (s', r)"
  shows "th_s_prio (sc_threads s' u) = th_s_prio (sc_threads s u)"
    "th_next_state (sc_threads s' u) = th_next_state (sc_threads s u)"
    "th_state (sc_threads s' u) = th_state (sc_threads s u)" "sc_current s' = sc_current s"
proof -
  have "th_s_prio (sc_threads s' u) = th_s_prio (sc_threads s u) \<and> th_next_state (sc_threads s' u) = th_next_state (sc_threads s u) \<and>
    th_state (sc_threads s' u) = th_state (sc_threads s u) \<and> sc_current s' = sc_current s"
  proof (cases "sc_lock s")
    case True
    then show ?thesis using t by (auto simp: scheduler_timer_def)
  next
    case False
    define s1 where "s1 = s\<lparr>sc_lock := True, sc_ticks := sc_ticks s + (sc_lost_ticks s + 1), sc_lost_ticks := 0,
      sc_tick_type := (sc_tick_type s + 1) mod 8\<rparr>"
    have "sched_params_ok s1" using sched_invD(2) [OF inv] by (simp add: s1_def sched_params_ok_def)
    then have "sched_inv i s1" by (intro sched_inv_cong [OF inv]) (simp_all add: s1_def)
    from shuffle_inv [OF this, of "sc_tick_type s1"] obtain s2 where
      s2: "sched_shuffle_runqueue_head (sc_tick_type s1) s1 = Inr s2" "aged s1 s2" by blast
    define s3 where "s3 = (if sc_tick_type s2 = 7 then estimate s2 else s2)"
    have th3: "sc_threads s3 = sc_threads s2" "sc_current s3 = sc_current s2" by (simp_all add: s3_def estimate_def)
    have "s' = (fst (check_preempt (sc_lost_ticks s + 1) s3))\<lparr>sc_lock := False\<rparr> \<or> s' = s3\<lparr>sc_lock := False\<rparr>"
      using t False s2(1) by (auto simp: scheduler_timer_def Let_def s1_def s3_def split: prod.splits if_splits)
    then show ?thesis
      using agedD [OF s2(2)] by (elim disjE) (simp_all add: check_preempt_frame th3 s1_def)
  qed
  then show "th_s_prio (sc_threads s' u) = th_s_prio (sc_threads s u)"
    "th_next_state (sc_threads s' u) = th_next_state (sc_threads s u)"
    "th_state (sc_threads s' u) = th_state (sc_threads s u)" "sc_current s' = sc_current s" by blast+
qed

definition sinv :: "nat \<Rightarrow> sched \<Rightarrow> bool" where
  "sinv i s \<longleftrightarrow> sched_inv i s \<and> \<not> sc_lock s \<and> (\<forall>u. u \<noteq> i \<longrightarrow> 0 \<le> th_s_prio (sc_threads s u)) \<and>
     (\<forall>u. th_next_state (sc_threads s u) = THREAD_STATE_SLEEPING \<longrightarrow> u \<in> sleepers s) \<and>
     (\<forall>u. th_next_state (sc_threads s u) \<noteq> THREAD_STATE_WAITING)"

lemma sinvD:
  assumes "sinv i s"
  shows "sched_inv i s" "\<not> sc_lock s" "u \<noteq> i \<Longrightarrow> 0 \<le> th_s_prio (sc_threads s u)"
    "th_next_state (sc_threads s u) = THREAD_STATE_SLEEPING \<Longrightarrow> u \<in> sleepers s" "th_next_state (sc_threads s u) \<noteq> THREAD_STATE_WAITING"
  using assms by (auto simp: sinv_def)

lemma sinv_idle_awake: "sinv i s \<Longrightarrow> i \<notin> sleepers s"
  using sched_invD(4) [of i s] sinvD(1) [of i s] by (auto simp: idle_ok_def in_state_def)

lemma sinv_timer:
  assumes s: "sinv i s"
  shows "\<exists>s' r. scheduler_timer s = Inr (s', r) \<and> sinv i s' \<and> (\<forall>st. in_state st s' = in_state st s) \<and>
    sc_current s' = sc_current s \<and> (\<forall>u. th_state (sc_threads s' u) = th_state (sc_threads s u))"
proof -
  note S = sinvD [OF s]
  from timer_inv [OF S(1)] obtain s' r where t: "scheduler_timer s = Inr (s', r)" "sched_inv i s'" "sc_lock s' = sc_lock s" by blast
  note f = timer_frame [OF S(1) t(1)]
  have sl: "in_state st s' = in_state st s" for st by (rule in_state_cong) (rule f(3))
  have "sinv i s'" unfolding sinv_def sl using t(2,3) S f by simp
  then show ?thesis using sl t(1) f(3,4) by blast
qed

lemma sinv_add:
  assumes s: "sinv i s"
    and t: "th_state (sc_threads s t) \<in> {THREAD_STATE_BIRTH, THREAD_STATE_WAITING, THREAD_STATE_SLEEPING, THREAD_STATE_SUSPENDED}"
  shows "\<exists>s'. sched_add_thread t s = Inr s' \<and> sinv i s' \<and> queued s' t \<and> (\<forall>st. parked st \<longrightarrow> in_state st s' = in_state st s - {t}) \<and>
    sc_current s' = sc_current s \<and> (\<forall>u. u \<noteq> t \<longrightarrow> sc_threads s' u = sc_threads s u)"
proof -
  note S = sinvD [OF s]
  have ti: "t \<noteq> i" using t sched_invD(4) [OF S(1)] by (auto simp: idle_ok_def)
  from add_ok [OF S(1) S(3) [OF ti] t] obtain s' where
    s': "sched_add_thread t s = Inr s'" "sched_inv i s'" "queued s' t" "sc_lock s' = sc_lock s" "sc_current s' = sc_current s"
      "th_next_state (sc_threads s' t) = THREAD_STATE_RUNNING" "\<forall>u. u \<noteq> t \<longrightarrow> sc_threads s' u = sc_threads s u" by blast
  have st: "th_state (sc_threads s' t) = THREAD_STATE_READY"
    using rq_okD(1) [OF sched_invD(1) [OF s'(2)]] s'(3) by (auto simp: queued_def)
  have "0 \<le> th_s_prio (sc_threads s' t)"
    using s'(1) S(3) [OF ti] by (auto simp: sched_add_thread_def rq_put_thread_def Let_def split: if_splits)
  moreover have "(th_state (sc_threads s' u) = st) \<longleftrightarrow> th_state (sc_threads s u) = st \<and> u \<noteq> t" if "parked st" for u st
    using s'(7) st that by (cases "u = t") auto
  then have sl: "in_state st s' = in_state st s - {t}" if "parked st" for st using that by (auto simp: in_state_def)
  have "0 \<le> th_s_prio (sc_threads s' u)" if "u \<noteq> i" for u
    using calculation s'(7) S(3) [OF that] by (cases "u = t") simp_all
  moreover have "u \<in> sleepers s'" if "th_next_state (sc_threads s' u) = THREAD_STATE_SLEEPING" for u
    using that s'(6,7) S(4) [of u] sl by (cases "u = t") auto
  moreover have "th_next_state (sc_threads s' u) \<noteq> THREAD_STATE_WAITING" for u using s'(6,7) S(5) [of u] by (cases "u = t") auto
  ultimately have "sinv i s'" unfolding sinv_def using s'(2,4) S(2) by blast
  then show ?thesis using s' sl by blast
qed

lemma sinv_resched:
  assumes s: "sched_inv i s" "\<And>u. u \<noteq> i \<Longrightarrow> 0 \<le> th_s_prio (sc_threads s u)"
    "\<And>u. th_next_state (sc_threads s u) = THREAD_STATE_SLEEPING \<Longrightarrow> u \<noteq> sc_current s \<Longrightarrow> u \<in> sleepers s"
    "\<And>u. u \<noteq> sc_current s \<Longrightarrow> th_next_state (sc_threads s u) \<noteq> THREAD_STATE_WAITING"
  shows "\<exists>s'. sched_reschedule (s\<lparr>sc_lock := True\<rparr>) = Inr s' \<and> sinv i s' \<and>
    (\<forall>st. parked st \<longrightarrow> in_state st s' = in_state st s \<union> goes_to st i s)"
proof -
  let ?s = "s\<lparr>sc_lock := True\<rparr>"
  have inv: "sched_inv i ?s" by (rule sched_inv_lock [OF s(1)])
  have lock: "sc_lock ?s" by simp
  from reschedule_ok [OF inv lock] obtain s' where s': "sched_reschedule ?s = Inr s'" "sched_inv i s'" "\<not> sc_lock s'" by blast
  note f = reschedule_frame [OF _ inv lock s'(1)]
  have sl: "in_state st s' = in_state st s \<union> goes_to st i s" if "parked st" for st
    using f(4) [OF that] by (simp add: in_state_def goes_to_def)
  have p: "parked THREAD_STATE_SLEEPING" by simp
  have "u \<in> sleepers s'" if "th_next_state (sc_threads s' u) = THREAD_STATE_SLEEPING" for u
    using that f(2) [OF p, of u] f(3) [OF p] s(3) [of u] sl by (cases "u = sc_current s") auto
  moreover have "th_next_state (sc_threads s' u) \<noteq> THREAD_STATE_WAITING" for u
    using f(2) [OF p, of u] f(3) [OF p] s(4) [of u] by (cases "u = sc_current s") auto
  ultimately have "sinv i s'" unfolding sinv_def using s'(2,3) f(1) [OF p] s(2) by simp
  then show ?thesis using s'(1) sl by blast
qed

lemma sinv_set_next:
  assumes s: "sinv i s" and t: "t \<noteq> i" "st \<notin> {THREAD_STATE_BIRTH, THREAD_STATE_DEAD, THREAD_STATE_SLEEPING, THREAD_STATE_WAITING}"
  shows "sinv i (upd_thread t (\<lambda>th. th\<lparr>th_next_state := st\<rparr>) s)"
    "in_state st' (upd_thread t (\<lambda>th. th\<lparr>th_next_state := st\<rparr>) s) = in_state st' s"
proof -
  note S = sinvD [OF s]
  let ?s = "upd_thread t (\<lambda>th. th\<lparr>th_next_state := st\<rparr>) s"
  show sl: "in_state st' ?s = in_state st' s" for st' by (rule in_state_cong) simp
  have inv: "sched_inv i ?s"
    using S(1) t(1) by (rule upd_inv) (use sched_invD(3) [OF S(1), of t] t(2) in \<open>simp_all add: thread_ok_def\<close>)
  have "u \<in> sleepers ?s" if "th_next_state (sc_threads ?s u) = THREAD_STATE_SLEEPING" for u
    using that S(4) [of u] t(2) by (simp add: sl split: if_splits)
  moreover have "th_next_state (sc_threads ?s u) \<noteq> THREAD_STATE_WAITING" for u using S(5) [of u] t(2) by simp
  ultimately show "sinv i ?s" unfolding sinv_def using S inv by simp
qed

lemma sinv_park:
  assumes s: "sinv i s" and t: "t \<noteq> i" "th_state (sc_threads s t) = THREAD_STATE_READY"
  shows "\<exists>s'. sched_remove_thread t s = Inr s' \<and> sc_threads s' = sc_threads s \<and>
    sinv i (upd_thread t (\<lambda>th. th\<lparr>th_state := THREAD_STATE_SLEEPING, th_next_state := THREAD_STATE_SLEEPING\<rparr>) s') \<and>
    sleepers (upd_thread t (\<lambda>th. th\<lparr>th_state := THREAD_STATE_SLEEPING, th_next_state := THREAD_STATE_SLEEPING\<rparr>) s') = insert t (sleepers s) \<and>
    waiting (upd_thread t (\<lambda>th. th\<lparr>th_state := THREAD_STATE_SLEEPING, th_next_state := THREAD_STATE_SLEEPING\<rparr>) s') = waiting s"
proof -
  note S = sinvD [OF s]
  have st: "THREAD_STATE_SLEEPING \<notin> {THREAD_STATE_READY, THREAD_STATE_RUNNING}" by simp
  from park_ok [OF S(1) t st] obtain s' where
    s': "sched_remove_thread t s = Inr s'" "sc_lock s' = sc_lock s"
      "sched_inv i (upd_thread t (\<lambda>th. th\<lparr>th_state := THREAD_STATE_SLEEPING, th_next_state := THREAD_STATE_SLEEPING\<rparr>) s')" by blast
  let ?s = "upd_thread t (\<lambda>th. th\<lparr>th_state := THREAD_STATE_SLEEPING, th_next_state := THREAD_STATE_SLEEPING\<rparr>) s'"
  have th: "sc_threads s' = sc_threads s" using s'(1) by (auto simp: sched_remove_thread_def rq_extract_thread_def Let_def split: if_splits)
  have sl: "sleepers ?s = insert t (sleepers s)" "waiting ?s = waiting s" using t(2) by (auto simp: in_state_def th)
  have "u \<in> sleepers ?s" if "th_next_state (sc_threads ?s u) = THREAD_STATE_SLEEPING" for u
    using that S(4) [of u] by (auto simp: sl th split: if_splits)
  moreover have "th_next_state (sc_threads ?s u) \<noteq> THREAD_STATE_WAITING" for u using S(5) [of u] by (simp add: th)
  ultimately have "sinv i ?s" unfolding sinv_def using s'(2,3) S by (simp add: th)
  then show ?thesis using s'(1) th sl by blast
qed

end
