(* ===== verification/Timer.thy ===== *)
theory Timer
  imports Sched_Frame
begin

text \<open>
  The timer of \<^verbatim>\<open>kernel/timer.c\<close>: the queue of events with relative deadlines, sleeping threads and
  timeout calls, together with the thread operations of \<^verbatim>\<open>kernel/thread.c\<close> that stop and resume
  threads (yield, suspend, resume, sleep), which are where the timer and the scheduler meet.

  Events live at addresses of the kernel heap and the queues are sequences of addresses; the tree
  of timeout calls is the sequence of addresses it holds, searched by identifier. Interrupts are
  off inside these routines, so a tick falls between two operations; a tick that finds the event
  lock taken is an operation of its own. A timeout routine is recorded as a call.
\<close>

section \<open>State\<close>

record event =
  ev_delta :: int
  ev_timeout :: bool
  ev_id :: uint
  ev_run_lock :: bool
  ev_canceled :: bool
  ev_routine :: nat
  ev_data :: nat
  ev_thread :: nat

record timer =
  tm_sched :: sched
  tm_ticks :: int
  tm_next_timeout_id :: uint
  tm_events :: "nat \<Rightarrow> event"
  tm_queue :: "nat list"
  tm_ready_queue :: "nat list"
  tm_ticks_lost :: int
  tm_tree :: "nat list"
  tm_handler :: "nat option"
  tm_thread_id :: "nat \<Rightarrow> uint"
  tm_threads_tree :: "nat list"
  tm_events_lock :: bool
  tm_next_addr :: nat
  tm_calls :: "(uint \<times> nat \<times> nat) list"

datatype timer_error =
    Sched_Error sched_error | Timer_Assertion_Failed | No_Timeout_Ids | Tree_Add_Failed | Tree_Remove_Failed | No_Handler_Thread
  | Waits_For_Ever

definition upd_event :: "nat \<Rightarrow> (event \<Rightarrow> event) \<Rightarrow> timer \<Rightarrow> timer" where
  "upd_event e f tm = tm\<lparr>tm_events := (tm_events tm)(e := f (tm_events tm e))\<rparr>"

definition with_sched :: "(sched \<Rightarrow> sched_error + sched) \<Rightarrow> timer \<Rightarrow> timer_error + timer" where
  "with_sched f tm = (case f (tm_sched tm) of Inl e \<Rightarrow> Inl (Sched_Error e) | Inr s \<Rightarrow> Inr (tm\<lparr>tm_sched := s\<rparr>))"

text \<open>\<^verbatim>\<open>kmalloc\<close> returns a block that is not in use.\<close>

definition new_event :: "event \<Rightarrow> timer \<Rightarrow> timer \<times> nat" where
  "new_event ev tm =
     (let e = tm_next_addr tm
      in (tm\<lparr>tm_next_addr := e + 1, tm_events := (tm_events tm)(e := ev)\<rparr>, e))"

section \<open>Time conversion\<close>

definition TIMER_TICKS_TO_MSEC :: "int \<Rightarrow> int" where
  "TIMER_TICKS_TO_MSEC a = a * (1000 + 1000 smod HZ) sdiv HZ"

text \<open>With an unsigned argument the conversion is computed in unsigned 32-bit arithmetic.\<close>

definition TIMER_MSEC_TO_TICKS :: "uint \<Rightarrow> uint" where
  "TIMER_MSEC_TO_TICKS a = a * 250 div (1000 + 1000 mod 250)"

section \<open>The event queue\<close>

fun insert_event :: "(nat \<Rightarrow> event) \<Rightarrow> nat list \<Rightarrow> nat \<Rightarrow> int \<Rightarrow> (nat \<Rightarrow> event) \<times> nat list \<times> int" where
  "insert_event evs [] new_evt tick = (evs, [new_evt], tick)"
| "insert_event evs (evt # q) new_evt tick =
     (if tick < ev_delta (evs evt)
      then (evs(evt := (evs evt)\<lparr>ev_delta := ev_delta (evs evt) - tick\<rparr>), new_evt # evt # q, tick)
      else if tick = ev_delta (evs evt) then (evs, evt # new_evt # q, 0)
      else (case insert_event evs q new_evt (tick - ev_delta (evs evt)) of
              (evs', q', d) \<Rightarrow> (evs', evt # q', d)))"

definition add_new_event_nolock :: "nat \<Rightarrow> int \<Rightarrow> timer \<Rightarrow> timer" where
  "add_new_event_nolock new_evt tick tm =
     (case insert_event (tm_events tm) (tm_queue tm) new_evt tick of (evs, q, d) \<Rightarrow>
        tm\<lparr>tm_events := evs(new_evt := (evs new_evt)\<lparr>ev_delta := d\<rparr>), tm_queue := q\<rparr>)"

definition enqueue_timeout_event :: "nat \<Rightarrow> timer \<Rightarrow> timer" where
  "enqueue_timeout_event e tm = tm\<lparr>tm_ready_queue := tm_ready_queue tm @ [e]\<rparr>"

definition extract_timeout_event :: "timer \<Rightarrow> timer \<times> nat option" where
  "extract_timeout_event tm =
     (case tm_ready_queue tm of [] \<Rightarrow> (tm, None) | e # q \<Rightarrow> (tm\<lparr>tm_ready_queue := q\<rparr>, Some e))"

section \<open>Expiry\<close>

definition wake_handler :: "timer \<Rightarrow> timer_error + timer" where
  "wake_handler tm =
     (case tm_handler tm of None \<Rightarrow> Inl No_Handler_Thread | Some h \<Rightarrow>
      and_then (if th_state (sc_threads (tm_sched tm) h) = THREAD_STATE_SUSPENDED
                then with_sched (sched_add_thread h) tm else Inr tm)
        (\<lambda>tm1. Inr (if th_next_state (sc_threads (tm_sched tm1) h) = THREAD_STATE_SUSPENDED
                    then tm1\<lparr>tm_sched := upd_thread h (\<lambda>th. th\<lparr>th_next_state := THREAD_STATE_READY\<rparr>) (tm_sched tm1)\<rparr>
                    else tm1)))"

definition fire_event :: "nat \<Rightarrow> bool \<Rightarrow> timer \<Rightarrow> timer_error + timer \<times> bool" where
  "fire_event e timeouts_thread tm =
     (if \<not> ev_timeout (tm_events tm e)
      then and_then (with_sched (sched_add_thread (ev_thread (tm_events tm e))) tm)
             (\<lambda>tm1. Inr (tm1\<lparr>tm_queue := tl (tm_queue tm1)\<rparr>, timeouts_thread))
      else (let tm1 = enqueue_timeout_event e (tm\<lparr>tm_queue := tl (tm_queue tm)\<rparr>)
            in if timeouts_thread then Inr (tm1, True)
               else and_then (wake_handler tm1) (\<lambda>tm2. Inr (tm2, True))))"

text \<open>The loop over the queue; every round removes an event or is the last.\<close>

function expire_loop :: "int \<Rightarrow> bool \<Rightarrow> bool \<Rightarrow> timer \<Rightarrow> timer_error + timer \<times> bool" where
  "expire_loop ticks resched timeouts_thread tm =
     (case tm_queue tm of
        [] \<Rightarrow> Inr (tm, resched)
      | e # q \<Rightarrow>
          (let d = ev_delta (tm_events tm e) - ticks;
               tm1 = upd_event e (\<lambda>ev. ev\<lparr>ev_delta := d\<rparr>) tm
           in if d \<le> 0
              then (case fire_event e timeouts_thread tm1 of
                      Inl x \<Rightarrow> Inl x
                    | Inr (tm2, tt) \<Rightarrow> expire_loop (- d) True tt tm2)
              else Inr (tm1, resched)))"
  by pat_completeness auto

lemma with_sched_queue: "with_sched f tm = Inr tm' \<Longrightarrow> tm_queue tm' = tm_queue tm"
  by (auto simp: with_sched_def split: sum.splits)

lemma fire_event_queue: "fire_event e tt tm = Inr (tm', tt') \<Longrightarrow> tm_queue tm' = tl (tm_queue tm)"
  by (auto simp: fire_event_def wake_handler_def and_then_Inr enqueue_timeout_event_def Let_def
      dest: with_sched_queue split: if_splits option.splits)

termination expire_loop
proof (relation "measure (\<lambda>(_, _, _, tm). length (tm_queue tm))", goal_cases)
  case (2 ticks resched tt tm e q d tm1 r tm2 tt')
  then show ?case by (cases r) (auto simp: upd_event_def dest: fire_event_queue)
qed simp

definition timer_schedule_event :: "timer \<Rightarrow> timer_error + timer \<times> bool" where
  "timer_schedule_event tm =
     (if tm_events_lock tm then Inr (tm\<lparr>tm_ticks_lost := tm_ticks_lost tm + 1\<rparr>, False)
      else expire_loop (tm_ticks_lost tm + 1) False False (tm\<lparr>tm_ticks_lost := 0\<rparr>))"

definition timer_tick :: "timer \<Rightarrow> timer_error + timer \<times> bool" where
  "timer_tick tm =
     and_then (timer_schedule_event (tm\<lparr>tm_ticks := tm_ticks tm + 1\<rparr>))
       (\<lambda>(tm1, r1). case scheduler_timer (tm_sched tm1) of
           Inl e \<Rightarrow> Inl (Sched_Error e)
         | Inr (s, r2) \<Rightarrow> Inr (tm1\<lparr>tm_sched := s\<rparr>, r1 \<or> r2))"

definition timer_get_ticks :: "timer \<Rightarrow> int" where
  "timer_get_ticks tm = tm_ticks tm"

definition timer_get_time :: "timer \<Rightarrow> int" where
  "timer_get_time tm = TIMER_TICKS_TO_MSEC (timer_get_ticks tm)"

section \<open>Initialisation\<close>

text \<open>
  The architecture and platform parts program the interval timer; their results are arguments.
  \<^verbatim>\<open>timer_init_after_threading\<close> gets the thread that was created for the timeout calls, if any.
\<close>


definition timer_init :: "status \<Rightarrow> status \<Rightarrow> timer \<Rightarrow> timer \<times> status" where
  "timer_init arch_err platform_err tm =
     (if arch_err \<noteq> NO_ERROR then (tm, arch_err)
      else if platform_err \<noteq> NO_ERROR then (tm, platform_err)
      else (tm\<lparr>tm_events_lock := False, tm_queue := [], tm_ready_queue := [], tm_tree := [], tm_next_timeout_id := 1\<rparr>, NO_ERROR))"

definition thread_get_thread_struct :: "uint \<Rightarrow> timer \<Rightarrow> nat option" where
  "thread_get_thread_struct tid tm = List.find (\<lambda>t. tm_thread_id tm t = tid) (tm_threads_tree tm)"

definition INVALID_THREADID :: uint where "INVALID_THREADID = 0"

definition timer_init_after_threading :: "uint \<Rightarrow> timer \<Rightarrow> timer \<times> status" where
  "timer_init_after_threading tid tm =
     (if tid = INVALID_THREADID then (tm, ERR_MT_GENERAL)
      else (let tm1 = tm\<lparr>tm_handler := thread_get_thread_struct tid tm\<rparr>
            in (tm1, if tm_handler tm1 = None then ERR_MT_GENERAL else NO_ERROR)))"

section \<open>Sleeping threads\<close>

definition ready_or_running :: "thread_state \<Rightarrow> bool" where
  "ready_or_running st \<longleftrightarrow> st = THREAD_STATE_READY \<or> st = THREAD_STATE_RUNNING"

definition timer_lull_thread :: "nat \<Rightarrow> uint \<Rightarrow> timer \<Rightarrow> timer_error + timer" where
  "timer_lull_thread t ticks tm =
     (let th = sc_threads (tm_sched tm) t in
      if \<not> ready_or_running (th_state th) \<or> \<not> ready_or_running (th_next_state th) then Inl Timer_Assertion_Failed
      else
        (let s1 = upd_thread t (\<lambda>th. th\<lparr>th_next_state := THREAD_STATE_SLEEPING,
                 th_state := if th_state th = THREAD_STATE_READY then THREAD_STATE_SLEEPING else th_state th\<rparr>) (tm_sched tm);
             (tm1, e) = new_event \<lparr>ev_delta = 0, ev_timeout = False, ev_id = 0, ev_run_lock = False, ev_canceled = False,
                 ev_routine = 0, ev_data = 0, ev_thread = t\<rparr> (tm\<lparr>tm_sched := s1\<rparr>)
         in Inr (add_new_event_nolock e (sint ticks) tm1)))"

section \<open>Timeout calls\<close>

definition INVALID_TIMEOUTID :: uint where "INVALID_TIMEOUTID = 0"

definition get_next_timeout_id :: "timer \<Rightarrow> timer_error + timer \<times> uint" where
  "get_next_timeout_id tm =
     (let retval = tm_next_timeout_id tm; tm1 = tm\<lparr>tm_next_timeout_id := retval + 1\<rparr>
      in if retval = INVALID_TIMEOUTID then Inl No_Timeout_Ids else Inr (tm1, retval))"

definition find_timeout :: "uint \<Rightarrow> timer \<Rightarrow> nat option" where
  "find_timeout tid tm = List.find (\<lambda>e. ev_id (tm_events tm e) = tid) (tm_tree tm)"

definition timer_timeout_sched :: "nat \<Rightarrow> nat \<Rightarrow> uint \<Rightarrow> timer \<Rightarrow> timer_error + timer \<times> uint" where
  "timer_timeout_sched routine data ticks tm =
     and_then (get_next_timeout_id tm)
       (\<lambda>(tm1, tid).
          let (tm2, e) = new_event \<lparr>ev_delta = 0, ev_timeout = True, ev_id = tid, ev_run_lock = False, ev_canceled = False,
                 ev_routine = routine, ev_data = data, ev_thread = 0\<rparr> tm1;
              tm3 = add_new_event_nolock e (sint ticks) tm2
          in if find_timeout tid tm3 \<noteq> None then Inl Tree_Add_Failed
             else Inr (tm3\<lparr>tm_tree := e # tm_tree tm3\<rparr>, tid))"

definition timer_timeout_cancel :: "uint \<Rightarrow> timer \<Rightarrow> timer" where
  "timer_timeout_cancel tid tm =
     (case find_timeout tid tm of
        None \<Rightarrow> tm | Some e \<Rightarrow> upd_event e (\<lambda>ev. ev\<lparr>ev_canceled := True\<rparr>) tm)"

text \<open>One round of the loop; the result tells whether it has to be repeated after a yield.\<close>

definition cancel_sync_round :: "uint \<Rightarrow> timer \<Rightarrow> timer \<times> bool" where
  "cancel_sync_round tid tm =
     (case find_timeout tid tm of
        None \<Rightarrow> (tm, False)
      | Some e \<Rightarrow>
          if ev_run_lock (tm_events tm e) then (tm, True)
          else (upd_event e (\<lambda>ev. ev\<lparr>ev_run_lock := True, ev_canceled := True\<rparr>) tm, False))"

text \<open>
  One round of the handler thread: \<open>None\<close> is a wait for ever on the run lock of the event,
  \<open>Inr (tm, False)\<close> an empty queue, for which the thread suspends itself.
\<close>

definition timeout_calls_handler :: "timer \<Rightarrow> (timer_error + timer \<times> bool) option" where
  "timeout_calls_handler tm =
     (case extract_timeout_event tm of
        (tm1, None) \<Rightarrow> Some (Inr (tm1, False))
      | (tm1, Some e) \<Rightarrow>
          (let ev = tm_events tm1 e in
           if \<not> ev_timeout ev then Some (Inl Timer_Assertion_Failed)
           else if ev_run_lock ev then None
           else (let tm2 = (if ev_canceled ev then tm1
                            else tm1\<lparr>tm_calls := tm_calls tm1 @ [(ev_id ev, ev_routine ev, ev_data ev)]\<rparr>)
                 in if e \<notin> set (tm_tree tm2) then Some (Inl Tree_Remove_Failed)
                    else Some (Inr (tm2\<lparr>tm_tree := remove1 e (tm_tree tm2)\<rparr>, True)))))"

section \<open>Stopping and resuming threads\<close>

definition thread_yield :: "timer \<Rightarrow> timer_error + timer" where
  "thread_yield tm =
     (case sched_lock_acquire (tm_sched tm) of
        None \<Rightarrow> Inl Waits_For_Ever
      | Some s \<Rightarrow> with_sched sched_reschedule (tm\<lparr>tm_sched := s\<rparr>))"

definition set_next_state :: "nat \<Rightarrow> thread_state \<Rightarrow> timer \<Rightarrow> timer" where
  "set_next_state t st tm = tm\<lparr>tm_sched := upd_thread t (\<lambda>th. th\<lparr>th_next_state := st\<rparr>) (tm_sched tm)\<rparr>"

definition thread_suspend_current :: "timer \<Rightarrow> timer_error + timer \<times> status" where
  "thread_suspend_current tm =
     (let t = sc_current (tm_sched tm) in
      if \<not> ready_or_running (th_next_state (sc_threads (tm_sched tm) t)) then Inr (tm, ERR_MT_INVALID_STATE)
      else and_then (thread_yield (set_next_state t THREAD_STATE_SUSPENDED tm)) (\<lambda>tm1. Inr (tm1, NO_ERROR)))"

definition thread_suspend :: "uint \<Rightarrow> timer \<Rightarrow> timer_error + timer \<times> status" where
  "thread_suspend tid tm =
     (case thread_get_thread_struct tid tm of
        None \<Rightarrow> Inr (tm, ERR_MT_INVALID_HANDLE)
      | Some t \<Rightarrow>
          (let th = sc_threads (tm_sched tm) t in
           if \<not> ready_or_running (th_state th) \<or> \<not> ready_or_running (th_next_state th) then Inr (tm, ERR_MT_INVALID_STATE)
           else (let tm1 = set_next_state t THREAD_STATE_SUSPENDED tm
                 in if tm_thread_id tm (sc_current (tm_sched tm)) = tid
                    then and_then (thread_yield tm1) (\<lambda>tm2. Inr (tm2, NO_ERROR)) else Inr (tm1, NO_ERROR))))"

definition thread_resume :: "uint \<Rightarrow> timer \<Rightarrow> timer_error + timer \<times> status" where
  "thread_resume tid tm =
     (case thread_get_thread_struct tid tm of
        None \<Rightarrow> Inr (tm, ERR_MT_INVALID_HANDLE)
      | Some t \<Rightarrow>
          and_then (if th_state (sc_threads (tm_sched tm) t) = THREAD_STATE_SUSPENDED
                    then with_sched (sched_add_thread t) tm else Inr tm)
            (\<lambda>tm1. Inr (tm1, NO_ERROR)))"

definition thread_sleep :: "uint \<Rightarrow> timer \<Rightarrow> timer_error + timer" where
  "thread_sleep msec tm =
     (if msec = 0 then thread_yield tm
      else
        (let t = sc_current (tm_sched tm)
         in and_then (if ready_or_running (th_next_state (sc_threads (tm_sched tm) t))
                      then timer_lull_thread t (TIMER_MSEC_TO_TICKS msec) tm else Inr tm)
              thread_yield))"

definition thread_sleep_id :: "uint \<Rightarrow> uint \<Rightarrow> timer \<Rightarrow> timer_error + timer \<times> status" where
  "thread_sleep_id tid msec tm =
     (if tm_thread_id tm (sc_current (tm_sched tm)) = tid
      then and_then (thread_sleep msec tm) (\<lambda>tm1. Inr (tm1, NO_ERROR))
      else
        (case thread_get_thread_struct tid tm of
           None \<Rightarrow> Inr (tm, ERR_MT_INVALID_HANDLE)
         | Some t \<Rightarrow>
             (let th = sc_threads (tm_sched tm) t in
              if \<not> ready_or_running (th_state th) \<or> \<not> ready_or_running (th_next_state th) then Inr (tm, ERR_MT_INVALID_STATE)
              else and_then (if th_state th = THREAD_STATE_READY then with_sched (sched_remove_thread t) tm else Inr tm)
                     (\<lambda>tm1. and_then (timer_lull_thread t (TIMER_MSEC_TO_TICKS msec) tm1) (\<lambda>tm2. Inr (tm2, NO_ERROR))))))"

section \<open>The queue as absolute deadlines\<close>

fun due :: "(nat \<Rightarrow> event) \<Rightarrow> int \<Rightarrow> nat list \<Rightarrow> (int \<times> nat) list" where
  "due evs b [] = []"
| "due evs b (e # q) = (b + ev_delta (evs e), e) # due evs (b + ev_delta (evs e)) q"

fun due_insert :: "int \<Rightarrow> nat \<Rightarrow> (int \<times> nat) list \<Rightarrow> (int \<times> nat) list" where
  "due_insert k x [] = [(k, x)]"
| "due_insert k x ((k', y) # ds) =
     (if k < k' then (k, x) # (k', y) # ds
      else if k = k' then (k', y) # (k, x) # ds
      else (k', y) # due_insert k x ds)"

lemma due_cong: "(\<And>e. e \<in> set q \<Longrightarrow> ev_delta (evs' e) = ev_delta (evs e)) \<Longrightarrow> due evs' b q = due evs b q"
  by (induction q arbitrary: b) auto

lemma due_snd: "map snd (due evs b q) = q"
  by (induction q arbitrary: b) auto

lemma due_ge: "(k, e) \<in> set (due evs b q) \<Longrightarrow> \<forall>e \<in> set q. 0 \<le> ev_delta (evs e) \<Longrightarrow> b \<le> k"
proof (induction q arbitrary: b)
  case (Cons a q)
  then show ?case using Cons.IH [of "b + ev_delta (evs a)"] by fastforce
qed simp

lemma due_sorted: "\<forall>e \<in> set q. 0 \<le> ev_delta (evs e) \<Longrightarrow> sorted (map fst (due evs b q))"
proof (induction q arbitrary: b)
  case (Cons a q)
  then show ?case using due_ge [of _ _ evs "b + ev_delta (evs a)" q] by (fastforce simp: image_iff)
qed simp

lemma set_due_insert: "set (due_insert k x ds) = insert (k, x) (set ds)"
  by (induction k x ds rule: due_insert.induct) auto

lemma insert_event_delta:
  "insert_event evs q new tick = (evs', q', d) \<Longrightarrow> (evs' e)\<lparr>ev_delta := 0\<rparr> = (evs e)\<lparr>ev_delta := 0\<rparr>"
  by (induction evs q new tick arbitrary: q' rule: insert_event.induct) (auto split: if_splits prod.splits)

lemma insert_event_elsewhere:
  "insert_event evs q new tick = (evs', q', d) \<Longrightarrow> e \<notin> set q \<Longrightarrow> evs' e = evs e"
  by (induction evs q new tick arbitrary: q' rule: insert_event.induct) (auto split: if_splits prod.splits)

lemma insert_event_set:
  "insert_event evs q new tick = (evs', q', d) \<Longrightarrow> \<exists>a b. q = a @ b \<and> q' = a @ new # b"
proof (induction evs q new tick arbitrary: q' rule: insert_event.induct)
  case (2 evs evt q new tick)
  consider "tick < ev_delta (evs evt)" | "tick = ev_delta (evs evt)" | "ev_delta (evs evt) < tick" by linarith
  then show ?case
  proof cases
    case 1
    then show ?thesis using 2(2) by (intro exI [of _ "[]"] exI [of _ "evt # q"]) auto
  next
    case 2
    then show ?thesis using "2.prems" by (intro exI [of _ "[evt]"] exI [of _ q]) auto
  next
    case 3
    then obtain q1 where "insert_event evs q new (tick - ev_delta (evs evt)) = (evs', q1, d)" "q' = evt # q1"
      using "2.prems" by (auto split: prod.splits)
    with "2.IH" 3 obtain a b where "q = a @ b" "q1 = a @ new # b" by fastforce
    with \<open>q' = evt # q1\<close> show ?thesis by (intro exI [of _ "evt # a"] exI [of _ b]) simp
  qed
qed simp

lemma insert_event_due:
  assumes "insert_event evs q new tick = (evs', q', d)" "distinct q" "new \<notin> set q"
  shows "due (evs'(new := x\<lparr>ev_delta := d\<rparr>)) b q' = due_insert (b + tick) new (due evs b q)"
  using assms
proof (induction evs q new tick arbitrary: q' b rule: insert_event.induct)
  case (2 evs evt q new tick)
  consider "tick < ev_delta (evs evt)" | "tick = ev_delta (evs evt)" | "ev_delta (evs evt) < tick" by linarith
  then show ?case
  proof cases
    case 1
    then show ?thesis using "2.prems" by (auto intro!: due_cong)
  next
    case 2
    then show ?thesis using "2.prems" by (auto intro!: due_cong)
  next
    case 3
    then obtain q1 where q1: "insert_event evs q new (tick - ev_delta (evs evt)) = (evs', q1, d)" "q' = evt # q1"
      using "2.prems"(1) by (auto split: prod.splits)
    have "due (evs'(new := x\<lparr>ev_delta := d\<rparr>)) c q1 = due_insert (c + (tick - ev_delta (evs evt))) new (due evs c q)" for c
      using "2.IH" [OF _ _ q1(1) _ _, of c] 3 "2.prems"(2,3) by (simp add: fun_upd_def)
    moreover have "evs' evt = evs evt" using insert_event_elsewhere [OF q1(1)] "2.prems"(2) by simp
    ultimately show ?thesis using q1(2) 3 "2.prems"(3) by (simp add: algebra_simps fun_upd_def)
  qed
qed simp

lemma insert_event_nonneg:
  assumes "insert_event evs q new tick = (evs', q', d)" "0 \<le> tick" "\<forall>e \<in> set q. 0 \<le> ev_delta (evs e)"
  shows "0 \<le> d \<and> (\<forall>e \<in> set q. 0 \<le> ev_delta (evs' e))"
  using assms
proof (induction evs q new tick arbitrary: q' rule: insert_event.induct)
  case (2 evs evt q new tick)
  show ?case
  proof (cases "ev_delta (evs evt) < tick")
    case True
    then obtain q1 where q1: "insert_event evs q new (tick - ev_delta (evs evt)) = (evs', q1, d)"
      using "2.prems"(1) by (auto split: prod.splits)
    have "0 \<le> d \<and> (\<forall>e \<in> set q. 0 \<le> ev_delta (evs' e))" using "2.IH" [OF _ _ q1] True "2.prems"(3) by simp
    moreover have "0 \<le> ev_delta (evs' evt)"
      using calculation insert_event_elsewhere [OF q1, of evt] "2.prems"(3) by (cases "evt \<in> set q") auto
    ultimately show ?thesis by simp
  qed (use "2.prems" in \<open>auto split: if_splits\<close>)
qed simp

section \<open>The timer invariant\<close>

definition sleep_events :: "(nat \<Rightarrow> event) \<Rightarrow> nat list \<Rightarrow> nat list" where
  "sleep_events evs q = filter (\<lambda>e. \<not> ev_timeout (evs e)) q"

definition queue_ok :: "(nat \<Rightarrow> event) \<Rightarrow> nat list \<Rightarrow> nat list \<Rightarrow> nat \<Rightarrow> bool" where
  "queue_ok evs q r n \<longleftrightarrow> distinct (q @ r) \<and> (\<forall>e \<in> set (q @ r). e < n) \<and> (\<forall>e \<in> set q. 0 \<le> ev_delta (evs e)) \<and>
     (\<forall>e \<in> set r. ev_timeout (evs e))"

text \<open>Exactly the sleeping threads have a pending event, each of them one.\<close>

definition sleep_ok :: "(nat \<Rightarrow> event) \<Rightarrow> nat list \<Rightarrow> nat set \<Rightarrow> bool" where
  "sleep_ok evs q S \<longleftrightarrow> distinct (map (\<lambda>e. ev_thread (evs e)) (sleep_events evs q)) \<and>
     (\<lambda>e. ev_thread (evs e)) ` set (sleep_events evs q) = S"

text \<open>The tree holds exactly the timeout calls that are pending or ready, under different identifiers.\<close>

definition tree_ok :: "(nat \<Rightarrow> event) \<Rightarrow> nat list \<Rightarrow> nat list \<Rightarrow> uint \<Rightarrow> bool" where
  "tree_ok evs qr tree nid \<longleftrightarrow> distinct tree \<and> set tree = {e \<in> set qr. ev_timeout (evs e)} \<and>
     (\<forall>e \<in> set tree. \<not> ev_run_lock (evs e)) \<and> inj_on (\<lambda>e. ev_id (evs e)) (set tree) \<and>
     (nid \<noteq> 0 \<longrightarrow> (\<forall>e \<in> set tree. ev_id (evs e) < nid))"

definition tinv :: "nat \<Rightarrow> timer \<Rightarrow> bool" where
  "tinv i tm \<longleftrightarrow> sinv i (tm_sched tm) \<and> \<not> tm_events_lock tm \<and> 0 \<le> tm_ticks_lost tm \<and>
     (\<exists>h. tm_handler tm = Some h \<and> h \<noteq> i) \<and>
     queue_ok (tm_events tm) (tm_queue tm) (tm_ready_queue tm) (tm_next_addr tm) \<and>
     sleep_ok (tm_events tm) (tm_queue tm) (sleepers (tm_sched tm)) \<and>
     tree_ok (tm_events tm) (tm_queue tm @ tm_ready_queue tm) (tm_tree tm) (tm_next_timeout_id tm)"

lemma tinvD:
  assumes "tinv i tm"
  shows "sinv i (tm_sched tm)" "\<not> tm_events_lock tm" "0 \<le> tm_ticks_lost tm" "\<exists>h. tm_handler tm = Some h \<and> h \<noteq> i"
    "queue_ok (tm_events tm) (tm_queue tm) (tm_ready_queue tm) (tm_next_addr tm)"
    "sleep_ok (tm_events tm) (tm_queue tm) (sleepers (tm_sched tm))"
    "tree_ok (tm_events tm) (tm_queue tm @ tm_ready_queue tm) (tm_tree tm) (tm_next_timeout_id tm)"
  using assms by (auto simp: tinv_def)

text \<open>Events that agree in everything but the delta and the cancel flag.\<close>

definition same_event :: "event \<Rightarrow> event \<Rightarrow> bool" where
  "same_event ev ev' \<longleftrightarrow> ev'\<lparr>ev_delta := 0, ev_canceled := False\<rparr> = ev\<lparr>ev_delta := 0, ev_canceled := False\<rparr>"

lemma same_eventD:
  assumes "same_event ev ev'"
  shows "ev_timeout ev' = ev_timeout ev" "ev_thread ev' = ev_thread ev" "ev_id ev' = ev_id ev" "ev_run_lock ev' = ev_run_lock ev"
    "ev_routine ev' = ev_routine ev" "ev_data ev' = ev_data ev"
  using assms by (cases ev; cases ev'; simp add: same_event_def)+

lemma same_event_refl [simp]: "same_event ev ev" "same_event ev (ev\<lparr>ev_delta := d\<rparr>)" "same_event ev (ev\<lparr>ev_canceled := c\<rparr>)"
  by (simp_all add: same_event_def)

lemma same_event_trans: "same_event a b \<Longrightarrow> same_event b c \<Longrightarrow> same_event a c"
  by (simp add: same_event_def)

lemma sleep_ok_cong:
  assumes "\<And>e. e \<in> set q \<Longrightarrow> same_event (evs e) (evs' e)"
  shows "sleep_ok evs' q S \<longleftrightarrow> sleep_ok evs q S"
proof -
  have "sleep_events evs' q = sleep_events evs q" unfolding sleep_events_def
    by (rule filter_cong) (simp_all add: same_eventD(1) [OF assms])
  moreover have "map (\<lambda>e. ev_thread (evs' e)) (sleep_events evs q) = map (\<lambda>e. ev_thread (evs e)) (sleep_events evs q)"
    by (rule map_cong) (simp_all add: sleep_events_def same_eventD(2) [OF assms])
  moreover have "(\<lambda>e. ev_thread (evs' e)) ` set (sleep_events evs q) = (\<lambda>e. ev_thread (evs e)) ` set (sleep_events evs q)"
    by (rule image_cong) (simp_all add: sleep_events_def same_eventD(2) [OF assms])
  ultimately show ?thesis by (simp only: sleep_ok_def)
qed

lemma tree_ok_cong:
  assumes "\<And>e. e \<in> set qr \<Longrightarrow> same_event (evs e) (evs' e)" "set qr' = set qr"
  shows "tree_ok evs' qr' tree nid \<longleftrightarrow> tree_ok evs qr tree nid"
proof -
  have eq: "{e \<in> set qr. ev_timeout (evs' e)} = {e \<in> set qr. ev_timeout (evs e)}" using same_eventD(1) [OF assms(1)] by auto
  have "inj_on (\<lambda>e. ev_id (evs' e)) {e \<in> set qr. ev_timeout (evs e)} = inj_on (\<lambda>e. ev_id (evs e)) {e \<in> set qr. ev_timeout (evs e)}"
    by (rule inj_on_cong) (simp add: same_eventD(3) [OF assms(1)])
  then show ?thesis using same_eventD(3,4) [OF assms(1)] by (auto simp: tree_ok_def assms(2) eq)
qed

lemma queue_ok_tl: "queue_ok evs (e # q) r n \<Longrightarrow> queue_ok evs q r n"
  by (auto simp: queue_ok_def)

lemma queue_ok_move: "queue_ok evs (e # q) r n \<Longrightarrow> ev_timeout (evs e) \<Longrightarrow> queue_ok evs q (r @ [e]) n"
  by (auto simp: queue_ok_def)

lemma queue_ok_cong:
  assumes "\<And>e. e \<in> set (q @ r) \<Longrightarrow> same_event (evs e) (evs' e)" "\<And>e. e \<in> set q \<Longrightarrow> 0 \<le> ev_delta (evs' e)" "queue_ok evs q r n"
  shows "queue_ok evs' q r n"
  using assms(2,3) same_eventD(1) [OF assms(1)] by (auto simp: queue_ok_def)

lemma sleep_ok_tl_sleep:
  assumes "sleep_ok evs (e # q) S" "\<not> ev_timeout (evs e)"
  shows "sleep_ok evs q (S - {ev_thread (evs e)})" "ev_thread (evs e) \<in> S"
proof -
  let ?f = "\<lambda>e. ev_thread (evs e)"
  from assms have "distinct (map ?f (sleep_events evs q))" "?f e \<notin> ?f ` set (sleep_events evs q)"
    "S = insert (?f e) (?f ` set (sleep_events evs q))" by (auto simp: sleep_ok_def sleep_events_def)
  then show "sleep_ok evs q (S - {?f e})" "?f e \<in> S" by (simp_all add: sleep_ok_def)
qed

lemma sleep_ok_tl_timeout: "sleep_ok evs (e # q) S \<Longrightarrow> ev_timeout (evs e) \<Longrightarrow> sleep_ok evs q S"
  by (auto simp: sleep_ok_def sleep_events_def)

lemma tree_ok_tl: "tree_ok evs ((e # q) @ r) tree nid \<Longrightarrow> \<not> ev_timeout (evs e) \<Longrightarrow> tree_ok evs (q @ r) tree nid"
  by (auto simp: tree_ok_def)

lemma tinv_events:
  assumes inv: "tinv i tm" and same: "\<And>e. e \<in> set (tm_queue tm @ tm_ready_queue tm) \<Longrightarrow> same_event (tm_events tm e) (evs e)"
    and dn: "\<And>e. e \<in> set (tm_queue tm) \<Longrightarrow> 0 \<le> ev_delta (evs e)"
  shows "tinv i (tm\<lparr>tm_events := evs\<rparr>)"
proof -
  note I = tinvD [OF inv]
  have "queue_ok evs (tm_queue tm) (tm_ready_queue tm) (tm_next_addr tm)" by (rule queue_ok_cong [OF same dn I(5)])
  moreover have "sleep_ok evs (tm_queue tm) (sleepers (tm_sched tm))"
    by (rule sleep_ok_cong [THEN iffD2, OF _ I(6)]) (simp add: same)
  moreover have "tree_ok evs (tm_queue tm @ tm_ready_queue tm) (tm_tree tm) (tm_next_timeout_id tm)"
    by (rule tree_ok_cong [OF same refl, THEN iffD2, OF _ I(7)])
  ultimately show ?thesis using I(1-4) by (simp add: tinv_def)
qed

section \<open>Expiry\<close>

definition advances :: "sched \<Rightarrow> sched \<Rightarrow> bool" where
  "advances s s' \<longleftrightarrow> sc_current s' = sc_current s \<and>
     (\<forall>u. th_state (sc_threads s' u) = th_state (sc_threads s u) \<or> th_state (sc_threads s' u) = THREAD_STATE_READY) \<and>
     waiting s' = waiting s"

lemma advances_refl [simp]: "advances s s"
  by (simp add: advances_def)

lemma advances_trans: "advances a b \<Longrightarrow> advances b c \<Longrightarrow> advances a c"
  unfolding advances_def by metis

lemma sinv_add_advances:
  assumes s: "sinv i s" and t: "th_state (sc_threads s t) \<in> {THREAD_STATE_BIRTH, THREAD_STATE_SLEEPING, THREAD_STATE_SUSPENDED}"
  shows "\<exists>s'. sched_add_thread t s = Inr s' \<and> sinv i s' \<and> sleepers s' = sleepers s - {t} \<and> advances s s' \<and> queued s' t"
proof -
  from sinv_add [OF s, of t] t obtain s' where s': "sched_add_thread t s = Inr s'" "sinv i s'" "queued s' t"
    "\<forall>st. parked st \<longrightarrow> in_state st s' = in_state st s - {t}" "sc_current s' = sc_current s" "\<forall>u. u \<noteq> t \<longrightarrow> sc_threads s' u = sc_threads s u"
    by blast
  have "th_state (sc_threads s' t) = THREAD_STATE_READY"
    using rq_okD(1) [OF sched_invD(1) [OF sinvD(1) [OF s'(2)]]] s'(3) by (auto simp: queued_def)
  moreover have "waiting s' = waiting s" using s'(4) t by (auto simp: in_state_def)
  ultimately have "advances s s'" unfolding advances_def using s'(5,6) by metis
  then show ?thesis using s' by auto
qed

lemma wake_handler_ok:
  assumes s: "sinv i (tm_sched tm)" and h: "tm_handler tm = Some h" "h \<noteq> i"
  shows "\<exists>s'. wake_handler tm = Inr (tm\<lparr>tm_sched := s'\<rparr>) \<and> sinv i s' \<and> sleepers s' = sleepers (tm_sched tm) \<and> advances (tm_sched tm) s'"
proof -
  let ?s = "tm_sched tm" and ?add = "th_state (sc_threads (tm_sched tm) h) = THREAD_STATE_SUSPENDED"
  have "\<exists>s1. (if ?add then with_sched (sched_add_thread h) tm else Inr tm) = Inr (tm\<lparr>tm_sched := s1\<rparr>) \<and> sinv i s1 \<and>
      sleepers s1 = sleepers ?s \<and> advances ?s s1"
  proof (cases ?add)
    case True
    from sinv_add_advances [OF s, of h] True obtain s1 where
      "sched_add_thread h ?s = Inr s1" "sinv i s1" "sleepers s1 = sleepers ?s - {h}" "advances ?s s1" by auto
    moreover have "h \<notin> sleepers ?s" using True by (simp add: in_state_def)
    ultimately show ?thesis using True by (auto simp: with_sched_def)
  next
    case False
    then show ?thesis using s by (intro exI [of _ ?s]) simp
  qed
  then obtain s1 where s1: "(if ?add then with_sched (sched_add_thread h) tm else Inr tm) = Inr (tm\<lparr>tm_sched := s1\<rparr>)"
    "sinv i s1" "sleepers s1 = sleepers ?s" "advances ?s s1" by blast
  let ?s2 = "upd_thread h (\<lambda>th. th\<lparr>th_next_state := THREAD_STATE_READY\<rparr>) s1"
  have s2: "sinv i ?s2" "sleepers ?s2 = sleepers s1" using sinv_set_next [OF s1(2) h(2)] by simp_all
  have "advances s1 ?s2" using sinv_set_next(2) [OF s1(2) h(2), of THREAD_STATE_READY THREAD_STATE_WAITING] by (simp add: advances_def)
  then have "advances ?s ?s2" by (rule advances_trans [OF s1(4)])
  then show ?thesis
    using s1 s2 by (cases "th_next_state (sc_threads s1 h) = THREAD_STATE_SUSPENDED") (auto simp: wake_handler_def h(1))
qed

definition fired :: "nat \<Rightarrow> int \<Rightarrow> sched \<Rightarrow> timer \<Rightarrow> timer" where
  "fired e d s' tm = tm\<lparr>tm_events := (tm_events tm)(e := (tm_events tm e)\<lparr>ev_delta := d\<rparr>), tm_sched := s',
     tm_queue := tl (tm_queue tm), tm_ready_queue := tm_ready_queue tm @ (if ev_timeout (tm_events tm e) then [e] else [])\<rparr>"

lemma fire_event_ok:
  assumes inv: "tinv i tm" and q: "tm_queue tm = e # q"
  shows "\<exists>s' tt'. fire_event e tt (upd_event e (\<lambda>ev. ev\<lparr>ev_delta := d\<rparr>) tm) = Inr (fired e d s' tm, tt') \<and>
    tinv i (fired e d s' tm) \<and> advances (tm_sched tm) s'"
proof -
  note I = tinvD [OF inv, unfolded q]
  let ?ev = "tm_events tm e" and ?evs = "(tm_events tm)(e := (tm_events tm e)\<lparr>ev_delta := d\<rparr>)"
  have same: "same_event (tm_events tm x) (?evs x)" for x by simp
  have enq: "e \<notin> set q" using I(5) by (simp add: queue_ok_def)
  have nonneg: "0 \<le> ev_delta (?evs x)" if "x \<in> set q" for x using I(5) that enq by (auto simp: queue_ok_def)
  show ?thesis
  proof (cases "ev_timeout ?ev")
    case False
    let ?t = "ev_thread ?ev"
    note sl = sleep_ok_tl_sleep [OF I(6) False]
    have "th_state (sc_threads (tm_sched tm) ?t) = THREAD_STATE_SLEEPING" using sl(2) by (simp add: in_state_def)
    with sinv_add_advances [OF I(1)] obtain s' where s': "sched_add_thread ?t (tm_sched tm) = Inr s'" "sinv i s'"
      "sleepers s' = sleepers (tm_sched tm) - {?t}" "advances (tm_sched tm) s'" by blast
    have "queue_ok ?evs q (tm_ready_queue tm) (tm_next_addr tm)"
      by (rule queue_ok_cong [OF same nonneg queue_ok_tl [OF I(5)]])
    moreover have "sleep_ok ?evs q (sleepers s')" unfolding s'(3) by (rule sleep_ok_cong [OF same, THEN iffD2, OF sl(1)])
    moreover have "tree_ok ?evs (q @ tm_ready_queue tm) (tm_tree tm) (tm_next_timeout_id tm)"
      by (rule tree_ok_cong [OF same refl, THEN iffD2, OF tree_ok_tl [OF I(7) False]])
    ultimately show ?thesis using False s' I(2-4) q
      by (intro exI [of _ s'] exI [of _ tt]) (simp add: fire_event_def upd_event_def with_sched_def tinv_def fired_def)
  next
    case True
    obtain h where h: "tm_handler tm = Some h" "h \<noteq> i" using I(4) by blast
    let ?tm1 = "enqueue_timeout_event e ((upd_event e (\<lambda>ev. ev\<lparr>ev_delta := d\<rparr>) tm)\<lparr>tm_queue := q\<rparr>)"
    have "sinv i (tm_sched ?tm1)" "tm_handler ?tm1 = Some h" using I(1) h by (simp_all add: enqueue_timeout_event_def upd_event_def)
    from wake_handler_ok [OF this h(2)] obtain s1 where s1: "wake_handler ?tm1 = Inr (?tm1\<lparr>tm_sched := s1\<rparr>)" "sinv i s1"
      "sleepers s1 = sleepers (tm_sched tm)" "advances (tm_sched tm) s1" by (auto simp: enqueue_timeout_event_def upd_event_def)
    define s' where "s' = (if tt then tm_sched tm else s1)"
    have s': "sinv i s'" "sleepers s' = sleepers (tm_sched tm)" "advances (tm_sched tm) s'" using s1 I(1) by (simp_all add: s'_def)
    have "queue_ok ?evs q (tm_ready_queue tm @ [e]) (tm_next_addr tm)"
      by (rule queue_ok_cong [OF same nonneg queue_ok_move [OF I(5) True]])
    moreover have "sleep_ok ?evs q (sleepers s')" unfolding s'(2)
      by (rule sleep_ok_cong [OF same, THEN iffD2, OF sleep_ok_tl_timeout [OF I(6) True]])
    moreover have "tree_ok ?evs (q @ tm_ready_queue tm @ [e]) (tm_tree tm) (tm_next_timeout_id tm)"
      by (rule tree_ok_cong [OF same _, THEN iffD2, OF _ I(7)]) auto
    moreover have "fire_event e tt (upd_event e (\<lambda>ev. ev\<lparr>ev_delta := d\<rparr>) tm) = Inr (?tm1\<lparr>tm_sched := s'\<rparr>, True)"
      using True s1(1) q by (simp add: fire_event_def s'_def) (simp_all add: upd_event_def enqueue_timeout_event_def)
    ultimately show ?thesis using True s' I(2-4) q
      by (intro exI [of _ s'] exI [of _ True]) (simp add: tinv_def fired_def, simp add: upd_event_def enqueue_timeout_event_def)
  qed
qed

text \<open>What \<open>n\<close> ticks do to the queue at the time \<open>b\<close>: the events due until \<open>b + n\<close> leave it in the order of their deadlines.\<close>

definition expired :: "int \<Rightarrow> int \<Rightarrow> timer \<Rightarrow> timer \<Rightarrow> bool" where
  "expired b n tm tm' \<longleftrightarrow>
     (let ds = due (tm_events tm) b (tm_queue tm) in
      due (tm_events tm') (b + n) (tm_queue tm') = dropWhile (\<lambda>d. fst d \<le> b + n) ds \<and>
      tm_ready_queue tm' = tm_ready_queue tm @
        filter (\<lambda>e. ev_timeout (tm_events tm e)) (map snd (takeWhile (\<lambda>d. fst d \<le> b + n) ds)) \<and>
      (\<forall>e. same_event (tm_events tm e) (tm_events tm' e)) \<and> advances (tm_sched tm) (tm_sched tm') \<and>
      (\<exists>s' q' r' evs'. tm' = tm\<lparr>tm_sched := s', tm_queue := q', tm_ready_queue := r', tm_events := evs'\<rparr>))"

lemma expired_fired:
  assumes q: "tm_queue tm = e # q" "e \<notin> set q" and d: "d = ev_delta (tm_events tm e) - n" "d \<le> 0"
    and s: "advances (tm_sched tm) s'" and rest: "expired (b + ev_delta (tm_events tm e)) (- d) (fired e d s' tm) tm'"
  shows "expired b n tm tm'"
proof -
  let ?b = "b + ev_delta (tm_events tm e)"
  have eq: "due (tm_events (fired e d s' tm)) c (tm_queue (fired e d s' tm)) = due (tm_events tm) c q" for c
    using q by (auto simp: fired_def intro!: due_cong)
  have end_time: "?b + - d = b + n" using d(1) by simp
  have same: "same_event (tm_events tm x) (tm_events (fired e d s' tm) x)" for x by (simp add: fired_def)
  have to: "ev_timeout (tm_events (fired e d s' tm) x) = ev_timeout (tm_events tm x)" for x
    by (rule same_eventD(1) [OF same])
  have "?b \<le> b + n" using d by simp
  then have tw: "takeWhile (\<lambda>d. fst d \<le> b + n) (due (tm_events tm) b (tm_queue tm)) =
      (?b, e) # takeWhile (\<lambda>d. fst d \<le> b + n) (due (tm_events tm) ?b q)"
    and dw: "dropWhile (\<lambda>d. fst d \<le> b + n) (due (tm_events tm) b (tm_queue tm)) =
      dropWhile (\<lambda>d. fst d \<le> b + n) (due (tm_events tm) ?b q)" by (simp_all add: q(1))
  note R = rest [unfolded expired_def Let_def eq end_time to]
  have "tm_ready_queue tm' = tm_ready_queue tm @
      filter (\<lambda>e. ev_timeout (tm_events tm e)) (map snd ((?b, e) # takeWhile (\<lambda>d. fst d \<le> b + n) (due (tm_events tm) ?b q)))"
    using R by (simp add: fired_def)
  moreover have "\<forall>x. same_event (tm_events tm x) (tm_events tm' x)" using R same same_event_trans by blast
  moreover have "advances (tm_sched tm) (tm_sched tm')" using R s advances_trans by (auto simp: fired_def)
  moreover obtain s1 q1 r1 evs1 where
    "tm' = (fired e d s' tm)\<lparr>tm_sched := s1, tm_queue := q1, tm_ready_queue := r1, tm_events := evs1\<rparr>" using R by blast
  then have "tm' = tm\<lparr>tm_sched := s1, tm_queue := q1, tm_ready_queue := r1, tm_events := evs1\<rparr>" by (simp add: fired_def)
  ultimately show ?thesis unfolding expired_def Let_def tw dw using R by blast
qed

lemma expire_loop_ok:
  assumes "tinv i tm"
  shows "\<exists>tm' r. expire_loop n resched tt tm = Inr (tm', r) \<and> tinv i tm' \<and> expired b n tm tm' \<and>
    (r \<longleftrightarrow> resched \<or> (\<exists>d \<in> set (due (tm_events tm) b (tm_queue tm)). fst d \<le> b + n))"
  using assms
proof (induction n resched tt tm arbitrary: b rule: expire_loop.induct)
  case (1 n resched tt tm)
  note inv = "1.prems"
  show ?case
  proof (cases "tm_queue tm")
    case Nil
    have "expired b n tm tm" unfolding expired_def Let_def
      by (intro conjI exI [of _ "tm_sched tm"] exI [of _ "tm_queue tm"] exI [of _ "tm_ready_queue tm"] exI [of _ "tm_events tm"])
        (simp_all add: Nil)
    then show ?thesis using inv by (auto simp: Nil)
  next
    case (Cons e q)
    let ?ev = "tm_events tm e"
    define d where "d = ev_delta ?ev - n"
    have en: "e \<notin> set q" using tinvD(5) [OF inv] by (simp add: queue_ok_def Cons)
    show ?thesis
    proof (cases "d \<le> 0")
      case True
      from fire_event_ok [OF inv Cons, of tt d] obtain s' tt' where
        f: "fire_event e tt (upd_event e (\<lambda>ev. ev\<lparr>ev_delta := d\<rparr>) tm) = Inr (fired e d s' tm, tt')"
          "tinv i (fired e d s' tm)" "advances (tm_sched tm) s'" by blast
      have "fst (fired e d s' tm, tt') = fired e d s' tm" by simp
      from "1.IH" [OF Cons refl refl] True f obtain tm' r where
        r: "expire_loop (- d) True tt' (fired e d s' tm) = Inr (tm', r)" "tinv i tm'"
          "expired (b + ev_delta ?ev) (- d) (fired e d s' tm) tm'" "r" by (fastforce simp: d_def)
      have "expire_loop n resched tt tm = Inr (tm', r)"
        using True Cons f(1) r(1) by (subst expire_loop.simps) (simp add: d_def Let_def)
      moreover have "expired b n tm tm'" by (rule expired_fired [OF Cons en d_def True f(3) r(3)])
      ultimately show ?thesis using r(2,4) True by (auto simp: Cons d_def)
    next
      case False
      let ?tm = "upd_event e (\<lambda>ev. ev\<lparr>ev_delta := d\<rparr>) tm"
      have same: "same_event (tm_events tm x) (tm_events ?tm x)" for x by (simp add: upd_event_def)
      note I = tinvD [OF inv]
      have dn: "0 \<le> ev_delta (tm_events ?tm x)" if "x \<in> set (tm_queue tm)" for x
        using I(5) that False by (auto simp: queue_ok_def upd_event_def)
      have "tinv i (tm\<lparr>tm_events := tm_events ?tm\<rparr>)" by (rule tinv_events [OF inv same dn])
      then have "tinv i ?tm" by (simp add: upd_event_def)
      moreover have "due (tm_events ?tm) (b + n) (tm_queue tm) = due (tm_events tm) b (tm_queue tm)"
        using en by (auto simp: Cons upd_event_def d_def intro!: due_cong)
      then have "expired b n tm ?tm" unfolding expired_def Let_def using False same
        by (intro conjI exI [of _ "tm_sched tm"] exI [of _ "tm_queue tm"] exI [of _ "tm_ready_queue tm"] exI [of _ "tm_events ?tm"])
          (simp_all add: upd_event_def Cons d_def)
      moreover have "expire_loop n resched tt tm = Inr (?tm, resched)"
        using False Cons by (subst expire_loop.simps) (simp add: d_def Let_def)
      moreover have "\<not> (\<exists>d \<in> set (due (tm_events tm) b (tm_queue tm)). fst d \<le> b + n)"
      proof -
        have "b + n < b + ev_delta ?ev" using False by (simp add: d_def)
        moreover have "\<forall>x \<in> set q. 0 \<le> ev_delta (tm_events tm x)" using I(5) by (simp add: queue_ok_def Cons)
        ultimately show ?thesis using due_ge [of _ _ "tm_events tm" "b + ev_delta ?ev" q] by (fastforce simp: Cons)
      qed
      ultimately show ?thesis by blast
    qed
  qed
qed

section \<open>Ticks\<close>

text \<open>The tick up to which the queue has been processed, and the absolute deadlines of the pending events.\<close>

definition now :: "timer \<Rightarrow> int" where
  "now tm = tm_ticks tm - tm_ticks_lost tm"

definition pend :: "timer \<Rightarrow> (int \<times> nat) list" where
  "pend tm = due (tm_events tm) (now tm) (tm_queue tm)"

lemma pend_sorted: "tinv i tm \<Longrightarrow> sorted (map fst (pend tm))"
  using tinvD(5) [of i tm] by (auto simp: pend_def queue_ok_def intro: due_sorted)

lemma sinv_ready_queued:
  assumes "sinv i s" "th_state (sc_threads s u) = THREAD_STATE_READY" "u \<noteq> i"
  shows "queued s u"
  using rq_ok_queued [OF sched_invD(1) [OF sinvD(1) [OF assms(1)]] assms(2)] assms(3) by simp

definition ticked :: "timer \<Rightarrow> timer \<Rightarrow> bool" where
  "ticked tm tm' \<longleftrightarrow> now tm' = now tm + tm_ticks_lost tm + 1 \<and>
     pend tm' = dropWhile (\<lambda>d. fst d \<le> now tm') (pend tm) \<and>
     tm_ready_queue tm' = tm_ready_queue tm @
       filter (\<lambda>e. ev_timeout (tm_events tm e)) (map snd (takeWhile (\<lambda>d. fst d \<le> now tm') (pend tm))) \<and>
     (\<forall>e. same_event (tm_events tm e) (tm_events tm' e)) \<and>
     (\<forall>u \<in> sleepers (tm_sched tm) - sleepers (tm_sched tm'). queued (tm_sched tm') u) \<and>
     waiting (tm_sched tm') = waiting (tm_sched tm)"

lemma timer_tick_ok:
  assumes inv: "tinv i tm"
  shows "\<exists>tm' r. timer_tick tm = Inr (tm', r) \<and> tinv i tm' \<and> ticked tm tm' \<and>
    ((\<exists>d \<in> set (pend tm). fst d \<le> now tm') \<longrightarrow> r)"
proof -
  note I = tinvD [OF inv]
  let ?tm = "tm\<lparr>tm_ticks := tm_ticks tm + 1, tm_ticks_lost := 0\<rparr>" and ?n = "tm_ticks_lost tm + 1"
  have "tinv i ?tm" using I by (simp add: tinv_def)
  from expire_loop_ok [OF this, of ?n False False "now tm"] obtain tm1 r1 where
    t1: "expire_loop ?n False False ?tm = Inr (tm1, r1)" "tinv i tm1" "expired (now tm) ?n ?tm tm1"
      "r1 \<longleftrightarrow> (\<exists>d \<in> set (pend tm). fst d \<le> now tm + ?n)" by (auto simp: pend_def)
  note E = t1(3) [unfolded expired_def Let_def]
  note I1 = tinvD [OF t1(2)]
  from sinv_timer [OF I1(1)] obtain s' r2 where
    s': "scheduler_timer (tm_sched tm1) = Inr (s', r2)" "sinv i s'" "\<forall>st. in_state st s' = in_state st (tm_sched tm1)"
      "\<forall>u. th_state (sc_threads s' u) = th_state (sc_threads (tm_sched tm1) u)" by blast
  let ?tm' = "tm1\<lparr>tm_sched := s'\<rparr>"
  have eq: "tm_ticks tm1 = tm_ticks tm + 1" "tm_ticks_lost tm1 = 0" using E by auto
  have nw: "now ?tm' = now tm + ?n" using eq by (simp add: now_def)
  have "timer_tick tm = Inr (?tm', r1 \<or> r2)"
    using t1(1) I(2) s'(1) by (simp add: timer_tick_def timer_schedule_event_def)
  moreover have "tinv i ?tm'" using I1 s'(2,3) by (simp add: tinv_def)
  moreover have "queued s' u" if u: "u \<in> sleepers (tm_sched tm) - sleepers s'" for u
  proof (rule sinv_ready_queued [OF s'(2)])
    have "advances (tm_sched tm) (tm_sched tm1)" using E by simp
    then have "th_state (sc_threads s' u) = th_state (sc_threads (tm_sched tm) u) \<or> th_state (sc_threads s' u) = THREAD_STATE_READY"
      using s'(4) by (simp add: advances_def)
    then show "th_state (sc_threads s' u) = THREAD_STATE_READY" using u by (auto simp: in_state_def)
    show "u \<noteq> i" using u sinv_idle_awake [OF I(1)] by auto
  qed
  then have "ticked tm ?tm'" unfolding ticked_def using E nw s'(3) by (simp add: pend_def advances_def)
  moreover have "r1 \<or> r2" if "\<exists>d \<in> set (pend tm). fst d \<le> now ?tm'" using that t1(4) nw by simp
  ultimately show ?thesis by blast
qed

section \<open>New events\<close>

definition with_event :: "(nat \<Rightarrow> event) \<Rightarrow> nat list \<Rightarrow> timer \<Rightarrow> timer" where
  "with_event evs q tm = tm\<lparr>tm_events := evs, tm_queue := q, tm_next_addr := tm_next_addr tm + 1\<rparr>"

lemma add_event_ok:
  assumes inv: "tinv i tm" and tick: "0 \<le> tick"
  shows "\<exists>evs q a b. add_new_event_nolock (tm_next_addr tm) tick (fst (new_event ev tm)) = with_event evs q tm \<and>
    due evs (now tm) q = due_insert (now tm + tick) (tm_next_addr tm) (pend tm) \<and>
    (\<forall>e. e < tm_next_addr tm \<longrightarrow> same_event (tm_events tm e) (evs e)) \<and> same_event ev (evs (tm_next_addr tm)) \<and>
    queue_ok evs q (tm_ready_queue tm) (tm_next_addr tm + 1) \<and> tm_queue tm = a @ b \<and> q = a @ tm_next_addr tm # b"
proof -
  let ?n = "tm_next_addr tm" and ?evs0 = "(tm_events tm)(tm_next_addr tm := ev)"
  note Q = tinvD(5) [OF inv]
  have fresh: "?n \<notin> set (tm_queue tm)" "?n \<notin> set (tm_ready_queue tm)" "distinct (tm_queue tm)" using Q by (auto simp: queue_ok_def)
  have lt: "e < ?n" if "e \<in> set (tm_queue tm) \<or> e \<in> set (tm_ready_queue tm)" for e using Q that by (auto simp: queue_ok_def)
  obtain evs1 q d where ins: "insert_event ?evs0 (tm_queue tm) ?n tick = (evs1, q, d)" by (rule prod_cases3)
  define evs where "evs = evs1(?n := (evs1 ?n)\<lparr>ev_delta := d\<rparr>)"
  from insert_event_set [OF ins] obtain a b where ab: "tm_queue tm = a @ b" "q = a @ ?n # b" by blast
  have same0: "same_event (?evs0 e) (evs e)" for e
    using insert_event_delta [OF ins, of e, THEN arg_cong, of "\<lambda>ev. ev\<lparr>ev_canceled := False\<rparr>"]
    by (cases "e = ?n") (simp_all add: evs_def same_event_def)
  have d0: "due ?evs0 (now tm) (tm_queue tm) = pend tm" using fresh(1) by (auto simp: pend_def intro!: due_cong)
  have "due evs (now tm) q = due_insert (now tm + tick) ?n (pend tm)"
    unfolding evs_def d0 [symmetric] by (rule insert_event_due [OF ins fresh(3,1)])
  moreover have "\<forall>e \<in> set (tm_queue tm). 0 \<le> ev_delta (?evs0 e)" using Q fresh(1) by (auto simp: queue_ok_def)
  note nn = insert_event_nonneg [OF ins tick this]
  have to: "ev_timeout (evs e)" if "e \<in> set (tm_ready_queue tm)" for e
    using same_eventD(1) [OF same0, of e] Q that fresh(2) by (auto simp: queue_ok_def split: if_splits)
  have "queue_ok evs q (tm_ready_queue tm) (?n + 1)"
    unfolding queue_ok_def using Q fresh nn to lt by (auto simp: ab queue_ok_def evs_def intro: less_SucI)
  moreover have "add_new_event_nolock ?n tick (fst (new_event ev tm)) = with_event evs q tm"
    by (simp add: add_new_event_nolock_def new_event_def Let_def ins evs_def with_event_def)
  ultimately show ?thesis using same0 ab by (metis fun_upd_same fun_upd_other less_irrefl)
qed

end
