(* ===== verification/Timer_Runs.thy ===== *)
theory Timer_Runs
  imports Timer
begin

text \<open>
  The timer and the thread operations over whole runs: every operation keeps the pending events
  and the timer invariant, the deadlines of sleeping threads survive whatever else happens, and
  the properties of sleeping, timeout calls and their cancellation follow.
\<close>

section \<open>Operations keep the pending events\<close>

definition keeps :: "timer \<Rightarrow> timer \<Rightarrow> bool" where
  "keeps tm tm' \<longleftrightarrow> now tm' = now tm \<and> set (pend tm) \<subseteq> set (pend tm') \<and>
     (\<forall>e \<in> set (tm_queue tm). ev_timeout (tm_events tm' e) = ev_timeout (tm_events tm e) \<and>
        ev_thread (tm_events tm' e) = ev_thread (tm_events tm e)) \<and>
     waiting (tm_sched tm') = waiting (tm_sched tm)"

text \<open>The thread \<open>t\<close> sleeps until the tick \<open>D\<close>.\<close>

definition wakes :: "timer \<Rightarrow> nat \<Rightarrow> int \<Rightarrow> bool" where
  "wakes tm t D \<longleftrightarrow> (\<exists>e. (D, e) \<in> set (pend tm) \<and> \<not> ev_timeout (tm_events tm e) \<and> ev_thread (tm_events tm e) = t)"

lemma pend_queue: "(D, e) \<in> set (pend tm) \<Longrightarrow> e \<in> set (tm_queue tm)"
  using due_snd [of "tm_events tm" "now tm" "tm_queue tm"] by (metis pend_def image_eqI list.set_map snd_conv)

lemma keeps_wakes: "keeps tm tm' \<Longrightarrow> wakes tm t D \<Longrightarrow> wakes tm' t D"
  unfolding keeps_def wakes_def using pend_queue by blast

lemma wakes_sleeps: "tinv i tm \<Longrightarrow> wakes tm t D \<Longrightarrow> t \<in> sleepers (tm_sched tm)"
  using tinvD(6) [of i tm] pend_queue by (fastforce simp: sleep_ok_def sleep_events_def wakes_def)

lemma keeps_same:
  assumes "tm_ticks tm' = tm_ticks tm" "tm_ticks_lost tm' = tm_ticks_lost tm" "tm_queue tm' = tm_queue tm" "tm_events tm' = tm_events tm"
    "waiting (tm_sched tm') = waiting (tm_sched tm)"
  shows "keeps tm tm'"
  using assms by (simp add: keeps_def now_def pend_def)

lemma keeps_trans:
  assumes a: "keeps a b" and b: "keeps b c" and q: "set (tm_queue a) \<subseteq> set (tm_queue b)"
  shows "keeps a c"
  using assms unfolding keeps_def by (metis subset_iff)

lemma sinv_goes: "sinv i s \<Longrightarrow> goes_to THREAD_STATE_SLEEPING i s = {} \<and> goes_to THREAD_STATE_WAITING i s = {}"
  using sinvD(4,5) [of i s "sc_current s"] sched_invD(5) [of i s] sinvD(1) [of i s] by (auto simp: goes_to_def in_state_def)

lemma tinv_sched:
  assumes "tinv i tm" "sinv i s'" "sleepers s' = sleepers (tm_sched tm)" "waiting s' = waiting (tm_sched tm)"
  shows "tinv i (tm\<lparr>tm_sched := s'\<rparr>) \<and> keeps tm (tm\<lparr>tm_sched := s'\<rparr>)"
  using assms keeps_same [of "tm\<lparr>tm_sched := s'\<rparr>" tm] by (simp add: tinv_def)

lemma yield_ok:
  assumes "sched_inv i (tm_sched tm)" "\<not> sc_lock (tm_sched tm)" "\<And>u. u \<noteq> i \<Longrightarrow> 0 \<le> th_s_prio (sc_threads (tm_sched tm) u)"
    "\<And>u. th_next_state (sc_threads (tm_sched tm) u) = THREAD_STATE_SLEEPING \<Longrightarrow> u \<noteq> sc_current (tm_sched tm) \<Longrightarrow> u \<in> sleepers (tm_sched tm)"
    "\<And>u. u \<noteq> sc_current (tm_sched tm) \<Longrightarrow> th_next_state (sc_threads (tm_sched tm) u) \<noteq> THREAD_STATE_WAITING"
  shows "\<exists>s'. thread_yield tm = Inr (tm\<lparr>tm_sched := s'\<rparr>) \<and> sinv i s' \<and>
    (\<forall>st. parked st \<longrightarrow> in_state st s' = in_state st (tm_sched tm) \<union> goes_to st i (tm_sched tm))"
proof -
  from sinv_resched [OF assms(1,3,4,5)] obtain s' where
    "sched_reschedule ((tm_sched tm)\<lparr>sc_lock := True\<rparr>) = Inr s'" "sinv i s'"
    "\<forall>st. parked st \<longrightarrow> in_state st s' = in_state st (tm_sched tm) \<union> goes_to st i (tm_sched tm)" by blast
  then show ?thesis using assms(2) by (intro exI [of _ s']) (simp add: thread_yield_def sched_lock_acquire_def with_sched_def)
qed

lemma yield_tinv:
  assumes inv: "tinv i tm" and s: "sinv i s" "sleepers s = sleepers (tm_sched tm)" "waiting s = waiting (tm_sched tm)"
  shows "\<exists>tm'. thread_yield (tm\<lparr>tm_sched := s\<rparr>) = Inr tm' \<and> tinv i tm' \<and> keeps tm tm'"
proof -
  note S = sinvD [OF s(1)]
  have "\<exists>s'. thread_yield (tm\<lparr>tm_sched := s\<rparr>) = Inr (tm\<lparr>tm_sched := s'\<rparr>) \<and> sinv i s' \<and>
    (\<forall>st. parked st \<longrightarrow> in_state st s' = in_state st s \<union> goes_to st i s)"
    using yield_ok [of i "tm\<lparr>tm_sched := s\<rparr>"] S by simp
  then obtain s' where s': "thread_yield (tm\<lparr>tm_sched := s\<rparr>) = Inr (tm\<lparr>tm_sched := s'\<rparr>)" "sinv i s'"
    "\<forall>st. parked st \<longrightarrow> in_state st s' = in_state st s \<union> goes_to st i s" by blast
  then have "sleepers s' = sleepers (tm_sched tm)" "waiting s' = waiting (tm_sched tm)" using sinv_goes [OF s(1)] s(2,3) by auto
  then show ?thesis using tinv_sched [OF inv s'(2)] s'(1) by simp
qed

lemma set_next_tinv:
  assumes inv: "tinv i tm" and t: "t \<noteq> i"
  shows "\<exists>s. set_next_state t THREAD_STATE_SUSPENDED tm = tm\<lparr>tm_sched := s\<rparr> \<and> sinv i s \<and> sleepers s = sleepers (tm_sched tm) \<and>
    waiting s = waiting (tm_sched tm)"
  using sinv_set_next [OF tinvD(1) [OF inv] t, of THREAD_STATE_SUSPENDED] by (auto simp: set_next_state_def)

lemma suspend_current_tinv:
  assumes inv: "tinv i tm" and cur: "sc_current (tm_sched tm) \<noteq> i"
  shows "\<exists>tm' st. thread_suspend_current tm = Inr (tm', st) \<and> tinv i tm' \<and> keeps tm tm'"
proof -
  from set_next_tinv [OF inv cur] obtain s where
    s: "set_next_state (sc_current (tm_sched tm)) THREAD_STATE_SUSPENDED tm = tm\<lparr>tm_sched := s\<rparr>" "sinv i s" "sleepers s = sleepers (tm_sched tm)"
      "waiting s = waiting (tm_sched tm)"
    by blast
  from yield_tinv [OF inv s(2,3,4)] show ?thesis
    using inv keeps_same [of tm tm] by (auto simp: thread_suspend_current_def Let_def s(1))
qed

lemma find_thread:
  assumes "thread_get_thread_struct tid tm = Some t"
  shows "tm_thread_id tm t = tid"
  using assms by (auto simp: thread_get_thread_struct_def find_Some_iff)

lemma suspend_tinv:
  assumes inv: "tinv i tm" and tid: "tm_thread_id tm i \<noteq> tid"
  shows "\<exists>tm' st. thread_suspend tid tm = Inr (tm', st) \<and> tinv i tm' \<and> keeps tm tm'"
proof (cases "thread_get_thread_struct tid tm")
  case None
  then show ?thesis using inv keeps_same [of tm tm] by (simp add: thread_suspend_def)
next
  case (Some t)
  have "t \<noteq> i" using find_thread [OF Some] tid by auto
  from set_next_tinv [OF inv this] obtain s where
    s: "set_next_state t THREAD_STATE_SUSPENDED tm = tm\<lparr>tm_sched := s\<rparr>" "sinv i s" "sleepers s = sleepers (tm_sched tm)"
      "waiting s = waiting (tm_sched tm)" by blast
  from yield_tinv [OF inv s(2,3,4)] tinv_sched [OF inv s(2,3,4)] show ?thesis
    using inv keeps_same [of tm tm] by (auto simp: thread_suspend_def Some Let_def s(1))
qed

lemma resume_tinv:
  assumes inv: "tinv i tm"
  shows "\<exists>tm' st. thread_resume tid tm = Inr (tm', st) \<and> tinv i tm' \<and> keeps tm tm'"
proof (cases "\<exists>t. thread_get_thread_struct tid tm = Some t \<and> th_state (sc_threads (tm_sched tm) t) = THREAD_STATE_SUSPENDED")
  case True
  then obtain t where t: "thread_get_thread_struct tid tm = Some t" "th_state (sc_threads (tm_sched tm) t) = THREAD_STATE_SUSPENDED" by blast
  from sinv_add [OF tinvD(1) [OF inv], of t] t(2) obtain s' where
    s': "sched_add_thread t (tm_sched tm) = Inr s'" "sinv i s'" "\<forall>st. parked st \<longrightarrow> in_state st s' = in_state st (tm_sched tm) - {t}" by auto
  have "sleepers s' = sleepers (tm_sched tm)" "waiting s' = waiting (tm_sched tm)" using s'(3) t(2) by (auto simp: in_state_def)
  from tinv_sched [OF inv s'(2) this] show ?thesis using t s'(1) by (simp add: thread_resume_def with_sched_def)
next
  case False
  then show ?thesis using inv keeps_same [of tm tm] by (auto simp: thread_resume_def split: option.splits)
qed

section \<open>Sleeping\<close>

lemma msec_to_ticks:
  "uint (TIMER_MSEC_TO_TICKS msec) = uint (msec * 250) div 1000" "sint (TIMER_MSEC_TO_TICKS msec) = uint (TIMER_MSEC_TO_TICKS msec)"
proof -
  show u: "uint (TIMER_MSEC_TO_TICKS msec) = uint (msec * 250) div 1000" by (simp add: TIMER_MSEC_TO_TICKS_def uint_div)
  have "uint (msec * 250) < 2 ^ 32" using uint_lt2p [of "msec * 250"] by simp
  then have "uint (TIMER_MSEC_TO_TICKS msec) < 2 ^ 31" unfolding u by simp
  moreover have "- (2 ^ 31) \<le> uint (TIMER_MSEC_TO_TICKS msec)" by (rule order_trans [OF _ uint_ge_0]) simp
  ultimately show "sint (TIMER_MSEC_TO_TICKS msec) = uint (TIMER_MSEC_TO_TICKS msec)"
    by (simp add: sint_uint signed_take_bit_int_eq_self)
qed

lemma sleep_ok_insert:
  assumes ok: "sleep_ok evs q S" and q: "q = a @ b" and n: "\<not> ev_timeout (evs' n)" "ev_thread (evs' n) = t" "t \<notin> S"
    and same: "\<And>e. e \<in> set q \<Longrightarrow> same_event (evs e) (evs' e)"
  shows "sleep_ok evs' (a @ n # b) (insert t S)"
proof -
  have "sleep_ok evs' q S" by (rule sleep_ok_cong [THEN iffD2, OF _ ok]) (rule same)
  then show ?thesis using n q by (auto simp: sleep_ok_def sleep_events_def)
qed

lemma tree_ok_insert:
  assumes ok: "tree_ok evs (a @ b @ r) tree nid" and n: "\<not> ev_timeout (evs' n)"
    and same: "\<And>e. e \<in> set (a @ b @ r) \<Longrightarrow> same_event (evs e) (evs' e)"
  shows "tree_ok evs' ((a @ n # b) @ r) tree nid"
proof -
  have "tree_ok evs' (a @ b @ r) tree nid" by (rule tree_ok_cong [OF _ refl, THEN iffD2, OF _ ok]) (rule same)
  then show ?thesis using n by (auto simp: tree_ok_def)
qed

lemma upd_thread_eq: "f (sc_threads s t) = g (sc_threads s t) \<Longrightarrow> upd_thread t f s = upd_thread t g s"
  by (simp add: upd_thread_def)

lemma add_event_sched:
  "add_new_event_nolock e tick (fst (new_event ev (tm\<lparr>tm_sched := s\<rparr>))) = (add_new_event_nolock e tick (fst (new_event ev tm)))\<lparr>tm_sched := s\<rparr>"
  by (simp add: add_new_event_nolock_def new_event_def Let_def split: prod.splits)

definition to_bed :: "bool \<Rightarrow> thread \<Rightarrow> thread" where
  "to_bed ready th = th\<lparr>th_next_state := THREAD_STATE_SLEEPING, th_state := if ready then THREAD_STATE_SLEEPING else th_state th\<rparr>"

lemma to_bed_simps:
  "upd_thread t (to_bed False) s = upd_thread t (\<lambda>th. th\<lparr>th_next_state := THREAD_STATE_SLEEPING\<rparr>) s"
  "upd_thread t (to_bed True) s = upd_thread t (\<lambda>th. th\<lparr>th_state := THREAD_STATE_SLEEPING, th_next_state := THREAD_STATE_SLEEPING\<rparr>) s"
  by (rule upd_thread_eq, simp add: to_bed_def)+

definition slept :: "nat \<Rightarrow> int \<Rightarrow> timer \<Rightarrow> timer \<Rightarrow> bool" where
  "slept t n tm tm' \<longleftrightarrow> wakes tm' t (now tm + n) \<and> pend tm' = due_insert (now tm + n) (tm_next_addr tm) (pend tm)"

lemma lull_ok:
  assumes inv: "tinv i tm" and st: "ready_or_running (th_state (sc_threads (tm_sched tm) t))"
    "ready_or_running (th_next_state (sc_threads (tm_sched tm) t))" and n: "0 \<le> sint ticks"
  shows "\<exists>evs q. (\<forall>s. sc_threads s t = sc_threads (tm_sched tm) t \<longrightarrow> timer_lull_thread t ticks (tm\<lparr>tm_sched := s\<rparr>) =
      Inr ((with_event evs q tm)\<lparr>tm_sched := upd_thread t (to_bed (th_state (sc_threads (tm_sched tm) t) = THREAD_STATE_READY)) s\<rparr>)) \<and>
    (\<forall>s'. sinv i s' \<longrightarrow> sleepers s' = insert t (sleepers (tm_sched tm)) \<longrightarrow> waiting s' = waiting (tm_sched tm) \<longrightarrow>
       tinv i ((with_event evs q tm)\<lparr>tm_sched := s'\<rparr>) \<and> keeps tm ((with_event evs q tm)\<lparr>tm_sched := s'\<rparr>) \<and>
       slept t (sint ticks) tm ((with_event evs q tm)\<lparr>tm_sched := s'\<rparr>))"
proof -
  let ?n = "tm_next_addr tm"
  let ?ev = "\<lparr>ev_delta = 0, ev_timeout = False, ev_id = 0, ev_run_lock = False, ev_canceled = False, ev_routine = 0, ev_data = 0, ev_thread = t\<rparr>"
  note I = tinvD [OF inv]
  from add_event_ok [OF inv n, of ?ev] obtain evs q a b where
    add: "add_new_event_nolock ?n (sint ticks) (fst (new_event ?ev tm)) = with_event evs q tm"
      "due evs (now tm) q = due_insert (now tm + sint ticks) ?n (pend tm)"
      "\<And>e. e < ?n \<Longrightarrow> same_event (tm_events tm e) (evs e)" "same_event ?ev (evs ?n)"
      "queue_ok evs q (tm_ready_queue tm) (?n + 1)" "tm_queue tm = a @ b" "q = a @ ?n # b" by blast
  have same: "same_event (tm_events tm e) (evs e)" if "e \<in> set (tm_queue tm @ tm_ready_queue tm)" for e
    using I(5) that by (intro add(3)) (auto simp: queue_ok_def)
  have new: "\<not> ev_timeout (evs ?n)" "ev_thread (evs ?n) = t" using same_eventD(1,2) [OF add(4)] by simp_all
  have awake: "t \<notin> sleepers (tm_sched tm)" using st(1) by (auto simp: in_state_def ready_or_running_def)
  have tree: "tree_ok evs (q @ tm_ready_queue tm) (tm_tree tm) (tm_next_timeout_id tm)"
    unfolding add(7) by (rule tree_ok_insert [where n = "tm_next_addr tm"]) (use I(7) same new(1) in \<open>auto simp: add(6)\<close>)
  have "sleep_ok evs q (insert t (sleepers (tm_sched tm)))"
    unfolding add(7) by (rule sleep_ok_insert [OF I(6) add(6)]) (use new awake same in auto)
  then have "tinv i ((with_event evs q tm)\<lparr>tm_sched := s'\<rparr>)" if "sinv i s'" "sleepers s' = insert t (sleepers (tm_sched tm))" for s'
    using that I(2-4) add(5) tree by (simp add: tinv_def with_event_def)
  moreover have p: "pend ((with_event evs q tm)\<lparr>tm_sched := s'\<rparr>) = due_insert (now tm + sint ticks) ?n (pend tm)" for s'
    using add(2) by (simp add: pend_def with_event_def now_def)
  have "keeps tm ((with_event evs q tm)\<lparr>tm_sched := s'\<rparr>)" if "waiting s' = waiting (tm_sched tm)" for s'
    unfolding keeps_def p set_due_insert using same_eventD(1,2) [OF same] that by (auto simp: with_event_def now_def)
  moreover have "slept t (sint ticks) tm ((with_event evs q tm)\<lparr>tm_sched := s'\<rparr>)" for s'
    using p new by (auto simp: slept_def wakes_def set_due_insert) (auto simp: with_event_def)
  moreover have "timer_lull_thread t ticks (tm\<lparr>tm_sched := s\<rparr>) =
      Inr ((with_event evs q tm)\<lparr>tm_sched := upd_thread t (to_bed (th_state (sc_threads (tm_sched tm) t) = THREAD_STATE_READY)) s\<rparr>)"
    if "sc_threads s t = sc_threads (tm_sched tm) t" for s
  proof -
    let ?f = "\<lambda>th. th\<lparr>th_next_state := THREAD_STATE_SLEEPING,
        th_state := if th_state th = THREAD_STATE_READY then THREAD_STATE_SLEEPING else th_state th\<rparr>"
    have eq: "upd_thread t ?f s = upd_thread t (to_bed (th_state (sc_threads (tm_sched tm) t) = THREAD_STATE_READY)) s"
      by (rule upd_thread_eq) (simp add: that to_bed_def)
    have "timer_lull_thread t ticks (tm\<lparr>tm_sched := s\<rparr>) =
        Inr (add_new_event_nolock ?n (sint ticks) (fst (new_event ?ev (tm\<lparr>tm_sched := upd_thread t ?f s\<rparr>))))"
      using st that by (simp add: timer_lull_thread_def Let_def new_event_def)
    then show ?thesis unfolding eq add_event_sched add(1) by (simp add: with_event_def)
  qed
  ultimately show ?thesis by blast
qed


text \<open>The current thread goes to sleep.\<close>

lemma thread_sleep_ok:
  assumes inv: "tinv i tm" and cur: "sc_current (tm_sched tm) \<noteq> i" and m: "msec \<noteq> 0"
    and nxt: "ready_or_running (th_next_state (sc_threads (tm_sched tm) (sc_current (tm_sched tm))))"
  shows "\<exists>tm'. thread_sleep msec tm = Inr tm' \<and> tinv i tm' \<and> keeps tm tm' \<and>
    slept (sc_current (tm_sched tm)) (uint (TIMER_MSEC_TO_TICKS msec)) tm tm'"
proof -
  let ?s = "tm_sched tm" and ?t = "sc_current (tm_sched tm)" and ?ticks = "TIMER_MSEC_TO_TICKS msec"
  note I = tinvD [OF inv]
  note S = sinvD [OF I(1)]
  have run: "th_state (sc_threads ?s ?t) = THREAD_STATE_RUNNING" using sched_invD(5) [OF S(1)] .
  then have "ready_or_running (th_state (sc_threads ?s ?t))" by (simp add: ready_or_running_def)
  moreover have "0 \<le> sint ?ticks" by (simp add: msec_to_ticks(2))
  ultimately obtain evs q where
    lull: "\<forall>s. sc_threads s ?t = sc_threads ?s ?t \<longrightarrow> timer_lull_thread ?t ?ticks (tm\<lparr>tm_sched := s\<rparr>) =
      Inr ((with_event evs q tm)\<lparr>tm_sched := upd_thread ?t (to_bed (th_state (sc_threads ?s ?t) = THREAD_STATE_READY)) s\<rparr>)"
    and fin: "\<forall>s'. sinv i s' \<longrightarrow> sleepers s' = insert ?t (sleepers ?s) \<longrightarrow> waiting s' = waiting ?s \<longrightarrow>
       tinv i ((with_event evs q tm)\<lparr>tm_sched := s'\<rparr>) \<and> keeps tm ((with_event evs q tm)\<lparr>tm_sched := s'\<rparr>) \<and>
       slept ?t (sint ?ticks) tm ((with_event evs q tm)\<lparr>tm_sched := s'\<rparr>)"
    using lull_ok [OF inv _ nxt] by blast
  let ?s1 = "upd_thread ?t (\<lambda>th. th\<lparr>th_next_state := THREAD_STATE_SLEEPING\<rparr>) ?s"
  have l1: "timer_lull_thread ?t ?ticks tm = Inr ((with_event evs q tm)\<lparr>tm_sched := ?s1\<rparr>)"
    using lull [THEN spec, of ?s] run by (simp add: to_bed_simps(1))
  have "sched_inv i ?s1" using S(1) cur by (rule upd_inv) (use sched_invD(3) [OF S(1)] in \<open>simp_all add: thread_ok_def\<close>)
  moreover have sl: "in_state st ?s1 = in_state st ?s" for st by (rule in_state_cong) simp
  moreover have g: "goes_to THREAD_STATE_SLEEPING i ?s1 = {?t}" "goes_to THREAD_STATE_WAITING i ?s1 = {}" using cur by (simp_all add: goes_to_def)
  moreover have "0 \<le> th_s_prio (sc_threads ?s1 u)" if "u \<noteq> i" for u using S(3) [OF that] cur S(3) by (simp add: fun_upd_def)
  moreover have "u \<in> sleepers ?s1" if "th_next_state (sc_threads ?s1 u) = THREAD_STATE_SLEEPING" "u \<noteq> ?t" for u
    using that S(4) [of u] by (simp add: sl)
  moreover have "th_next_state (sc_threads ?s1 u) \<noteq> THREAD_STATE_WAITING" if "u \<noteq> ?t" for u using S(5) [of u] that by simp
  ultimately have "\<exists>s'. thread_yield ((with_event evs q tm)\<lparr>tm_sched := ?s1\<rparr>) = Inr ((with_event evs q tm)\<lparr>tm_sched := s'\<rparr>) \<and>
      sinv i s' \<and> (\<forall>st. parked st \<longrightarrow> in_state st s' = in_state st ?s1 \<union> goes_to st i ?s1)"
    using yield_ok [of i "(with_event evs q tm)\<lparr>tm_sched := ?s1\<rparr>"] S(2) by simp
  then obtain s' where s': "thread_yield ((with_event evs q tm)\<lparr>tm_sched := ?s1\<rparr>) = Inr ((with_event evs q tm)\<lparr>tm_sched := s'\<rparr>)"
      "sinv i s'" "sleepers s' = insert ?t (sleepers ?s)" "waiting s' = waiting ?s"
    unfolding sl using g by auto
  have "thread_sleep msec tm = Inr ((with_event evs q tm)\<lparr>tm_sched := s'\<rparr>)" using m nxt l1 s'(1) by (simp add: thread_sleep_def)
  then show ?thesis using fin s'(2-4) by (auto simp: msec_to_ticks(2))
qed

lemma thread_sleep_tinv:
  assumes inv: "tinv i tm" and cur: "sc_current (tm_sched tm) \<noteq> i"
  shows "\<exists>tm'. thread_sleep msec tm = Inr tm' \<and> tinv i tm' \<and> keeps tm tm'"
proof (cases "msec \<noteq> 0 \<and> ready_or_running (th_next_state (sc_threads (tm_sched tm) (sc_current (tm_sched tm))))")
  case True
  then show ?thesis using thread_sleep_ok [OF inv cur] by blast
next
  case False
  then have "thread_sleep msec tm = thread_yield (tm\<lparr>tm_sched := tm_sched tm\<rparr>)" by (auto simp: thread_sleep_def)
  then show ?thesis using yield_tinv [OF inv tinvD(1) [OF inv] refl refl] by simp
qed

lemma sleep_id_tinv:
  assumes inv: "tinv i tm" and tid: "tm_thread_id tm i \<noteq> tid"
  shows "\<exists>tm' st. thread_sleep_id tid msec tm = Inr (tm', st) \<and> tinv i tm' \<and> keeps tm tm'"
proof (cases "tm_thread_id tm (sc_current (tm_sched tm)) = tid")
  case True
  then have "sc_current (tm_sched tm) \<noteq> i" using tid by auto
  from thread_sleep_tinv [OF inv this, of msec] True show ?thesis by (auto simp: thread_sleep_id_def)
next
  case False
  let ?s = "tm_sched tm" and ?ticks = "TIMER_MSEC_TO_TICKS msec"
  show ?thesis
  proof (cases "\<exists>t. thread_get_thread_struct tid tm = Some t \<and> ready_or_running (th_state (sc_threads ?s t)) \<and>
      ready_or_running (th_next_state (sc_threads ?s t))")
    case True
    then obtain t where t: "thread_get_thread_struct tid tm = Some t" "ready_or_running (th_state (sc_threads ?s t))"
      "ready_or_running (th_next_state (sc_threads ?s t))" by blast
    note S = sinvD [OF tinvD(1) [OF inv]]
    have ti: "t \<noteq> i" "t \<noteq> sc_current ?s" using find_thread [OF t(1)] tid False by auto
    then have rdy: "th_state (sc_threads ?s t) = THREAD_STATE_READY"
      using t(2) sched_inv_running [OF S(1), of t] by (auto simp: ready_or_running_def)
    let ?f = "\<lambda>th. th\<lparr>th_state := THREAD_STATE_SLEEPING, th_next_state := THREAD_STATE_SLEEPING\<rparr>"
    from sinv_park [OF tinvD(1) [OF inv] ti(1) rdy] obtain s1 where
      s1: "sched_remove_thread t ?s = Inr s1" "sc_threads s1 = sc_threads ?s" "sinv i (upd_thread t ?f s1)"
        "sleepers (upd_thread t ?f s1) = insert t (sleepers ?s)" "waiting (upd_thread t ?f s1) = waiting ?s" by blast
    have "0 \<le> sint ?ticks" by (simp add: msec_to_ticks(2))
    from lull_ok [OF inv t(2,3) this] s1(2-5) obtain evs q where
      l: "timer_lull_thread t ?ticks (tm\<lparr>tm_sched := s1\<rparr>) = Inr ((with_event evs q tm)\<lparr>tm_sched := upd_thread t ?f s1\<rparr>)"
        "tinv i ((with_event evs q tm)\<lparr>tm_sched := upd_thread t ?f s1\<rparr>)" "keeps tm ((with_event evs q tm)\<lparr>tm_sched := upd_thread t ?f s1\<rparr>)"
      unfolding rdy to_bed_simps simp_thms by metis
    then show ?thesis using False t rdy s1(1) by (simp add: thread_sleep_id_def with_sched_def)
  next
    case f: False
    then show ?thesis using False inv keeps_same [of tm tm] by (auto simp: thread_sleep_id_def Let_def split: option.splits)
  qed
qed

section \<open>Timeout calls\<close>

lemma succ_word_gt: "nid + 1 \<noteq> 0 \<Longrightarrow> nid < (nid :: uint) + 1"
  using unatSuc [of nid] by (simp add: word_less_nat_alt add.commute)

lemma tree_ok_next: "tree_ok evs qr tree nid \<Longrightarrow> nid \<noteq> 0 \<Longrightarrow> tree_ok evs qr tree (nid + 1)"
  using succ_word_gt [of nid] by (auto simp: tree_ok_def intro: less_trans)

lemma tree_ok_push:
  assumes ok: "tree_ok evs (a @ b @ r) tree nid" and nid: "nid \<noteq> 0" and n: "ev_timeout (evs' n)" "ev_id (evs' n) = nid" "\<not> ev_run_lock (evs' n)"
    "n \<notin> set (a @ b @ r)" and same: "\<And>e. e \<in> set (a @ b @ r) \<Longrightarrow> same_event (evs e) (evs' e)"
  shows "tree_ok evs' ((a @ n # b) @ r) (n # tree) (nid + 1)" "List.find (\<lambda>e. ev_id (evs' e) = nid) tree = None"
proof -
  have ok': "tree_ok evs' (a @ b @ r) tree nid" by (rule tree_ok_cong [OF _ refl, THEN iffD2, OF _ ok]) (rule same)
  then have lt: "\<forall>e \<in> set tree. ev_id (evs' e) < nid" and st: "set tree = {e \<in> set (a @ b @ r). ev_timeout (evs' e)}"
    using nid by (simp_all add: tree_ok_def)
  then show "List.find (\<lambda>e. ev_id (evs' e) = nid) tree = None" by (auto simp: find_None_iff)
  show "tree_ok evs' ((a @ n # b) @ r) (n # tree) (nid + 1)"
    using tree_ok_next [OF ok' nid] n lt st succ_word_gt [of nid] by (auto simp: tree_ok_def inj_on_def)
qed

lemma timeout_sched_tinv:
  assumes inv: "tinv i tm" and nid: "tm_next_timeout_id tm \<noteq> 0" and n: "0 \<le> sint ticks"
  shows "\<exists>tm' tid. timer_timeout_sched routine data ticks tm = Inr (tm', tid) \<and> tinv i tm' \<and> keeps tm tm' \<and>
    pend tm' = due_insert (now tm + sint ticks) (tm_next_addr tm) (pend tm) \<and> tm_tree tm' = tm_next_addr tm # tm_tree tm"
proof -
  let ?n = "tm_next_addr tm" and ?nid = "tm_next_timeout_id tm"
  let ?ev = "\<lparr>ev_delta = 0, ev_timeout = True, ev_id = ?nid, ev_run_lock = False, ev_canceled = False,
    ev_routine = routine, ev_data = data, ev_thread = 0\<rparr>"
  note I = tinvD [OF inv]
  from add_event_ok [OF inv n, of ?ev] obtain evs q a b where
    add: "add_new_event_nolock ?n (sint ticks) (fst (new_event ?ev tm)) = with_event evs q tm"
      "due evs (now tm) q = due_insert (now tm + sint ticks) ?n (pend tm)"
      "\<And>e. e < ?n \<Longrightarrow> same_event (tm_events tm e) (evs e)" "same_event ?ev (evs ?n)"
      "queue_ok evs q (tm_ready_queue tm) (?n + 1)" "tm_queue tm = a @ b" "q = a @ ?n # b" by blast
  have lt: "e < ?n" if "e \<in> set (tm_queue tm @ tm_ready_queue tm)" for e using I(5) that by (auto simp: queue_ok_def)
  have same: "same_event (tm_events tm e) (evs e)" if "e \<in> set (tm_queue tm @ tm_ready_queue tm)" for e
    by (rule add(3) [OF lt [OF that]])
  have new: "ev_timeout (evs ?n)" "ev_id (evs ?n) = ?nid" "\<not> ev_run_lock (evs ?n)" using same_eventD(1,3,4) [OF add(4)] by simp_all
  have ok: "tree_ok (tm_events tm) (a @ b @ tm_ready_queue tm) (tm_tree tm) ?nid" using I(7) by (simp add: add(6))
  have "?n \<notin> set (a @ b @ tm_ready_queue tm)" using lt [of ?n] by (auto simp: add(6))
  moreover have "same_event (tm_events tm e) (evs e)" if "e \<in> set (a @ b @ tm_ready_queue tm)" for e using that same by (auto simp: add(6))
  ultimately have tree: "tree_ok evs (q @ tm_ready_queue tm) (?n # tm_tree tm) (?nid + 1)"
    "List.find (\<lambda>e. ev_id (evs e) = ?nid) (tm_tree tm) = None"
    using tree_ok_push [OF ok nid] new unfolding add(7) by blast+
  define tm' where "tm' = (with_event evs q tm)\<lparr>tm_next_timeout_id := ?nid + 1, tm_tree := ?n # tm_tree tm\<rparr>"
  have "sleep_ok evs (a @ b) (sleepers (tm_sched tm))"
    by (rule sleep_ok_cong [THEN iffD2, OF _ I(6) [unfolded add(6)]]) (use same in \<open>auto simp: add(6)\<close>)
  then have "sleep_ok evs q (sleepers (tm_sched tm))" using new(1) by (simp add: add(7) sleep_ok_def sleep_events_def)
  then have "tinv i tm'" using I(1-4) add(5) tree(1) by (simp add: tinv_def tm'_def with_event_def)
  moreover have p: "pend tm' = due_insert (now tm + sint ticks) ?n (pend tm)"
    using add(2) by (simp add: pend_def tm'_def with_event_def now_def)
  moreover have "keeps tm tm'"
    unfolding keeps_def p set_due_insert using same_eventD(1,2) [OF same] by (auto simp: with_event_def now_def tm'_def)
  moreover have "add_new_event_nolock ?n (sint ticks) (fst (new_event ?ev (tm\<lparr>tm_next_timeout_id := ?nid + 1\<rparr>))) =
      (add_new_event_nolock ?n (sint ticks) (fst (new_event ?ev tm)))\<lparr>tm_next_timeout_id := ?nid + 1\<rparr>"
    by (simp add: add_new_event_nolock_def new_event_def Let_def split: prod.splits)
  then have "timer_timeout_sched routine data ticks tm = Inr (tm', ?nid)"
    using nid tree(2) unfolding add(1)
    by (simp add: timer_timeout_sched_def get_next_timeout_id_def INVALID_TIMEOUTID_def Let_def new_event_def find_timeout_def tm'_def)
      (simp add: with_event_def)
  moreover have "tm_tree tm' = ?n # tm_tree tm" by (simp add: tm'_def)
  ultimately show ?thesis by blast
qed

lemma cancel_tinv:
  assumes inv: "tinv i tm"
  shows "tinv i (timer_timeout_cancel tid tm)" "keeps tm (timer_timeout_cancel tid tm)"
proof -
  have "tinv i (upd_event e (\<lambda>ev. ev\<lparr>ev_canceled := True\<rparr>) tm)" for e
    unfolding upd_event_def
  proof (rule tinv_events [OF inv])
    let ?evs = "(tm_events tm)(e := (tm_events tm e)\<lparr>ev_canceled := True\<rparr>)"
    show "same_event (tm_events tm x) (?evs x)" for x by simp
    show "0 \<le> ev_delta (?evs x)" if "x \<in> set (tm_queue tm)" for x using that tinvD(5) [OF inv] by (cases "x = e") (simp_all add: queue_ok_def)
  qed
  moreover have "keeps tm (upd_event e (\<lambda>ev. ev\<lparr>ev_canceled := True\<rparr>) tm)" for e
  proof -
    have "due ((tm_events tm)(e := (tm_events tm e)\<lparr>ev_canceled := True\<rparr>)) b q = due (tm_events tm) b q" for b q
      by (rule due_cong) simp
    then show ?thesis by (simp add: keeps_def upd_event_def now_def pend_def)
  qed
  ultimately show "tinv i (timer_timeout_cancel tid tm)" "keeps tm (timer_timeout_cancel tid tm)"
    using inv keeps_same [of tm tm] by (auto simp: timer_timeout_cancel_def split: option.splits)
qed

lemma tree_ok_pop:
  assumes "tree_ok evs (q @ e # r) tree nid" "distinct (q @ e # r)"
  shows "tree_ok evs (q @ r) (remove1 e tree) nid"
proof -
  note T = assms(1) [unfolded tree_ok_def]
  have s: "set (remove1 e tree) = set tree - {e}" using T by simp
  have "set (remove1 e tree) = {x \<in> set (q @ r). ev_timeout (evs x)}" unfolding s using T assms(2) by auto
  moreover have "inj_on (\<lambda>x. ev_id (evs x)) (set (remove1 e tree))" unfolding s using T by (blast intro: inj_on_subset)
  ultimately show ?thesis unfolding tree_ok_def using T s by (simp add: distinct_remove1)
qed

lemma ready_in_tree:
  assumes "tinv i tm" "tm_ready_queue tm = e # r"
  shows "ev_timeout (tm_events tm e)" "e \<in> set (tm_tree tm)" "\<not> ev_run_lock (tm_events tm e)"
  using tinvD(5,7) [OF assms(1)] by (auto simp: assms(2) queue_ok_def tree_ok_def)

definition popped :: "nat \<Rightarrow> timer \<Rightarrow> timer" where
  "popped e tm = tm\<lparr>tm_ready_queue := tl (tm_ready_queue tm), tm_tree := remove1 e (tm_tree tm),
     tm_calls := tm_calls tm @ (if ev_canceled (tm_events tm e) then []
       else [(ev_id (tm_events tm e), ev_routine (tm_events tm e), ev_data (tm_events tm e))])\<rparr>"

lemma handler_round:
  assumes inv: "tinv i tm" and r: "tm_ready_queue tm = e # r"
  shows "timeout_calls_handler tm = Some (Inr (popped e tm, True))" "tinv i (popped e tm)" "keeps tm (popped e tm)"
proof -
  note R = ready_in_tree [OF inv r]
  note I = tinvD [OF inv, unfolded r]
  show "timeout_calls_handler tm = Some (Inr (popped e tm, True))"
    using R by (auto simp: timeout_calls_handler_def extract_timeout_event_def r Let_def popped_def)
  have "tree_ok (tm_events tm) (tm_queue tm @ r) (remove1 e (tm_tree tm)) (tm_next_timeout_id tm)"
    by (rule tree_ok_pop [OF I(7)]) (use I(5) in \<open>simp add: queue_ok_def\<close>)
  moreover have "queue_ok (tm_events tm) (tm_queue tm) r (tm_next_addr tm)" using I(5) by (auto simp: queue_ok_def)
  ultimately show "tinv i (popped e tm)" using I(1-4,6) by (simp add: tinv_def popped_def r)
  show "keeps tm (popped e tm)" by (rule keeps_same) (simp_all add: popped_def)
qed

section \<open>Runs\<close>

text \<open>
  What happens to the timer between two of its operations: ticks, ticks that find the event lock
  taken, the operations of threads, rounds of the handler thread and the creation of threads.
\<close>

datatype timer_op =
    Timer_Tick | Busy_Tick | Yield | Sleep uint | Sleep_Id uint uint | Suspend_Current | Suspend uint | Resume uint
  | Timeout nat nat uint | Cancel uint | Handler_Round | Create nat uint int

fun timer_legal :: "timer_op \<Rightarrow> timer \<Rightarrow> bool" where
  "timer_legal (Sleep _) tm \<longleftrightarrow> sc_idle_thread (tm_sched tm) \<noteq> Some (sc_current (tm_sched tm))"
| "timer_legal Suspend_Current tm \<longleftrightarrow> sc_idle_thread (tm_sched tm) \<noteq> Some (sc_current (tm_sched tm))"
| "timer_legal (Sleep_Id tid _) tm \<longleftrightarrow> map_option (tm_thread_id tm) (sc_idle_thread (tm_sched tm)) \<noteq> Some tid"
| "timer_legal (Suspend tid) tm \<longleftrightarrow> map_option (tm_thread_id tm) (sc_idle_thread (tm_sched tm)) \<noteq> Some tid"
| "timer_legal (Timeout _ _ ticks) tm \<longleftrightarrow> tm_next_timeout_id tm \<noteq> 0 \<and> 0 \<le> sint ticks"
| "timer_legal Handler_Round tm \<longleftrightarrow> tm_handler tm = Some (sc_current (tm_sched tm))"
| "timer_legal (Create t _ prio) tm \<longleftrightarrow> sc_idle_thread (tm_sched tm) \<noteq> Some t \<and>
     th_state (sc_threads (tm_sched tm) t) = THREAD_STATE_DEAD \<and> 0 \<le> prio"
| "timer_legal _ tm \<longleftrightarrow> True"

definition create_thread :: "nat \<Rightarrow> uint \<Rightarrow> int \<Rightarrow> timer \<Rightarrow> timer_error + timer" where
  "create_thread t tid prio tm =
     and_then (with_sched (sched_exec (New_Thread t prio)) tm)
       (\<lambda>tm1. with_sched (sched_add_thread t)
          (tm1\<lparr>tm_thread_id := (tm_thread_id tm1)(t := tid), tm_threads_tree := t # tm_threads_tree tm1\<rparr>))"

fun timer_exec :: "timer_op \<Rightarrow> timer \<Rightarrow> timer_error + timer" where
  "timer_exec Timer_Tick tm = and_then (timer_tick tm) (\<lambda>(tm', _). Inr tm')"
| "timer_exec Busy_Tick tm = and_then (timer_tick (tm\<lparr>tm_events_lock := True\<rparr>)) (\<lambda>(tm', _). Inr (tm'\<lparr>tm_events_lock := False\<rparr>))"
| "timer_exec Yield tm = thread_yield tm"
| "timer_exec (Sleep msec) tm = thread_sleep msec tm"
| "timer_exec (Sleep_Id tid msec) tm = and_then (thread_sleep_id tid msec tm) (\<lambda>(tm', _). Inr tm')"
| "timer_exec Suspend_Current tm = and_then (thread_suspend_current tm) (\<lambda>(tm', _). Inr tm')"
| "timer_exec (Suspend tid) tm = and_then (thread_suspend tid tm) (\<lambda>(tm', _). Inr tm')"
| "timer_exec (Resume tid) tm = and_then (thread_resume tid tm) (\<lambda>(tm', _). Inr tm')"
| "timer_exec (Timeout routine data ticks) tm = and_then (timer_timeout_sched routine data ticks tm) (\<lambda>(tm', _). Inr tm')"
| "timer_exec (Cancel tid) tm = Inr (timer_timeout_cancel tid tm)"
| "timer_exec Handler_Round tm =
     (case timeout_calls_handler tm of
        None \<Rightarrow> Inl Waits_For_Ever
      | Some r \<Rightarrow> and_then r (\<lambda>(tm', again). if again then Inr tm' else and_then (thread_suspend_current tm') (\<lambda>(tm'', _). Inr tm'')))"
| "timer_exec (Create t tid prio) tm = create_thread t tid prio tm"

fun timer_run :: "timer_op list \<Rightarrow> timer \<Rightarrow> timer_error + timer" where
  "timer_run [] tm = Inr tm"
| "timer_run (x # ops) tm = (if timer_legal x tm then and_then (timer_exec x tm) (timer_run ops) else Inr tm)"

lemma busy_tick_tinv:
  assumes inv: "tinv i tm"
  shows "\<exists>tm'. timer_exec Busy_Tick tm = Inr tm' \<and> tinv i tm' \<and> keeps tm tm'"
proof -
  note I = tinvD [OF inv]
  from sinv_timer [OF I(1)] obtain s' r where s': "scheduler_timer (tm_sched tm) = Inr (s', r)" "sinv i s'"
    "\<forall>st. in_state st s' = in_state st (tm_sched tm)" by blast
  let ?tm' = "tm\<lparr>tm_ticks := tm_ticks tm + 1, tm_ticks_lost := tm_ticks_lost tm + 1, tm_sched := s', tm_events_lock := False\<rparr>"
  have "timer_exec Busy_Tick tm = Inr ?tm'" using s'(1) by (simp add: timer_tick_def timer_schedule_event_def)
  moreover have "tinv i ?tm'" using I s'(2,3) by (simp add: tinv_def)
  moreover have "keeps tm ?tm'" using s'(3) by (simp add: keeps_def now_def pend_def)
  ultimately show ?thesis by blast
qed

lemma create_ok:
  assumes s: "sinv i (tm_sched tm)" and t: "t \<noteq> i" "th_state (sc_threads (tm_sched tm) t) = THREAD_STATE_DEAD" "0 \<le> prio"
  shows "\<exists>s'. create_thread t tid prio tm =
      Inr (tm\<lparr>tm_thread_id := (tm_thread_id tm)(t := tid), tm_threads_tree := t # tm_threads_tree tm, tm_sched := s'\<rparr>) \<and>
    sinv i s' \<and> sleepers s' = sleepers (tm_sched tm) \<and> waiting s' = waiting (tm_sched tm)"
proof -
  let ?s = "tm_sched tm"
  note S = sinvD [OF s]
  let ?f = "\<lambda>th. th\<lparr>th_state := THREAD_STATE_BIRTH, th_s_prio := prio, th_d_prio := prio, th_carrots_sticks := 0\<rparr>"
  let ?s1 = "upd_thread t ?f ?s"
  have sl: "sleepers ?s1 = sleepers ?s" "waiting ?s1 = waiting ?s" using t(2) by (auto simp: in_state_def)
  have "sched_inv i ?s1" using S(1) t(1) by (rule not_ready_upd_inv) (use t(2) in \<open>simp_all add: thread_ok_def\<close>)
  moreover have "th_next_state (sc_threads ?s1 u) = th_next_state (sc_threads ?s u)" for u by simp
  moreover have "0 \<le> th_s_prio (sc_threads ?s1 u)" if "u \<noteq> i" for u using S(3) [OF that] t(3) by simp
  ultimately have s1: "sinv i ?s1" unfolding sinv_def sl using S by auto
  have "th_state (sc_threads ?s1 t) = THREAD_STATE_BIRTH" by simp
  from sinv_add [OF s1, of t] this obtain s' where s': "sched_add_thread t ?s1 = Inr s'" "sinv i s'"
    "\<forall>st. parked st \<longrightarrow> in_state st s' = in_state st ?s1 - {t}" by blast
  have "sleepers s' = sleepers ?s" "waiting s' = waiting ?s" using s'(3) sl t(2) by (auto simp: in_state_def)
  then show ?thesis using s'(1,2) by (intro exI [of _ s']) (simp add: create_thread_def with_sched_def)
qed

lemma create_tinv:
  assumes inv: "tinv i tm" and t: "t \<noteq> i" "th_state (sc_threads (tm_sched tm) t) = THREAD_STATE_DEAD" "0 \<le> prio"
  shows "\<exists>tm'. create_thread t tid prio tm = Inr tm' \<and> tinv i tm' \<and> keeps tm tm'"
proof -
  from create_ok [OF tinvD(1) [OF inv] t, of tid] obtain s' where
    s': "create_thread t tid prio tm =
      Inr (tm\<lparr>tm_thread_id := (tm_thread_id tm)(t := tid), tm_threads_tree := t # tm_threads_tree tm, tm_sched := s'\<rparr>)"
    "sinv i s'" "sleepers s' = sleepers (tm_sched tm)" "waiting s' = waiting (tm_sched tm)" by blast
  let ?tm' = "tm\<lparr>tm_thread_id := (tm_thread_id tm)(t := tid), tm_threads_tree := t # tm_threads_tree tm, tm_sched := s'\<rparr>"
  have "tinv i ?tm'" using tinvD [OF inv] s'(2,3) by (simp add: tinv_def)
  moreover have "keeps tm ?tm'" by (rule keeps_same) (use s'(4) in simp_all)
  ultimately show ?thesis using s'(1) by blast
qed

lemma handler_tinv:
  assumes inv: "tinv i tm" and cur: "tm_handler tm = Some (sc_current (tm_sched tm))"
  shows "\<exists>tm'. timer_exec Handler_Round tm = Inr tm' \<and> tinv i tm' \<and> keeps tm tm'"
proof (cases "tm_ready_queue tm")
  case Nil
  have "sc_current (tm_sched tm) \<noteq> i" using cur tinvD(4) [OF inv] by auto
  from suspend_current_tinv [OF inv this] Nil show ?thesis by (auto simp: timeout_calls_handler_def extract_timeout_event_def)
next
  case (Cons e r)
  from handler_round [OF inv Cons] show ?thesis by (intro exI [of _ "popped e tm"]) simp
qed

lemma timer_exec_ok:
  assumes inv: "tinv i tm" and legal: "timer_legal x tm"
  shows "\<exists>tm'. timer_exec x tm = Inr tm' \<and> tinv i tm' \<and> (keeps tm tm' \<or> ticked tm tm')"
proof -
  have idle: "sc_idle_thread (tm_sched tm) = Some i"
    using sched_invD(4) [OF sinvD(1) [OF tinvD(1) [OF inv]]] by (simp add: idle_ok_def)
  show ?thesis
  proof (cases x)
    case Timer_Tick
    then show ?thesis using timer_tick_ok [OF inv] by auto
  next
    case Busy_Tick
    then show ?thesis using busy_tick_tinv [OF inv] by blast
  next
    case Yield
    then show ?thesis using yield_tinv [OF inv tinvD(1) [OF inv] refl refl] by auto
  next
    case (Sleep msec)
    then show ?thesis using thread_sleep_tinv [OF inv, of msec] legal idle by auto
  next
    case (Sleep_Id tid msec)
    then show ?thesis using sleep_id_tinv [OF inv, of tid msec] legal idle by auto
  next
    case Suspend_Current
    then show ?thesis using suspend_current_tinv [OF inv] legal idle by auto
  next
    case (Suspend tid)
    then show ?thesis using suspend_tinv [OF inv, of tid] legal idle by auto
  next
    case (Resume tid)
    then show ?thesis using resume_tinv [OF inv, of tid] by auto
  next
    case (Timeout r d ticks)
    then show ?thesis using timeout_sched_tinv [OF inv, of ticks r d] legal by auto
  next
    case (Cancel tid)
    then show ?thesis using cancel_tinv [OF inv, of tid] by auto
  next
    case Handler_Round
    then show ?thesis using handler_tinv [OF inv] legal by fastforce
  next
    case (Create t tid prio)
    then show ?thesis using create_tinv [OF inv, of t prio tid] legal idle by auto
  qed
qed

lemma timer_run_ok: "tinv i tm \<Longrightarrow> \<exists>tm'. timer_run ops tm = Inr tm' \<and> tinv i tm'"
proof (induction ops arbitrary: tm)
  case (Cons x ops)
  show ?case
  proof (cases "timer_legal x tm")
    case True
    from timer_exec_ok [OF Cons.prems True] obtain tm1 where "timer_exec x tm = Inr tm1" "tinv i tm1" by blast
    then show ?thesis using Cons.IH [of tm1] True by simp
  qed (use Cons.prems in simp)
qed simp

section \<open>Deadlines over runs\<close>

lemma ticked_wakes:
  assumes "ticked tm tm'" "wakes tm t D" "now tm' < D"
  shows "wakes tm' t D"
proof -
  from assms(2) obtain e where e: "(D, e) \<in> set (pend tm)" "\<not> ev_timeout (tm_events tm e)" "ev_thread (tm_events tm e) = t"
    by (auto simp: wakes_def)
  have "x \<in> set (dropWhile P xs)" if "x \<in> set xs" "\<not> P x" for x :: "int \<times> nat" and P xs using that by (induction xs) auto
  then have "(D, e) \<in> set (pend tm')" using assms(1,3) e(1) by (auto simp: ticked_def)
  moreover have "same_event (tm_events tm e) (tm_events tm' e)" using assms(1) by (simp add: ticked_def)
  ultimately show ?thesis using e(2,3) same_eventD(1,2) unfolding wakes_def by metis
qed

lemma now_mono: "keeps tm tm' \<or> ticked tm tm' \<Longrightarrow> 0 \<le> tm_ticks_lost tm \<Longrightarrow> now tm \<le> now tm'"
  by (auto simp: keeps_def ticked_def)

lemma run_mono: "tinv i tm \<Longrightarrow> timer_run ops tm = Inr tm' \<Longrightarrow> now tm \<le> now tm'"
proof (induction ops arbitrary: tm)
  case (Cons x ops)
  show ?case
  proof (cases "timer_legal x tm")
    case True
    from timer_exec_ok [OF Cons.prems(1) True] obtain tm1 where
      t1: "timer_exec x tm = Inr tm1" "tinv i tm1" "keeps tm tm1 \<or> ticked tm tm1" by blast
    have "now tm1 \<le> now tm'" using Cons.IH [OF t1(2)] Cons.prems(2) True t1(1) by simp
    then show ?thesis using now_mono [OF t1(3) tinvD(3) [OF Cons.prems(1)]] by simp
  qed (use Cons.prems in simp)
qed simp

lemma run_wakes:
  assumes "tinv i tm" "wakes tm t D" "timer_run ops tm = Inr tm'" "now tm' < D \<or> now tm' = now tm"
  shows "wakes tm' t D"
  using assms
proof (induction ops arbitrary: tm)
  case (Cons x ops)
  show ?case
  proof (cases "timer_legal x tm")
    case True
    note inv = Cons.prems(1)
    from timer_exec_ok [OF inv True] obtain tm1 where
      t1: "timer_exec x tm = Inr tm1" "tinv i tm1" "keeps tm tm1 \<or> ticked tm tm1" by blast
    have run: "timer_run ops tm1 = Inr tm'" using Cons.prems(3) True t1(1) by simp
    have m: "now tm \<le> now tm1" "now tm1 \<le> now tm'"
      using now_mono [OF t1(3) tinvD(3) [OF inv]] run_mono [OF t1(2) run] by simp_all
    have "wakes tm1 t D"
    proof (cases "keeps tm tm1")
      case True
      then show ?thesis using Cons.prems(2) by (rule keeps_wakes)
    next
      case False
      then have tk: "ticked tm tm1" using t1(3) by simp
      then have "now tm < now tm1" using tinvD(3) [OF inv] by (simp add: ticked_def)
      then show ?thesis using Cons.prems(4) m by (intro ticked_wakes [OF tk Cons.prems(2)]) simp
    qed
    moreover have "now tm' < D \<or> now tm' = now tm1" using Cons.prems(4) m by auto
    ultimately show ?thesis using Cons.IH [OF t1(2) _ run] by blast
  qed (use Cons.prems in simp)
qed simp

lemma pend_distinct: "tinv i tm \<Longrightarrow> distinct (map snd (pend tm))"
  using tinvD(5) [of i tm] by (simp add: pend_def due_snd queue_ok_def)

lemma pend_unique:
  assumes "tinv i tm" "(D, e) \<in> set (pend tm)" "(D', e) \<in> set (pend tm)"
  shows "D' = D"
  using eq_key_imp_eq_value [of "map prod.swap (pend tm)" e D D'] pend_distinct [OF assms(1)] assms(2,3)
  by (force simp: comp_def)

lemma queue_pend: "e \<in> set (tm_queue tm) \<Longrightarrow> \<exists>D. (D, e) \<in> set (pend tm)"
proof -
  assume "e \<in> set (tm_queue tm)"
  then have "e \<in> set (map snd (pend tm))" by (simp only: pend_def due_snd)
  then show ?thesis by auto
qed

lemma sorted_split:
  fixes xs :: "(int \<times> nat) list"
  assumes "sorted (map fst xs)"
  shows "dropWhile (\<lambda>d. fst d \<le> k) xs = filter (\<lambda>d. k < fst d) xs" "takeWhile (\<lambda>d. fst d \<le> k) xs = filter (\<lambda>d. fst d \<le> k) xs"
  using assms
proof (induction xs)
  case (Cons a xs)
  {
    case 1
    have "fst a \<le> fst d" if "d \<in> set xs" for d using 1 that by auto
    then have "k < fst a \<Longrightarrow> filter (\<lambda>d. k < fst d) xs = xs" by (intro filter_True) force
    then show ?case using 1 Cons.IH by auto
  next
    case 2
    have "fst a \<le> fst d" if "d \<in> set xs" for d using 2 that by auto
    then have "k < fst a \<Longrightarrow> filter (\<lambda>d. fst d \<le> k) xs = []" by (intro filter_False) force
    then show ?case using 2 Cons.IH by auto
  }
qed simp_all

lemma pend_ticked:
  assumes inv: "tinv i tm" and tk: "ticked tm tm'"
  shows "pend tm' = filter (\<lambda>d. now tm' < fst d) (pend tm)"
    "takeWhile (\<lambda>d. fst d \<le> now tm') (pend tm) = filter (\<lambda>d. fst d \<le> now tm') (pend tm)"
  using sorted_split [OF pend_sorted [OF inv]] tk by (simp_all add: ticked_def)

lemma sleep_event_unique:
  assumes ok: "sleep_ok evs q S" and e: "e \<in> set q" "e' \<in> set q" "\<not> ev_timeout (evs e)" "\<not> ev_timeout (evs e')"
    "ev_thread (evs e) = ev_thread (evs e')"
  shows "e = e'"
proof -
  have "inj_on (\<lambda>e. ev_thread (evs e)) (set (sleep_events evs q))" using ok by (simp add: sleep_ok_def distinct_map)
  then show ?thesis using e by (auto simp: inj_on_def sleep_events_def)
qed

lemma tick_wakes:
  assumes inv: "tinv i tm" and w: "wakes tm t D" and D: "D \<le> now tm + tm_ticks_lost tm + 1"
  shows "\<exists>tm'. timer_tick tm = Inr (tm', True) \<and> tinv i tm' \<and> queued (tm_sched tm') t"
proof -
  from timer_tick_ok [OF inv] obtain tm' r where
    t: "timer_tick tm = Inr (tm', r)" "tinv i tm'" "ticked tm tm'" "(\<exists>d \<in> set (pend tm). fst d \<le> now tm') \<longrightarrow> r" by blast
  from w obtain e where e: "(D, e) \<in> set (pend tm)" "\<not> ev_timeout (tm_events tm e)" "ev_thread (tm_events tm e) = t"
    by (auto simp: wakes_def)
  have Dn: "D \<le> now tm'" using D t(3) by (simp add: ticked_def)
  have same: "same_event (tm_events tm x) (tm_events tm' x)" for x using t(3) by (simp add: ticked_def)
  have "t \<notin> sleepers (tm_sched tm')"
  proof
    assume "t \<in> sleepers (tm_sched tm')"
    then have "t \<in> (\<lambda>e. ev_thread (tm_events tm' e)) ` set (sleep_events (tm_events tm') (tm_queue tm'))"
      using tinvD(6) [OF t(2)] by (simp add: sleep_ok_def)
    then obtain e' where e': "e' \<in> set (tm_queue tm')" "\<not> ev_timeout (tm_events tm' e')" "ev_thread (tm_events tm' e') = t"
      by (auto simp: sleep_events_def)
    from queue_pend [OF e'(1)] obtain D' where D': "(D', e') \<in> set (pend tm)" "now tm' < D'"
      by (auto simp: pend_ticked [OF inv t(3)])
    have "e' = e" using sleep_event_unique [OF tinvD(6) [OF inv]] pend_queue [OF D'(1)] pend_queue [OF e(1)] e e' same_eventD(1,2) [OF same] by metis
    then show False using pend_unique [OF inv e(1)] D' Dn by auto
  qed
  then have "queued (tm_sched tm') t" using t(3) wakes_sleeps [OF inv w] by (auto simp: ticked_def)
  moreover have r using t(4) e(1) Dn by force
  ultimately show ?thesis using t(1,2) by auto
qed

section \<open>Properties\<close>

text \<open>
  The state after boot: the scheduler with its idle thread, the initialised timer, and the thread
  for timeout calls, which is created with the normal priority.
\<close>

definition zero_event :: event where
  "zero_event = \<lparr>ev_delta = 0, ev_timeout = False, ev_id = 0, ev_run_lock = False, ev_canceled = False, ev_routine = 0, ev_data = 0,
     ev_thread = 0\<rparr>"

definition static_timer :: "nat \<Rightarrow> sched \<Rightarrow> timer" where
  "static_timer i s = \<lparr>tm_sched = s, tm_ticks = 0, tm_next_timeout_id = 0, tm_events = (\<lambda>_. zero_event), tm_queue = [],
     tm_ready_queue = [], tm_ticks_lost = 0, tm_tree = [], tm_handler = None, tm_thread_id = (\<lambda>_. 0)(i := 1),
     tm_threads_tree = [i], tm_events_lock = False, tm_next_addr = 0, tm_calls = []\<rparr>"

definition boot_timer :: "nat \<Rightarrow> timer_error + timer" where
  "boot_timer i =
     (case boot_sched i of
        Inl e \<Rightarrow> Inl (Sched_Error e)
      | Inr s \<Rightarrow>
          and_then (create_thread (Suc i) 2 56 (fst (timer_init NO_ERROR NO_ERROR (static_timer i s))))
            (\<lambda>tm. Inr (fst (timer_init_after_threading 2 tm))))"

definition reach_timer :: "nat \<Rightarrow> timer_op list \<Rightarrow> timer_error + timer" where
  "reach_timer i ops = and_then (boot_timer i) (timer_run ops)"

lemma boot_timer_ok: "\<exists>tm. boot_timer i = Inr tm \<and> tinv i tm \<and> waiting (tm_sched tm) = {}"
proof -
  from boot_sched_ok [of i] obtain s where s: "boot_sched i = Inr s" "sched_inv i s" "\<not> sc_lock s" by blast
  have th: "sc_threads s = (\<lambda>_. unborn_thread)(i := unborn_thread\<lparr>th_state := THREAD_STATE_RUNNING, th_next_state := THREAD_STATE_READY,
      th_s_prio := -1, th_d_prio := -1\<rparr>)"
    using s(1) by (auto simp: boot_sched_def sched_add_idle_thread_def scheduler_init_per_cpu_def scheduler_init_def
        sched_init_runqueue_def static_sched_def)
  have sl: "sleepers s = {}" "waiting s = {}" by (auto simp: in_state_def th unborn_thread_def)
  have "sinv i s" using s(2,3) by (simp add: sinv_def th unborn_thread_def)
  let ?tm = "fst (timer_init NO_ERROR NO_ERROR (static_timer i s))"
  have tm: "tm_sched ?tm = s" "tm_queue ?tm = []" "tm_ready_queue ?tm = []" "tm_tree ?tm = []" "tm_threads_tree ?tm = [i]"
    "tm_thread_id ?tm = (\<lambda>_. 0)(i := 1)" "tm_events_lock ?tm = False" "tm_ticks_lost ?tm = 0"
    by (simp_all add: timer_init_def static_timer_def)
  have "sinv i (tm_sched ?tm)" "Suc i \<noteq> i" "th_state (sc_threads (tm_sched ?tm) (Suc i)) = THREAD_STATE_DEAD"
    using \<open>sinv i s\<close> tm(1) by (simp_all add: th unborn_thread_def)
  from create_ok [OF this, of 56 2] obtain s' where
    s': "create_thread (Suc i) 2 56 ?tm =
        Inr (?tm\<lparr>tm_thread_id := (tm_thread_id ?tm)(Suc i := 2), tm_threads_tree := Suc i # tm_threads_tree ?tm, tm_sched := s'\<rparr>)"
      "sinv i s'" "sleepers s' = sleepers s" "waiting s' = waiting s" by (auto simp: tm(1))
  show ?thesis using s'(1,2) s'(3,4)
    by (simp add: boot_timer_def s(1) timer_init_after_threading_def INVALID_THREADID_def thread_get_thread_struct_def tinv_def tm
        queue_ok_def sleep_ok_def tree_ok_def sleep_events_def sl Let_def)
qed

lemma reach_timer_ok: "\<exists>tm. reach_timer i ops = Inr tm \<and> tinv i tm"
  using boot_timer_ok [of i] timer_run_ok by (fastforce simp: reach_timer_def)

lemma reach_timerD: "reach_timer i ops = Inr tm \<Longrightarrow> tinv i tm"
  using reach_timer_ok [of i ops] by auto


text \<open>
  C10. The queue of relative deadlines implements a sorted list of absolute ones. Adding an event
  inserts its absolute deadline and moves no other one. A tick, together with the ticks that were
  lost on a taken lock, removes exactly the events that are due, and appends the timeout calls
  among them to the ready queue in the order of their deadlines.
\<close>

theorem timer_queue_refines_deadlines:
  assumes "reach_timer i ops = Inr tm" and "0 \<le> tick"
  shows "sorted (map fst (pend tm)) \<and>
    pend (add_new_event_nolock (tm_next_addr tm) tick (fst (new_event ev tm))) = due_insert (now tm + tick) (tm_next_addr tm) (pend tm) \<and>
    (\<exists>tm' r. timer_tick tm = Inr (tm', r) \<and> now tm' = now tm + tm_ticks_lost tm + 1 \<and>
       pend tm' = filter (\<lambda>d. now tm' < fst d) (pend tm) \<and>
       tm_ready_queue tm' = tm_ready_queue tm @
         filter (\<lambda>e. ev_timeout (tm_events tm e)) (map snd (filter (\<lambda>d. fst d \<le> now tm') (pend tm))))"
proof -
  have inv: "tinv i tm" by (rule reach_timerD [OF assms(1)])
  from timer_tick_ok [OF inv] obtain tm' r where t: "timer_tick tm = Inr (tm', r)" "ticked tm tm'" by blast
  from add_event_ok [OF inv assms(2), of ev] obtain evs q where
    "add_new_event_nolock (tm_next_addr tm) tick (fst (new_event ev tm)) = with_event evs q tm"
    "due evs (now tm) q = due_insert (now tm + tick) (tm_next_addr tm) (pend tm)" by blast
  then have "pend (add_new_event_nolock (tm_next_addr tm) tick (fst (new_event ev tm))) = due_insert (now tm + tick) (tm_next_addr tm) (pend tm)"
    by (simp add: pend_def with_event_def now_def)
  then show ?thesis using pend_sorted [OF inv] t pend_ticked [OF inv t(2)] by (auto simp: ticked_def)
qed

text \<open>
  C2. A thread that calls \<^verbatim>\<open>thread_sleep\<close> sleeps for exactly the ticks its argument converts to (one, if
  that is none): whatever else happens, it stays asleep while the deadline has not been reached
  and no tick was processed, and the tick that reaches the deadline puts it on a run queue and
  asks for a reschedule.
\<close>

theorem sleep_wakes_on_time:
  assumes reach: "reach_timer i ops = Inr tm" and cur: "t = sc_current (tm_sched tm)" "t \<noteq> i" and msec: "msec \<noteq> 0"
    and nxt: "ready_or_running (th_next_state (sc_threads (tm_sched tm) t))"
    and D: "D = now tm + uint (msec * 250) div 1000"
  shows "\<exists>tm1. thread_sleep msec tm = Inr tm1 \<and>
    (\<forall>ops' tm2. timer_run ops' tm1 = Inr tm2 \<longrightarrow> now tm2 < D \<or> now tm2 = now tm \<longrightarrow>
       th_state (sc_threads (tm_sched tm2) t) = THREAD_STATE_SLEEPING \<and>
       (D \<le> now tm2 + tm_ticks_lost tm2 + 1 \<longrightarrow> (\<exists>tm3. timer_tick tm2 = Inr (tm3, True) \<and> queued (tm_sched tm3) t)))"
proof -
  have inv: "tinv i tm" by (rule reach_timerD [OF reach])
  from thread_sleep_ok [OF inv _ msec] cur nxt obtain tm1 where
    t1: "thread_sleep msec tm = Inr tm1" "tinv i tm1" "keeps tm tm1" "slept t (uint (TIMER_MSEC_TO_TICKS msec)) tm tm1" by blast
  have w: "wakes tm1 t D" using t1(4) unfolding slept_def msec_to_ticks(1) D by blast
  have n: "now tm1 = now tm" using t1(3) by (simp add: keeps_def)
  have "th_state (sc_threads (tm_sched tm2) t) = THREAD_STATE_SLEEPING \<and>
      (D \<le> now tm2 + tm_ticks_lost tm2 + 1 \<longrightarrow> (\<exists>tm3. timer_tick tm2 = Inr (tm3, True) \<and> queued (tm_sched tm3) t))"
    if r: "timer_run ops' tm1 = Inr tm2" "now tm2 < D \<or> now tm2 = now tm" for ops' tm2
  proof -
    have inv2: "tinv i tm2" using timer_run_ok [OF t1(2), of ops'] r(1) by auto
    have w2: "wakes tm2 t D" by (rule run_wakes [OF t1(2) w r(1)]) (use r(2) n in simp)
    show ?thesis using wakes_sleeps [OF inv2 w2] tick_wakes [OF inv2 w2] by (auto simp: in_state_def)
  qed
  then show ?thesis using t1(1) by blast
qed

lemma find_timeout_tree:
  assumes inv: "tinv i tm" and e: "e \<in> set (tm_tree tm)"
  shows "find_timeout (ev_id (tm_events tm e)) tm = Some e"
proof -
  obtain x where x: "find_timeout (ev_id (tm_events tm e)) tm = Some x"
    using e unfolding find_timeout_def by (cases "List.find (\<lambda>y. ev_id (tm_events tm y) = ev_id (tm_events tm e)) (tm_tree tm)") (auto simp: find_None_iff)
  then have "x \<in> set (tm_tree tm)" "ev_id (tm_events tm x) = ev_id (tm_events tm e)" by (auto simp: find_timeout_def find_Some_iff)
  then show ?thesis using x e tinvD(7) [OF inv] by (auto simp: tree_ok_def inj_on_def)
qed

text \<open>
  C36. Cancelling a timeout call whose time has come before the handler took it: after
  \<^verbatim>\<open>timer_timeout_cancel\<close> the handler drops the event without calling the routine; after
  \<^verbatim>\<open>timer_timeout_cancel_sync\<close>, which leaves the run lock of the event taken, the handler waits for this lock for ever.
\<close>

theorem cancel_sync_stops_handler:
  assumes "reach_timer i ops = Inr tm" and "tm_ready_queue tm = e # r"
  shows "(\<exists>tm1. timeout_calls_handler (timer_timeout_cancel (ev_id (tm_events tm e)) tm) = Some (Inr (tm1, True)) \<and>
      tm_calls tm1 = tm_calls tm \<and> tm_ready_queue tm1 = r) \<and>
    (\<exists>tm1. cancel_sync_round (ev_id (tm_events tm e)) tm = (tm1, False) \<and> timeout_calls_handler tm1 = None)"
proof -
  have inv: "tinv i tm" by (rule reach_timerD [OF assms(1)])
  note R = ready_in_tree [OF inv assms(2)]
  note f = find_timeout_tree [OF inv R(2)]
  show ?thesis using R assms(2)
    by (simp add: timer_timeout_cancel_def cancel_sync_round_def f upd_event_def timeout_calls_handler_def extract_timeout_event_def Let_def)
qed

text \<open>
  The conversion of milliseconds to ticks: one tick for four milliseconds up to 17179869
  milliseconds (four hours and 46 minutes); longer times are reduced modulo this bound before the
  division. The result is far below the sign bit, so deadlines never become negative.
\<close>

theorem sleep_time_conversion:
  "uint (TIMER_MSEC_TO_TICKS msec) = (if uint msec \<le> 17179869 then uint msec div 4 else (uint msec * 250 mod 2 ^ 32) div 1000) \<and>
   sint (TIMER_MSEC_TO_TICKS msec) = uint (TIMER_MSEC_TO_TICKS msec) \<and> uint (TIMER_MSEC_TO_TICKS msec) \<le> 4294967"
proof -
  have eq: "uint (msec * 250) = uint msec * 250 mod 2 ^ 32" by (simp add: uint_word_ariths)
  have "uint msec * 250 mod 2 ^ 32 < 2 ^ 32" by simp
  then show ?thesis using msec_to_ticks [of msec] unfolding eq by auto
qed

definition demo_ops :: "timer_op list" where
  "demo_ops = [Yield, Handler_Round, Create 2 3 50, Yield]"

definition demo_timer :: timer where
  "demo_timer = (case reach_timer 0 demo_ops of Inr tm \<Rightarrow> tm | Inl _ \<Rightarrow> static_timer 0 (static_sched 0))"

lemma demo_timer_reach: "reach_timer 0 demo_ops = Inr demo_timer"
  using reach_timer_ok [of 0 demo_ops] by (auto simp: demo_timer_def)

lemma demo_timer_fields:
  "sc_current (tm_sched demo_timer) = 2" "th_next_state (sc_threads (tm_sched demo_timer) 2) = THREAD_STATE_RUNNING"
  "now demo_timer = 0" "tm_ticks_lost demo_timer = 0"
  by code_simp+

definition slept_timer :: timer where
  "slept_timer = (case thread_sleep 8 demo_timer of Inr tm \<Rightarrow> tm | Inl _ \<Rightarrow> demo_timer)"

definition ticked_timer :: timer where
  "ticked_timer = (case timer_run [Timer_Tick] slept_timer of Inr tm \<Rightarrow> tm | Inl _ \<Rightarrow> demo_timer)"

lemma ticked_timer_fields:
  "thread_sleep 8 demo_timer = Inr slept_timer" "timer_run [Timer_Tick] slept_timer = Inr ticked_timer"
  "now ticked_timer = 1" "tm_ticks_lost ticked_timer = 0"
proof -
  have "sc_current (tm_sched demo_timer) \<noteq> 0" by (simp add: demo_timer_fields)
  from thread_sleep_tinv [OF reach_timerD [OF demo_timer_reach] this, of 8]
  have s: "thread_sleep 8 demo_timer = Inr slept_timer" "tinv 0 slept_timer" by (auto simp: slept_timer_def)
  show "thread_sleep 8 demo_timer = Inr slept_timer" by (rule s(1))
  show "timer_run [Timer_Tick] slept_timer = Inr ticked_timer"
    using timer_run_ok [OF s(2), of "[Timer_Tick]"] by (auto simp: ticked_timer_def simp del: timer_run.simps)
  show "now ticked_timer = 1" "tm_ticks_lost ticked_timer = 0" by code_simp+
qed

theorem sleep_wakes_on_time_witness:
  "th_state (sc_threads (tm_sched ticked_timer) 2) = THREAD_STATE_SLEEPING \<and>
   (\<exists>tm3. timer_tick ticked_timer = Inr (tm3, True) \<and> queued (tm_sched tm3) 2)"
proof -
  have "\<exists>tm1. thread_sleep 8 demo_timer = Inr tm1 \<and>
    (\<forall>ops' tm2. timer_run ops' tm1 = Inr tm2 \<longrightarrow> now tm2 < 2 \<or> now tm2 = now demo_timer \<longrightarrow>
       th_state (sc_threads (tm_sched tm2) 2) = THREAD_STATE_SLEEPING \<and>
       (2 \<le> now tm2 + tm_ticks_lost tm2 + 1 \<longrightarrow> (\<exists>tm3. timer_tick tm2 = Inr (tm3, True) \<and> queued (tm_sched tm3) 2)))"
    by (rule sleep_wakes_on_time [OF demo_timer_reach]) (simp_all add: demo_timer_fields ready_or_running_def)
  then show ?thesis using ticked_timer_fields
    by (auto simp del: timer_run.simps dest!: spec [of _ "[Timer_Tick]"] spec [of _ ticked_timer])
qed

text \<open>The state after a timeout call was scheduled and its tick has come.\<close>

definition due_ops :: "timer_op list" where
  "due_ops = demo_ops @ [Timeout 7 9 1, Timer_Tick]"

definition due_timer :: timer where
  "due_timer = (case reach_timer 0 due_ops of Inr tm \<Rightarrow> tm | Inl _ \<Rightarrow> static_timer 0 (static_sched 0))"

lemma due_timer_reach: "reach_timer 0 due_ops = Inr due_timer"
  using reach_timer_ok [of 0 due_ops] by (auto simp: due_timer_def)

lemma due_timer_fields: "tm_ready_queue due_timer = [0]" "ev_id (tm_events due_timer 0) = 1"
  by code_simp+

theorem cancel_sync_stops_handler_witness:
  "\<exists>tm1. cancel_sync_round 1 due_timer = (tm1, False) \<and> timeout_calls_handler tm1 = None"
  using cancel_sync_stops_handler [OF due_timer_reach due_timer_fields(1)] by (simp add: due_timer_fields)

theorem timer_queue_refines_deadlines_witness:
  "sorted (map fst (pend demo_timer)) \<and>
   pend (add_new_event_nolock (tm_next_addr demo_timer) 5 (fst (new_event zero_event demo_timer))) =
     due_insert 5 (tm_next_addr demo_timer) (pend demo_timer)"
  using timer_queue_refines_deadlines [OF demo_timer_reach, of 5 zero_event] by (simp add: demo_timer_fields)

end
