(* ===== verification/Sem.thy ===== *)
theory Sem
  imports Timer_Runs
begin

text \<open>
  The counting semaphores of \<^verbatim>\<open>kernel/sem.c\<close>: creation and deletion, counting up and down with waiting
  threads, timeouts and names.

  Semaphore structures live at addresses; the table maps slots to them and has a lock per slot.
  The control block of a waiting thread lies on its stack, so a thread has one and the thread
  stands for it; the lists of waiters are sequences of threads, the tree of names and the lists
  of a process sequences of semaphores. \<^verbatim>\<open>sem_down_ex\<close> gives up the processor in the middle: it is
  modelled as the part up to \<^verbatim>\<open>thread_yield\<close> and the part after it, with the local variables in
  between kept for the thread. Interrupts are off in the operations, except in \<^verbatim>\<open>sem_create_ex\<close> while it
  holds the lock of its slot, which is therefore modelled in two parts as well.

  Errors: waiting for ever on a taken lock, access to a freed semaphore, unlinking a block that is
  not in the list, and the panics and assertions of the code.
\<close>

section \<open>State\<close>

record sem_wcb =
  wc_sem :: nat
  wc_count :: uint
  wc_timeout :: uint
  wc_err :: status

record semaphore =
  se_id :: uint
  se_slot :: nat
  se_proc :: nat
  se_name :: "string option"
  se_max_count :: uint
  se_count :: uint
  se_waiters :: "nat list"
  se_freed :: bool

text \<open>Local variables of a call of \<^verbatim>\<open>sem_down_ex\<close> that has given up the processor.\<close>

record down_frame =
  df_count :: uint
  df_msec :: uint
  df_flags :: uint
  df_registered :: bool

record sems =
  ss_timer :: timer
  ss_sem :: "nat \<Rightarrow> semaphore"
  ss_table :: "nat \<Rightarrow> nat option"
  ss_lock :: "nat \<Rightarrow> bool"
  ss_next_gid :: uint
  ss_tree :: "nat list"
  ss_wcb :: "nat \<Rightarrow> sem_wcb"
  ss_inside :: "(nat \<times> down_frame) list"
  ss_term_cbs :: "nat \<Rightarrow> nat list"
  ss_procs :: "nat list"
  ss_proc_id :: "nat \<Rightarrow> uint"
  ss_proc_death :: "nat \<Rightarrow> bool"
  ss_ref_count :: "nat \<Rightarrow> uint"
  ss_owned :: "nat \<Rightarrow> nat list"
  ss_thread_proc :: "nat \<Rightarrow> nat"
  ss_next_sem :: nat

datatype sem_error =
    Sem_Timer timer_error | Sem_Spins | Sem_Freed | Sem_Not_Linked | Sem_Null | Sem_Tree_Failed | Sem_Waiters_Left

definition upd_sem :: "nat \<Rightarrow> (semaphore \<Rightarrow> semaphore) \<Rightarrow> sems \<Rightarrow> sems" where
  "upd_sem a f s = s\<lparr>ss_sem := (ss_sem s)(a := f (ss_sem s a))\<rparr>"

definition upd_wcb :: "nat \<Rightarrow> (sem_wcb \<Rightarrow> sem_wcb) \<Rightarrow> sems \<Rightarrow> sems" where
  "upd_wcb t f s = s\<lparr>ss_wcb := (ss_wcb s)(t := f (ss_wcb s t))\<rparr>"

definition leave_down :: "nat \<Rightarrow> sems \<Rightarrow> sems" where
  "leave_down t s = s\<lparr>ss_inside := filter (\<lambda>x. fst x \<noteq> t) (ss_inside s)\<rparr>"

definition enter_down :: "nat \<Rightarrow> down_frame \<Rightarrow> sems \<Rightarrow> sems" where
  "enter_down t fr s = (leave_down t s)\<lparr>ss_inside := (t, fr) # ss_inside (leave_down t s)\<rparr>"

definition with_timer :: "(timer \<Rightarrow> timer_error + timer) \<Rightarrow> sems \<Rightarrow> sem_error + sems" where
  "with_timer f s = (case f (ss_timer s) of Inl e \<Rightarrow> Inl (Sem_Timer e) | Inr tm \<Rightarrow> Inr (s\<lparr>ss_timer := tm\<rparr>))"

abbreviation current :: "sems \<Rightarrow> nat" where
  "current s \<equiv> sc_current (tm_sched (ss_timer s))"

section \<open>Identifiers\<close>

abbreviation (input) SYS_MAX_SEM_COUNT :: nat where "SYS_MAX_SEM_COUNT \<equiv> 8192"
abbreviation (input) SYS_MAX_OS_NAME_LEN :: nat where "SYS_MAX_OS_NAME_LEN \<equiv> 64"
abbreviation (input) SEM_IDX_BITS :: nat where "SEM_IDX_BITS \<equiv> 13"

definition INVALID_SEMID :: uint where "INVALID_SEMID = 0"
definition INVALID_PROCESSID :: uint where "INVALID_PROCESSID = 0"

definition SEM_IDX :: "uint \<Rightarrow> uint" where
  "SEM_IDX a = a AND (push_bit SEM_IDX_BITS 1 - 1)"

definition SEM_GID :: "uint \<Rightarrow> uint" where
  "SEM_GID a = drop_bit SEM_IDX_BITS (a AND push_bit SEM_IDX_BITS (- 1))"

definition SEM_ID_BUILD :: "uint \<Rightarrow> uint \<Rightarrow> uint" where
  "SEM_ID_BUILD slot gid = push_bit SEM_IDX_BITS gid OR slot"

text \<open>The increment returns the old value.\<close>

definition next_gid :: "uint \<Rightarrow> uint \<times> uint" where
  "next_gid n = (if SEM_GID (- 1) < n then (0, 0) else (n, n + 1))"

function get_next_gid :: "bool \<Rightarrow> uint \<Rightarrow> uint \<times> uint" where
  "get_next_gid nozero n =
     (case next_gid n of (retval, n') \<Rightarrow> if nozero \<and> retval = 0 then get_next_gid nozero n' else (retval, n'))"
  by pat_completeness auto

lemma gid_max: "SEM_GID (- 1) = 0x7FFFF"
  by code_simp

termination get_next_gid
proof (relation "measure (\<lambda>(_, n). if SEM_GID (- 1) < n then 2 else if n = 0 then 1 else 0)", goal_cases)
  case (2 nozero n retval n')
  then show ?case by (auto simp: next_gid_def gid_max split: if_splits)
qed simp

declare get_next_gid.simps [simp del]

section \<open>Processes\<close>

definition proc_get_process_by_id :: "uint \<Rightarrow> sems \<Rightarrow> sems \<times> nat option" where
  "proc_get_process_by_id pid s =
     (case List.find (\<lambda>p. ss_proc_id s p = pid) (ss_procs s) of
        None \<Rightarrow> (s, None)
      | Some p \<Rightarrow> (if ss_proc_death s p then s else s\<lparr>ss_ref_count := (ss_ref_count s)(p := ss_ref_count s p + 1)\<rparr>, Some p))"

definition proc_put_process :: "nat \<Rightarrow> sems \<Rightarrow> sems" where
  "proc_put_process p s = s\<lparr>ss_ref_count := (ss_ref_count s)(p := ss_ref_count s p - 1)\<rparr>"

definition proc_get_current_process_id :: "sems \<Rightarrow> uint" where
  "proc_get_current_process_id s = ss_proc_id s (ss_thread_proc s (current s))"

section \<open>Structures and slots\<close>

text \<open>\<open>None\<close>: out of memory.\<close>

definition create_sem_struct :: "bool \<Rightarrow> string option \<Rightarrow> sems \<Rightarrow> sems \<times> nat option" where
  "create_sem_struct memory name s =
     (if \<not> memory then (s, None)
      else (let a = ss_next_sem s in
            (s\<lparr>ss_next_sem := a + 1,
               ss_sem := (ss_sem s)(a := \<lparr>se_id = 0, se_slot = 0, se_proc = 0, se_name = (if name = Some [] then None else name),
                 se_max_count = 0, se_count = 0, se_waiters = [], se_freed = False\<rparr>)\<rparr>, Some a)))"

definition destroy_sem_struct :: "nat \<Rightarrow> sems \<Rightarrow> sem_error + sems" where
  "destroy_sem_struct a s =
     (if se_waiters (ss_sem s a) \<noteq> [] then Inl Sem_Waiters_Left else Inr (upd_sem a (\<lambda>se. se\<lparr>se_freed := True\<rparr>) s))"

definition slot_lock :: "nat \<Rightarrow> bool \<Rightarrow> sems \<Rightarrow> sems" where
  "slot_lock i b s = s\<lparr>ss_lock := (ss_lock s)(i := b)\<rparr>"

definition in_table :: "nat \<Rightarrow> bool" where
  [simp]: "in_table i \<longleftrightarrow> i < SYS_MAX_SEM_COUNT"

lemma in_table_code [code]: "in_table i \<longleftrightarrow> int i < 8192"
  by simp

function alloc_slot_loop :: "nat \<Rightarrow> sems \<Rightarrow> sems \<times> nat option" where
  "alloc_slot_loop i s =
     (if \<not> in_table i then (s, None)
      else if \<not> ss_lock s i \<and> ss_table s i = None then (slot_lock i True s, Some i)
      else alloc_slot_loop (i + 1) s)"
  by pat_completeness auto
termination by (relation "measure (\<lambda>(i, _). SYS_MAX_SEM_COUNT - i)") auto

declare alloc_slot_loop.simps [simp del]

definition alloc_sem_slot :: "sems \<Rightarrow> sems \<times> nat option" where
  "alloc_sem_slot s = alloc_slot_loop 0 s"

definition get_sem_by_id :: "uint \<Rightarrow> sems \<Rightarrow> sem_error + sems \<times> nat option" where
  "get_sem_by_id sid s =
     (let idx = unat (SEM_IDX sid) in
      if \<not> in_table idx then Inr (s, None)
      else if ss_lock s idx then Inl Sem_Spins
      else (case ss_table s idx of
              None \<Rightarrow> Inr (s, None)
            | Some a \<Rightarrow> if se_id (ss_sem s a) = sid then Inr (slot_lock idx True s, Some a) else Inr (s, None)))"

definition sem_lock :: "nat \<Rightarrow> sems \<Rightarrow> sem_error + sems" where
  "sem_lock a s =
     (if se_freed (ss_sem s a) then Inl Sem_Freed
      else if ss_lock s (se_slot (ss_sem s a)) then Inl Sem_Spins
      else Inr (slot_lock (se_slot (ss_sem s a)) True s))"

definition sem_unlock :: "nat \<Rightarrow> sems \<Rightarrow> sems" where
  "sem_unlock a s = slot_lock (se_slot (ss_sem s a)) False s"

section \<open>Waiting threads\<close>

definition sem_put_wcb :: "nat \<Rightarrow> nat \<Rightarrow> sems \<Rightarrow> sems" where
  "sem_put_wcb a t s = upd_sem a (\<lambda>se. se\<lparr>se_waiters := se_waiters se @ [t]\<rparr>) s"

definition sem_get_wcb :: "nat \<Rightarrow> sems \<Rightarrow> sems \<times> nat option" where
  "sem_get_wcb a s =
     (case se_waiters (ss_sem s a) of
        [] \<Rightarrow> (s, None) | t # ts \<Rightarrow> (upd_sem a (\<lambda>se. se\<lparr>se_waiters := ts\<rparr>) s, Some t))"

definition sem_peek_last_wcb :: "nat \<Rightarrow> sems \<Rightarrow> nat option" where
  "sem_peek_last_wcb a s = (case se_waiters (ss_sem s a) of [] \<Rightarrow> None | ts \<Rightarrow> Some (last ts))"

definition remove_wcb :: "nat \<Rightarrow> nat \<Rightarrow> sems \<Rightarrow> sem_error + sems" where
  "remove_wcb a t s =
     (if t \<notin> set (se_waiters (ss_sem s a)) then Inl Sem_Not_Linked
      else Inr (upd_sem a (\<lambda>se. se\<lparr>se_waiters := remove1 t (se_waiters se)\<rparr>) s))"

definition wake_thread :: "nat \<Rightarrow> sems \<Rightarrow> sem_error + sems" where
  "wake_thread t s = with_timer (with_sched (sched_add_thread t)) s"

definition sem_thread_callback :: "nat \<Rightarrow> sems \<Rightarrow> sem_error + sems" where
  "sem_thread_callback t s =
     (let a = wc_sem (ss_wcb s t) in
      and_then (sem_lock a s) (\<lambda>s1. and_then (remove_wcb a t s1) (\<lambda>s2. Inr (sem_unlock a s2))))"

definition sem_timeout_callback :: "nat \<Rightarrow> sems \<Rightarrow> sem_error + sems" where
  "sem_timeout_callback t s =
     (let a = wc_sem (ss_wcb s t) in
      and_then (sem_lock a s)
        (\<lambda>s1. let s2 = (if wc_err (ss_wcb s1 t) = NO_ERROR then upd_wcb t (\<lambda>w. w\<lparr>wc_err := ERR_SEM_TIMEOUT\<rparr>) s1 else s1)
              in and_then (remove_wcb a t s2)
                   (\<lambda>s3. and_then (wake_thread t s3) (\<lambda>s4. Inr (sem_unlock a s4)))))"

section \<open>Creation\<close>

definition reset_slots :: "'a \<Rightarrow> (nat \<Rightarrow> 'a) \<Rightarrow> nat \<Rightarrow> 'a" where
  "reset_slots v f = (\<lambda>i. if in_table i then v else f i)"

definition semaphores_init :: "sems \<Rightarrow> sems" where
  "semaphores_init s =
     s\<lparr>ss_table := reset_slots None (ss_table s), ss_lock := reset_slots False (ss_lock s), ss_next_gid := 1, ss_tree := []\<rparr>"

definition has_name :: "string option \<Rightarrow> bool" where
  "has_name name \<longleftrightarrow> name \<noteq> None \<and> name \<noteq> Some []"

text \<open>Up to the allocation of the slot; from here on the slot is locked while interrupts may be on.\<close>

definition sem_create_begin :: "string option \<Rightarrow> uint \<Rightarrow> uint \<Rightarrow> sems \<Rightarrow> sems \<times> nat option" where
  "sem_create_begin name max_count init_count s =
     (if has_name name \<and> SYS_MAX_OS_NAME_LEN < length (the name) \<or> max_count < init_count then (s, None)
      else alloc_sem_slot s)"

definition name_taken :: "nat \<Rightarrow> sems \<Rightarrow> bool" where
  "name_taken a s \<longleftrightarrow> List.find (\<lambda>b. se_name (ss_sem s b) = se_name (ss_sem s a)) (ss_tree s) \<noteq> None"

definition sem_create_end :: "bool \<Rightarrow> string option \<Rightarrow> uint \<Rightarrow> uint \<Rightarrow> uint \<Rightarrow> nat \<Rightarrow> sems \<Rightarrow> sem_error + sems \<times> uint" where
  "sem_create_end memory name max_count init_count owner slot s =
     (case create_sem_struct memory name s of
        (s1, None) \<Rightarrow> Inr (slot_lock slot False s1, INVALID_SEMID)
      | (s1, Some a) \<Rightarrow>
          (case proc_get_process_by_id owner s1 of
             (s2, None) \<Rightarrow> and_then (destroy_sem_struct a (slot_lock slot False s2)) (\<lambda>s3. Inr (s3, INVALID_SEMID))
           | (s2, Some p) \<Rightarrow>
               (let (gid, n) = get_next_gid (slot = 0) (ss_next_gid s2);
                    s3 = (upd_sem a (\<lambda>se. se\<lparr>se_id := SEM_ID_BUILD (of_nat slot) gid, se_slot := slot, se_proc := p,
                            se_max_count := max_count, se_count := init_count\<rparr>) s2)
                         \<lparr>ss_next_gid := n, ss_table := (ss_table s2)(slot := Some a)\<rparr>
                in if has_name name \<and> name_taken a s3
                   then and_then (destroy_sem_struct a (slot_lock slot False (s3\<lparr>ss_table := (ss_table s3)(slot := None)\<rparr>)))
                          (\<lambda>s4. Inr (proc_put_process p s4, INVALID_SEMID))
                   else
                     (let s4 = (if has_name name then s3\<lparr>ss_tree := a # ss_tree s3\<rparr> else s3);
                          s5 = s4\<lparr>ss_owned := (ss_owned s4)(p := ss_owned s4 p @ [a])\<rparr>
                      in Inr (proc_put_process p (slot_lock slot False s5), se_id (ss_sem s5 a))))))"

definition sem_create_ex :: "bool \<Rightarrow> string option \<Rightarrow> uint \<Rightarrow> uint \<Rightarrow> uint \<Rightarrow> sems \<Rightarrow> sem_error + sems \<times> uint" where
  "sem_create_ex memory name max_count init_count owner s =
     (case sem_create_begin name max_count init_count s of
        (s1, None) \<Rightarrow> Inr (s1, INVALID_SEMID)
      | (s1, Some slot) \<Rightarrow> sem_create_end memory name max_count init_count owner slot s1)"

definition sem_create :: "bool \<Rightarrow> string option \<Rightarrow> uint \<Rightarrow> uint \<Rightarrow> sems \<Rightarrow> sem_error + sems \<times> uint" where
  "sem_create memory name max_count init_count s =
     sem_create_ex memory name max_count init_count (proc_get_current_process_id s) s"

section \<open>Deletion\<close>

fun wake_deleted :: "nat list \<Rightarrow> nat \<Rightarrow> sems \<Rightarrow> sem_error + sems" where
  "wake_deleted [] a s = Inr s"
| "wake_deleted (t # ts) a s =
     and_then (wake_thread t (upd_wcb t (\<lambda>w. w\<lparr>wc_err := ERR_SEM_DELETED\<rparr>) (upd_sem a (\<lambda>se. se\<lparr>se_waiters := ts\<rparr>) s)))
       (wake_deleted ts a)"

definition sem_delete :: "uint \<Rightarrow> sems \<Rightarrow> sem_error + sems \<times> status" where
  "sem_delete sid s =
     and_then (get_sem_by_id sid s)
       (\<lambda>(s1, found). case found of
          None \<Rightarrow> Inr (s1, ERR_SEM_INVALID_HANDLE)
        | Some a \<Rightarrow>
            (let se = ss_sem s1 a in
             if se_name se \<noteq> None \<and> List.find (\<lambda>b. se_name (ss_sem s1 b) = se_name se) (ss_tree s1) \<noteq> Some a then Inl Sem_Tree_Failed
             else
               (let s2 = (if se_name se \<noteq> None then s1\<lparr>ss_tree := remove1 a (ss_tree s1)\<rparr> else s1);
                    s3 = s2\<lparr>ss_owned := (ss_owned s2)(se_proc se := remove1 a (ss_owned s2 (se_proc se)))\<rparr>;
                    s4 = sem_unlock a (s3\<lparr>ss_table := (ss_table s3)(unat (SEM_IDX sid) := None)\<rparr>)
                in and_then (wake_deleted (se_waiters (ss_sem s4 a)) a s4)
                     (\<lambda>s5. and_then (destroy_sem_struct a s5) (\<lambda>s6. Inr (s6, NO_ERROR))))))"

section \<open>Counting down\<close>

definition SEMF_TIMEOUT :: uint where "SEMF_TIMEOUT = 1"
definition SEMF_TRY :: uint where "SEMF_TRY = 2"

text \<open>The routine that the timer knows \<^verbatim>\<open>sem_timeout_callback\<close> by.\<close>

definition SEM_ROUTINE :: nat where "SEM_ROUTINE = 1"

text \<open>\<open>Inr (s, None)\<close>: the call has given up the processor.\<close>

definition down_finish :: "nat \<Rightarrow> sems \<Rightarrow> sems \<times> status option" where
  "down_finish t s =
     (let err = wc_err (ss_wcb s t); s1 = (if err \<noteq> ERR_SEM_DELETED then sem_unlock (wc_sem (ss_wcb s t)) s else s)
      in (leave_down t s1, Some err))"

definition down_register :: "nat \<Rightarrow> sems \<Rightarrow> sems" where
  "down_register t s =
     (let s1 = s\<lparr>ss_timer := set_next_state t THREAD_STATE_WAITING (ss_timer s), ss_term_cbs := (ss_term_cbs s)(t := ss_term_cbs s t @ [t])\<rparr>
      in sem_put_wcb (wc_sem (ss_wcb s1 t)) t s1)"

definition down_timeout :: "nat \<Rightarrow> down_frame \<Rightarrow> sems \<Rightarrow> sem_error + sems" where
  "down_timeout t fr s =
     (if df_flags fr AND SEMF_TIMEOUT = 0 then Inr s
      else (case timer_timeout_sched SEM_ROUTINE t (TIMER_MSEC_TO_TICKS (df_msec fr)) (ss_timer s) of
              Inl e \<Rightarrow> Inl (Sem_Timer e)
            | Inr (tm, tid) \<Rightarrow> Inr (upd_wcb t (\<lambda>w. w\<lparr>wc_timeout := tid\<rparr>) (s\<lparr>ss_timer := tm\<rparr>))))"

definition down_block :: "nat \<Rightarrow> down_frame \<Rightarrow> sems \<Rightarrow> sem_error + sems \<times> status option" where
  "down_block t fr s =
     (let s1 = sem_unlock (wc_sem (ss_wcb s t)) (enter_down t fr s)
      in and_then (with_timer thread_yield s1) (\<lambda>s2. Inr (s2, None)))"

text \<open>One round of the acquire loop, up to the point where the processor is given up.\<close>

definition down_round :: "nat \<Rightarrow> down_frame \<Rightarrow> sems \<Rightarrow> sem_error + sems \<times> status option" where
  "down_round t fr s =
     (let s1 = upd_wcb t (\<lambda>w. w\<lparr>wc_err := NO_ERROR, wc_timeout := INVALID_TIMEOUTID\<rparr>) s; a = wc_sem (ss_wcb s1 t)
      in if df_count fr \<le> se_count (ss_sem s1 a)
         then Inr (down_finish t (upd_sem a (\<lambda>se. se\<lparr>se_count := se_count se - df_count fr\<rparr>) s1))
         else if df_flags fr AND SEMF_TRY \<noteq> 0
         then Inr (down_finish t (upd_wcb t (\<lambda>w. w\<lparr>wc_err := ERR_SEM_TRY_FAILED\<rparr>) s1))
         else if ready_or_running (th_next_state (sc_threads (tm_sched (ss_timer s1)) t))
         then and_then (down_timeout t fr s1)
                (\<lambda>s2. if df_flags fr AND SEMF_TIMEOUT \<noteq> 0 \<and> wc_timeout (ss_wcb s2 t) = INVALID_TIMEOUTID
                      then Inr (down_finish t (upd_wcb t (\<lambda>w. w\<lparr>wc_err := ERR_SEM_GENERAL\<rparr>) s2))
                      else down_block t (fr\<lparr>df_registered := True\<rparr>) (down_register t s2))
         else down_block t (fr\<lparr>df_registered := False\<rparr>) s1)"

definition sem_down_ex :: "uint \<Rightarrow> uint \<Rightarrow> uint \<Rightarrow> uint \<Rightarrow> sems \<Rightarrow> sem_error + sems \<times> status option" where
  "sem_down_ex sid cnt timeout_msec flags s =
     and_then (get_sem_by_id sid s)
       (\<lambda>(s1, found). case found of
          None \<Rightarrow> Inr (s1, Some ERR_SEM_INVALID_HANDLE)
        | Some a \<Rightarrow>
            (let err = (if se_max_count (ss_sem s1 a) < cnt then ERR_SEM_INVALID_VALUE
                        else if timeout_msec = 0 \<and> flags AND SEMF_TIMEOUT \<noteq> 0 then ERR_SEM_TIMEOUT else NO_ERROR)
             in if err \<noteq> NO_ERROR \<or> cnt = 0 then Inr (sem_unlock a s1, Some err)
                else (let t = current s1
                      in down_round t \<lparr>df_count = cnt, df_msec = timeout_msec, df_flags = flags, df_registered = False\<rparr>
                           (upd_wcb t (\<lambda>w. w\<lparr>wc_sem := a, wc_count := cnt\<rparr>) s1))))"

definition sem_down :: "uint \<Rightarrow> uint \<Rightarrow> sems \<Rightarrow> sem_error + sems \<times> status option" where
  "sem_down sid cnt s = sem_down_ex sid cnt 0 0 s"

text \<open>
  After the thread got the processor back. A run lock that is found taken was left by an earlier
  cancellation, so the retry loop of \<^verbatim>\<open>timer_timeout_cancel_sync\<close> never ends.
\<close>

definition down_cancel :: "nat \<Rightarrow> sems \<Rightarrow> sem_error + sems" where
  "down_cancel t s =
     (if wc_timeout (ss_wcb s t) = INVALID_TIMEOUTID then Inr s
      else (case cancel_sync_round (wc_timeout (ss_wcb s t)) (ss_timer s) of
              (tm, retry) \<Rightarrow> if retry then Inl Sem_Spins else Inr (s\<lparr>ss_timer := tm\<rparr>)))"

definition sem_down_wakeup :: "sems \<Rightarrow> sem_error + sems \<times> status option" where
  "sem_down_wakeup s =
     (let t = current s in
      case map_of (ss_inside s) t of
        None \<Rightarrow> Inr (s, None)
      | Some fr \<Rightarrow>
          and_then (if wc_err (ss_wcb s t) \<noteq> ERR_SEM_DELETED then sem_lock (wc_sem (ss_wcb s t)) s else Inr s)
            (\<lambda>s1. let s2 = (if df_registered fr then s1\<lparr>ss_term_cbs := (ss_term_cbs s1)(t := remove1 t (ss_term_cbs s1 t))\<rparr> else s1)
                  in and_then (down_cancel t s2)
                       (\<lambda>s3. if wc_err (ss_wcb s3 t) \<noteq> NO_ERROR then Inr (down_finish t s3) else down_round t fr s3)))"

section \<open>Counting up\<close>

text \<open>The loop ends with the block that was the last one when it began; \<open>None\<close> would be a loop without end.\<close>

partial_function (option) up_loop :: "nat \<Rightarrow> nat \<Rightarrow> uint \<Rightarrow> sems \<Rightarrow> (sem_error + sems) option" where
  "up_loop a wcb_f curr_count s =
     (case sem_get_wcb a s of
        (s1, None) \<Rightarrow> Some (Inl Sem_Null)
      | (s1, Some t) \<Rightarrow>
          (case (if wc_count (ss_wcb s1 t) \<le> curr_count
                 then and_then (wake_thread t s1) (\<lambda>s2. Inr (s2, curr_count - wc_count (ss_wcb s1 t)))
                 else Inr (sem_put_wcb a t s1, curr_count)) of
             Inl e \<Rightarrow> Some (Inl e)
           | Inr (s2, curr') \<Rightarrow> if t = wcb_f then Some (Inr s2) else up_loop a wcb_f curr' s2))"

declare up_loop.simps [code]

definition sem_up :: "uint \<Rightarrow> uint \<Rightarrow> sems \<Rightarrow> (sem_error + sems \<times> status) option" where
  "sem_up sid cnt s =
     (case get_sem_by_id sid s of
        Inl e \<Rightarrow> Some (Inl e)
      | Inr (s1, None) \<Rightarrow> Some (Inr (s1, ERR_SEM_INVALID_HANDLE))
      | Inr (s1, Some a) \<Rightarrow>
          (let err = (if se_max_count (ss_sem s1 a) < se_count (ss_sem s1 a) + cnt then ERR_SEM_INVALID_VALUE else NO_ERROR)
           in if err \<noteq> NO_ERROR \<or> cnt = 0 then Some (Inr (sem_unlock a s1, err))
              else
                (let s2 = upd_sem a (\<lambda>se. se\<lparr>se_count := se_count se + cnt\<rparr>) s1
                 in case sem_peek_last_wcb a s2 of
                      None \<Rightarrow> Some (Inr (sem_unlock a s2, NO_ERROR))
                    | Some wcb_f \<Rightarrow>
                        map_option (\<lambda>r. and_then r (\<lambda>s3. Inr (sem_unlock a s3, NO_ERROR)))
                          (up_loop a wcb_f (se_count (ss_sem s2 a)) s2))))"

section \<open>Names and owners\<close>

definition sem_get_by_name :: "string \<Rightarrow> sems \<Rightarrow> uint" where
  "sem_get_by_name name s =
     (case List.find (\<lambda>a. se_name (ss_sem s a) = Some name) (ss_tree s) of
        None \<Rightarrow> INVALID_SEMID | Some a \<Rightarrow> se_id (ss_sem s a))"

definition sem_change_owner :: "uint \<Rightarrow> uint \<Rightarrow> sems \<Rightarrow> sem_error + sems \<times> status" where
  "sem_change_owner sid new_owner s =
     (case proc_get_process_by_id new_owner s of
        (s1, None) \<Rightarrow> Inr (s1, ERR_MT_INVALID_HANDLE)
      | (s1, Some p) \<Rightarrow>
          and_then (get_sem_by_id sid s1)
            (\<lambda>(s2, found). case found of
               None \<Rightarrow> Inr (proc_put_process p s2, ERR_SEM_INVALID_HANDLE)
             | Some a \<Rightarrow>
                 (let old = se_proc (ss_sem s2 a);
                      s3 = s2\<lparr>ss_owned := (ss_owned s2)(old := remove1 a (ss_owned s2 old))\<rparr>;
                      s4 = upd_sem a (\<lambda>se. se\<lparr>se_proc := p\<rparr>) (s3\<lparr>ss_owned := (ss_owned s3)(p := ss_owned s3 p @ [a])\<rparr>)
                  in Inr (proc_put_process p (sem_unlock a s4), NO_ERROR))))"

definition sem_get_owner :: "uint \<Rightarrow> sems \<Rightarrow> sem_error + sems \<times> uint" where
  "sem_get_owner sid s =
     and_then (get_sem_by_id sid s)
       (\<lambda>(s1, found). case found of
          None \<Rightarrow> Inr (s1, INVALID_PROCESSID)
        | Some a \<Rightarrow> Inr (sem_unlock a s1, ss_proc_id s1 (se_proc (ss_sem s1 a))))"

end
