(* ===== verification/Sem_Inv.thy ===== *)
theory Sem_Inv
  imports Sem
begin

text \<open>
  The invariant of the semaphores and the steps that keep it: waking and registering threads, the
  walk of \<^verbatim>\<open>sem_up\<close> over the waiters, and the parts of \<^verbatim>\<open>sem_down_ex\<close>. The operations are put into
  runs, in which a thread inside \<^verbatim>\<open>sem_down_ex\<close> does nothing else until it runs again (\<open>Wakeup\<close>).

  Two things are excluded from the runs because the code does not survive them: requests with a
  timeout, whose callback unlinks the control block of a thread that \<^verbatim>\<open>sem_up\<close> may already have
  taken out of the list, and the deletion of a semaphore that a woken thread has not reached yet.
\<close>

section \<open>Runs\<close>

datatype sem_op =
    Timer_Op timer_op | Create_Sem "string option" uint uint uint | Delete_Sem uint | Down uint uint uint | Wakeup
  | Up uint uint | Change_Owner uint uint

text \<open>Threads that were woken but have not run since, and those inside a call that go on with an error.\<close>

definition woken :: "sems \<Rightarrow> nat \<Rightarrow> nat list" where
  "woken s a = filter (\<lambda>t. wc_sem (ss_wcb s t) = a \<and> wc_err (ss_wcb s t) = NO_ERROR \<and> t \<notin> set (se_waiters (ss_sem s a)))
     (map fst (ss_inside s))"

fun sem_legal :: "sem_op \<Rightarrow> sems \<Rightarrow> bool" where
  "sem_legal (Timer_Op x) s \<longleftrightarrow> timer_legal x (ss_timer s) \<and>
     (x = Timer_Tick \<or> x = Busy_Tick \<or> x = Yield \<or> map_of (ss_inside s) (current s) = None)"
| "sem_legal (Down _ _ flags) s \<longleftrightarrow> sc_idle_thread (tm_sched (ss_timer s)) \<noteq> Some (current s) \<and>
     map_of (ss_inside s) (current s) = None \<and> flags AND SEMF_TIMEOUT = 0"
| "sem_legal Wakeup s \<longleftrightarrow> map_of (ss_inside s) (current s) \<noteq> None"
| "sem_legal (Delete_Sem sid) s \<longleftrightarrow> map_of (ss_inside s) (current s) = None \<and>
     (case ss_table s (unat (SEM_IDX sid)) of None \<Rightarrow> True | Some a \<Rightarrow> woken s a = [])"
| "sem_legal _ s \<longleftrightarrow> map_of (ss_inside s) (current s) = None"

fun sem_exec :: "sem_op \<Rightarrow> sems \<Rightarrow> sem_error + sems" where
  "sem_exec (Timer_Op x) s = with_timer (timer_exec x) s"
| "sem_exec (Create_Sem name max_count init_count owner) s =
     and_then (sem_create_ex True name max_count init_count owner s) (\<lambda>(s', _). Inr s')"
| "sem_exec (Delete_Sem sid) s = and_then (sem_delete sid s) (\<lambda>(s', _). Inr s')"
| "sem_exec (Down sid cnt flags) s = and_then (sem_down_ex sid cnt 0 flags s) (\<lambda>(s', _). Inr s')"
| "sem_exec Wakeup s = and_then (sem_down_wakeup s) (\<lambda>(s', _). Inr s')"
| "sem_exec (Up sid cnt) s = (case sem_up sid cnt s of None \<Rightarrow> Inl Sem_Spins | Some r \<Rightarrow> and_then r (\<lambda>(s', _). Inr s'))"
| "sem_exec (Change_Owner sid pid) s = and_then (sem_change_owner sid pid s) (\<lambda>(s', _). Inr s')"

fun sem_run :: "sem_op list \<Rightarrow> sems \<Rightarrow> sem_error + sems" where
  "sem_run [] s = Inr s"
| "sem_run (x # ops) s = (if sem_legal x s then and_then (sem_exec x s) (sem_run ops) else Inr s)"

section \<open>The invariant\<close>

definition live :: "sems \<Rightarrow> nat \<Rightarrow> bool" where
  "live s a \<longleftrightarrow> ss_table s (se_slot (ss_sem s a)) = Some a"

definition table_ok :: "sems \<Rightarrow> bool" where
  "table_ok s \<longleftrightarrow> (\<forall>j a. ss_table s j = Some a \<longrightarrow> j < SYS_MAX_SEM_COUNT \<and> a < ss_next_sem s \<and> \<not> se_freed (ss_sem s a) \<and>
     se_slot (ss_sem s a) = j \<and> unat (SEM_IDX (se_id (ss_sem s a))) = j \<and> se_count (ss_sem s a) \<le> se_max_count (ss_sem s a))"

definition tree_named :: "sems \<Rightarrow> bool" where
  "tree_named s \<longleftrightarrow> distinct (map (\<lambda>a. se_name (ss_sem s a)) (ss_tree s)) \<and>
     set (ss_tree s) = {a. live s a \<and> se_name (ss_sem s a) \<noteq> None}"

text \<open>\<open>X\<close> holds the threads that wait for a semaphore which is just being deleted.\<close>

definition waiter_ok :: "nat set \<Rightarrow> sems \<Rightarrow> bool" where
  "waiter_ok X s \<longleftrightarrow>
     (\<forall>a. live s a \<longrightarrow> distinct (se_waiters (ss_sem s a)) \<and>
        (\<forall>t \<in> set (se_waiters (ss_sem s a)). wc_sem (ss_wcb s t) = a \<and> wc_err (ss_wcb s t) = NO_ERROR \<and>
           t \<in> fst ` set (ss_inside s) \<and> t \<notin> X)) \<and>
     (\<forall>t. t \<in> waiting (tm_sched (ss_timer s)) \<longleftrightarrow> t \<in> X \<or> (\<exists>a. live s a \<and> t \<in> set (se_waiters (ss_sem s a))))"

definition inside_ok :: "nat \<Rightarrow> nat set \<Rightarrow> sems \<Rightarrow> bool" where
  "inside_ok i X s \<longleftrightarrow> distinct (map fst (ss_inside s)) \<and> X \<subseteq> fst ` set (ss_inside s) \<and>
     (\<forall>(t, fr) \<in> set (ss_inside s). t \<noteq> i \<and> df_flags fr AND SEMF_TIMEOUT = 0 \<and> df_flags fr AND SEMF_TRY = 0 \<and>
        wc_timeout (ss_wcb s t) = INVALID_TIMEOUTID \<and> df_count fr = wc_count (ss_wcb s t) \<and>
        (t \<in> X \<or> wc_err (ss_wcb s t) = NO_ERROR \<and> live s (wc_sem (ss_wcb s t)) \<or> wc_err (ss_wcb s t) = ERR_SEM_DELETED))"

definition cinv :: "nat \<Rightarrow> nat set \<Rightarrow> sems \<Rightarrow> bool" where
  "cinv i X s \<longleftrightarrow> tinv i (ss_timer s) \<and> table_ok s \<and> tree_named s \<and> waiter_ok X s \<and> inside_ok i X s"

definition seminv :: "nat \<Rightarrow> sems \<Rightarrow> bool" where
  "seminv i s \<longleftrightarrow> cinv i {} s \<and> (\<forall>j. \<not> ss_lock s j)"

lemma cinvD:
  assumes "cinv i X s"
  shows "tinv i (ss_timer s)" "table_ok s" "tree_named s" "waiter_ok X s" "inside_ok i X s"
  using assms by (auto simp: cinv_def)

lemma table_live: "table_ok s \<Longrightarrow> ss_table s j = Some a \<Longrightarrow> live s a \<and> se_slot (ss_sem s a) = j"
  by (auto simp: table_ok_def live_def)

lemma table_okD:
  assumes "table_ok s" "live s a"
  shows "a < ss_next_sem s" "\<not> se_freed (ss_sem s a)" "unat (SEM_IDX (se_id (ss_sem s a))) = se_slot (ss_sem s a)"
    "se_count (ss_sem s a) \<le> se_max_count (ss_sem s a)" "se_slot (ss_sem s a) < 8192"
proof -
  have "ss_table s (se_slot (ss_sem s a)) = Some a" using assms(2) by (simp add: live_def)
  from assms(1) [unfolded table_ok_def, rule_format, OF this]
  show "a < ss_next_sem s" "\<not> se_freed (ss_sem s a)" "unat (SEM_IDX (se_id (ss_sem s a))) = se_slot (ss_sem s a)"
    "se_count (ss_sem s a) \<le> se_max_count (ss_sem s a)" "se_slot (ss_sem s a) < 8192" by simp_all
qed

lemma waiter_okD:
  assumes "waiter_ok X s" "live s a"
  shows "distinct (se_waiters (ss_sem s a))"
    "t \<in> set (se_waiters (ss_sem s a)) \<Longrightarrow> wc_sem (ss_wcb s t) = a \<and> wc_err (ss_wcb s t) = NO_ERROR \<and> t \<in> fst ` set (ss_inside s) \<and>
       t \<notin> X \<and> t \<in> waiting (tm_sched (ss_timer s))"
  using assms by (auto simp: waiter_ok_def)

lemma inside_okD:
  assumes "inside_ok i X s" "map_of (ss_inside s) t = Some fr"
  shows "t \<noteq> i" "df_flags fr AND SEMF_TIMEOUT = 0" "df_flags fr AND SEMF_TRY = 0" "wc_timeout (ss_wcb s t) = INVALID_TIMEOUTID"
    "df_count fr = wc_count (ss_wcb s t)"
    "t \<in> X \<or> wc_err (ss_wcb s t) = NO_ERROR \<and> live s (wc_sem (ss_wcb s t)) \<or> wc_err (ss_wcb s t) = ERR_SEM_DELETED"
  using assms(1) map_of_SomeD [OF assms(2)] by (auto simp: inside_ok_def)

text \<open>Changes that the invariant does not see: locks, reference counts, owners, termination callbacks.\<close>

definition same_core :: "sems \<Rightarrow> sems \<Rightarrow> bool" where
  "same_core s s' \<longleftrightarrow> ss_timer s' = ss_timer s \<and> ss_sem s' = ss_sem s \<and> ss_table s' = ss_table s \<and> ss_tree s' = ss_tree s \<and>
     ss_wcb s' = ss_wcb s \<and> ss_inside s' = ss_inside s \<and> ss_next_sem s' = ss_next_sem s"

lemma cinv_same_core: "same_core s s' \<Longrightarrow> cinv i X s' \<longleftrightarrow> cinv i X s"
  by (simp add: same_core_def cinv_def table_ok_def tree_named_def waiter_ok_def inside_ok_def live_def)

lemma cinv_unseen [simp]:
  "cinv i X (slot_lock j b s) = cinv i X s" "cinv i X (sem_unlock a s) = cinv i X s" "cinv i X (proc_put_process p s) = cinv i X s"
  "cinv i X (s\<lparr>ss_term_cbs := f\<rparr>) = cinv i X s" "cinv i X (s\<lparr>ss_owned := g\<rparr>) = cinv i X s" "cinv i X (s\<lparr>ss_next_gid := n\<rparr>) = cinv i X s"
  by (intro cinv_same_core; simp add: same_core_def slot_lock_def sem_unlock_def proc_put_process_def)+

text \<open>A change of one semaphore that keeps its place, its name and its waiters.\<close>

lemma cinv_upd_sem:
  assumes inv: "cinv i X s" and f: "se_slot (f (ss_sem s a)) = se_slot (ss_sem s a)" "se_id (f (ss_sem s a)) = se_id (ss_sem s a)"
    "se_name (f (ss_sem s a)) = se_name (ss_sem s a)" "se_waiters (f (ss_sem s a)) = se_waiters (ss_sem s a)"
    and c: "live s a \<Longrightarrow> \<not> se_freed (f (ss_sem s a)) \<and> se_count (f (ss_sem s a)) \<le> se_max_count (f (ss_sem s a))"
  shows "cinv i X (upd_sem a f s)"
proof -
  let ?s = "upd_sem a f s"
  have eq: "se_slot (ss_sem ?s b) = se_slot (ss_sem s b)" "se_id (ss_sem ?s b) = se_id (ss_sem s b)"
    "se_name (ss_sem ?s b) = se_name (ss_sem s b)" "se_waiters (ss_sem ?s b) = se_waiters (ss_sem s b)" for b
    using f by (simp_all add: upd_sem_def)
  have fields: "ss_timer ?s = ss_timer s" "ss_table ?s = ss_table s" "ss_tree ?s = ss_tree s" "ss_wcb ?s = ss_wcb s"
    "ss_inside ?s = ss_inside s" "ss_next_sem ?s = ss_next_sem s" by (simp_all add: upd_sem_def)
  have lv: "live ?s b = live s b" for b by (simp add: live_def eq fields)
  have "\<not> se_freed (ss_sem ?s b) \<and> se_count (ss_sem ?s b) \<le> se_max_count (ss_sem ?s b)" if "live s b" for b
    using c that table_okD(2,4) [OF cinvD(2) [OF inv] that] by (cases "b = a") (simp_all add: upd_sem_def)
  then have "table_ok ?s" using cinvD(2) [OF inv] table_live [OF cinvD(2) [OF inv]] by (auto simp: table_ok_def eq fields)
  then show ?thesis using inv by (simp add: cinv_def tree_named_def waiter_ok_def inside_ok_def lv eq fields)
qed

text \<open>A change of the timer and the scheduler that leaves the waiting threads alone.\<close>

lemma cinv_timer:
  assumes "cinv i X s" "tinv i tm" "waiting (tm_sched tm) = waiting (tm_sched (ss_timer s))"
  shows "cinv i X (s\<lparr>ss_timer := tm\<rparr>)"
proof -
  let ?s = "s\<lparr>ss_timer := tm\<rparr>"
  have "table_ok ?s = table_ok s" "tree_named ?s = tree_named s" "inside_ok i X ?s = inside_ok i X s"
    by (simp_all add: table_ok_def tree_named_def inside_ok_def live_def)
  moreover have "waiter_ok X ?s = waiter_ok X s" by (simp add: waiter_ok_def live_def assms(3))
  ultimately show ?thesis using assms(1,2) by (simp add: cinv_def)
qed

lemma timer_exec_waiting:
  assumes "tinv i tm" "timer_legal x tm"
  shows "\<exists>tm'. timer_exec x tm = Inr tm' \<and> tinv i tm' \<and> waiting (tm_sched tm') = waiting (tm_sched tm)"
  using timer_exec_ok [OF assms] by (auto simp: keeps_def ticked_def)

lemma get_sem_cases:
  assumes inv: "seminv i s"
  obtains (none) "get_sem_by_id sid s = Inr (s, None)"
    | (some) a where "get_sem_by_id sid s = Inr (slot_lock (se_slot (ss_sem s a)) True s, Some a)" "live s a"
        "ss_table s (unat (SEM_IDX sid)) = Some a" "se_id (ss_sem s a) = sid"
proof (cases "ss_table s (unat (SEM_IDX sid))")
  case None
  then show ?thesis using inv that(1) by (simp add: get_sem_by_id_def Let_def seminv_def)
next
  case (Some a)
  have t: "table_ok s" using inv by (simp add: seminv_def cinv_def)
  note l = table_live [OF t Some]
  show ?thesis
  proof (cases "se_id (ss_sem s a) = sid")
    case True
    have "unat (SEM_IDX sid) < 8192" using table_okD(5) [OF t, of a] l by simp
    then show ?thesis using inv True Some l that(2) [of a] by (simp add: get_sem_by_id_def Let_def seminv_def)
  next
    case False
    then show ?thesis using inv Some that(1) by (simp add: get_sem_by_id_def Let_def seminv_def)
  qed
qed

section \<open>Waking threads\<close>

lemma upd_sem_simps [simp]:
  "ss_timer (upd_sem a f s) = ss_timer s" "ss_wcb (upd_sem a f s) = ss_wcb s" "ss_inside (upd_sem a f s) = ss_inside s"
  "ss_lock (upd_sem a f s) = ss_lock s" "ss_table (upd_sem a f s) = ss_table s" "ss_tree (upd_sem a f s) = ss_tree s"
  "ss_next_sem (upd_sem a f s) = ss_next_sem s"
  by (simp_all add: upd_sem_def)

lemma upd_sem_at [simp]: "ss_sem (upd_sem a f s) a = f (ss_sem s a)" "b \<noteq> a \<Longrightarrow> ss_sem (upd_sem a f s) b = ss_sem s b"
  by (simp_all add: upd_sem_def)

lemma upd_waiters [simp]:
  "se_slot (ss_sem (upd_sem a (\<lambda>se. se\<lparr>se_waiters := ws\<rparr>) s) b) = se_slot (ss_sem s b)"
  "se_id (ss_sem (upd_sem a (\<lambda>se. se\<lparr>se_waiters := ws\<rparr>) s) b) = se_id (ss_sem s b)"
  "se_name (ss_sem (upd_sem a (\<lambda>se. se\<lparr>se_waiters := ws\<rparr>) s) b) = se_name (ss_sem s b)"
  "se_freed (ss_sem (upd_sem a (\<lambda>se. se\<lparr>se_waiters := ws\<rparr>) s) b) = se_freed (ss_sem s b)"
  "se_count (ss_sem (upd_sem a (\<lambda>se. se\<lparr>se_waiters := ws\<rparr>) s) b) = se_count (ss_sem s b)"
  "se_max_count (ss_sem (upd_sem a (\<lambda>se. se\<lparr>se_waiters := ws\<rparr>) s) b) = se_max_count (ss_sem s b)"
  "se_waiters (ss_sem (upd_sem a (\<lambda>se. se\<lparr>se_waiters := ws\<rparr>) s) b) = (if b = a then ws else se_waiters (ss_sem s b))"
  by (simp_all add: upd_sem_def)

lemma live_upd_sem [simp]:
  "live (upd_sem a (\<lambda>se. se\<lparr>se_waiters := ws\<rparr>) s) b = live s b" "live (s\<lparr>ss_timer := tm\<rparr>) b = live s b"
  "live (upd_sem a (\<lambda>se. se\<lparr>se_count := c\<rparr>) s) b = live s b"
  by (simp_all add: live_def upd_sem_def)

lemma wake_tinv:
  assumes inv: "tinv i tm" and t: "t \<in> waiting (tm_sched tm)"
  shows "\<exists>tm'. with_sched (sched_add_thread t) tm = Inr tm' \<and> tinv i tm' \<and> waiting (tm_sched tm') = waiting (tm_sched tm) - {t} \<and>
    sc_current (tm_sched tm') = sc_current (tm_sched tm) \<and> queued (tm_sched tm') t"
proof -
  have st: "th_state (sc_threads (tm_sched tm) t) = THREAD_STATE_WAITING" using t by (simp add: in_state_def)
  from sinv_add [OF tinvD(1) [OF inv], of t] st obtain s' where
    s': "sched_add_thread t (tm_sched tm) = Inr s'" "sinv i s'" "queued s' t" "\<forall>st. parked st \<longrightarrow> in_state st s' = in_state st (tm_sched tm) - {t}"
      "sc_current s' = sc_current (tm_sched tm)" by auto
  have "sleepers s' = sleepers (tm_sched tm)" using s'(4) st by (auto simp: in_state_def)
  then have "tinv i (tm\<lparr>tm_sched := s'\<rparr>)" using inv s'(2) by (simp add: tinv_def)
  moreover have "waiting s' = waiting (tm_sched tm) - {t}" using s'(4) by simp
  ultimately show ?thesis using s'(1,3,5) by (auto simp: with_sched_def)
qed

text \<open>Some of the waiters of a semaphore leave the list, the others keep their place or move.\<close>

lemma cinv_waiters:
  assumes inv: "cinv i X s" and a: "live s a" and tm: "tinv i tm"
    "waiting (tm_sched tm) = waiting (tm_sched (ss_timer s)) - (set (se_waiters (ss_sem s a)) - set ws)"
    and ws: "distinct ws" "set ws \<subseteq> set (se_waiters (ss_sem s a))"
  shows "cinv i X ((upd_sem a (\<lambda>se. se\<lparr>se_waiters := ws\<rparr>) s)\<lparr>ss_timer := tm\<rparr>)"
proof -
  let ?s = "(upd_sem a (\<lambda>se. se\<lparr>se_waiters := ws\<rparr>) s)\<lparr>ss_timer := tm\<rparr>"
  note I = cinvD [OF inv]
  have lv: "live ?s b = live s b" for b by simp
  have rest: "table_ok ?s" "tree_named ?s" "inside_ok i X ?s"
    using I by (simp_all add: table_ok_def tree_named_def inside_ok_def lv)
  have "t \<in> waiting (tm_sched tm) \<longleftrightarrow> t \<in> X \<or> (\<exists>b. live s b \<and> t \<in> set (if b = a then ws else se_waiters (ss_sem s b)))" for t
  proof -
    have w: "t \<in> waiting (tm_sched (ss_timer s)) \<longleftrightarrow> t \<in> X \<or> (\<exists>b. live s b \<and> t \<in> set (se_waiters (ss_sem s b)))"
      using I(4) by (simp add: waiter_ok_def)
    show ?thesis
    proof (cases "t \<in> set (se_waiters (ss_sem s a))")
      case True
      note W = waiter_okD(2) [OF I(4) a True]
      have "b = a" if "live s b" "t \<in> set (se_waiters (ss_sem s b))" for b using W waiter_okD(2) [OF I(4) that] by simp
      then have "live s b \<and> t \<in> set (if b = a then ws else se_waiters (ss_sem s b)) \<longleftrightarrow> b = a \<and> t \<in> set ws" for b using a by (cases "b = a") auto
      then have "(\<exists>b. live s b \<and> t \<in> set (if b = a then ws else se_waiters (ss_sem s b))) \<longleftrightarrow> t \<in> set ws" by simp
      moreover have "t \<in> waiting (tm_sched tm) \<longleftrightarrow> t \<in> set ws" unfolding tm(2) using W True by blast
      ultimately show ?thesis using W by blast
    next
      case False
      then have e: "t \<in> set (if b = a then ws else se_waiters (ss_sem s b)) \<longleftrightarrow> t \<in> set (se_waiters (ss_sem s b))" for b using ws(2) by auto
      moreover have "t \<in> waiting (tm_sched tm) \<longleftrightarrow> t \<in> waiting (tm_sched (ss_timer s))" unfolding tm(2) using False by blast
      ultimately show ?thesis unfolding e using w by blast
    qed
  qed
  moreover have "distinct (se_waiters (ss_sem ?s b)) \<and> (\<forall>t \<in> set (se_waiters (ss_sem ?s b)). wc_sem (ss_wcb s t) = b \<and>
      wc_err (ss_wcb s t) = NO_ERROR \<and> t \<in> fst ` set (ss_inside s) \<and> t \<notin> X)" if "live s b" for b
    using waiter_okD [OF I(4) that] ws by auto
  ultimately have "waiter_ok X ?s" by (simp add: waiter_ok_def lv)
  then show ?thesis using rest tm(1) by (simp add: cinv_def)
qed

text \<open>Granting a count to waiters in the order of the list.\<close>

fun grant :: "(nat \<Rightarrow> uint) \<Rightarrow> uint \<Rightarrow> nat list \<Rightarrow> nat list \<times> nat list" where
  "grant w c [] = ([], [])"
| "grant w c (t # ts) =
     (if w t \<le> c then (case grant w (c - w t) ts of (gs, rs) \<Rightarrow> (t # gs, rs)) else (case grant w c ts of (gs, rs) \<Rightarrow> (gs, t # rs)))"

lemma grant_mset: "grant w c ts = (gs, rs) \<Longrightarrow> mset ts = mset gs + mset rs"
  by (induction w c ts arbitrary: gs rs rule: grant.induct) (auto split: if_splits prod.splits)

lemma grant_set: "grant w c ts = (gs, rs) \<Longrightarrow> set ts = set gs \<union> set rs"
  using grant_mset [of w c ts gs rs] by (metis set_mset_mset set_mset_union)

lemma grant_distinct: "grant w c ts = (gs, rs) \<Longrightarrow> distinct ts \<Longrightarrow> distinct gs \<and> distinct rs \<and> set gs \<inter> set rs = {}"
  using grant_mset [of w c ts gs rs] by (metis distinct_append mset_append mset_eq_imp_distinct_iff)

section \<open>Counting up\<close>

lemma up_step_keep:
  assumes "se_waiters (ss_sem s a) = t # ts" "\<not> wc_count (ss_wcb s t) \<le> c"
  shows "up_loop a f c s = (let s1 = upd_sem a (\<lambda>se. se\<lparr>se_waiters := ts @ [t]\<rparr>) s in if t = f then Some (Inr s1) else up_loop a f c s1)"
  using assms by (subst up_loop.simps) (simp add: sem_get_wcb_def sem_put_wcb_def upd_sem_def Let_def fun_upd_def cong: if_cong)

lemma up_step_wake:
  assumes "se_waiters (ss_sem s a) = t # ts" "wc_count (ss_wcb s t) \<le> c" "with_sched (sched_add_thread t) (ss_timer s) = Inr tm"
  shows "up_loop a f c s = (let s1 = (upd_sem a (\<lambda>se. se\<lparr>se_waiters := ts\<rparr>) s)\<lparr>ss_timer := tm\<rparr> in
    if t = f then Some (Inr s1) else up_loop a f (c - wc_count (ss_wcb s t)) s1)"
  using assms by (subst up_loop.simps) (simp add: sem_get_wcb_def upd_sem_def wake_thread_def with_timer_def Let_def)

lemma upd_sem_waiters_twice:
  "upd_sem a (\<lambda>se. se\<lparr>se_waiters := ws'\<rparr>) ((upd_sem a (\<lambda>se. se\<lparr>se_waiters := ws\<rparr>) s)\<lparr>ss_timer := tm\<rparr>) =
   (upd_sem a (\<lambda>se. se\<lparr>se_waiters := ws'\<rparr>) s)\<lparr>ss_timer := tm\<rparr>"
  "upd_sem a (\<lambda>se. se\<lparr>se_waiters := ws'\<rparr>) (upd_sem a (\<lambda>se. se\<lparr>se_waiters := ws\<rparr>) s) = upd_sem a (\<lambda>se. se\<lparr>se_waiters := ws'\<rparr>) s"
  by (cases s, simp add: upd_sem_def)+

lemma up_loop_ok:
  assumes "cinv i X s" "live s a" "se_waiters (ss_sem s a) = xs @ f # ys" "grant (\<lambda>t. wc_count (ss_wcb s t)) c (xs @ [f]) = (gs, rs)"
  shows "\<exists>tm. up_loop a f c s = Some (Inr ((upd_sem a (\<lambda>se. se\<lparr>se_waiters := ys @ rs\<rparr>) s)\<lparr>ss_timer := tm\<rparr>)) \<and>
    cinv i X ((upd_sem a (\<lambda>se. se\<lparr>se_waiters := ys @ rs\<rparr>) s)\<lparr>ss_timer := tm\<rparr>) \<and>
    sc_current (tm_sched tm) = sc_current (tm_sched (ss_timer s))"
  using assms
proof (induction xs arbitrary: s c ys gs rs)
  case Nil
  have d: "f \<notin> set ys" "distinct ys" using waiter_okD(1) [OF cinvD(4) [OF Nil.prems(1)] Nil.prems(2)] Nil.prems(3) by auto
  show ?case
  proof (cases "wc_count (ss_wcb s f) \<le> c")
    case True
    then have rs: "rs = []" using Nil.prems(4) by simp
    have "f \<in> waiting (tm_sched (ss_timer s))" using waiter_okD(2) [OF cinvD(4) [OF Nil.prems(1)] Nil.prems(2), of f] Nil.prems(3) by simp
    from wake_tinv [OF cinvD(1) [OF Nil.prems(1)] this] obtain tm where
      tm: "with_sched (sched_add_thread f) (ss_timer s) = Inr tm" "tinv i tm" "waiting (tm_sched tm) = waiting (tm_sched (ss_timer s)) - {f}"
        "sc_current (tm_sched tm) = sc_current (tm_sched (ss_timer s))" by blast
    have "cinv i X ((upd_sem a (\<lambda>se. se\<lparr>se_waiters := ys\<rparr>) s)\<lparr>ss_timer := tm\<rparr>)"
      by (rule cinv_waiters [OF Nil.prems(1,2) tm(2)]) (use tm(3) d Nil.prems(3) in auto)
    then show ?thesis using up_step_wake [OF _ True tm(1), of a ys f] Nil.prems(3) tm(4) by (auto simp: Let_def rs)
  next
    case False
    then have rs: "rs = [f]" using Nil.prems(4) by simp
    have "cinv i X ((upd_sem a (\<lambda>se. se\<lparr>se_waiters := ys @ [f]\<rparr>) s)\<lparr>ss_timer := ss_timer s\<rparr>)"
      by (rule cinv_waiters [OF Nil.prems(1,2) cinvD(1) [OF Nil.prems(1)]]) (use d Nil.prems(3) in auto)
    then show ?thesis using up_step_keep [OF _ False, of a ys f] Nil.prems(3)
      by (intro exI [of _ "ss_timer s"]) (simp add: Let_def rs upd_sem_def)
  qed
next
  case (Cons t xs)
  let ?w = "\<lambda>t. wc_count (ss_wcb s t)"
  have d: "distinct (t # xs @ f # ys)" using waiter_okD(1) [OF cinvD(4) [OF Cons.prems(1)] Cons.prems(2)] Cons.prems(3) by simp
  show ?case
  proof (cases "?w t \<le> c")
    case True
    then obtain gs' where g: "grant ?w (c - ?w t) (xs @ [f]) = (gs', rs)" using Cons.prems(4) by (auto split: prod.splits)
    have "t \<in> waiting (tm_sched (ss_timer s))" using waiter_okD(2) [OF cinvD(4) [OF Cons.prems(1)] Cons.prems(2), of t] Cons.prems(3) by simp
    from wake_tinv [OF cinvD(1) [OF Cons.prems(1)] this] obtain tm where
      tm: "with_sched (sched_add_thread t) (ss_timer s) = Inr tm" "tinv i tm" "waiting (tm_sched tm) = waiting (tm_sched (ss_timer s)) - {t}"
        "sc_current (tm_sched tm) = sc_current (tm_sched (ss_timer s))" by blast
    let ?s = "(upd_sem a (\<lambda>se. se\<lparr>se_waiters := xs @ f # ys\<rparr>) s)\<lparr>ss_timer := tm\<rparr>"
    have "cinv i X ?s" by (rule cinv_waiters [OF Cons.prems(1,2) tm(2)]) (use tm(3) d Cons.prems(3) in auto)
    from Cons.IH [OF this, of ys "c - ?w t" gs' rs] g Cons.prems(2)
    show ?thesis using up_step_wake [OF _ True tm(1), of a "xs @ f # ys" f] Cons.prems(3) d tm(4)
      by (auto simp: Let_def upd_sem_waiters_twice)
  next
    case False
    then obtain rs' where g: "grant ?w c (xs @ [f]) = (gs, rs')" "rs = t # rs'" using Cons.prems(4) by (auto split: prod.splits)
    let ?s = "upd_sem a (\<lambda>se. se\<lparr>se_waiters := xs @ f # ys @ [t]\<rparr>) s"
    have "cinv i X (?s\<lparr>ss_timer := ss_timer s\<rparr>)"
      by (rule cinv_waiters [OF Cons.prems(1,2) cinvD(1) [OF Cons.prems(1)]]) (use d Cons.prems(3) in auto)
    then have "cinv i X ?s" by (simp add: upd_sem_def)
    from Cons.IH [OF this, of "ys @ [t]" c gs rs'] g Cons.prems(2)
    show ?thesis using up_step_keep [OF _ False, of a "xs @ f # ys" f] Cons.prems(3) d by (auto simp: Let_def upd_sem_waiters_twice)
  qed
qed

text \<open>Locks.\<close>

lemma unlock_lock [simp]:
  "ss_lock (sem_unlock a s) j = (j \<noteq> se_slot (ss_sem s a) \<and> ss_lock s j)" "ss_lock (slot_lock k b s) j = (if j = k then b else ss_lock s j)"
  by (auto simp: sem_unlock_def slot_lock_def)

lemma slot_lock_simps [simp]:
  "ss_sem (slot_lock k b s) = ss_sem s" "ss_wcb (slot_lock k b s) = ss_wcb s" "ss_inside (slot_lock k b s) = ss_inside s"
  "ss_timer (slot_lock k b s) = ss_timer s" "ss_table (slot_lock k b s) = ss_table s" "ss_tree (slot_lock k b s) = ss_tree s"
  "ss_next_sem (slot_lock k b s) = ss_next_sem s" "ss_next_gid (slot_lock k b s) = ss_next_gid s" "ss_procs (slot_lock k b s) = ss_procs s"
  "ss_sem (sem_unlock a s) = ss_sem s" "ss_wcb (sem_unlock a s) = ss_wcb s" "ss_inside (sem_unlock a s) = ss_inside s"
  "ss_timer (sem_unlock a s) = ss_timer s" "ss_table (sem_unlock a s) = ss_table s" "ss_tree (sem_unlock a s) = ss_tree s"
  "ss_next_sem (sem_unlock a s) = ss_next_sem s"
  by (simp_all add: sem_unlock_def slot_lock_def)

lemma live_lock [simp]: "live (slot_lock k b s) a = live s a" "live (sem_unlock c s) a = live s a"
  by (simp_all add: live_def)

lemma seminvD:
  assumes "seminv i s"
  shows "cinv i {} s" "\<not> ss_lock s j"
  using assms by (auto simp: seminv_def)

lemma seminv_unlock: "cinv i {} s \<Longrightarrow> (\<And>j. ss_lock s j \<Longrightarrow> j = se_slot (ss_sem s a)) \<Longrightarrow> seminv i (sem_unlock a s)"
  by (auto simp: seminv_def)

section \<open>Counting up\<close>

text \<open>Everything but the counter, the waiters and the scheduler stays as it is.\<close>

definition counted :: "nat \<Rightarrow> uint \<Rightarrow> nat list \<Rightarrow> sems \<Rightarrow> sems \<Rightarrow> bool" where
  "counted a c ws s s' \<longleftrightarrow> ss_sem s' = (ss_sem s)(a := (ss_sem s a)\<lparr>se_count := c, se_waiters := ws\<rparr>) \<and> ss_wcb s' = ss_wcb s \<and>
     ss_inside s' = ss_inside s \<and> ss_table s' = ss_table s \<and> ss_tree s' = ss_tree s \<and> ss_lock s' = ss_lock s \<and>
     current s' = current s"

definition granted :: "nat \<Rightarrow> uint \<Rightarrow> sems \<Rightarrow> nat list \<times> nat list" where
  "granted a c s = grant (\<lambda>t. wc_count (ss_wcb s t)) c (se_waiters (ss_sem s a))"

lemma up_walk:
  assumes inv: "cinv i {} s" and a: "live s a"
  shows "\<exists>s'. (case sem_peek_last_wcb a s of
        None \<Rightarrow> Some (Inr (sem_unlock a s, NO_ERROR))
      | Some wcb_f \<Rightarrow> map_option (\<lambda>r. and_then r (\<lambda>s3. Inr (sem_unlock a s3, NO_ERROR))) (up_loop a wcb_f c s)) =
        Some (Inr (sem_unlock a s', NO_ERROR)) \<and> cinv i {} s' \<and> counted a (se_count (ss_sem s a)) (snd (grant (\<lambda>t. wc_count (ss_wcb s t)) c (se_waiters (ss_sem s a)))) s s'"
proof (cases "se_waiters (ss_sem s a)" rule: rev_cases)
  case Nil
  then have "(ss_sem s a)\<lparr>se_waiters := []\<rparr> = ss_sem s a" by (cases "ss_sem s a") simp
  then have "counted a (se_count (ss_sem s a)) [] s s" by (simp add: counted_def)
  then show ?thesis using Nil inv by (auto simp: sem_peek_last_wcb_def)
next
  case (snoc xs f)
  obtain gs rs where g: "grant (\<lambda>t. wc_count (ss_wcb s t)) c (xs @ [f]) = (gs, rs)" by (cases "grant (\<lambda>t. wc_count (ss_wcb s t)) c (xs @ [f])")
  have p: "sem_peek_last_wcb a s = Some f" using snoc by (cases xs) (simp_all add: sem_peek_last_wcb_def)
  from up_loop_ok [OF inv a, of xs f "[]" c gs rs] snoc g obtain tm where
    "up_loop a f c s = Some (Inr ((upd_sem a (\<lambda>se. se\<lparr>se_waiters := rs\<rparr>) s)\<lparr>ss_timer := tm\<rparr>))"
    "cinv i {} ((upd_sem a (\<lambda>se. se\<lparr>se_waiters := rs\<rparr>) s)\<lparr>ss_timer := tm\<rparr>)" "sc_current (tm_sched tm) = current s" by auto
  then show ?thesis using p snoc g
    by (intro exI [of _ "(upd_sem a (\<lambda>se. se\<lparr>se_waiters := rs\<rparr>) s)\<lparr>ss_timer := tm\<rparr>"]) (simp add: counted_def upd_sem_def)
qed

lemma sem_up_found:
  assumes inv: "seminv i s" and a: "live s a" and id: "ss_table s (unat (SEM_IDX sid)) = Some a" "se_id (ss_sem s a) = sid"
    and g: "get_sem_by_id sid s = Inr (slot_lock (se_slot (ss_sem s a)) True s, Some a)"
    and ok: "se_count (ss_sem s a) + cnt \<le> se_max_count (ss_sem s a)" "cnt \<noteq> 0"
  shows "\<exists>s'. sem_up sid cnt s = Some (Inr (s', NO_ERROR)) \<and> seminv i s' \<and>
    counted a (se_count (ss_sem s a) + cnt) (snd (granted a (se_count (ss_sem s a) + cnt) s)) s s'"
proof -
  let ?s1 = "slot_lock (se_slot (ss_sem s a)) True s"
  let ?c = "se_count (ss_sem s a) + cnt"
  let ?s2 = "upd_sem a (\<lambda>se. se\<lparr>se_count := se_count se + cnt\<rparr>) ?s1"
  have "cinv i {} ?s2" by (rule cinv_upd_sem) (use seminvD(1) [OF inv] ok table_okD(2) [OF cinvD(2) [OF seminvD(1) [OF inv]] a] in simp_all)
  moreover have "live ?s2 a" using a by (simp add: live_def)
  ultimately obtain s' where s': "(case sem_peek_last_wcb a ?s2 of
        None \<Rightarrow> Some (Inr (sem_unlock a ?s2, NO_ERROR))
      | Some wcb_f \<Rightarrow> map_option (\<lambda>r. and_then r (\<lambda>s3. Inr (sem_unlock a s3, NO_ERROR))) (up_loop a wcb_f (se_count (ss_sem ?s2 a)) ?s2)) =
        Some (Inr (sem_unlock a s', NO_ERROR))" "cinv i {} s'"
      "counted a (se_count (ss_sem ?s2 a)) (snd (grant (\<lambda>t. wc_count (ss_wcb ?s2 t)) (se_count (ss_sem ?s2 a)) (se_waiters (ss_sem ?s2 a)))) ?s2 s'"
    using up_walk [of i ?s2 a "se_count (ss_sem ?s2 a)"] by blast
  have up: "sem_up sid cnt s = Some (Inr (sem_unlock a s', NO_ERROR))"
    unfolding sem_up_def g Let_def using s'(1) ok by simp
  have lock: "ss_lock s' = (\<lambda>j. j = se_slot (ss_sem s a))" "se_slot (ss_sem s' a) = se_slot (ss_sem s a)"
    using s'(3) seminvD(2) [OF inv] by (simp_all add: counted_def fun_eq_iff)
  have l: "ss_lock (sem_unlock a s') = ss_lock s" using seminvD(2) [OF inv] by (simp add: lock sem_unlock_def slot_lock_def fun_eq_iff)
  have "counted a ?c (snd (granted a ?c s)) s (sem_unlock a s')" using s'(3) l by (simp add: counted_def upd_sem_def granted_def)
  moreover have "seminv i (sem_unlock a s')" by (rule seminv_unlock [OF s'(2)]) (simp add: lock)
  ultimately show ?thesis using up by blast
qed

lemma sem_up_refused:
  assumes inv: "seminv i s" and g: "get_sem_by_id sid s = Inr (slot_lock (se_slot (ss_sem s a)) True s, Some a)"
    and bad: "se_max_count (ss_sem s a) < se_count (ss_sem s a) + cnt \<or> cnt = 0"
  shows "sem_up sid cnt s = Some (Inr (s, if se_max_count (ss_sem s a) < se_count (ss_sem s a) + cnt then ERR_SEM_INVALID_VALUE else NO_ERROR))"
proof -
  have "(ss_lock s)(se_slot (ss_sem s a) := False) = ss_lock s" using seminvD(2) [OF inv] by (simp add: fun_eq_iff)
  then have "sem_unlock a (slot_lock (se_slot (ss_sem s a)) True s) = s" by (simp add: sem_unlock_def slot_lock_def)
  then show ?thesis using bad by (auto simp: sem_up_def g Let_def)
qed

lemma sem_up_inv:
  assumes inv: "seminv i s"
  shows "\<exists>s' st. sem_up sid cnt s = Some (Inr (s', st)) \<and> seminv i s'"
proof (cases rule: get_sem_cases [OF inv, of sid])
  case 1
  then show ?thesis using inv by (simp add: sem_up_def)
next
  case (2 a)
  then show ?thesis
    using sem_up_found [OF inv 2(2,3,4,1), of cnt] sem_up_refused [OF inv 2(1), of cnt] inv by (cases "se_max_count (ss_sem s a) < se_count (ss_sem s a) + cnt \<or> cnt = 0") (auto simp: not_less)
qed

section \<open>Counting down\<close>

lemma wcb_simps [simp]:
  "ss_wcb (upd_wcb t f s) u = (if u = t then f (ss_wcb s t) else ss_wcb s u)" "ss_sem (upd_wcb t f s) = ss_sem s"
  "ss_timer (upd_wcb t f s) = ss_timer s" "ss_inside (upd_wcb t f s) = ss_inside s" "ss_table (upd_wcb t f s) = ss_table s"
  "ss_tree (upd_wcb t f s) = ss_tree s" "ss_lock (upd_wcb t f s) = ss_lock s" "ss_next_sem (upd_wcb t f s) = ss_next_sem s"
  "live (upd_wcb t f s) a = live s a"
  by (simp_all add: upd_wcb_def live_def)

lemma leave_simps [simp]:
  "ss_wcb (leave_down t s) = ss_wcb s" "ss_sem (leave_down t s) = ss_sem s" "ss_timer (leave_down t s) = ss_timer s"
  "ss_table (leave_down t s) = ss_table s" "ss_tree (leave_down t s) = ss_tree s" "ss_lock (leave_down t s) = ss_lock s"
  "ss_next_sem (leave_down t s) = ss_next_sem s" "live (leave_down t s) a = live s a"
  by (simp_all add: leave_down_def live_def)

lemma leave_commute:
  "leave_down t (upd_wcb u f s) = upd_wcb u f (leave_down t s)" "leave_down t (upd_sem a g s) = upd_sem a g (leave_down t s)"
  "leave_down t (sem_unlock a s) = sem_unlock a (leave_down t s)" "leave_down t (slot_lock k b s) = slot_lock k b (leave_down t s)"
  "leave_down t (s\<lparr>ss_term_cbs := h\<rparr>) = (leave_down t s)\<lparr>ss_term_cbs := h\<rparr>"
  by (simp_all add: leave_down_def upd_wcb_def upd_sem_def sem_unlock_def slot_lock_def)

lemma leave_inside: "ss_inside (leave_down t s) = filter (\<lambda>x. fst x \<noteq> t) (ss_inside s)"
  by (simp add: leave_down_def)

lemma leave_out: "t \<notin> fst ` set (ss_inside s) \<Longrightarrow> leave_down t s = s"
proof -
  assume "t \<notin> fst ` set (ss_inside s)"
  then have "filter (\<lambda>x. fst x \<noteq> t) (ss_inside s) = ss_inside s" by (auto simp: filter_id_conv)
  then show ?thesis by (simp add: leave_down_def)
qed

text \<open>The control block of a thread that is not inside a call is free to change.\<close>

lemma cinv_upd_wcb:
  assumes inv: "cinv i X s" and t: "t \<notin> fst ` set (ss_inside s)"
  shows "cinv i X (upd_wcb t f s)"
proof -
  note I = cinvD [OF inv]
  have w: "t \<notin> set (se_waiters (ss_sem s a))" if "live s a" for a using waiter_okD(2) [OF I(4) that, of t] t by blast
  have "waiter_ok X (upd_wcb t f s)" unfolding waiter_ok_def
  proof (intro conjI allI impI)
    fix a assume a: "live (upd_wcb t f s) a"
    show "distinct (se_waiters (ss_sem (upd_wcb t f s) a))" using waiter_okD(1) [OF I(4)] a by simp
    show "\<forall>u\<in>set (se_waiters (ss_sem (upd_wcb t f s) a)). wc_sem (ss_wcb (upd_wcb t f s) u) = a \<and> wc_err (ss_wcb (upd_wcb t f s) u) = NO_ERROR \<and>
        u \<in> fst ` set (ss_inside (upd_wcb t f s)) \<and> u \<notin> X"
      using waiter_okD(2) [OF I(4)] a w by auto
  next
    fix u show "(u \<in> waiting (tm_sched (ss_timer (upd_wcb t f s)))) =
        (u \<in> X \<or> (\<exists>a. live (upd_wcb t f s) a \<and> u \<in> set (se_waiters (ss_sem (upd_wcb t f s) a))))"
      using I(4) unfolding waiter_ok_def by simp
  qed
  moreover have "inside_ok i X (upd_wcb t f s)"
  proof -
    have "u \<noteq> t" if "(u, fr) \<in> set (ss_inside s)" for u fr using that t by force
    then show ?thesis using I(5) unfolding inside_ok_def by fastforce
  qed
  ultimately show ?thesis using I by (simp add: cinv_def table_ok_def tree_named_def)
qed

text \<open>The running thread is in no list of waiters, so it may leave.\<close>

lemma current_not_waiting: "tinv i tm \<Longrightarrow> sc_current (tm_sched tm) \<notin> waiting (tm_sched tm)"
  using sched_invD(5) [OF sinvD(1) [OF tinvD(1)]] by (fastforce simp: in_state_def)

lemma cinv_leave:
  assumes inv: "cinv i {} s" and t: "t \<notin> waiting (tm_sched (ss_timer s))"
  shows "cinv i {} (leave_down t s)"
proof -
  note I = cinvD [OF inv]
  have w: "t \<notin> set (se_waiters (ss_sem s a))" if "live s a" for a using waiter_okD(2) [OF I(4) that, of t] t by blast
  have "waiter_ok {} (leave_down t s)" unfolding waiter_ok_def
  proof (intro conjI allI impI)
    fix a assume a: "live (leave_down t s) a"
    show "distinct (se_waiters (ss_sem (leave_down t s) a))" using waiter_okD(1) [OF I(4)] a by simp
    show "\<forall>u\<in>set (se_waiters (ss_sem (leave_down t s) a)). wc_sem (ss_wcb (leave_down t s) u) = a \<and> wc_err (ss_wcb (leave_down t s) u) = NO_ERROR \<and>
        u \<in> fst ` set (ss_inside (leave_down t s)) \<and> u \<notin> {}"
    proof
      fix u assume u: "u \<in> set (se_waiters (ss_sem (leave_down t s) a))"
      then have "u \<noteq> t" using w a by auto
      moreover have "u \<in> fst ` set (ss_inside s)" "wc_sem (ss_wcb s u) = a" "wc_err (ss_wcb s u) = NO_ERROR"
        using waiter_okD(2) [OF I(4), of a u] a u by auto
      ultimately show "wc_sem (ss_wcb (leave_down t s) u) = a \<and> wc_err (ss_wcb (leave_down t s) u) = NO_ERROR \<and>
        u \<in> fst ` set (ss_inside (leave_down t s)) \<and> u \<notin> {}" by (force simp: leave_inside)
    qed
  next
    fix u show "(u \<in> waiting (tm_sched (ss_timer (leave_down t s)))) =
        (u \<in> {} \<or> (\<exists>a. live (leave_down t s) a \<and> u \<in> set (se_waiters (ss_sem (leave_down t s) a))))"
      using I(4) unfolding waiter_ok_def by simp
  qed
  moreover have "inside_ok i {} (leave_down t s)"
    using I(5) by (auto simp: inside_ok_def leave_inside distinct_map_filter)
  ultimately show ?thesis using I by (simp add: cinv_def table_ok_def tree_named_def)
qed

text \<open>The thread enters the call and, if it is registered, the list of waiters.\<close>

definition frame_ok :: "nat \<Rightarrow> nat \<Rightarrow> down_frame \<Rightarrow> sems \<Rightarrow> bool" where
  "frame_ok i t fr s \<longleftrightarrow> t \<noteq> i \<and> df_flags fr AND SEMF_TIMEOUT = 0 \<and> df_flags fr AND SEMF_TRY = 0 \<and> df_count fr = wc_count (ss_wcb s t) \<and>
     wc_timeout (ss_wcb s t) = INVALID_TIMEOUTID \<and> wc_err (ss_wcb s t) = NO_ERROR \<and> live s (wc_sem (ss_wcb s t))"

lemma cinv_enter:
  assumes inv: "cinv i {} s" and t: "t \<notin> fst ` set (ss_inside s)" and fr: "frame_ok i t fr s"
  shows "cinv i {} (s\<lparr>ss_inside := (t, fr) # ss_inside s\<rparr>)"
proof -
  let ?s = "s\<lparr>ss_inside := (t, fr) # ss_inside s\<rparr>"
  note I = cinvD [OF inv]
  have lv: "live ?s a = live s a" for a by (simp add: live_def)
  have "waiter_ok {} ?s" unfolding waiter_ok_def
  proof (intro conjI allI impI)
    fix a assume a: "live ?s a"
    show "distinct (se_waiters (ss_sem ?s a))" using waiter_okD(1) [OF I(4)] a lv by simp
    show "\<forall>u\<in>set (se_waiters (ss_sem ?s a)). wc_sem (ss_wcb ?s u) = a \<and> wc_err (ss_wcb ?s u) = NO_ERROR \<and> u \<in> fst ` set (ss_inside ?s) \<and> u \<notin> {}"
      using waiter_okD(2) [OF I(4)] a lv by simp
  next
    fix u show "(u \<in> waiting (tm_sched (ss_timer ?s))) = (u \<in> {} \<or> (\<exists>a. live ?s a \<and> u \<in> set (se_waiters (ss_sem ?s a))))"
      using I(4) unfolding waiter_ok_def lv by simp
  qed
  moreover have "inside_ok i {} ?s" using I(5) t fr by (simp add: inside_ok_def frame_ok_def lv)
  ultimately show ?thesis using I by (simp add: cinv_def table_ok_def tree_named_def lv)
qed

lemma cinv_wait:
  assumes inv: "cinv i {} s" and t: "t \<in> fst ` set (ss_inside s)" "t \<notin> waiting (tm_sched (ss_timer s))" "wc_sem (ss_wcb s t) = a"
    "wc_err (ss_wcb s t) = NO_ERROR" and a: "live s a"
    and tm: "tinv i tm" "waiting (tm_sched tm) = insert t (waiting (tm_sched (ss_timer s)))"
  shows "cinv i {} ((sem_put_wcb a t s)\<lparr>ss_timer := tm\<rparr>)"
proof -
  let ?ws = "se_waiters (ss_sem s a) @ [t]"
  let ?s = "(upd_sem a (\<lambda>se. se\<lparr>se_waiters := ?ws\<rparr>) s)\<lparr>ss_timer := tm\<rparr>"
  have eq: "(sem_put_wcb a t s)\<lparr>ss_timer := tm\<rparr> = ?s" by (simp add: sem_put_wcb_def upd_sem_def)
  note I = cinvD [OF inv]
  have lv: "live ?s b = live s b" for b by simp
  have w: "t \<notin> set (se_waiters (ss_sem s b))" if "live s b" for b using waiter_okD(2) [OF I(4) that, of t] t(2) by blast
  have "waiter_ok {} ?s" unfolding waiter_ok_def
  proof (intro conjI allI impI)
    fix b assume b: "live ?s b"
    show "distinct (se_waiters (ss_sem ?s b))" using waiter_okD(1) [OF I(4)] a b w by simp
    show "\<forall>u\<in>set (se_waiters (ss_sem ?s b)). wc_sem (ss_wcb ?s u) = b \<and> wc_err (ss_wcb ?s u) = NO_ERROR \<and> u \<in> fst ` set (ss_inside ?s) \<and> u \<notin> {}"
      using waiter_okD(2) [OF I(4)] b t by auto
  next
    fix u
    have W: "u \<in> waiting (tm_sched (ss_timer s)) \<longleftrightarrow> (\<exists>b. live s b \<and> u \<in> set (se_waiters (ss_sem s b)))"
      using I(4) unfolding waiter_ok_def by simp
    have "live s b \<and> u \<in> set (if b = a then ?ws else se_waiters (ss_sem s b)) \<longleftrightarrow>
        live s b \<and> u \<in> set (se_waiters (ss_sem s b)) \<or> b = a \<and> u = t" for b using a by auto
    then have e: "(\<exists>b. live ?s b \<and> u \<in> set (se_waiters (ss_sem ?s b))) \<longleftrightarrow> (\<exists>b. live s b \<and> u \<in> set (se_waiters (ss_sem s b))) \<or> u = t"
      by (simp add: ex_disj_distrib)
    have "u \<in> waiting (tm_sched (ss_timer ?s)) \<longleftrightarrow> u \<in> waiting (tm_sched (ss_timer s)) \<or> u = t" using tm(2) by simp blast
    then show "(u \<in> waiting (tm_sched (ss_timer ?s))) = (u \<in> {} \<or> (\<exists>b. live ?s b \<and> u \<in> set (se_waiters (ss_sem ?s b))))"
      unfolding e W by blast
  qed
  moreover have "table_ok ?s" "tree_named ?s" "inside_ok i {} ?s" using I by (simp_all add: table_ok_def tree_named_def inside_ok_def lv)
  ultimately show ?thesis using tm(1) unfolding eq by (simp add: cinv_def)
qed

lemma yield_wait:
  assumes inv: "tinv i tm" and t: "sc_current (tm_sched tm) = t" "t \<noteq> i"
  shows "\<exists>tm'. thread_yield (set_next_state t THREAD_STATE_WAITING tm) = Inr tm' \<and> tinv i tm' \<and>
    waiting (tm_sched tm') = insert t (waiting (tm_sched tm))"
proof -
  note S = sinvD [OF tinvD(1) [OF inv]]
  let ?s = "upd_thread t (\<lambda>th. th\<lparr>th_next_state := THREAD_STATE_WAITING\<rparr>) (tm_sched tm)"
  have tm: "set_next_state t THREAD_STATE_WAITING tm = tm\<lparr>tm_sched := ?s\<rparr>" by (simp add: set_next_state_def)
  have sl: "in_state st ?s = in_state st (tm_sched tm)" for st by (rule in_state_cong) simp
  have si: "sched_inv i ?s"
    using S(1) t(2) by (rule upd_inv) (use sched_invD(3) [OF S(1), of t] in \<open>simp_all add: thread_ok_def\<close>)
  have "\<exists>s'. thread_yield (tm\<lparr>tm_sched := ?s\<rparr>) = Inr (tm\<lparr>tm_sched := s'\<rparr>) \<and> sinv i s' \<and>
    (\<forall>st. parked st \<longrightarrow> in_state st s' = in_state st ?s \<union> goes_to st i ?s)"
    using yield_ok [of i "tm\<lparr>tm_sched := ?s\<rparr>"] S si t by (simp add: sl)
  then obtain s' where s': "thread_yield (tm\<lparr>tm_sched := ?s\<rparr>) = Inr (tm\<lparr>tm_sched := s'\<rparr>)" "sinv i s'"
    "\<forall>st. parked st \<longrightarrow> in_state st s' = in_state st ?s \<union> goes_to st i ?s" by blast
  have "sleepers s' = sleepers (tm_sched tm)" "waiting s' = insert t (waiting (tm_sched tm))"
    using s'(3) t by (auto simp: sl goes_to_def)
  moreover have "tinv i (tm\<lparr>tm_sched := s'\<rparr>)" using inv s'(2) calculation(1) by (simp add: tinv_def)
  ultimately show ?thesis using s'(1) by (intro exI [of _ "tm\<lparr>tm_sched := s'\<rparr>"]) (simp add: tm)
qed

lemma yield_stay:
  assumes inv: "tinv i tm"
  shows "\<exists>tm'. thread_yield tm = Inr tm' \<and> tinv i tm' \<and> waiting (tm_sched tm') = waiting (tm_sched tm)"
  using yield_tinv [OF inv tinvD(1) [OF inv] refl refl] by (auto simp: keeps_def)

text \<open>The running thread in the middle of a call, holding the lock of its semaphore.\<close>

definition entering :: "nat \<Rightarrow> nat \<Rightarrow> down_frame \<Rightarrow> nat \<Rightarrow> sems \<Rightarrow> bool" where
  "entering i t fr a s \<longleftrightarrow> cinv i {} (leave_down t s) \<and> live s a \<and> wc_sem (ss_wcb s t) = a \<and> t = current s \<and> t \<noteq> i \<and>
     (\<forall>j. ss_lock s j \<longrightarrow> j = se_slot (ss_sem s a)) \<and> df_count fr = wc_count (ss_wcb s t) \<and> df_flags fr AND SEMF_TIMEOUT = 0"

abbreviation others :: "nat \<Rightarrow> sems \<Rightarrow> (nat \<times> down_frame) list" where
  "others t s \<equiv> filter (\<lambda>x. fst x \<noteq> t) (ss_inside s)"

text \<open>What a round does to the semaphore and to the calls in progress.\<close>

definition down_out :: "nat \<Rightarrow> down_frame \<Rightarrow> nat \<Rightarrow> sems \<Rightarrow> sems \<Rightarrow> status option \<Rightarrow> bool" where
  "down_out t fr a s s' st \<longleftrightarrow> ss_table s' = ss_table s \<and> (\<forall>u. u \<noteq> t \<longrightarrow> ss_wcb s' u = ss_wcb s u) \<and>
     wc_sem (ss_wcb s' t) = a \<and> wc_count (ss_wcb s' t) = wc_count (ss_wcb s t) \<and>
     (if df_count fr \<le> se_count (ss_sem s a)
      then st = Some NO_ERROR \<and> ss_inside s' = others t s \<and>
        ss_sem s' = (ss_sem s)(a := (ss_sem s a)\<lparr>se_count := se_count (ss_sem s a) - df_count fr\<rparr>)
      else if df_flags fr AND SEMF_TRY \<noteq> 0 then st = Some ERR_SEM_TRY_FAILED \<and> ss_inside s' = others t s \<and> ss_sem s' = ss_sem s
      else st = None \<and> wc_err (ss_wcb s' t) = NO_ERROR \<and> (\<exists>fr'. ss_inside s' = (t, fr') # others t s) \<and>
        ss_sem s' = (if ready_or_running (th_next_state (sc_threads (tm_sched (ss_timer s)) t))
          then (ss_sem s)(a := (ss_sem s a)\<lparr>se_waiters := se_waiters (ss_sem s a) @ [t]\<rparr>) else ss_sem s))"

lemma out_of_call: "t \<notin> fst ` set (ss_inside (leave_down t s))"
  by (auto simp: leave_inside)

lemma leave_cinv_wcb: "cinv i {} (leave_down t s) \<Longrightarrow> cinv i {} (leave_down t (upd_wcb t f s))"
  unfolding leave_commute by (rule cinv_upd_wcb [OF _ out_of_call])

lemma finish_inv:
  assumes e: "cinv i {} (leave_down t s)" "wc_sem (ss_wcb s t) = a" "\<And>j. ss_lock s j \<Longrightarrow> j = se_slot (ss_sem s a)" "wc_err (ss_wcb s t) = err"
    "err \<noteq> ERR_SEM_DELETED"
  shows "\<exists>s'. down_finish t s = (s', Some err) \<and> seminv i s' \<and> ss_table s' = ss_table s \<and> ss_wcb s' = ss_wcb s \<and> ss_sem s' = ss_sem s \<and>
    ss_inside s' = others t s"
proof -
  have "seminv i (sem_unlock a (leave_down t s))" by (rule seminv_unlock [OF e(1)]) (use e(3) in simp)
  then show ?thesis using e(2,4,5) by (simp add: down_finish_def Let_def leave_commute leave_inside)
qed

lemma block_inv:
  assumes inv: "cinv i {} (leave_down t s)" and fr: "frame_ok i t fr s" and t: "t = current s"
    and lock: "\<And>j. ss_lock s j \<Longrightarrow> j = se_slot (ss_sem s (wc_sem (ss_wcb s t)))"
  shows "\<exists>s'. down_block t fr s = Inr (s', None) \<and> seminv i s' \<and> ss_table s' = ss_table s \<and> ss_wcb s' = ss_wcb s \<and> ss_sem s' = ss_sem s \<and>
    ss_inside s' = (t, fr) # others t s"
proof -
  let ?a = "wc_sem (ss_wcb s t)" and ?s1 = "enter_down t fr s"
  from yield_stay [OF cinvD(1) [OF inv]] obtain tm where
    tm: "thread_yield (ss_timer s) = Inr tm" "tinv i tm" "waiting (tm_sched tm) = waiting (tm_sched (ss_timer s))" by auto
  let ?s = "(sem_unlock ?a ?s1)\<lparr>ss_timer := tm\<rparr>"
  have sim: "ss_timer ?s1 = ss_timer s" "ss_sem ?s1 = ss_sem s" "ss_wcb ?s1 = ss_wcb s" "ss_lock ?s1 = ss_lock s"
    "ss_inside ?s1 = (t, fr) # others t s" "ss_table ?s1 = ss_table s" by (simp_all add: enter_down_def leave_inside)
  have "frame_ok i t fr (leave_down t s)" using fr by (simp add: frame_ok_def)
  from cinv_enter [OF inv out_of_call this] have "cinv i {} ?s1" by (simp add: enter_down_def)
  then have c: "cinv i {} (sem_unlock ?a ?s1)" by simp
  have "cinv i {} ?s" by (rule cinv_timer [OF c]) (use tm(2,3) sim in simp_all)
  moreover have "\<not> ss_lock ?s j" for j using lock sim by (auto simp: sem_unlock_def slot_lock_def)
  ultimately have "seminv i ?s" by (simp add: seminv_def)
  then show ?thesis using tm(1) sim by (simp add: down_block_def with_timer_def Let_def)
qed

lemma register_inv:
  assumes inv: "cinv i {} (leave_down t s)" and fr: "frame_ok i t fr s" and t: "t = current s"
    and lock: "\<And>j. ss_lock s j \<Longrightarrow> j = se_slot (ss_sem s (wc_sem (ss_wcb s t)))"
  shows "\<exists>s'. down_block t fr (down_register t s) = Inr (s', None) \<and> seminv i s' \<and> ss_table s' = ss_table s \<and> ss_wcb s' = ss_wcb s \<and>
    ss_sem s' = (ss_sem s)(wc_sem (ss_wcb s t) := (ss_sem s (wc_sem (ss_wcb s t)))\<lparr>se_waiters := se_waiters (ss_sem s (wc_sem (ss_wcb s t))) @ [t]\<rparr>) \<and>
    ss_inside s' = (t, fr) # others t s"
proof -
  let ?a = "wc_sem (ss_wcb s t)" and ?s1 = "enter_down t fr s"
  let ?cbs = "(ss_term_cbs s)(t := ss_term_cbs s t @ [t])"
  have ti: "tinv i (ss_timer s)" "t \<noteq> i" "sc_current (tm_sched (ss_timer s)) = t" using cinvD(1) [OF inv] fr t by (simp_all add: frame_ok_def)
  from yield_wait [OF ti(1,3,2)] obtain tm where
    tm: "thread_yield (set_next_state t THREAD_STATE_WAITING (ss_timer s)) = Inr tm" "tinv i tm"
      "waiting (tm_sched tm) = insert t (waiting (tm_sched (ss_timer s)))" by blast
  have sim: "ss_timer ?s1 = ss_timer s" "ss_sem ?s1 = ss_sem s" "ss_wcb ?s1 = ss_wcb s" "ss_lock ?s1 = ss_lock s"
    "ss_inside ?s1 = (t, fr) # others t s" "ss_table ?s1 = ss_table s" "live ?s1 b = live s b" for b
    by (simp_all add: enter_down_def leave_inside live_def)
  have f: "frame_ok i t fr (leave_down t s)" using fr by (simp add: frame_ok_def)
  from cinv_enter [OF inv out_of_call this] have c: "cinv i {} ?s1" by (simp add: enter_down_def)
  have "cinv i {} ((sem_put_wcb ?a t ?s1)\<lparr>ss_timer := tm\<rparr>)"
    by (rule cinv_wait [OF c]) (use fr tm current_not_waiting [OF ti(1)] ti(3) in \<open>simp_all add: frame_ok_def sim\<close>)
  then have c2: "cinv i {} (sem_unlock ?a (((sem_put_wcb ?a t ?s1)\<lparr>ss_timer := tm\<rparr>)\<lparr>ss_term_cbs := ?cbs\<rparr>))" by simp
  let ?s = "sem_unlock ?a (((sem_put_wcb ?a t ?s1)\<lparr>ss_timer := tm\<rparr>)\<lparr>ss_term_cbs := ?cbs\<rparr>)"
  have "\<not> ss_lock ?s j" for j using lock sim by (auto simp: sem_put_wcb_def)
  then have "seminv i ?s" using c2 by (simp add: seminv_def)
  moreover have "down_block t fr (down_register t s) = Inr (?s, None)"
    using tm(1) by (simp add: down_block_def down_register_def with_timer_def Let_def sem_put_wcb_def upd_sem_def enter_down_def leave_down_def
        sem_unlock_def slot_lock_def)
  ultimately show ?thesis using sim by (simp add: sem_put_wcb_def upd_sem_def)
qed

end
