(* ===== verification/Sem_Ops.thy ===== *)
theory Sem_Ops
  imports Sem_Inv
begin

text \<open>
  Every operation of the semaphores keeps the invariant, with what it does to the semaphores and
  to the threads inside calls; hence every run does.
\<close>

section \<open>Counting down\<close>

lemma down_round_ok:
  assumes e: "entering i t fr a s"
  shows "\<exists>s' st. down_round t fr s = Inr (s', st) \<and> seminv i s' \<and> down_out t fr a s s' st"
proof -
  let ?s1 = "upd_wcb t (\<lambda>w. w\<lparr>wc_err := NO_ERROR, wc_timeout := INVALID_TIMEOUTID\<rparr>) s"
  have E: "cinv i {} (leave_down t s)" "live s a" "wc_sem (ss_wcb s t) = a" "t = current s" "t \<noteq> i"
    "\<And>j. ss_lock s j \<Longrightarrow> j = se_slot (ss_sem s a)" "df_count fr = wc_count (ss_wcb s t)" "df_flags fr AND SEMF_TIMEOUT = 0"
    using e by (auto simp: entering_def)
  note c1 = leave_cinv_wcb [OF E(1)]
  have freed: "\<not> se_freed (ss_sem s a)" "se_count (ss_sem s a) \<le> se_max_count (ss_sem s a)"
    using table_okD(2,4) [OF cinvD(2) [OF E(1)], of a] E(2) by simp_all
  consider (take) "df_count fr \<le> se_count (ss_sem s a)" | (tried) "\<not> df_count fr \<le> se_count (ss_sem s a)" "df_flags fr AND SEMF_TRY \<noteq> 0"
    | (wait) "\<not> df_count fr \<le> se_count (ss_sem s a)" "df_flags fr AND SEMF_TRY = 0" by blast
  then show ?thesis
  proof cases
    case take
    let ?s = "upd_sem a (\<lambda>se. se\<lparr>se_count := se_count se - df_count fr\<rparr>) ?s1"
    have "se_count (ss_sem s a) - df_count fr \<le> se_max_count (ss_sem s a)"
      using take freed(2) by (meson order_trans word_sub_le)
    then have "cinv i {} (leave_down t ?s)" unfolding leave_commute(2)
      by (intro cinv_upd_sem c1) (use freed in simp_all)
    from finish_inv [OF this, of a NO_ERROR] obtain s' where
      "down_finish t ?s = (s', Some NO_ERROR)" "seminv i s'" "ss_table s' = ss_table s" "ss_wcb s' = ss_wcb ?s"
      "ss_sem s' = ss_sem ?s" "ss_inside s' = others t s" using E(3,6) by auto
    then show ?thesis using take E(3) by (simp add: down_round_def Let_def down_out_def) (simp add: upd_sem_def)
  next
    case tried
    let ?s = "upd_wcb t (\<lambda>w. w\<lparr>wc_err := ERR_SEM_TRY_FAILED\<rparr>) ?s1"
    have c2: "cinv i {} (leave_down t ?s)" by (rule leave_cinv_wcb [OF c1])
    from finish_inv [OF c2, of a ERR_SEM_TRY_FAILED] obtain s' where
      "down_finish t ?s = (s', Some ERR_SEM_TRY_FAILED)" "seminv i s'" "ss_table s' = ss_table s" "ss_wcb s' = ss_wcb ?s"
      "ss_sem s' = ss_sem ?s" "ss_inside s' = others t s" using E(3,6) by auto
    then show ?thesis using tried E(3) by (simp add: down_round_def Let_def down_out_def)
  next
    case wait
    have f: "frame_ok i t (fr\<lparr>df_registered := b\<rparr>) ?s1" for b using E wait(2) by (simp add: frame_ok_def)
    have lock: "j = se_slot (ss_sem ?s1 (wc_sem (ss_wcb ?s1 t)))" if "ss_lock ?s1 j" for j using E(3,6) that by simp
    have cur: "t = current ?s1" using E(4) by simp
    have to: "down_timeout t fr ?s1 = Inr ?s1" using E(8) by (simp add: down_timeout_def)
    show ?thesis
    proof (cases "ready_or_running (th_next_state (sc_threads (tm_sched (ss_timer s)) t))")
      case True
      from register_inv [OF c1 f [of True] cur lock] show ?thesis
        using wait True E(3,8) to by (auto simp: down_round_def Let_def down_out_def)
    next
      case False
      from block_inv [OF c1 f [of False] cur lock] show ?thesis using wait False E(3) by (auto simp: down_round_def Let_def down_out_def)
    qed
  qed
qed

lemma sem_down_ok:
  assumes inv: "seminv i s" and out: "map_of (ss_inside s) (current s) = None" and flags: "flags AND SEMF_TIMEOUT = 0" and cur: "current s \<noteq> i"
  shows "\<exists>s' st. sem_down_ex sid cnt msec flags s = Inr (s', st) \<and> seminv i s' \<and> (s' = s \<or>
    (\<exists>a s1 fr. live s a \<and> cnt \<noteq> 0 \<and> df_count fr = cnt \<and> df_flags fr = flags \<and>
       s1 = upd_wcb (current s) (\<lambda>w. w\<lparr>wc_sem := a, wc_count := cnt\<rparr>) (slot_lock (se_slot (ss_sem s a)) True s) \<and> down_out (current s) fr a s1 s' st))"
proof (cases rule: get_sem_cases [OF inv, of sid])
  case 1
  then show ?thesis using inv by (simp add: sem_down_ex_def)
next
  case (2 a)
  have un: "sem_unlock a (slot_lock (se_slot (ss_sem s a)) True s) = s"
    using seminvD(2) [OF inv] by (simp add: sem_unlock_def slot_lock_def fun_upd_idem)
  have out': "current s \<notin> fst ` set (ss_inside s)" using out by (simp add: map_of_eq_None_iff)
  show ?thesis
  proof (cases "se_max_count (ss_sem s a) < cnt \<or> cnt = 0")
    case True
    then show ?thesis using inv un flags by (auto simp: sem_down_ex_def 2(1) Let_def)
  next
    case False
    let ?t = "current s"
    let ?s1 = "upd_wcb ?t (\<lambda>w. w\<lparr>wc_sem := a, wc_count := cnt\<rparr>) (slot_lock (se_slot (ss_sem s a)) True s)"
    let ?fr = "\<lparr>df_count = cnt, df_msec = msec, df_flags = flags, df_registered = False\<rparr>"
    have "cinv i {} ?s1" by (rule cinv_upd_wcb) (use seminvD(1) [OF inv] out' in simp_all)
    then have "entering i ?t ?fr a ?s1" using 2(2) cur flags out' seminvD(2) [OF inv] by (auto simp: entering_def leave_out split: if_splits)
    from down_round_ok [OF this] obtain s' st where "down_round ?t ?fr ?s1 = Inr (s', st)" "seminv i s'" "down_out ?t ?fr a ?s1 s' st" by blast
    then show ?thesis using False 2(2) flags by (intro exI [of _ s'] exI [of _ st]) (auto simp: sem_down_ex_def 2(1) Let_def)
  qed
qed

lemma wakeup_ok:
  assumes inv: "seminv i s" and ins: "map_of (ss_inside s) (current s) = Some fr"
  shows "\<exists>s' st. sem_down_wakeup s = Inr (s', st) \<and> seminv i s' \<and>
    (if wc_err (ss_wcb s (current s)) = ERR_SEM_DELETED
     then st = Some ERR_SEM_DELETED \<and> ss_sem s' = ss_sem s \<and> ss_inside s' = others (current s) s \<and> ss_wcb s' = ss_wcb s \<and> ss_table s' = ss_table s
     else live s (wc_sem (ss_wcb s (current s))) \<and> wc_err (ss_wcb s (current s)) = NO_ERROR \<and>
       down_out (current s) fr (wc_sem (ss_wcb s (current s))) s s' st)"
proof -
  let ?t = "current s" let ?a = "wc_sem (ss_wcb s ?t)"
  note C = seminvD(1) [OF inv]
  note I = inside_okD [OF cinvD(5) [OF C] ins]
  note lv = cinv_leave [OF C current_not_waiting [OF cinvD(1) [OF C]]]
  let ?reg = "\<lambda>s1. if df_registered fr then s1\<lparr>ss_term_cbs := (ss_term_cbs s1)(?t := remove1 ?t (ss_term_cbs s1 ?t))\<rparr> else s1"
  show ?thesis
  proof (cases "wc_err (ss_wcb s ?t) = ERR_SEM_DELETED")
    case True
    then have "sem_down_wakeup s = Inr (leave_down ?t (?reg s), Some ERR_SEM_DELETED)"
      using ins I(4) by (simp add: sem_down_wakeup_def Let_def down_cancel_def down_finish_def)
    moreover have "seminv i (leave_down ?t (?reg s))" using lv seminvD(2) [OF inv] by (simp add: seminv_def leave_commute)
    ultimately show ?thesis using True by (simp add: leave_inside)
  next
    case False
    then have w: "wc_err (ss_wcb s ?t) = NO_ERROR" "live s ?a" using I(6) by auto
    let ?s2 = "?reg (slot_lock (se_slot (ss_sem s ?a)) True s)"
    have f: "ss_sem ?s2 = ss_sem s" "ss_wcb ?s2 = ss_wcb s" "ss_inside ?s2 = ss_inside s" "ss_timer ?s2 = ss_timer s" "ss_table ?s2 = ss_table s"
      "ss_lock ?s2 j \<longleftrightarrow> j = se_slot (ss_sem s ?a)" "live ?s2 b = live s b" for j b
      using seminvD(2) [OF inv] by (simp_all add: live_def)
    have "cinv i {} (leave_down ?t ?s2)" using lv by (simp add: leave_commute)
    then have "entering i ?t fr ?a ?s2" unfolding entering_def f using w(2) I by simp
    from down_round_ok [OF this] obtain s' st where r: "down_round ?t fr ?s2 = Inr (s', st)" "seminv i s'" "down_out ?t fr ?a ?s2 s' st" by blast
    have "sem_lock ?a s = Inr (slot_lock (se_slot (ss_sem s ?a)) True s)"
      using table_okD(2) [OF cinvD(2) [OF C] w(2)] seminvD(2) [OF inv] by (simp add: sem_lock_def)
    then have "sem_down_wakeup s = down_round ?t fr ?s2" using ins I(4) w(1) f by (simp add: sem_down_wakeup_def Let_def down_cancel_def)
    moreover have "down_out ?t fr ?a s s' st" using r(3) unfolding down_out_def f .
    ultimately show ?thesis using r w False by (intro exI [of _ s'] exI [of _ st]) simp
  qed
qed

section \<open>Deletion\<close>

lemma live_inj: "live s a \<Longrightarrow> live s b \<Longrightarrow> se_slot (ss_sem s a) = se_slot (ss_sem s b) \<Longrightarrow> a = b"
  by (simp add: live_def)

lemma woken_empty:
  assumes "woken s a = []" "t \<in> fst ` set (ss_inside s)" "wc_sem (ss_wcb s t) = a" "wc_err (ss_wcb s t) = NO_ERROR"
  shows "t \<in> set (se_waiters (ss_sem s a))"
  using assms by (auto simp: woken_def filter_empty_conv)

text \<open>The semaphore leaves the table and the tree; its waiters are on their own.\<close>

definition unlinked :: "nat \<Rightarrow> sems \<Rightarrow> sems" where
  "unlinked a s = s\<lparr>ss_table := (ss_table s)(se_slot (ss_sem s a) := None), ss_tree := remove1 a (ss_tree s)\<rparr>"

lemma unlinked_live: "live s a \<Longrightarrow> live (unlinked a s) b \<longleftrightarrow> live s b \<and> b \<noteq> a"
  by (auto simp: unlinked_def live_def)

lemma cinv_unlinked:
  assumes inv: "cinv i {} s" and a: "live s a" and w: "woken s a = []"
  shows "cinv i (set (se_waiters (ss_sem s a))) (unlinked a s)"
proof -
  let ?s = "unlinked a s" and ?X = "set (se_waiters (ss_sem s a))"
  note I = cinvD [OF inv]
  note lv = unlinked_live [OF a]
  have f: "ss_sem ?s = ss_sem s" "ss_wcb ?s = ss_wcb s" "ss_inside ?s = ss_inside s" "ss_timer ?s = ss_timer s" "ss_next_sem ?s = ss_next_sem s"
    "ss_tree ?s = remove1 a (ss_tree s)" by (simp_all add: unlinked_def)
  have d: "distinct (ss_tree s)" using I(3) by (auto simp: tree_named_def distinct_map)
  have "tree_named ?s" unfolding tree_named_def f lv
  proof
    show "distinct (map (\<lambda>a. se_name (ss_sem s a)) (remove1 a (ss_tree s)))"
      using I(3) d by (auto simp: tree_named_def distinct_map inj_on_def)
    show "set (remove1 a (ss_tree s)) = {b. (live s b \<and> b \<noteq> a) \<and> se_name (ss_sem s b) \<noteq> None}"
      using I(3) d by (auto simp: tree_named_def)
  qed
  moreover have "table_ok ?s" using I(2) by (simp add: table_ok_def unlinked_def)
  moreover have "waiter_ok ?X ?s" unfolding waiter_ok_def f lv
  proof (intro conjI allI impI)
    fix b assume b: "live s b \<and> b \<noteq> a"
    show "distinct (se_waiters (ss_sem s b))" using waiter_okD(1) [OF I(4)] b by simp
    show "\<forall>t\<in>set (se_waiters (ss_sem s b)). wc_sem (ss_wcb s t) = b \<and> wc_err (ss_wcb s t) = NO_ERROR \<and> t \<in> fst ` set (ss_inside s) \<and> t \<notin> ?X"
      using waiter_okD(2) [OF I(4)] b a by metis
  next
    fix t show "(t \<in> waiting (tm_sched (ss_timer s))) = (t \<in> ?X \<or> (\<exists>b. (live s b \<and> b \<noteq> a) \<and> t \<in> set (se_waiters (ss_sem s b))))"
      using I(4) a unfolding waiter_ok_def by (simp, blast)
  qed
  moreover have "inside_ok i ?X ?s"
  proof -
    have "t \<in> ?X" if "(t, fr) \<in> set (ss_inside s)" "wc_err (ss_wcb s t) = NO_ERROR" "wc_sem (ss_wcb s t) = a" for t fr
      using woken_empty [OF w _ that(3,2)] that(1) by force
    moreover have "?X \<subseteq> fst ` set (ss_inside s)" using waiter_okD(2) [OF I(4) a] by blast
    ultimately show ?thesis using I(5) unfolding inside_ok_def f lv by fastforce
  qed
  ultimately show ?thesis using I(1) f by (simp add: cinv_def)
qed

lemma cinv_dead:
  assumes inv: "cinv i X s" and a: "\<not> live s a" and f: "se_slot (f (ss_sem s a)) = se_slot (ss_sem s a)"
  shows "cinv i X (upd_sem a f s)" "\<not> live (upd_sem a f s) a"
proof -
  let ?s = "upd_sem a f s"
  note I = cinvD [OF inv]
  have lv: "live ?s b = live s b" for b using f by (cases "b = a") (simp_all add: live_def)
  have eq: "ss_sem ?s b = ss_sem s b" if "live s b" for b using that a by (cases "b = a") simp_all
  show "\<not> live ?s a" using a lv by simp
  have "table_ok ?s" unfolding table_ok_def
  proof (intro allI impI)
    fix j b assume "ss_table ?s j = Some b"
    then have b: "ss_table s j = Some b" by simp
    then have l: "live s b" using table_live [OF I(2)] by blast
    show "j < 8192 \<and> b < ss_next_sem ?s \<and> \<not> se_freed (ss_sem ?s b) \<and> se_slot (ss_sem ?s b) = j \<and> unat (SEM_IDX (se_id (ss_sem ?s b))) = j \<and>
        se_count (ss_sem ?s b) \<le> se_max_count (ss_sem ?s b)"
      using I(2) [unfolded table_ok_def, rule_format, OF b] unfolding eq [OF l] by simp
  qed
  moreover have "tree_named ?s"
  proof -
    have "map (\<lambda>b. se_name (ss_sem ?s b)) (ss_tree s) = map (\<lambda>b. se_name (ss_sem s b)) (ss_tree s)"
      using I(3) eq by (auto simp: tree_named_def)
    moreover have "{b. live s b \<and> se_name (ss_sem ?s b) \<noteq> None} = {b. live s b \<and> se_name (ss_sem s b) \<noteq> None}" using eq by auto
    ultimately show ?thesis using I(3) unfolding tree_named_def lv upd_sem_simps by metis
  qed
  moreover have "waiter_ok X ?s" unfolding waiter_ok_def lv
  proof (intro conjI allI impI)
    fix b assume b: "live s b"
    show "distinct (se_waiters (ss_sem ?s b))" using waiter_okD(1) [OF I(4) b] eq b by simp
    show "\<forall>t\<in>set (se_waiters (ss_sem ?s b)). wc_sem (ss_wcb ?s t) = b \<and> wc_err (ss_wcb ?s t) = NO_ERROR \<and> t \<in> fst ` set (ss_inside ?s) \<and> t \<notin> X"
      using waiter_okD(2) [OF I(4) b] eq b by simp
  next
    fix t have "live s b \<and> t \<in> set (se_waiters (ss_sem ?s b)) \<longleftrightarrow> live s b \<and> t \<in> set (se_waiters (ss_sem s b))" for b using eq by auto
    then show "(t \<in> waiting (tm_sched (ss_timer ?s))) = (t \<in> X \<or> (\<exists>b. live s b \<and> t \<in> set (se_waiters (ss_sem ?s b))))"
      using I(4) unfolding waiter_ok_def by simp
  qed
  moreover have "inside_ok i X ?s" using I(5) unfolding inside_ok_def lv by simp
  ultimately show "cinv i X ?s" using I(1) by (simp add: cinv_def)
qed

lemma cinv_wake_deleted:
  assumes inv: "cinv i (insert t X) s" and t: "t \<notin> X" and tm: "tinv i tm" "waiting (tm_sched tm) = waiting (tm_sched (ss_timer s)) - {t}"
  shows "cinv i X ((upd_wcb t (\<lambda>w. w\<lparr>wc_err := ERR_SEM_DELETED\<rparr>) s)\<lparr>ss_timer := tm\<rparr>)"
proof -
  let ?s = "(upd_wcb t (\<lambda>w. w\<lparr>wc_err := ERR_SEM_DELETED\<rparr>) s)\<lparr>ss_timer := tm\<rparr>"
  note I = cinvD [OF inv]
  have lv: "live ?s b = live s b" for b by simp
  have w: "t \<notin> set (se_waiters (ss_sem s b))" if "live s b" for b using waiter_okD(2) [OF I(4) that, of t] by blast
  have "waiter_ok X ?s" unfolding waiter_ok_def lv
  proof (intro conjI allI impI)
    fix b assume b: "live s b"
    show "distinct (se_waiters (ss_sem ?s b))" using waiter_okD(1) [OF I(4) b] by simp
    show "\<forall>u\<in>set (se_waiters (ss_sem ?s b)). wc_sem (ss_wcb ?s u) = b \<and> wc_err (ss_wcb ?s u) = NO_ERROR \<and> u \<in> fst ` set (ss_inside ?s) \<and> u \<notin> X"
      using waiter_okD(2) [OF I(4) b] w [OF b] by auto
  next
    fix u
    have W: "u \<in> waiting (tm_sched (ss_timer s)) \<longleftrightarrow> u \<in> insert t X \<or> (\<exists>b. live s b \<and> u \<in> set (se_waiters (ss_sem s b)))"
      using I(4) unfolding waiter_ok_def by simp
    have "u \<in> waiting (tm_sched (ss_timer ?s)) \<longleftrightarrow> u \<in> waiting (tm_sched (ss_timer s)) \<and> u \<noteq> t" using tm(2) by simp
    then show "(u \<in> waiting (tm_sched (ss_timer ?s))) = (u \<in> X \<or> (\<exists>b. live s b \<and> u \<in> set (se_waiters (ss_sem ?s b))))"
      unfolding W using w t by auto
  qed
  moreover have "inside_ok i X ?s" using I(5) unfolding inside_ok_def lv by fastforce
  ultimately show ?thesis using I tm(1) by (simp add: cinv_def table_ok_def tree_named_def)
qed


lemma wake_deleted_ok:
  assumes "cinv i (set ts) s" "distinct ts" "\<not> live s a" "se_waiters (ss_sem s a) = ts"
  shows "\<exists>s'. wake_deleted ts a s = Inr s' \<and> cinv i {} s' \<and> \<not> live s' a \<and> ss_lock s' = ss_lock s \<and> ss_table s' = ss_table s \<and>
    ss_inside s' = ss_inside s \<and> se_waiters (ss_sem s' a) = [] \<and> (\<forall>b. b \<noteq> a \<longrightarrow> ss_sem s' b = ss_sem s b) \<and>
    (\<forall>t. ss_wcb s' t = (if t \<in> set ts then (ss_wcb s t)\<lparr>wc_err := ERR_SEM_DELETED\<rparr> else ss_wcb s t))"
  using assms
proof (induction ts arbitrary: s)
  case Nil
  then show ?case by simp
next
  case (Cons t ts)
  let ?s1 = "upd_sem a (\<lambda>se. se\<lparr>se_waiters := ts\<rparr>) s"
  let ?s2 = "upd_wcb t (\<lambda>w. w\<lparr>wc_err := ERR_SEM_DELETED\<rparr>) ?s1"
  have c1: "cinv i (set (t # ts)) ?s1" "\<not> live ?s1 a" using cinv_dead [OF Cons.prems(1,3), of "\<lambda>se. se\<lparr>se_waiters := ts\<rparr>"] by simp_all
  have "t \<in> waiting (tm_sched (ss_timer s))" using cinvD(4) [OF Cons.prems(1)] unfolding waiter_ok_def by simp
  from wake_tinv [OF cinvD(1) [OF Cons.prems(1)] this] obtain tm where
    tm: "with_sched (sched_add_thread t) (ss_timer s) = Inr tm" "tinv i tm" "waiting (tm_sched tm) = waiting (tm_sched (ss_timer s)) - {t}" by blast
  let ?s3 = "?s2\<lparr>ss_timer := tm\<rparr>"
  have "cinv i (insert t (set ts)) ?s1" using c1(1) by simp
  then have c3: "cinv i (set ts) ?s3" by (rule cinv_wake_deleted) (use Cons.prems(2) tm in simp_all)
  have "distinct ts" "\<not> live ?s3 a" "se_waiters (ss_sem ?s3 a) = ts" using Cons.prems(2) c1(2) by (simp_all add: live_def)
  from Cons.IH [OF c3 this] obtain s' where s': "wake_deleted ts a ?s3 = Inr s'" "cinv i {} s'" "\<not> live s' a" "ss_lock s' = ss_lock s"
    "ss_table s' = ss_table s" "ss_inside s' = ss_inside s" "se_waiters (ss_sem s' a) = []" "\<forall>b. b \<noteq> a \<longrightarrow> ss_sem s' b = ss_sem ?s3 b"
    "\<forall>u. ss_wcb s' u = (if u \<in> set ts then (ss_wcb ?s3 u)\<lparr>wc_err := ERR_SEM_DELETED\<rparr> else ss_wcb ?s3 u)" by auto
  moreover have "wake_deleted (t # ts) a s = wake_deleted ts a ?s3" using tm(1) by (simp add: wake_thread_def with_timer_def)
  ultimately show ?case using Cons.prems(2) by auto
qed

lemma find_unique:
  assumes "distinct (map f xs)" "x \<in> set xs"
  shows "List.find (\<lambda>y. f y = f x) xs = Some x"
  using assms by (induction xs) (auto simp: rev_image_eqI)

lemma sem_delete_found:
  assumes inv: "seminv i s" and a: "live s a" "se_slot (ss_sem s a) = unat (SEM_IDX sid)" and w: "woken s a = []"
    and g: "get_sem_by_id sid s = Inr (slot_lock (se_slot (ss_sem s a)) True s, Some a)"
  shows "\<exists>s'. sem_delete sid s = Inr (s', NO_ERROR) \<and> seminv i s' \<and> ss_table s' = (ss_table s)(se_slot (ss_sem s a) := None) \<and>
    (\<forall>b. b \<noteq> a \<longrightarrow> ss_sem s' b = ss_sem s b) \<and> ss_inside s' = ss_inside s \<and> \<not> live s' a \<and>
    (\<forall>t. ss_wcb s' t = (if t \<in> set (se_waiters (ss_sem s a)) then (ss_wcb s t)\<lparr>wc_err := ERR_SEM_DELETED\<rparr> else ss_wcb s t))"
proof -
  let ?se = "ss_sem s a" let ?ts = "se_waiters ?se" let ?own = "(ss_owned s)(se_proc ?se := remove1 a (ss_owned s (se_proc ?se)))"
  note C = seminvD(1) [OF inv]
  let ?s4 = "sem_unlock a ((unlinked a (slot_lock (se_slot ?se) True s))\<lparr>ss_owned := ?own\<rparr>)"
  have tree: "se_name ?se \<noteq> None \<Longrightarrow> List.find (\<lambda>b. se_name (ss_sem s b) = se_name ?se) (ss_tree s) = Some a"
    using cinvD(3) [OF C] a(1) by (intro find_unique [where f = "\<lambda>b. se_name (ss_sem s b)"]) (auto simp: tree_named_def)
  have noname: "se_name ?se = None \<Longrightarrow> remove1 a (ss_tree s) = ss_tree s"
    using cinvD(3) [OF C] by (intro remove1_idem) (auto simp: tree_named_def)
  have f4: "ss_sem ?s4 = ss_sem s" "ss_wcb ?s4 = ss_wcb s" "ss_inside ?s4 = ss_inside s" "ss_table ?s4 = (ss_table s)(se_slot ?se := None)"
    "\<not> ss_lock ?s4 j" for j using seminvD(2) [OF inv] by (simp_all add: unlinked_def)
  have c4: "cinv i (set ?ts) ?s4" using cinv_unlinked [of i "slot_lock (se_slot ?se) True s" a] C a(1) w by (simp add: woken_def)
  have d: "distinct ?ts" using waiter_okD(1) [OF cinvD(4) [OF C] a(1)] .
  have l4: "\<not> live ?s4 a" "se_waiters (ss_sem ?s4 a) = ?ts" by (simp_all add: live_def unlinked_def)
  from wake_deleted_ok [OF c4 d l4] obtain s5 where s5: "wake_deleted ?ts a ?s4 = Inr s5" "cinv i {} s5" "\<not> live s5 a" "ss_lock s5 = ss_lock ?s4" "ss_table s5 = ss_table ?s4"
    "ss_inside s5 = ss_inside s" "se_waiters (ss_sem s5 a) = []" "\<forall>b. b \<noteq> a \<longrightarrow> ss_sem s5 b = ss_sem s b"
    "\<forall>t. ss_wcb s5 t = (if t \<in> set ?ts then (ss_wcb s t)\<lparr>wc_err := ERR_SEM_DELETED\<rparr> else ss_wcb s t)"
    unfolding f4 by blast
  let ?s6 = "upd_sem a (\<lambda>se. se\<lparr>se_freed := True\<rparr>) s5"
  have "cinv i {} ?s6" "\<not> live ?s6 a" using cinv_dead [OF s5(2,3), of "\<lambda>se. se\<lparr>se_freed := True\<rparr>"] by simp_all
  moreover have "\<not> ss_lock ?s6 j" for j using s5(4) f4(5) by simp
  ultimately have "seminv i ?s6" by (simp add: seminv_def)
  moreover have "sem_delete sid s = Inr (?s6, NO_ERROR)"
  proof -
    let ?s1 = "slot_lock (se_slot ?se) True s"
    let ?s2 = "if se_name ?se \<noteq> None then ?s1\<lparr>ss_tree := remove1 a (ss_tree s)\<rparr> else ?s1"
    have "sem_unlock a (?s2\<lparr>ss_owned := ?own, ss_table := (ss_table s)(unat (SEM_IDX sid) := None)\<rparr>) = ?s4"
      using noname by (auto simp: unlinked_def sem_unlock_def slot_lock_def a(2))
    then show ?thesis using tree s5(1,7) by (auto simp: sem_delete_def g Let_def f4 destroy_sem_struct_def slot_lock_def)
  qed
  ultimately show ?thesis using s5 f4 \<open>\<not> live ?s6 a\<close> by (intro exI [of _ ?s6]) simp
qed

section \<open>Identifiers\<close>

lemma SEM_IDX_mask: "SEM_IDX a = take_bit 13 a"
  by (simp add: SEM_IDX_def take_bit_eq_mask mask_eq_exp_minus_1)

lemma slot_bits: "slot < 8192 \<Longrightarrow> take_bit 13 (slot :: uint) = slot"
  unfolding take_bit_eq_mask using less_mask_eq [of slot 13] by simp

lemma SEM_ID_BUILD_idx: "slot < 8192 \<Longrightarrow> SEM_IDX (SEM_ID_BUILD slot gid) = slot"
  by (simp add: SEM_IDX_mask SEM_ID_BUILD_def take_bit_or take_bit_push_bit slot_bits)

lemma gid_bits: "gid < 0x80000 \<Longrightarrow> take_bit 19 (gid :: uint) = gid"
  unfolding take_bit_eq_mask using less_mask_eq [of gid 19] by simp

lemma SEM_ID_BUILD_gid:
  assumes "slot < 8192" "gid \<le> SEM_GID (- 1)"
  shows "SEM_GID (SEM_ID_BUILD slot gid) = gid"
proof -
  have g: "take_bit 19 gid = gid" by (rule gid_bits) (use assms(2) in \<open>simp add: gid_max word_le_nat_alt word_less_nat_alt\<close>)
  have "\<not> bit slot n" if "13 \<le> n" for n using arg_cong [OF slot_bits [OF assms(1)], of "\<lambda>w. bit w n"] that by (simp add: bit_take_bit_iff)
  then have "SEM_GID (SEM_ID_BUILD slot gid) = take_bit 19 gid"
    by (intro bit_word_eqI) (auto simp: SEM_GID_def SEM_ID_BUILD_def bit_simps)
  then show ?thesis using g by simp
qed

lemma of_nat_slot: "slot < 8192 \<Longrightarrow> unat (SEM_IDX (SEM_ID_BUILD (of_nat slot) gid)) = slot"
  by (simp add: SEM_ID_BUILD_idx word_less_nat_alt unat_of_nat)

section \<open>Creation\<close>

definition added :: "nat \<Rightarrow> semaphore \<Rightarrow> bool \<Rightarrow> sems \<Rightarrow> sems" where
  "added a se entered s = s\<lparr>ss_next_sem := a + 1, ss_sem := (ss_sem s)(a := se),
     ss_table := (if entered then (ss_table s)(se_slot se := Some a) else ss_table s),
     ss_tree := (if entered \<and> se_name se \<noteq> None then a # ss_tree s else ss_tree s)\<rparr>"

lemma live_next: "table_ok s \<Longrightarrow> live s b \<Longrightarrow> b \<noteq> ss_next_sem s"
  using table_okD(1) by blast

lemma added_live:
  assumes t: "table_ok s" and e: "entered \<Longrightarrow> ss_table s (se_slot se) = None" and a: "a = ss_next_sem s"
  shows "live (added a se entered s) b \<longleftrightarrow> (live s b \<or> entered \<and> b = a)"
proof (cases "b = a")
  case True
  have "ss_table s (se_slot se) \<noteq> Some a" "\<not> live s a" using t a live_next [OF t] by (auto simp: table_ok_def)
  then show ?thesis using True by (simp add: live_def added_def)
next
  case False
  then show ?thesis using e by (auto simp: live_def added_def)
qed

lemma cinv_added:
  assumes inv: "cinv i {} s" and a: "a = ss_next_sem s" and e: "entered \<Longrightarrow> ss_table s (se_slot se) = None \<and> se_slot se < 8192 \<and> \<not> se_freed se \<and>
      unat (SEM_IDX (se_id se)) = se_slot se \<and> se_count se \<le> se_max_count se \<and> (se_name se \<noteq> None \<longrightarrow> se_name se \<notin> (\<lambda>b. se_name (ss_sem s b)) ` set (ss_tree s))"
    and w: "se_waiters se = []"
  shows "cinv i {} (added a se entered s)"
proof -
  let ?s = "added a se entered s"
  note I = cinvD [OF inv]
  have lv: "live ?s b \<longleftrightarrow> (live s b \<or> entered \<and> b = a)" for b using added_live [OF I(2) _ a] e by blast
  have new: "\<not> live s a" using live_next [OF I(2)] a by blast
  have eq: "ss_sem ?s b = ss_sem s b" if "live s b" for b using that new by (cases "b = a") (simp_all add: added_def)
  have f: "ss_sem ?s a = se" "ss_wcb ?s = ss_wcb s" "ss_inside ?s = ss_inside s" "ss_timer ?s = ss_timer s" by (simp_all add: added_def)
  have "table_ok ?s" unfolding table_ok_def
  proof (intro allI impI)
    fix j b assume b: "ss_table ?s j = Some b"
    have "ss_table ?s j = (if entered \<and> j = se_slot se then Some a else ss_table s j)" by (simp add: added_def)
    then consider "entered" "j = se_slot se" "b = a" | "ss_table s j = Some b" using b by (metis option.inject)
    then show "j < 8192 \<and> b < ss_next_sem ?s \<and> \<not> se_freed (ss_sem ?s b) \<and> se_slot (ss_sem ?s b) = j \<and> unat (SEM_IDX (se_id (ss_sem ?s b))) = j \<and>
        se_count (ss_sem ?s b) \<le> se_max_count (ss_sem ?s b)"
    proof cases
      case 1
      then show ?thesis using e by (simp add: added_def)
    next
      case 2
      then have "live s b" using table_live [OF I(2)] by blast
      have "ss_next_sem ?s = Suc (ss_next_sem s)" by (simp add: added_def a)
      moreover note I(2) [unfolded table_ok_def, rule_format, OF 2]
      ultimately show ?thesis unfolding eq [OF \<open>live s b\<close>] by simp
    qed
  qed
  moreover have "tree_named ?s"
  proof -
    have tr: "b \<noteq> a" if "b \<in> set (ss_tree s)" for b using that I(3) new by (auto simp: tree_named_def)
    then have nm: "map (\<lambda>b. se_name (ss_sem ?s b)) (ss_tree s) = map (\<lambda>b. se_name (ss_sem s b)) (ss_tree s)" by (auto simp: added_def)
    have tree: "ss_tree ?s = (if entered \<and> se_name se \<noteq> None then a # ss_tree s else ss_tree s)" by (simp add: added_def)
    have "distinct (map (\<lambda>b. se_name (ss_sem s b)) (ss_tree s))" using I(3) by (simp add: tree_named_def)
    then have d: "distinct (map (\<lambda>b. se_name (ss_sem ?s b)) (ss_tree ?s))" using e by (auto simp only: tree list.map f(1) nm distinct.simps set_map split: if_splits)
    have "live ?s b \<and> se_name (ss_sem ?s b) \<noteq> None \<longleftrightarrow> (live s b \<and> se_name (ss_sem s b) \<noteq> None) \<or> entered \<and> b = a \<and> se_name se \<noteq> None" for b
      unfolding lv using eq f(1) new by (cases "b = a") auto
    then show ?thesis unfolding tree_named_def using d I(3) by (auto simp: tree_named_def added_def)
  qed
  moreover have "waiter_ok {} ?s" unfolding waiter_ok_def lv
  proof (intro conjI allI impI)
    fix b assume b: "live s b \<or> entered \<and> b = a"
    show "distinct (se_waiters (ss_sem ?s b))" using waiter_okD(1) [OF I(4)] b eq f(1) w by auto
    show "\<forall>t\<in>set (se_waiters (ss_sem ?s b)). wc_sem (ss_wcb ?s t) = b \<and> wc_err (ss_wcb ?s t) = NO_ERROR \<and> t \<in> fst ` set (ss_inside ?s) \<and> t \<notin> {}"
      using waiter_okD(2) [OF I(4)] b eq f w by auto
  next
    fix t have "(live s b \<or> entered \<and> b = a) \<and> t \<in> set (se_waiters (ss_sem ?s b)) \<longleftrightarrow> live s b \<and> t \<in> set (se_waiters (ss_sem s b))" for b
      using eq f(1) w new by auto
    then show "(t \<in> waiting (tm_sched (ss_timer ?s))) = (t \<in> {} \<or> (\<exists>b. (live s b \<or> entered \<and> b = a) \<and> t \<in> set (se_waiters (ss_sem ?s b))))"
      using I(4) unfolding waiter_ok_def f by simp
  qed
  moreover have "inside_ok i {} ?s" using I(5) unfolding inside_ok_def lv f by fastforce
  ultimately show ?thesis using I(1) f by (simp add: cinv_def)
qed


lemma name_taken_iff: "name_taken a s \<longleftrightarrow> se_name (ss_sem s a) \<in> (\<lambda>b. se_name (ss_sem s b)) ` set (ss_tree s)"
  unfolding name_taken_def find_None_iff by (metis (no_types, lifting) image_iff)

lemma find_process:
  "proc_get_process_by_id pid s = (s', p) \<Longrightarrow> \<exists>rc. s' = s\<lparr>ss_ref_count := rc\<rparr>"
  by (auto simp: proc_get_process_by_id_def split: option.splits if_splits intro: exI [of _ "ss_ref_count s"])

lemma cinv_refs [simp]: "cinv i X (s\<lparr>ss_ref_count := rc\<rparr>) = cinv i X s"
  by (intro cinv_same_core) (simp add: same_core_def)

text \<open>What a creation leaves behind.\<close>

definition created :: "sems \<Rightarrow> sems \<Rightarrow> bool" where
  "created s s' \<longleftrightarrow> ss_wcb s' = ss_wcb s \<and> ss_inside s' = ss_inside s \<and>
     (\<forall>a. live s' a \<longrightarrow> live s a \<and> ss_sem s' a = ss_sem s a \<or> se_waiters (ss_sem s' a) = [])"

lemma created_ok:
  assumes inv: "cinv i {} s" and e: "entered \<Longrightarrow> ss_table s (se_slot se) = None \<and> se_slot se < 8192 \<and> \<not> se_freed se \<and>
      unat (SEM_IDX (se_id se)) = se_slot se \<and> se_count se \<le> se_max_count se \<and> (se_name se \<noteq> None \<longrightarrow> se_name se \<notin> (\<lambda>b. se_name (ss_sem s b)) ` set (ss_tree s))"
    and w: "se_waiters se = []" and core: "same_core (added (ss_next_sem s) se entered s) s'" and lock: "\<And>j. \<not> ss_lock s' j"
  shows "seminv i s' \<and> created s s'"
proof -
  let ?s = "added (ss_next_sem s) se entered s"
  note I = cinvD [OF inv]
  have c: "cinv i {} s'" using cinv_added [OF inv refl e w] cinv_same_core [OF core] by simp
  have lv: "live ?s b \<longleftrightarrow> (live s b \<or> entered \<and> b = ss_next_sem s)" for b using added_live [OF I(2) _ refl] e by blast
  have f: "ss_sem s' = (ss_sem s)(ss_next_sem s := se)" "ss_wcb s' = ss_wcb s" "ss_inside s' = ss_inside s" "live s' b = live ?s b" for b
    using core by (simp_all add: same_core_def added_def live_def)
  have "created s s'" unfolding created_def f(2-4) lv using w by (auto simp: f(1))
  then show ?thesis using c lock by (simp add: seminv_def)
qed

definition fresh_sem :: "string option \<Rightarrow> semaphore" where
  "fresh_sem name = \<lparr>se_id = 0, se_slot = 0, se_proc = 0, se_name = (if name = Some [] then None else name), se_max_count = 0, se_count = 0,
     se_waiters = [], se_freed = False\<rparr>"

lemma fresh_sem_simps [simp]: "se_waiters (fresh_sem name) = []" "has_name name \<longleftrightarrow> se_name (fresh_sem name) \<noteq> None"
  by (auto simp: fresh_sem_def has_name_def)

lemma create_struct: "create_sem_struct True name s = (added (ss_next_sem s) (fresh_sem name) False s, Some (ss_next_sem s))"
  by (simp add: create_sem_struct_def added_def Let_def fresh_sem_def)

text \<open>The semaphore as it is filled in, and the state with it in the table.\<close>

abbreviation filled :: "nat \<Rightarrow> uint \<Rightarrow> nat \<Rightarrow> uint \<Rightarrow> uint \<Rightarrow> semaphore \<Rightarrow> semaphore" where
  "filled slot gid q max_count init_count se \<equiv> se\<lparr>se_id := SEM_ID_BUILD (of_nat slot) gid, se_slot := slot, se_proc := q,
     se_max_count := max_count, se_count := init_count\<rparr>"

lemma name_free:
  assumes inv: "cinv i {} s" and s3: "ss_sem s3 = (ss_sem s)(ss_next_sem s := se)" "ss_tree s3 = ss_tree s"
  shows "name_taken (ss_next_sem s) s3 \<longleftrightarrow> se_name se \<in> (\<lambda>b. se_name (ss_sem s b)) ` set (ss_tree s)"
proof -
  have "ss_sem s3 b = ss_sem s b" if "b \<in> set (ss_tree s)" for b
    using that cinvD(3) [OF inv] live_next [OF cinvD(2) [OF inv]] by (auto simp: s3 tree_named_def)
  then have "(\<lambda>b. se_name (ss_sem s3 b)) ` set (ss_tree s) = (\<lambda>b. se_name (ss_sem s b)) ` set (ss_tree s)" by (simp cong: image_cong)
  then show ?thesis unfolding name_taken_iff s3(2) by (simp add: s3(1))
qed

lemma create_end_ok:
  assumes inv: "cinv i {} s" and slot: "ss_table s slot = None" "slot < 8192" and lock: "\<And>j. ss_lock s j \<Longrightarrow> j = slot" and cnt: "init_count \<le> max_count"
    and idx: "\<And>gid. unat (SEM_IDX (SEM_ID_BUILD (of_nat slot) gid)) = slot"
  shows "\<exists>s' sid. sem_create_end memory name max_count init_count owner slot s = Inr (s', sid) \<and> seminv i s' \<and> created s s'"
proof (cases memory)
  case False
  have "created s (slot_lock slot False s)" by (auto simp: created_def)
  then show ?thesis using False inv lock by (auto simp: sem_create_end_def create_sem_struct_def seminv_def)
next
  case True
  let ?a = "ss_next_sem s" let ?se = "fresh_sem name" let ?s1 = "added ?a ?se False s"
  obtain s2 p where sp: "proc_get_process_by_id owner ?s1 = (s2, p)" by (cases "proc_get_process_by_id owner ?s1")
  from find_process [OF this] obtain rc where s2: "s2 = ?s1\<lparr>ss_ref_count := rc\<rparr>" by blast
  have f2: "ss_lock s2 = ss_lock s" "ss_sem s2 = (ss_sem s)(?a := ?se)" "ss_tree s2 = ss_tree s" "ss_table s2 = ss_table s" "ss_timer s2 = ss_timer s"
    "ss_wcb s2 = ss_wcb s" "ss_inside s2 = ss_inside s" "ss_next_sem s2 = ?a + 1" by (simp_all add: s2 added_def)
  show ?thesis
  proof (cases p)
    case None
    let ?s = "upd_sem ?a (\<lambda>se. se\<lparr>se_freed := True\<rparr>) (slot_lock slot False s2)"
    have "seminv i ?s \<and> created s ?s"
      by (rule created_ok [OF inv, of False "?se\<lparr>se_freed := True\<rparr>"])
        (use lock in \<open>auto simp: same_core_def added_def f2 upd_sem_def\<close>)
    moreover have "sem_create_end memory name max_count init_count owner slot s = Inr (?s, INVALID_SEMID)"
      using True by (simp add: sem_create_end_def create_struct sp None destroy_sem_struct_def f2)
    ultimately show ?thesis by blast
  next
    case (Some q)
    obtain gid n where g: "get_next_gid (slot = 0) (ss_next_gid s2) = (gid, n)" by (cases "get_next_gid (slot = 0) (ss_next_gid s2)")
    let ?f = "filled slot gid q max_count init_count"
    let ?s3 = "(upd_sem ?a ?f s2)\<lparr>ss_next_gid := n, ss_table := (ss_table s2)(slot := Some ?a)\<rparr>"
    have taken: "name_taken ?a ?s3 \<longleftrightarrow> se_name ?se \<in> (\<lambda>b. se_name (ss_sem s b)) ` set (ss_tree s)"
      using name_free [OF inv, of ?s3 "?f ?se"] by (simp add: f2 upd_sem_def)
    show ?thesis
    proof (cases "has_name name \<and> name_taken ?a ?s3")
      case taken: True
      let ?s = "proc_put_process q (upd_sem ?a (\<lambda>se. se\<lparr>se_freed := True\<rparr>) (slot_lock slot False (?s3\<lparr>ss_table := (ss_table ?s3)(slot := None)\<rparr>)))"
      have "seminv i ?s \<and> created s ?s"
        by (rule created_ok [OF inv, of False "(?f ?se)\<lparr>se_freed := True\<rparr>"])
          (use lock slot(1) in \<open>auto simp: same_core_def added_def f2 upd_sem_def proc_put_process_def fun_upd_idem\<close>)
      moreover have "sem_create_end memory name max_count init_count owner slot s = Inr (?s, INVALID_SEMID)"
        using True taken by (simp add: sem_create_end_def create_struct sp Some g Let_def destroy_sem_struct_def f2)
      ultimately show ?thesis by blast
    next
      case free: False
      let ?s4 = "if has_name name then ?s3\<lparr>ss_tree := ?a # ss_tree ?s3\<rparr> else ?s3"
      let ?s = "proc_put_process q (slot_lock slot False (?s4\<lparr>ss_owned := (ss_owned ?s4)(q := ss_owned ?s4 q @ [?a])\<rparr>))"
      have "se_name ?se \<noteq> None \<longrightarrow> se_name ?se \<notin> (\<lambda>b. se_name (ss_sem s b)) ` set (ss_tree s)" using free unfolding taken fresh_sem_simps by blast
      moreover have "\<not> se_freed ?se" by (simp add: fresh_sem_def)
      ultimately have "seminv i ?s \<and> created s ?s"
        by (intro created_ok [OF inv, of True "?f ?se"])
          (use lock slot cnt idx in \<open>simp_all add: same_core_def added_def f2 upd_sem_def proc_put_process_def, blast\<close>)
      moreover have "\<exists>sid. sem_create_end memory name max_count init_count owner slot s = Inr (?s, sid)"
        using True free by (auto simp: sem_create_end_def create_struct sp Some g Let_def)
      ultimately show ?thesis by blast
    qed
  qed
qed

lemma alloc_slot_ok:
  "alloc_slot_loop j s = (s', r) \<Longrightarrow> case r of None \<Rightarrow> s' = s | Some slot \<Rightarrow> slot < 8192 \<and> ss_table s slot = None \<and> \<not> ss_lock s slot \<and> s' = slot_lock slot True s"
proof (induction j s rule: alloc_slot_loop.induct)
  case (1 j s)
  then show ?case by (subst (asm) (2) alloc_slot_loop.simps) (auto split: if_splits)
qed

lemma sem_create_ok:
  assumes inv: "seminv i s"
  shows "\<exists>s' sid. sem_create_ex memory name max_count init_count owner s = Inr (s', sid) \<and> seminv i s' \<and> created s s'"
proof -
  have refl: "created s s" by (simp add: created_def)
  obtain s1 r where b: "sem_create_begin name max_count init_count s = (s1, r)" by (cases "sem_create_begin name max_count init_count s")
  show ?thesis
  proof (cases r)
    case None
    then have "s1 = s" using b alloc_slot_ok [of 0 s s1 None] by (auto simp: sem_create_begin_def alloc_sem_slot_def split: if_splits)
    then show ?thesis using inv refl b None by (simp add: sem_create_ex_def)
  next
    case (Some slot)
    then have c: "init_count \<le> max_count" and al: "alloc_slot_loop 0 s = (s1, Some slot)"
      using b by (auto simp: sem_create_begin_def alloc_sem_slot_def not_less split: if_splits)
    have a: "slot < 8192" "ss_table s slot = None" "s1 = slot_lock slot True s" using alloc_slot_ok [OF al] by simp_all
    have "cinv i {} s1" "ss_table s1 slot = None" "\<And>j. ss_lock s1 j \<Longrightarrow> j = slot"
      using seminvD [OF inv] a(2,3) by (simp_all split: if_splits)
    from create_end_ok [OF this(1,2) a(1) this(3) c of_nat_slot [OF a(1)]]
    obtain s' sid where "sem_create_end memory name max_count init_count owner slot s1 = Inr (s', sid)" "seminv i s'" "created s1 s'" by blast
    moreover have "created s s'" using calculation(3) a(3) by (simp add: created_def)
    ultimately show ?thesis using b Some by (simp add: sem_create_ex_def)
  qed
qed

lemma change_owner_ok:
  assumes inv: "seminv i s"
  shows "\<exists>s' st. sem_change_owner sid pid s = Inr (s', st) \<and> seminv i s' \<and> ss_wcb s' = ss_wcb s \<and> ss_inside s' = ss_inside s \<and>
    ss_table s' = ss_table s \<and> (\<forall>a. \<exists>p. ss_sem s' a = (ss_sem s a)\<lparr>se_proc := p\<rparr>)"
proof -
  have same: "\<exists>p. ss_sem s a = (ss_sem s a)\<lparr>se_proc := p\<rparr>" for a by (rule exI [of _ "se_proc (ss_sem s a)"]) simp
  obtain s1 p where sp: "proc_get_process_by_id pid s = (s1, p)" by (cases "proc_get_process_by_id pid s")
  from find_process [OF sp] obtain rc where s1: "s1 = s\<lparr>ss_ref_count := rc\<rparr>" by blast
  have inv1: "seminv i s1" using inv by (simp add: s1 seminv_def)
  show ?thesis
  proof (cases p)
    case None
    then show ?thesis using inv1 same by (simp add: sem_change_owner_def sp s1)
  next
    case (Some q)
    show ?thesis
    proof (cases rule: get_sem_cases [OF inv1, of sid])
      case 1
      have "seminv i (proc_put_process q s1)" using inv1 by (simp add: seminv_def) (simp add: proc_put_process_def)
      then show ?thesis using same 1 by (simp add: sem_change_owner_def sp Some) (simp add: s1 proc_put_process_def)
    next
      case (2 a)
      let ?s2 = "slot_lock (se_slot (ss_sem s1 a)) True s1"
      let ?old = "se_proc (ss_sem s1 a)"
      let ?s3 = "?s2\<lparr>ss_owned := (ss_owned ?s2)(?old := remove1 a (ss_owned ?s2 ?old))\<rparr>"
      let ?s4 = "upd_sem a (\<lambda>se. se\<lparr>se_proc := q\<rparr>) (?s3\<lparr>ss_owned := (ss_owned ?s3)(q := ss_owned ?s3 q @ [a])\<rparr>)"
      let ?s = "proc_put_process q (sem_unlock a ?s4)"
      have l: "\<not> se_freed (ss_sem s a)" "se_count (ss_sem s a) \<le> se_max_count (ss_sem s a)" 
        using table_okD(2,4) [OF cinvD(2) [OF seminvD(1) [OF inv1]] 2(2)] by (simp_all add: s1)
      have "cinv i {} ?s4" by (rule cinv_upd_sem) (use seminvD(1) [OF inv1] l in \<open>simp_all add: s1\<close>)
      moreover have "\<not> ss_lock ?s j" for j using seminvD(2) [OF inv, of j] by (simp add: proc_put_process_def s1)
      ultimately have "seminv i ?s" by (simp add: seminv_def)
      moreover have "sem_change_owner sid pid s = Inr (?s, NO_ERROR)" by (simp add: sem_change_owner_def sp Some 2(1) Let_def)
      moreover have "ss_sem ?s b = (if b = a then (ss_sem s a)\<lparr>se_proc := q\<rparr> else ss_sem s b)" for b by (simp add: proc_put_process_def s1 upd_sem_def)
      ultimately show ?thesis using same by (intro exI [of _ ?s] exI [of _ NO_ERROR]) (auto simp: proc_put_process_def s1 upd_sem_def)
    qed
  qed
qed

section \<open>Runs keep the invariant\<close>

lemma idle_current: "seminv i s \<Longrightarrow> sc_idle_thread (tm_sched (ss_timer s)) = Some i"
  using sched_invD(4) [OF sinvD(1) [OF tinvD(1) [OF cinvD(1) [OF seminvD(1)]]]] by (simp add: idle_ok_def)

lemma sem_delete_ok:
  assumes inv: "seminv i s" and legal: "sem_legal (Delete_Sem sid) s"
  shows "\<exists>s' st. sem_delete sid s = Inr (s', st) \<and> seminv i s' \<and> ss_inside s' = ss_inside s \<and>
    (\<forall>a. live s' a \<longrightarrow> live s a \<and> ss_sem s' a = ss_sem s a) \<and>
    (\<forall>t. wc_sem (ss_wcb s' t) = wc_sem (ss_wcb s t) \<and> wc_count (ss_wcb s' t) = wc_count (ss_wcb s t) \<and>
      (live s' (wc_sem (ss_wcb s t)) \<longrightarrow> t \<in> fst ` set (ss_inside s) \<longrightarrow> ss_wcb s' t = ss_wcb s t))"
proof (cases rule: get_sem_cases [OF inv, of sid])
  case 1
  then show ?thesis using inv by (simp add: sem_delete_def)
next
  case (2 a)
  have w: "woken s a = []" using legal 2(3) by simp
  have slot: "se_slot (ss_sem s a) = unat (SEM_IDX sid)" using table_live [OF cinvD(2) [OF seminvD(1) [OF inv]] 2(3)] by simp
  from sem_delete_found [OF inv 2(2) slot w 2(1)] obtain s' where
    s': "sem_delete sid s = Inr (s', NO_ERROR)" "seminv i s'" "ss_table s' = (ss_table s)(se_slot (ss_sem s a) := None)"
      "\<forall>b. b \<noteq> a \<longrightarrow> ss_sem s' b = ss_sem s b" "ss_inside s' = ss_inside s" "\<not> live s' a"
      "\<forall>t. ss_wcb s' t = (if t \<in> set (se_waiters (ss_sem s a)) then (ss_wcb s t)\<lparr>wc_err := ERR_SEM_DELETED\<rparr> else ss_wcb s t)" by blast
  have "live s b \<and> ss_sem s' b = ss_sem s b" if "live s' b" for b
    using that s'(3,4,6) by (cases "b = a") (auto simp: live_def split: if_splits)
  moreover have "ss_wcb s' t = ss_wcb s t" if "live s' (wc_sem (ss_wcb s t))" for t
    using waiter_okD(2) [OF cinvD(4) [OF seminvD(1) [OF inv]] 2(2), of t] that s'(6,7) by auto
  ultimately show ?thesis using s'(1,2,5,7) by (intro exI [of _ s'] exI [of _ NO_ERROR]) simp
qed

lemma sem_exec_ok:
  assumes inv: "seminv i s" and legal: "sem_legal x s"
  shows "\<exists>s'. sem_exec x s = Inr s' \<and> seminv i s'"
proof (cases x)
  case (Timer_Op y)
  have "timer_legal y (ss_timer s)" using legal Timer_Op by simp
  from timer_exec_waiting [OF cinvD(1) [OF seminvD(1) [OF inv]] this] obtain tm where
    "timer_exec y (ss_timer s) = Inr tm" "tinv i tm" "waiting (tm_sched tm) = waiting (tm_sched (ss_timer s))" by blast
  then show ?thesis using cinv_timer [OF seminvD(1) [OF inv]] seminvD(2) [OF inv] Timer_Op by (simp add: with_timer_def seminv_def)
next
  case (Create_Sem n m c p)
  then show ?thesis using sem_create_ok [OF inv, of True n m c p] by auto
next
  case (Delete_Sem sid)
  then show ?thesis using sem_delete_ok [OF inv, of sid] legal by auto
next
  case (Down sid cnt flags)
  have "current s \<noteq> i" using legal Down idle_current [OF inv] by auto
  from sem_down_ok [OF inv _ _ this, of flags sid cnt 0] Down legal show ?thesis by auto
next
  case Wakeup
  then obtain fr where "map_of (ss_inside s) (current s) = Some fr" using legal by auto
  from wakeup_ok [OF inv this] Wakeup show ?thesis by auto
next
  case (Up sid cnt)
  then show ?thesis using sem_up_inv [OF inv, of sid cnt] by auto
next
  case (Change_Owner sid pid)
  then show ?thesis using change_owner_ok [OF inv, of sid pid] by auto
qed

lemma sem_run_ok: "seminv i s \<Longrightarrow> \<exists>s'. sem_run ops s = Inr s' \<and> seminv i s'"
proof (induction ops arbitrary: s)
  case (Cons x ops)
  then show ?case using sem_exec_ok [OF Cons.prems, of x] by (cases "sem_legal x s") auto
qed simp

end
