(* ===== verification/Sem_Runs.thy ===== *)
theory Sem_Runs
  imports Sem_Ops
begin

text \<open>
  Properties of the semaphores over whole runs: no wakeup of a one-unit request is lost, \<^verbatim>\<open>sem_up\<close>
  grants in order, identifiers are unique in their slot and generation, and two defects.
\<close>

section \<open>Requests for one unit lose no wakeup\<close>

definition unit_ok :: "sems \<Rightarrow> bool" where
  "unit_ok s \<longleftrightarrow> (\<forall>t \<in> fst ` set (ss_inside s). wc_count (ss_wcb s t) = 1) \<and>
     (\<forall>a. live s a \<and> se_waiters (ss_sem s a) \<noteq> [] \<longrightarrow> unat (se_count (ss_sem s a)) \<le> length (woken s a))"

lemma unit_okD:
  assumes "unit_ok s"
  shows "t \<in> fst ` set (ss_inside s) \<Longrightarrow> wc_count (ss_wcb s t) = 1"
    "live s a \<Longrightarrow> se_waiters (ss_sem s a) \<noteq> [] \<Longrightarrow> unat (se_count (ss_sem s a)) \<le> length (woken s a)"
  using assms by (auto simp: unit_ok_def)

fun unit_op :: "sem_op \<Rightarrow> bool" where
  "unit_op (Down _ cnt _) \<longleftrightarrow> cnt \<le> 1"
| "unit_op _ \<longleftrightarrow> True"

lemma word_below_1: "\<not> 1 \<le> (c :: uint) \<Longrightarrow> c = 0"
  using unat_gt_0 [of c] by (auto simp: word_le_nat_alt)

lemma woken_distinct: "inside_ok i X s \<Longrightarrow> distinct (woken s a)"
  by (simp add: woken_def inside_ok_def)

lemma woken_cong:
  assumes "map fst (ss_inside s') = map fst (ss_inside s)"
    "\<And>t. t \<in> fst ` set (ss_inside s) \<Longrightarrow> wc_sem (ss_wcb s' t) = wc_sem (ss_wcb s t)"
    "\<And>t. t \<in> fst ` set (ss_inside s) \<Longrightarrow> wc_sem (ss_wcb s t) = a \<Longrightarrow> wc_err (ss_wcb s' t) = wc_err (ss_wcb s t)"
    "se_waiters (ss_sem s' a) = se_waiters (ss_sem s a)"
  shows "woken s' a = woken s a"
  unfolding woken_def assms(1)
proof (rule filter_cong [OF refl])
  fix t assume "t \<in> set (map fst (ss_inside s))"
  then have "t \<in> fst ` set (ss_inside s)" by simp
  note assms(2,3) [OF this]
  then show "(wc_sem (ss_wcb s' t) = a \<and> wc_err (ss_wcb s' t) = NO_ERROR \<and> t \<notin> set (se_waiters (ss_sem s' a))) =
      (wc_sem (ss_wcb s t) = a \<and> wc_err (ss_wcb s t) = NO_ERROR \<and> t \<notin> set (se_waiters (ss_sem s a)))" using assms(4) by auto
qed

lemma grant_unit:
  "\<forall>t \<in> set ts. w t = 1 \<Longrightarrow> grant w c ts = (gs, rs) \<Longrightarrow> rs \<noteq> [] \<Longrightarrow> length gs = unat c"
proof (induction w c ts arbitrary: gs rs rule: grant.induct)
  case (2 w c t ts)
  have w: "w t = 1" using 2(3) by simp
  show ?case
  proof (cases "1 \<le> c")
    case True
    then obtain gs' where g: "grant w (c - 1) ts = (gs', rs)" "gs = t # gs'" using 2(4) w by (auto split: prod.splits)
    have "length gs' = unat (c - 1)" using 2(1) [of gs' rs] w True g(1) 2(3,5) by simp
    then show ?thesis using g(2) True by (simp add: unat_sub word_le_nat_alt)
  next
    case False
    then have c: "c = 0" by (rule word_below_1)
    obtain rs' where g: "grant w c ts = (gs, rs')" using 2(4) w False by (auto split: prod.splits)
    have "gs = []" using g 2(3) unfolding c
    proof (induction ts arbitrary: gs rs')
      case (Cons u us)
      then show ?case by (auto split: prod.splits)
    qed simp
    then show ?thesis using c by simp
  qed
qed simp

lemma unit_up:
  assumes inv: "seminv i s" and u: "unit_ok s" and c: "counted a c (snd (granted a c s)) s s'" and a: "live s a"
  shows "unit_ok s'"
proof -
  have f: "ss_wcb s' = ss_wcb s" "ss_inside s' = ss_inside s" "ss_sem s' = (ss_sem s)(a := (ss_sem s a)\<lparr>se_count := c, se_waiters := snd (granted a c s)\<rparr>)"
    "ss_table s' = ss_table s" using c by (simp_all add: counted_def)
  have lv: "live s' b = live s b" for b by (cases "b = a") (simp_all add: live_def f)
  note C = cinvD [OF seminvD(1) [OF inv]]
  note W = waiter_okD [OF C(4) a]
  obtain gs rs where g: "granted a c s = (gs, rs)" by (cases "granted a c s")
  have one: "\<forall>t \<in> set (se_waiters (ss_sem s a)). wc_count (ss_wcb s t) = 1" using W(2) unit_okD(1) [OF u] by blast
  have "unat c \<le> length (woken s' a)" if "rs \<noteq> []"
  proof -
    have l: "length gs = unat c" using grant_unit [OF one] g that by (simp add: granted_def)
    have d: "distinct gs" "set gs \<inter> set rs = {}" "set gs \<subseteq> set (se_waiters (ss_sem s a))"
      using grant_distinct [OF _ W(1)] grant_set g by (auto simp: granted_def)
    have "set gs \<subseteq> set (woken s' a)" using d W(2) g by (auto simp: woken_def f)
    then have "card (set gs) \<le> length (woken s' a)" by (meson card_length card_mono dual_order.trans finite_set)
    then show ?thesis using distinct_card [OF d(1)] l by simp
  qed
  moreover have "woken s' b = woken s b" if "b \<noteq> a" for b by (rule woken_cong) (use that in \<open>simp_all add: f\<close>)
  ultimately show ?thesis using u g unfolding unit_ok_def lv f by (auto simp: f)
qed

lemma unit_down:
  assumes u: "unit_ok s" and d: "down_out t fr a s s' st" "df_count fr = 1" "wc_sem (ss_wcb s t) = a" "wc_count (ss_wcb s t) = 1"
    and dist: "distinct (map fst (ss_inside s))" and wait: "t \<notin> set (se_waiters (ss_sem s a))"
  shows "unit_ok s'"
proof -
  have D: "ss_table s' = ss_table s" "\<And>v. v \<noteq> t \<Longrightarrow> ss_wcb s' v = ss_wcb s v" "wc_sem (ss_wcb s' t) = a" "wc_count (ss_wcb s' t) = 1"
    using d by (auto simp: down_out_def)
  have ins: "ss_inside s' = others t s \<or> (\<exists>fr'. ss_inside s' = (t, fr') # others t s)" using d(1) by (auto simp: down_out_def split: if_splits)
  have se: "se_slot (ss_sem s' b) = se_slot (ss_sem s b)" "b \<noteq> a \<Longrightarrow> ss_sem s' b = ss_sem s b" for b
    using d(1) by (auto simp: down_out_def split: if_splits)
  have lv: "live s' b = live s b" for b by (simp add: live_def D se)
  have one: "\<forall>v \<in> fst ` set (ss_inside s'). wc_count (ss_wcb s' v) = 1"
  proof
    fix v assume "v \<in> fst ` set (ss_inside s')"
    then have "v = t \<or> v \<in> fst ` set (ss_inside s)" using ins by auto
    then show "wc_count (ss_wcb s' v) = 1" using D(2,4) unit_okD(1) [OF u, of v] by (cases "v = t") auto
  qed
  have others: "map fst (others t s) = filter (\<lambda>v. v \<noteq> t) (map fst (ss_inside s))" by (simp add: filter_map o_def)
  have oth: "woken s' b = woken s b" if "b \<noteq> a" for b
  proof -
    have "woken s' b = filter (\<lambda>v. wc_sem (ss_wcb s' v) = b \<and> wc_err (ss_wcb s' v) = NO_ERROR \<and> v \<notin> set (se_waiters (ss_sem s' b))) (map fst (others t s))"
      using ins D(3) that by (auto simp: woken_def)
    also have "\<dots> = woken s b"
      unfolding others filter_filter woken_def
    proof (rule filter_cong [OF refl])
      fix v show "(v \<noteq> t \<and> wc_sem (ss_wcb s' v) = b \<and> wc_err (ss_wcb s' v) = NO_ERROR \<and> v \<notin> set (se_waiters (ss_sem s' b))) =
          (wc_sem (ss_wcb s v) = b \<and> wc_err (ss_wcb s v) = NO_ERROR \<and> v \<notin> set (se_waiters (ss_sem s b)))"
        using D(2) [of v] d(3) that se(2) [OF that] by (cases "v = t") auto
    qed
    finally show ?thesis .
  qed
  have "unat (se_count (ss_sem s' a)) \<le> length (woken s' a)" if "live s a" "se_waiters (ss_sem s' a) \<noteq> []"
  proof (cases "1 \<le> se_count (ss_sem s a)")
    case True
    then have o: "ss_inside s' = others t s" "ss_sem s' = (ss_sem s)(a := (ss_sem s a)\<lparr>se_count := se_count (ss_sem s a) - 1\<rparr>)"
      using d(1,2) by (auto simp: down_out_def)
    have "woken s' a = filter (\<lambda>v. v \<noteq> t) (woken s a)"
      unfolding woken_def o(1) others filter_filter using D(2) o(2) by (intro filter_cong) auto
    also have "\<dots> = removeAll t (woken s a)" by (simp add: removeAll_filter_not_eq eq_commute)
    also have "\<dots> = remove1 t (woken s a)" using dist by (simp add: distinct_remove1_removeAll woken_def)
    finally have "length (woken s a) - 1 \<le> length (woken s' a)" by (simp add: length_remove1)
    moreover have "unat (se_count (ss_sem s a)) \<le> length (woken s a)" using unit_okD(2) [OF u that(1)] that(2) o(2) by simp
    ultimately show ?thesis using o(2) True by (simp add: unat_sub word_le_nat_alt)
  next
    case False
    then have "se_count (ss_sem s a) = 0" by (rule word_below_1)
    moreover have "se_count (ss_sem s' a) = se_count (ss_sem s a)" using d(1,2) False by (auto simp: down_out_def split: if_splits)
    ultimately show ?thesis by simp
  qed
  then show ?thesis unfolding unit_ok_def lv using one oth unit_okD(2) [OF u] se(2) by metis
qed

lemma unit_create:
  assumes u: "unit_ok s" and c: "created s s'"
  shows "unit_ok s'"
proof -
  have C: "ss_wcb s' = ss_wcb s" "ss_inside s' = ss_inside s" "live s' a \<Longrightarrow> live s a \<and> ss_sem s' a = ss_sem s a \<or> se_waiters (ss_sem s' a) = []" for a
    using c by (auto simp: created_def)
  have "woken s' a = woken s a" if "ss_sem s' a = ss_sem s a" for a by (rule woken_cong) (simp_all add: C that)
  then show ?thesis using u C unfolding unit_ok_def by metis
qed

lemma unit_delete:
  assumes inv: "seminv i s" and legal: "sem_legal (Delete_Sem sid) s" and u: "unit_ok s" and s': "sem_delete sid s = Inr (s', st)"
  shows "unit_ok s'"
proof -
  have D: "ss_inside s' = ss_inside s" "\<And>a. live s' a \<Longrightarrow> live s a \<and> ss_sem s' a = ss_sem s a"
      "\<And>t. wc_sem (ss_wcb s' t) = wc_sem (ss_wcb s t)" "\<And>t. wc_count (ss_wcb s' t) = wc_count (ss_wcb s t)"
      "\<And>t. live s' (wc_sem (ss_wcb s t)) \<Longrightarrow> t \<in> fst ` set (ss_inside s) \<Longrightarrow> ss_wcb s' t = ss_wcb s t"
    using sem_delete_ok [OF inv legal] s' by auto
  have "woken s' a = woken s a" if "live s' a" for a
  proof (rule woken_cong)
    fix t assume "t \<in> fst ` set (ss_inside s)" "wc_sem (ss_wcb s t) = a"
    then show "wc_err (ss_wcb s' t) = wc_err (ss_wcb s t)" using D(5) [of t] that by simp
  qed (use D that in simp_all)
  then show ?thesis using u D(1,2,4) unfolding unit_ok_def by metis
qed

lemma unit_owner:
  assumes inv: "seminv i s" and u: "unit_ok s" and s': "sem_change_owner sid pid s = Inr (s', st)"
  shows "unit_ok s'"
proof -
  have C: "ss_wcb s' = ss_wcb s" "ss_inside s' = ss_inside s" "ss_table s' = ss_table s" "\<exists>p. ss_sem s' a = (ss_sem s a)\<lparr>se_proc := p\<rparr>" for a
    using change_owner_ok [OF inv, of sid pid] s' by auto
  have e: "se_waiters (ss_sem s' a) = se_waiters (ss_sem s a)" "se_count (ss_sem s' a) = se_count (ss_sem s a)" "se_slot (ss_sem s' a) = se_slot (ss_sem s a)" for a
    using C(4) [of a] by auto
  have "woken s' a = woken s a" for a by (rule woken_cong) (simp_all add: C e)
  moreover have "live s' a = live s a" for a by (simp add: live_def C e)
  ultimately show ?thesis using u unfolding unit_ok_def C e by simp
qed

lemma unit_sem_up:
  assumes inv: "seminv i s" and u: "unit_ok s" and s': "sem_up sid cnt s = Some (Inr (s', st))"
  shows "unit_ok s'"
proof (cases rule: get_sem_cases [OF inv, of sid])
  case 1
  then show ?thesis using s' u by (simp add: sem_up_def)
next
  case (2 a)
  show ?thesis
  proof (cases "se_max_count (ss_sem s a) < se_count (ss_sem s a) + cnt \<or> cnt = 0")
    case True
    then show ?thesis using sem_up_refused [OF inv 2(1) True] s' u by simp
  next
    case False
    from sem_up_found [OF inv 2(2,3,4,1), of cnt] False obtain s'' where
      "sem_up sid cnt s = Some (Inr (s'', NO_ERROR))" "counted a (se_count (ss_sem s a) + cnt) (snd (granted a (se_count (ss_sem s a) + cnt) s)) s s''"
      by (auto simp: not_less)
    then show ?thesis using unit_up [OF inv u _ 2(2)] s' by auto
  qed
qed

lemma unit_sem_down:
  assumes inv: "seminv i s" and legal: "sem_legal (Down sid cnt flags) s" and u: "unit_ok s" "cnt \<le> 1"
    and s': "sem_down_ex sid cnt 0 flags s = Inr (s', st)"
  shows "unit_ok s'"
proof -
  let ?t = "current s"
  have cur: "?t \<noteq> i" "map_of (ss_inside s) ?t = None" "flags AND SEMF_TIMEOUT = 0" using legal idle_current [OF inv] by auto
  have out: "?t \<notin> fst ` set (ss_inside s)" using cur(2) by (simp add: map_of_eq_None_iff)
  note C = cinvD [OF seminvD(1) [OF inv]]
  from sem_down_ok [OF inv cur(2,3,1), of sid cnt 0] s' consider "s' = s" | a s1 fr where
    "live s a" "cnt \<noteq> 0" "df_count fr = cnt"
    "s1 = upd_wcb ?t (\<lambda>w. w\<lparr>wc_sem := a, wc_count := cnt\<rparr>) (slot_lock (se_slot (ss_sem s a)) True s)" "down_out ?t fr a s1 s' st" by auto
  then show ?thesis
  proof cases
    case 1
    then show ?thesis using u(1) by simp
  next
    case (2 a s1 fr)
    have one: "cnt = 1" using u(2) 2(2) word_below_1 [of cnt] by (meson order_antisym_conv)
    have "v \<noteq> ?t" if "v \<in> fst ` set (ss_inside s)" for v using that out by blast
    then have f: "ss_inside s1 = ss_inside s" "ss_sem s1 = ss_sem s" "live s1 b = live s b" "\<And>v. v \<in> fst ` set (ss_inside s) \<Longrightarrow> ss_wcb s1 v = ss_wcb s v" for b
      by (simp_all add: 2(4))
    have "woken s1 b = woken s b" for b by (rule woken_cong) (simp_all add: f)
    then have "unit_ok s1" using u(1) f unfolding unit_ok_def by metis
    moreover have "?t \<notin> set (se_waiters (ss_sem s1 a))" using waiter_okD(2) [OF C(4) 2(1), of ?t] out f(2) by auto
    ultimately show ?thesis using unit_down [OF _ 2(5)] 2(3,4) one C(5) f(1) by (simp add: inside_ok_def)
  qed
qed

lemma unit_wakeup:
  assumes inv: "seminv i s" and fr: "map_of (ss_inside s) (current s) = Some fr" and u: "unit_ok s" and s': "sem_down_wakeup s = Inr (s', st)"
  shows "unit_ok s'"
proof -
  let ?t = "current s"
  note C = cinvD [OF seminvD(1) [OF inv]]
  have tin: "?t \<in> fst ` set (ss_inside s)" using map_of_SomeD [OF fr] by force
  from wakeup_ok [OF inv fr] s' have
    w: "if wc_err (ss_wcb s ?t) = ERR_SEM_DELETED
     then st = Some ERR_SEM_DELETED \<and> ss_sem s' = ss_sem s \<and> ss_inside s' = others ?t s \<and> ss_wcb s' = ss_wcb s \<and> ss_table s' = ss_table s
     else live s (wc_sem (ss_wcb s ?t)) \<and> wc_err (ss_wcb s ?t) = NO_ERROR \<and> down_out ?t fr (wc_sem (ss_wcb s ?t)) s s' st" by auto
  show ?thesis
  proof (cases "wc_err (ss_wcb s ?t) = ERR_SEM_DELETED")
    case True
    then have f: "ss_sem s' = ss_sem s" "ss_inside s' = others ?t s" "ss_wcb s' = ss_wcb s" "ss_table s' = ss_table s" using w by auto
    have "woken s' a = woken s a" for a unfolding woken_def f filter_map filter_filter
      using True by (intro arg_cong [where f = "map fst"] filter_cong) auto
    moreover have "live s' a = live s a" for a by (simp add: live_def f)
    ultimately show ?thesis using u unfolding unit_ok_def f by auto
  next
    case False
    then have o: "down_out ?t fr (wc_sem (ss_wcb s ?t)) s s' st" "live s (wc_sem (ss_wcb s ?t))" using w by auto
    have "?t \<notin> set (se_waiters (ss_sem s (wc_sem (ss_wcb s ?t))))"
      using waiter_okD(2) [OF C(4) o(2), of ?t] current_not_waiting [OF C(1)] by blast
    then show ?thesis using unit_down [OF u o(1)] inside_okD(5) [OF C(5) fr] unit_okD(1) [OF u tin] C(5) by (simp add: inside_ok_def)
  qed
qed

lemma unit_exec:
  assumes inv: "seminv i s" and legal: "sem_legal x s" and u: "unit_ok s" "unit_op x" and s': "sem_exec x s = Inr s'"
  shows "unit_ok s'"
proof (cases x)
  case (Timer_Op y)
  then obtain tm where "s' = s\<lparr>ss_timer := tm\<rparr>" using s' by (auto simp: with_timer_def split: sum.splits)
  then show ?thesis using u(1) by (simp add: unit_ok_def woken_def)
next
  case (Create_Sem n m c p)
  then show ?thesis using unit_create [OF u(1)] sem_create_ok [OF inv, of True n m c p] s' by auto
next
  case (Delete_Sem sid)
  then show ?thesis using unit_delete [OF inv _ u(1)] sem_delete_ok [OF inv, of sid] legal s' by auto
next
  case (Change_Owner sid pid)
  then show ?thesis using unit_owner [OF inv u(1)] change_owner_ok [OF inv, of sid pid] s' by auto
next
  case (Up sid cnt)
  then show ?thesis using unit_sem_up [OF inv u(1)] sem_up_inv [OF inv, of sid cnt] s' by auto
next
  case (Down sid cnt flags)
  then show ?thesis using unit_sem_down [OF inv _ u(1)] u(2) legal s' by (cases "sem_down_ex sid cnt 0 flags s") auto
next
  case Wakeup
  then show ?thesis using unit_wakeup [OF inv _ u(1)] legal s' by (cases "sem_down_wakeup s") auto
qed

section \<open>Boot\<close>

text \<open>The kernel process has the number 1.\<close>

definition static_sems :: "timer \<Rightarrow> sems" where
  "static_sems tm = \<lparr>ss_timer = tm, ss_sem = (\<lambda>_. fresh_sem None), ss_table = (\<lambda>_. None), ss_lock = (\<lambda>_. False), ss_next_gid = 0, ss_tree = [],
     ss_wcb = (\<lambda>_. \<lparr>wc_sem = 0, wc_count = 0, wc_timeout = 0, wc_err = NO_ERROR\<rparr>), ss_inside = [], ss_term_cbs = (\<lambda>_. []), ss_procs = [0],
     ss_proc_id = (\<lambda>_. 1), ss_proc_death = (\<lambda>_. False), ss_ref_count = (\<lambda>_. 1), ss_owned = (\<lambda>_. []), ss_thread_proc = (\<lambda>_. 0), ss_next_sem = 0\<rparr>"

definition reach_sems :: "nat \<Rightarrow> sem_op list \<Rightarrow> sem_error + sems" where
  "reach_sems i ops = (case boot_timer i of Inl e \<Rightarrow> Inl (Sem_Timer e) | Inr tm \<Rightarrow> sem_run ops (semaphores_init (static_sems tm)))"

lemma boot_sems_ok:
  assumes "tinv i tm" "waiting (tm_sched tm) = {}"
  shows "seminv i (semaphores_init (static_sems tm)) \<and> unit_ok (semaphores_init (static_sems tm))"
  using assms by (simp add: seminv_def cinv_def table_ok_def tree_named_def waiter_ok_def inside_ok_def live_def unit_ok_def semaphores_init_def static_sems_def reset_slots_def)

lemma reach_sems_ok: "\<exists>s. reach_sems i ops = Inr s \<and> seminv i s"
  using boot_timer_ok [of i] boot_sems_ok [of i] sem_run_ok by (fastforce simp: reach_sems_def)

lemma reach_semsD: "reach_sems i ops = Inr s \<Longrightarrow> seminv i s"
  using reach_sems_ok [of i ops] by auto

lemma unit_run: "seminv i s \<Longrightarrow> unit_ok s \<Longrightarrow> list_all unit_op ops \<Longrightarrow> sem_run ops s = Inr s' \<Longrightarrow> unit_ok s'"
proof (induction ops arbitrary: s)
  case (Cons x ops)
  show ?case
  proof (cases "sem_legal x s")
    case True
    from sem_exec_ok [OF Cons.prems(1) True] obtain s1 where s1: "sem_exec x s = Inr s1" "seminv i s1" by blast
    have "unit_ok s1" using unit_exec [OF Cons.prems(1) True Cons.prems(2) _ s1(1)] Cons.prems(3) by simp
    then show ?thesis using Cons.IH [OF s1(2)] Cons.prems(3,4) s1(1) True by simp
  qed (use Cons.prems in simp)
qed simp

lemma reach_unit: "list_all unit_op ops \<Longrightarrow> reach_sems i ops = Inr s \<Longrightarrow> unit_ok s"
proof -
  assume a: "list_all unit_op ops" "reach_sems i ops = Inr s"
  from boot_timer_ok [of i] obtain tm where tm: "boot_timer i = Inr tm" "tinv i tm" "waiting (tm_sched tm) = {}" by blast
  then show ?thesis using unit_run [of i "semaphores_init (static_sems tm)" ops s] boot_sems_ok [OF tm(2,3)] a by (simp add: reach_sems_def)
qed

section \<open>Scenarios\<close>

text \<open>Code equations that compute a new entry before it goes into a map.\<close>

lemma strict_updates [code]:
  "upd_thread t f sc = (let th = f (sc_threads sc t); m = (sc_threads sc)(t := th) in sc\<lparr>sc_threads := m\<rparr>)"
  "upd_sem a g s = (let se = g (ss_sem s a); m = (ss_sem s)(a := se) in s\<lparr>ss_sem := m\<rparr>)"
  "upd_wcb t h s = (let w = h (ss_wcb s t); m = (ss_wcb s)(t := w) in s\<lparr>ss_wcb := m\<rparr>)"
  "proc_put_process p s = (let n = ss_ref_count s p - 1; m = (ss_ref_count s)(p := n) in s\<lparr>ss_ref_count := m\<rparr>)"
  "slot_lock k b s = (let m = (ss_lock s)(k := b) in s\<lparr>ss_lock := m\<rparr>)"
  "leave_down t s = (let l = filter (\<lambda>x. fst x \<noteq> t) (ss_inside s) in s\<lparr>ss_inside := l\<rparr>)"
  "enter_down t fr s = (let l = (t, fr) # filter (\<lambda>x. fst x \<noteq> t) (ss_inside s) in s\<lparr>ss_inside := l\<rparr>)"
  by (simp_all add: upd_thread_def upd_sem_def upd_wcb_def proc_put_process_def slot_lock_def leave_down_def enter_down_def)

lemma strict_register [code]:
  "down_register t s =
     (let cbs = ss_term_cbs s t @ [t]; m = (ss_term_cbs s)(t := cbs); tm = set_next_state t THREAD_STATE_WAITING (ss_timer s)
      in sem_put_wcb (wc_sem (ss_wcb s t)) t (s\<lparr>ss_timer := tm, ss_term_cbs := m\<rparr>))"
  by (simp add: down_register_def)


section \<open>Properties\<close>

lemma get_sem_live:
  assumes inv: "seminv i s" and a: "live s a"
  shows "get_sem_by_id (se_id (ss_sem s a)) s = Inr (slot_lock (se_slot (ss_sem s a)) True s, Some a)"
    "ss_table s (unat (SEM_IDX (se_id (ss_sem s a)))) = Some a"
proof -
  note T = table_okD(3,5) [OF cinvD(2) [OF seminvD(1) [OF inv]] a]
  show t: "ss_table s (unat (SEM_IDX (se_id (ss_sem s a)))) = Some a" using a T(1) by (simp add: live_def)
  show "get_sem_by_id (se_id (ss_sem s a)) s = Inr (slot_lock (se_slot (ss_sem s a)) True s, Some a)"
    using t T seminvD(2) [OF inv] by (simp add: get_sem_by_id_def Let_def)
qed

lemma get_next_gid_ok: "get_next_gid nozero n = (gid, n') \<Longrightarrow> gid \<le> SEM_GID (- 1) \<and> n' \<le> SEM_GID (- 1) + 1 \<and> \<not> (nozero \<and> gid = 0)"
proof (induction nozero n rule: get_next_gid.induct)
  case (1 nozero n)
  obtain r m where rm: "next_gid n = (r, m)" by (cases "next_gid n")
  show ?case
  proof (cases "nozero \<and> r = 0")
    case True
    then have "get_next_gid nozero m = (gid, n')" using 1(2) rm by (subst (asm) get_next_gid.simps) simp
    then show ?thesis using 1(1) [OF rm [symmetric] True] by simp
  next
    case False
    then have e: "gid = r" "n' = m" using 1(2) rm by (subst (asm) get_next_gid.simps, simp)+
    have "r \<le> 0x7FFFF \<and> m \<le> 0x80000"
    proof (cases "SEM_GID (- 1) < n")
      case True
      then show ?thesis using rm by (simp add: next_gid_def)
    next
      case False
      then have "r = n" "m = n + 1" using rm by (auto simp: next_gid_def)
      moreover have "unat n \<le> 0x7FFFF" using False by (simp add: gid_max not_less word_le_nat_alt)
      ultimately have n: "unat n \<le> 0x7FFFF" "r = n" "m = n + 1" by simp_all
      have "unat (n + 1) = unat n + 1" using n(1) by (simp add: unat_word_ariths)
      then show ?thesis using n by (simp add: word_le_nat_alt)
    qed
    then show ?thesis using e False by (simp add: gid_max)
  qed
qed




text \<open>
  C37. The generation of identifiers terminates with a generation number in range, and the
  identifier built from it and a slot gives back both and is never the invalid one.
\<close>
theorem sem_id_roundtrip:
  assumes "slot < 8192" "get_next_gid (slot = 0) n = (gid, n')"
  shows "unat (SEM_IDX (SEM_ID_BUILD (of_nat slot) gid)) = slot \<and> SEM_GID (SEM_ID_BUILD (of_nat slot) gid) = gid \<and>
    SEM_ID_BUILD (of_nat slot) gid \<noteq> INVALID_SEMID \<and> n' \<le> SEM_GID (- 1) + 1"
proof -
  note g = get_next_gid_ok [OF assms(2)]
  have s: "(of_nat slot :: uint) < 8192" using assms(1) by (simp add: word_less_nat_alt unat_of_nat)
  have i: "unat (SEM_IDX (SEM_ID_BUILD (of_nat slot) gid)) = slot" by (rule of_nat_slot [OF assms(1)])
  have b: "SEM_GID (SEM_ID_BUILD (of_nat slot) gid) = gid" by (rule SEM_ID_BUILD_gid [OF s]) (use g in blast)
  have "SEM_ID_BUILD (of_nat slot) gid \<noteq> 0"
  proof
    assume "SEM_ID_BUILD (of_nat slot) gid = 0"
    then have "slot = 0" "gid = 0" using i b by (simp_all add: SEM_IDX_def SEM_GID_def)
    then show False using g by simp
  qed
  then show ?thesis using i b g by (simp add: INVALID_SEMID_def)
qed

text \<open>
  C38. The check of \<^verbatim>\<open>sem_up\<close> against the maximum adds in 32 bits: a count whose sum wraps around is
  accepted, and it lowers the counter.
\<close>
theorem sem_up_wraps:
  assumes "reach_sems i ops = Inr s" "live s a" "se_max_count (ss_sem s a) = - 1" "2 ^ 32 \<le> unat (se_count (ss_sem s a)) + unat cnt"
  shows "\<exists>s'. sem_up (se_id (ss_sem s a)) cnt s = Some (Inr (s', NO_ERROR)) \<and> se_count (ss_sem s' a) < se_count (ss_sem s a)"
proof -
  note inv = reach_semsD [OF assms(1)]
  note g = get_sem_live [OF inv assms(2)]
  have l: "unat x < 2 ^ 32" for x :: uint using unsigned_less [of x, where 'a = nat] by simp
  have c0: "cnt \<noteq> 0" using assms(4) l [of "se_count (ss_sem s a)"] by auto
  have "unat (se_count (ss_sem s a) + cnt) = unat (se_count (ss_sem s a)) + unat cnt - 2 ^ 32"
    using assms(4) l [of "se_count (ss_sem s a)"] l [of cnt] by (simp add: unat_word_ariths mod_if)
  then have "se_count (ss_sem s a) + cnt < se_count (ss_sem s a)" using assms(4) l [of cnt] by (simp add: word_less_nat_alt)
  then show ?thesis using sem_up_found [OF inv assms(2) g(2) refl g(1) _ c0] assms(3) by (auto simp: counted_def)
qed

text \<open>
  C39. A semaphore may be deleted although a thread that \<^verbatim>\<open>sem_up\<close> has woken is still on its way to it:
  the deletion succeeds, and when that thread runs again it takes the lock of a freed semaphore.
\<close>
theorem sem_delete_strands_woken_thread:
  assumes "reach_sems i ops = Inr s" "live s a" "se_waiters (ss_sem s a) = []" "t \<in> set (woken s a)"
  shows "\<exists>s'. sem_delete (se_id (ss_sem s a)) s = Inr (s', NO_ERROR) \<and>
    (\<forall>tm. sc_current (tm_sched tm) = t \<longrightarrow> sem_down_wakeup (s'\<lparr>ss_timer := tm\<rparr>) = Inl Sem_Freed)"
proof -
  note inv = reach_semsD [OF assms(1)]
  note g = get_sem_live [OF inv assms(2)]
  note C = cinvD [OF seminvD(1) [OF inv]]
  let ?se = "ss_sem s a"
  have tree: "se_name ?se \<noteq> None \<Longrightarrow> List.find (\<lambda>b. se_name (ss_sem s b) = se_name ?se) (ss_tree s) = Some a"
    using C(3) assms(2) by (intro find_unique [where f = "\<lambda>b. se_name (ss_sem s b)"]) (auto simp: tree_named_def)
  have "\<exists>s'. sem_delete (se_id ?se) s = Inr (s', NO_ERROR) \<and> ss_wcb s' = ss_wcb s \<and> ss_inside s' = ss_inside s \<and> se_freed (ss_sem s' a)"
    using tree assms(3) by (cases "se_name ?se = None") (simp_all add: sem_delete_def g(1) Let_def destroy_sem_struct_def)
  then obtain s' where s': "sem_delete (se_id ?se) s = Inr (s', NO_ERROR)" "ss_wcb s' = ss_wcb s" "ss_inside s' = ss_inside s" "se_freed (ss_sem s' a)"
    by blast
  have w: "wc_sem (ss_wcb s t) = a" "wc_err (ss_wcb s t) = NO_ERROR" "t \<in> fst ` set (ss_inside s)" using assms(4) by (auto simp: woken_def)
  then obtain fr where "map_of (ss_inside s) t = Some fr" by (cases "map_of (ss_inside s) t") (auto simp: map_of_eq_None_iff)
  then have "sem_down_wakeup (s'\<lparr>ss_timer := tm\<rparr>) = Inl Sem_Freed" if "sc_current (tm_sched tm) = t" for tm
    using that w s' by (simp add: sem_down_wakeup_def Let_def sem_lock_def)
  then show ?thesis using s'(1) by blast
qed


section \<open>Witnesses\<close>

text \<open>The timeout thread waits for one unit; a semaphore with the largest maximum; a woken thread.\<close>

definition wait_ops :: "sem_op list" where
  "wait_ops = [Create_Sem None 2 0 1, Timer_Op Yield, Down 0x2000 1 0]"

definition big_ops :: "sem_op list" where
  "big_ops = [Create_Sem None 0xFFFFFFFF 5 1]"

definition woken_ops :: "sem_op list" where
  "woken_ops = wait_ops @ [Up 0x2000 1]"

definition reached :: "sem_op list \<Rightarrow> sems" where
  "reached ops = (case reach_sems 0 ops of Inl e \<Rightarrow> undefined | Inr s \<Rightarrow> s)"

lemma reached_reach: "reach_sems 0 ops = Inr (reached ops)"
  using reach_sems_ok [of 0 ops] by (auto simp: reached_def)

definition view_sem :: "sems \<Rightarrow> (nat option \<times> nat \<times> uint \<times> uint \<times> uint \<times> nat list) \<times> nat list \<times> nat list \<times> nat list" where
  "view_sem s = ((ss_table s 0, se_slot (ss_sem s 0), se_id (ss_sem s 0), se_max_count (ss_sem s 0), se_count (ss_sem s 0), se_waiters (ss_sem s 0)),
     woken s 0, fst (granted 0 1 s), snd (granted 0 1 s))"

lemma wait_view: "view_sem (reached wait_ops) = ((Some 0, 0, 0x2000, 2, 0, [1]), [], [1], [])"
  by code_simp

lemma big_view: "view_sem (reached big_ops) = ((Some 0, 0, 0x2000, - 1, 5, []), [], [], [])"
  by code_simp

lemma woken_view: "view_sem (reached woken_ops) = ((Some 0, 0, 0x2000, 2, 1, []), [1], [], [])"
  by code_simp


lemma wait_fields:
  "live (reached wait_ops) 0" "se_id (ss_sem (reached wait_ops) 0) = 0x2000" "se_max_count (ss_sem (reached wait_ops) 0) = 2"
  "se_count (ss_sem (reached wait_ops) 0) = 0" "se_waiters (ss_sem (reached wait_ops) 0) = [1]" "granted 0 1 (reached wait_ops) = ([1], [])"
  "woken (reached wait_ops) 0 = []"
  using wait_view by (simp_all add: view_sem_def live_def prod_eq_iff)

lemma big_fields:
  "live (reached big_ops) 0" "se_id (ss_sem (reached big_ops) 0) = 0x2000" "se_max_count (ss_sem (reached big_ops) 0) = - 1"
  "se_count (ss_sem (reached big_ops) 0) = 5"
  using big_view by (simp_all add: view_sem_def live_def)

lemma woken_fields:
  "live (reached woken_ops) 0" "se_id (ss_sem (reached woken_ops) 0) = 0x2000" "se_waiters (ss_sem (reached woken_ops) 0) = []"
  "woken (reached woken_ops) 0 = [1]"
  using woken_view by (simp_all add: view_sem_def live_def)



theorem sem_id_roundtrip_witness:
  "unat (SEM_IDX (SEM_ID_BUILD (of_nat 7) 0x7FFFF)) = 7 \<and> SEM_GID (SEM_ID_BUILD (of_nat 7) 0x7FFFF) = 0x7FFFF \<and>
    SEM_ID_BUILD (of_nat 7) 0x7FFFF \<noteq> INVALID_SEMID \<and> (0x80000 :: uint) \<le> SEM_GID (- 1) + 1"
proof (rule sem_id_roundtrip)
  show "get_next_gid (7 = (0 :: nat)) 0x7FFFF = (0x7FFFF, 0x80000)" by code_simp
qed simp

theorem sem_up_wraps_witness:
  "\<exists>s'. sem_up 0x2000 0xFFFFFFFC (reached big_ops) = Some (Inr (s', NO_ERROR)) \<and> se_count (ss_sem s' 0) < 5"
  using sem_up_wraps [OF reached_reach [of big_ops] big_fields(1,3), of "0xFFFFFFFC"] by (simp add: big_fields)

theorem sem_delete_strands_woken_thread_witness:
  "\<exists>s'. sem_delete 0x2000 (reached woken_ops) = Inr (s', NO_ERROR) \<and>
    sem_down_wakeup (s'\<lparr>ss_timer := (ss_timer s')\<lparr>tm_sched := (tm_sched (ss_timer s'))\<lparr>sc_current := 1\<rparr>\<rparr>\<rparr>) = Inl Sem_Freed"
  using sem_delete_strands_woken_thread [OF reached_reach [of woken_ops] woken_fields(1,3), of 1] by (force simp: woken_fields)

end
