(* ===== verification/Memory.thy ===== *)
theory Memory
  imports Prelude
begin

text \<open>
  The block routines of \<^verbatim>\<open>lib/string\<close>: \<^verbatim>\<open>memcpy\<close>, \<^verbatim>\<open>memmove\<close>, \<^verbatim>\<open>memset\<close>, \<^verbatim>\<open>memcmp\<close>, \<^verbatim>\<open>memchr\<close> and \<^verbatim>\<open>memscan\<close>
  on a memory of bytes with 32-bit addresses that wrap around. The optimised routines move words
  where they can; they are shown to agree with a simultaneous copy of all bytes.
\<close>

unbundle bit_operations_syntax

type_synonym byte = "8 word"
type_synonym memory = "uint \<Rightarrow> byte"

section \<open>Copying\<close>

text \<open>A counter of type \<^verbatim>\<open>int\<close> that a loop runs down to zero.\<close>

definition loop_count :: "uint \<Rightarrow> nat" where
  "loop_count len = nat (sint len)"

primrec copy_up :: "nat \<Rightarrow> uint \<Rightarrow> uint \<Rightarrow> memory \<Rightarrow> memory \<times> uint \<times> uint" where
  "copy_up 0 d s m = (m, d, s)"
| "copy_up (Suc n) d s m = copy_up n (d + 1) (s + 1) (m(d := m s))"

primrec copy_down :: "nat \<Rightarrow> uint \<Rightarrow> uint \<Rightarrow> memory \<Rightarrow> memory \<times> uint \<times> uint" where
  "copy_down 0 d s m = (m, d, s)"
| "copy_down (Suc n) d s m = copy_down n (d - 1) (s - 1) (m(d - 1 := m (s - 1)))"

text \<open>A word is read as a whole before it is written.\<close>

definition move_word :: "uint \<Rightarrow> uint \<Rightarrow> memory \<Rightarrow> memory" where
  "move_word d s m = m(d := m s, d + 1 := m (s + 1), d + 2 := m (s + 2), d + 3 := m (s + 3))"

primrec copy_words_up :: "nat \<Rightarrow> uint \<Rightarrow> uint \<Rightarrow> memory \<Rightarrow> memory \<times> uint \<times> uint" where
  "copy_words_up 0 d s m = (m, d, s)"
| "copy_words_up (Suc n) d s m = copy_words_up n (d + 4) (s + 4) (move_word d s m)"

primrec copy_words_down :: "nat \<Rightarrow> uint \<Rightarrow> uint \<Rightarrow> memory \<Rightarrow> memory \<times> uint \<times> uint" where
  "copy_words_down 0 d s m = (m, d, s)"
| "copy_words_down (Suc n) d s m = copy_words_down n (d - 4) (s - 4) (move_word (d - 4) (s - 4) m)"

definition lsize :: uint where "lsize = 4"
definition lmask :: uint where "lmask = lsize - 1"

definition forward_copy :: "uint \<Rightarrow> uint \<Rightarrow> uint \<Rightarrow> memory \<Rightarrow> memory" where
  "forward_copy d s cnt m =
     (let (m1, d1, s1, cnt1) =
        (if (d OR s) AND lmask \<noteq> 0
         then (let len = (if (d XOR s) AND lmask \<noteq> 0 \<or> cnt < lsize then cnt else lsize - (d AND lmask));
                   (m', d', s') = copy_up (loop_count len) d s m
               in (m', d', s', cnt - len))
         else (m, d, s, cnt));
       (m2, d2, s2) = copy_words_up (loop_count (cnt1 div lsize)) d1 s1 m1;
       (m3, _, _) = copy_up (loop_count (cnt1 AND lmask)) d2 s2 m2
      in m3)"

definition backward_copy :: "uint \<Rightarrow> uint \<Rightarrow> uint \<Rightarrow> memory \<Rightarrow> memory" where
  "backward_copy d0 s0 cnt m =
     (let d = d0 + cnt; s = s0 + cnt;
       (m1, d1, s1, cnt1) =
        (if (d OR s) AND lmask \<noteq> 0
         then (let len = (if (d XOR s) AND lmask \<noteq> 0 \<or> cnt \<le> lsize then cnt else d AND lmask);
                   (m', d', s') = copy_down (loop_count len) d s m
               in (m', d', s', cnt - len))
         else (m, d, s, cnt));
       (m2, d2, s2) = copy_words_down (loop_count (cnt1 div lsize)) d1 s1 m1;
       (m3, _, _) = copy_down (loop_count (cnt1 AND lmask)) d2 s2 m2
      in m3)"

definition memcpy :: "uint \<Rightarrow> uint \<Rightarrow> uint \<Rightarrow> memory \<Rightarrow> memory" where
  "memcpy dest src cnt m = (if cnt = 0 \<or> dest = src then m else forward_copy dest src cnt m)"

definition memmove :: "uint \<Rightarrow> uint \<Rightarrow> uint \<Rightarrow> memory \<Rightarrow> memory" where
  "memmove dest src cnt m =
     (if cnt = 0 \<or> dest = src then m
      else if sint dest < sint src then forward_copy dest src cnt m else backward_copy dest src cnt m)"

definition bcopy :: "uint \<Rightarrow> uint \<Rightarrow> uint \<Rightarrow> memory \<Rightarrow> memory" where
  "bcopy src dest cnt m = memcpy dest src cnt m"

section \<open>Filling\<close>

primrec fill :: "nat \<Rightarrow> uint \<Rightarrow> byte \<Rightarrow> memory \<Rightarrow> memory \<times> uint" where
  "fill 0 xs c m = (m, xs)"
| "fill (Suc n) xs c m = fill n (xs + 1) c (m(xs := c))"

text \<open>A word is written with its least significant byte first.\<close>

definition store_word :: "uint \<Rightarrow> uint \<Rightarrow> memory \<Rightarrow> memory" where
  "store_word x w m = m(x := ucast w, x + 1 := ucast (drop_bit 8 w), x + 2 := ucast (drop_bit 16 w), x + 3 := ucast (drop_bit 24 w))"

primrec fill_words :: "nat \<Rightarrow> uint \<Rightarrow> uint \<Rightarrow> memory \<Rightarrow> memory \<times> uint" where
  "fill_words 0 xs w m = (m, xs)"
| "fill_words (Suc n) xs w m = fill_words n (xs + 4) w (store_word xs w m)"

definition memset :: "uint \<Rightarrow> uint \<Rightarrow> uint \<Rightarrow> memory \<Rightarrow> memory" where
  "memset s c cnt m =
     (let xs = s; len = (- s) AND 3; cc = c AND 0xFF;
          (m1, xs1, cnt1) =
            (if len < cnt
             then (let cnt' = cnt - len; cc1 = cc OR push_bit 8 cc; cc2 = cc1 OR push_bit 16 cc1;
                       (m', xs') = fill (unat len) xs (ucast c) m;
                       (m'', xs'') = fill_words (unat (cnt' div 4)) xs' cc2 m'
                   in (m'', xs'', cnt' AND 3))
             else (m, xs, cnt))
      in fst (fill (unat cnt1) xs1 (ucast c) m1))"

definition bzero :: "uint \<Rightarrow> uint \<Rightarrow> memory \<Rightarrow> memory" where
  "bzero dst cnt m = memset dst 0 cnt m"

section \<open>Searching and comparing\<close>

primrec memchr_loop :: "nat \<Rightarrow> uint \<Rightarrow> byte \<Rightarrow> memory \<Rightarrow> uint option" where
  "memchr_loop 0 p x m = None"
| "memchr_loop (Suc n) p x m = (if m p = x then Some p else memchr_loop n (p + 1) x m)"

definition memchr :: "uint \<Rightarrow> uint \<Rightarrow> uint \<Rightarrow> memory \<Rightarrow> uint option" where
  "memchr buf c len m = memchr_loop (unat len) buf (ucast (c AND 0xFF)) m"

text \<open>The byte is compared with the whole argument.\<close>

primrec memscan_loop :: "nat \<Rightarrow> uint \<Rightarrow> int \<Rightarrow> memory \<Rightarrow> uint" where
  "memscan_loop 0 p c m = p"
| "memscan_loop (Suc n) p c m = (if uint (m p) = c then p else memscan_loop n (p + 1) c m)"

definition memscan :: "uint \<Rightarrow> int \<Rightarrow> uint \<Rightarrow> memory \<Rightarrow> uint" where
  "memscan addr c sz m = memscan_loop (unat sz) addr c m"

text \<open>The difference of two bytes goes into a \<^verbatim>\<open>signed char\<close>.\<close>

primrec memcmp_loop :: "nat \<Rightarrow> byte \<Rightarrow> uint \<Rightarrow> uint \<Rightarrow> memory \<Rightarrow> byte" where
  "memcmp_loop 0 res p q m = res"
| "memcmp_loop (Suc n) res p q m = (let r = m p - m q in if r \<noteq> 0 then r else memcmp_loop n r (p + 1) (q + 1) m)"

definition memcmp :: "uint \<Rightarrow> uint \<Rightarrow> uint \<Rightarrow> memory \<Rightarrow> int" where
  "memcmp cs ct cnt m = sint (memcmp_loop (unat cnt) 0 cs ct m)"

section \<open>Copying all bytes at once\<close>

definition copied :: "uint \<Rightarrow> uint \<Rightarrow> nat \<Rightarrow> memory \<Rightarrow> memory" where
  "copied d s n m = (\<lambda>x. if unat (x - d) < n then m (s + (x - d)) else m x)"

text \<open>Copying upwards is safe when the destination does not start inside the source, copying downwards when the source does not start inside the destination.\<close>

definition up_safe :: "uint \<Rightarrow> uint \<Rightarrow> nat \<Rightarrow> bool" where
  "up_safe d s n \<longleftrightarrow> n < 2 ^ 32 \<and> (d = s \<or> n \<le> unat (d - s))"

definition down_safe :: "uint \<Rightarrow> uint \<Rightarrow> nat \<Rightarrow> bool" where
  "down_safe d s n \<longleftrightarrow> n < 2 ^ 32 \<and> (d = s \<or> n \<le> unat (s - d))"

lemma unat_32: "unat (x :: uint) < 2 ^ 32"
  using unsigned_less [of x, where 'a = nat] by simp

lemma sub32: "unat (x - y :: uint) = (if unat y \<le> unat x then unat x - unat y else unat x + 2 ^ 32 - unat y)"
  by (simp add: unat_sub_if')

lemma of_nat32: "n < 2 ^ 32 \<Longrightarrow> unat (of_nat n :: uint) = n"
  by (simp add: unat_of_nat)

lemma copied_0 [simp]: "copied d s 0 m = m"
  by (simp add: copied_def)

lemma copied_same: "copied d d n m = m"
  by (rule ext) (simp add: copied_def)

lemma up_safe_less: "up_safe d s n \<Longrightarrow> k \<le> n \<Longrightarrow> up_safe d s k"
  by (auto simp: up_safe_def)

lemma up_safe_shift: "up_safe d s n \<Longrightarrow> up_safe (d + k) (s + k) n"
  by (auto simp: up_safe_def)

lemma down_safe_less: "down_safe d s n \<Longrightarrow> k \<le> n \<Longrightarrow> down_safe d s k"
  by (auto simp: down_safe_def)

lemma down_safe_shift: "down_safe d s n \<Longrightarrow> down_safe (d - k) (s - k) n"
  by (auto simp: down_safe_def)

lemma copied_up:
  assumes "up_safe d s (k + n)"
  shows "copied (d + of_nat k) (s + of_nat k) n (copied d s k m) = copied d s (k + n) m"
proof (cases "d = s")
  case True
  then show ?thesis by (simp add: copied_same)
next
  case False
  then have kn: "k + n < 2 ^ 32" "k + n \<le> unat (d - s)" using assms by (auto simp: up_safe_def)
  show ?thesis
  proof
    fix x
    define j where "j = x - d"
    have x: "x = d + j" by (simp add: j_def)
    have jk: "unat (j - of_nat k) = (if k \<le> unat j then unat j - k else unat j + 2 ^ 32 - k)" using kn(1) by (simp add: sub32 of_nat32)
    have "copied d s k m (s + j) = m (s + j)" if "k \<le> unat j" "unat j < k + n"
    proof -
      have eq: "s + j - d = j - (d - s)" by simp
      have "unat (j - (d - s)) = unat j + 2 ^ 32 - unat (d - s)" using that kn(2) by (subst sub32) simp
      then have "\<not> unat (s + j - d) < k" unfolding eq using that unat_32 [of "d - s"] by simp
      then show ?thesis by (simp add: copied_def)
    qed
    moreover have "d + j - (d + of_nat k) = j - of_nat k" "s + of_nat k + (j - of_nat k) = s + j" by simp_all
    ultimately show "copied (d + of_nat k) (s + of_nat k) n (copied d s k m) x = copied d s (k + n) m x"
      using kn(1) jk unfolding x by (auto simp: copied_def [of "d + of_nat k"] copied_def [of d s "k + n"]) (auto simp: copied_def)
  qed
qed

lemma copied_down:
  assumes "down_safe d s (k + n)"
  shows "copied d s k (copied (d + of_nat k) (s + of_nat k) n m) = copied d s (k + n) m"
proof (cases "d = s")
  case True
  then show ?thesis by (simp add: copied_same)
next
  case False
  then have kn: "k + n < 2 ^ 32" "k + n \<le> unat (s - d)" using assms by (auto simp: down_safe_def)
  show ?thesis
  proof
    fix x
    define j where "j = x - d"
    have x: "x = d + j" by (simp add: j_def)
    have jk: "unat (j - of_nat k) = (if k \<le> unat j then unat j - k else unat j + 2 ^ 32 - k)" using kn(1) by (simp add: sub32 of_nat32)
    have "copied (d + of_nat k) (s + of_nat k) n m (s + j) = m (s + j)" if "unat j < k"
    proof -
      have "unat (s - d - of_nat k) = unat (s - d) - k" using kn by (subst sub32) (simp add: of_nat32)
      moreover have "unat (s - d) < 2 ^ 32" by (rule unat_32)
      ultimately have "unat (s - d - of_nat k + j) = unat (s - d) - k + unat j" using that kn(2) by (simp add: unat_plus_if')
      moreover have eq: "s + j - (d + of_nat k) = s - d - of_nat k + j" by simp
      ultimately have "\<not> unat (s + j - (d + of_nat k)) < n" unfolding eq using kn(2) by linarith
      then show ?thesis by (simp add: copied_def)
    qed
    moreover have "d + j - (d + of_nat k) = j - of_nat k" "s + of_nat k + (j - of_nat k) = s + j" by simp_all
    ultimately show "copied d s k (copied (d + of_nat k) (s + of_nat k) n m) x = copied d s (k + n) m x"
      using kn(1) jk unfolding x by (auto simp: copied_def [of d s]) (auto simp: copied_def)
  qed
qed

lemma copied_1: "m(d := m s) = copied d s 1 m"
  by (rule ext) (auto simp: copied_def unat_eq_0)

lemma copy_up_copied: "up_safe d s n \<Longrightarrow> copy_up n d s m = (copied d s n m, d + of_nat n, s + of_nat n)"
proof (induction n arbitrary: d s m)
  case (Suc n)
  have "up_safe (d + 1) (s + 1) n" using up_safe_shift [OF up_safe_less [OF Suc.prems, of n]] by simp
  from Suc.IH [OF this] show ?case using copied_up [of d s 1 n m] Suc.prems by (simp add: copied_1 algebra_simps)
qed simp

lemma copy_down_copied: "down_safe d s n \<Longrightarrow> copy_down n d s m = (copied (d - of_nat n) (s - of_nat n) n m, d - of_nat n, s - of_nat n)"
proof (induction n arbitrary: d s m)
  case (Suc n)
  have "down_safe (d - 1) (s - 1) n" using down_safe_shift [OF down_safe_less [OF Suc.prems, of n]] by simp
  moreover have "down_safe (d - 1 - of_nat n) (s - 1 - of_nat n) (n + 1)"
    using down_safe_shift [OF down_safe_shift [OF Suc.prems], of 1 "of_nat n"] by simp
  ultimately show ?case
    using Suc.IH [of "d - 1" "s - 1"] copied_down [of "d - 1 - of_nat n" "s - 1 - of_nat n" n 1 m] by (simp add: copied_1 algebra_simps)
qed simp

lemma move_word_copied:
  assumes "d = s \<or> 4 \<le> unat (d - s) \<or> 4 \<le> unat (s - d)"
  shows "move_word d s m = copied d s 4 m"
proof
  fix x
  have "x = d \<or> x = d + 1 \<or> x = d + 2 \<or> x = d + 3" if "unat (x - d) < 4"
  proof -
    have "unat (x - d) = 0 \<or> unat (x - d) = 1 \<or> unat (x - d) = 2 \<or> unat (x - d) = 3" using that by linarith
    then have "x - d = 0 \<or> x - d = 1 \<or> x - d = 2 \<or> x - d = 3" by (simp add: word_unat_eq_iff)
    then show ?thesis by (auto simp: diff_eq_eq add.commute)
  qed
  then show "move_word d s m x = copied d s 4 m x" by (auto simp: move_word_def copied_def)
qed

lemma copy_words_up_copied:
  "up_safe d s (4 * n) \<Longrightarrow> copy_words_up n d s m = (copied d s (4 * n) m, d + of_nat (4 * n), s + of_nat (4 * n))"
proof (induction n arbitrary: d s m)
  case (Suc n)
  have "up_safe (d + 4) (s + 4) (4 * n)" using up_safe_shift [OF up_safe_less [OF Suc.prems, of "4 * n"]] by simp
  moreover have "move_word d s m = copied d s 4 m" by (rule move_word_copied) (use Suc.prems in \<open>auto simp: up_safe_def\<close>)
  ultimately show ?case using Suc.IH [of "d + 4" "s + 4"] copied_up [of d s 4 "4 * n" m] Suc.prems by (simp add: algebra_simps)
qed simp

lemma copy_words_down_copied:
  "down_safe d s (4 * n) \<Longrightarrow>
   copy_words_down n d s m = (copied (d - of_nat (4 * n)) (s - of_nat (4 * n)) (4 * n) m, d - of_nat (4 * n), s - of_nat (4 * n))"
proof (induction n arbitrary: d s m)
  case (Suc n)
  have "down_safe (d - 4) (s - 4) (4 * n)" using down_safe_shift [OF down_safe_less [OF Suc.prems, of "4 * n"]] by simp
  moreover have "move_word (d - 4) (s - 4) m = copied (d - 4) (s - 4) 4 m"
    by (rule move_word_copied) (use Suc.prems in \<open>auto simp: down_safe_def\<close>)
  moreover have "down_safe (d - 4 - of_nat (4 * n)) (s - 4 - of_nat (4 * n)) (4 * n + 4)"
    using down_safe_shift [OF down_safe_shift [OF Suc.prems], of 4 "of_nat (4 * n)"] by (simp add: add.commute)
  ultimately show ?case
    using Suc.IH [of "d - 4" "s - 4"] copied_down [of "d - 4 - of_nat (4 * n)" "s - 4 - of_nat (4 * n)" "4 * n" 4 m] by (simp add: algebra_simps)
qed simp

section \<open>The optimised copies\<close>

lemma loop_count_nat:
  assumes "unat len < 2 ^ 31"
  shows "loop_count len = unat len"
proof -
  have u: "uint len = int (unat len)" by simp
  have "uint len < 2 ^ 31" using assms by (metis of_nat_less_iff of_nat_numeral of_nat_power u)
  moreover have "- (2 ^ 31) \<le> uint len" by (rule order_trans [OF _ uint_ge_0]) simp
  ultimately have "sint len = uint len" by (simp add: sint_uint signed_take_bit_int_eq_self)
  then show ?thesis unfolding loop_count_def u by simp
qed

lemma and_3: "x AND 3 = (x :: uint) mod 4"
proof -
  have "x AND 3 = take_bit 2 x" by (simp add: take_bit_eq_mask mask_eq_exp_minus_1)
  also have "\<dots> = x mod 4" by (simp add: take_bit_eq_mod)
  finally show ?thesis .
qed

lemma words_and_rest: "4 * unat (cnt div lsize) + unat (cnt AND lmask) = unat cnt"
  by (simp add: lsize_def lmask_def and_3 unat_div unat_mod)


text \<open>The first part of a copy: a number of bytes that is at most the count.\<close>

definition head_len :: "uint \<Rightarrow> uint \<Rightarrow> uint \<Rightarrow> uint" where
  "head_len d s cnt =
     (if (d OR s) AND lmask \<noteq> 0
      then (if (d XOR s) AND lmask \<noteq> 0 \<or> cnt < lsize then cnt else lsize - (d AND lmask)) else 0)"

definition tail_len :: "uint \<Rightarrow> uint \<Rightarrow> uint \<Rightarrow> uint" where
  "tail_len d s cnt =
     (if (d OR s) AND lmask \<noteq> 0
      then (if (d XOR s) AND lmask \<noteq> 0 \<or> cnt \<le> lsize then cnt else d AND lmask) else 0)"

lemma mod4_less: "x mod 4 < (4 :: uint)"
  by (simp add: word_less_nat_alt unat_mod)

lemma head_len_le: "head_len d s cnt \<le> cnt"
proof -
  have "lsize - (d AND lmask) \<le> cnt" if "\<not> cnt < lsize"
  proof -
    have "lsize - (d AND lmask) \<le> lsize" using mod4_less [of d] by (intro word_sub_le) (simp add: lmask_def lsize_def and_3)
    then show ?thesis using that by simp
  qed
  then show ?thesis by (simp add: head_len_def)
qed

lemma tail_len_le: "tail_len d s cnt \<le> cnt"
proof -
  have "d AND lmask \<le> cnt" if "\<not> cnt \<le> lsize"
    using mod4_less [of d] that by (simp add: lmask_def lsize_def and_3)
  then show ?thesis by (simp add: tail_len_def)
qed

lemma loop_count_0 [simp]: "loop_count 0 = 0"
  by (simp add: loop_count_def)

lemma forward_copy_phases:
  "forward_copy d s cnt m =
     (case copy_up (loop_count (head_len d s cnt)) d s m of (m1, d1, s1) \<Rightarrow>
        (case copy_words_up (loop_count ((cnt - head_len d s cnt) div lsize)) d1 s1 m1 of (m2, d2, s2) \<Rightarrow>
           fst (copy_up (loop_count ((cnt - head_len d s cnt) AND lmask)) d2 s2 m2)))"
  by (auto simp: forward_copy_def head_len_def Let_def split: prod.splits)

lemma backward_copy_phases:
  "backward_copy d s cnt m =
     (case copy_down (loop_count (tail_len (d + cnt) (s + cnt) cnt)) (d + cnt) (s + cnt) m of (m1, d1, s1) \<Rightarrow>
        (case copy_words_down (loop_count ((cnt - tail_len (d + cnt) (s + cnt) cnt) div lsize)) d1 s1 m1 of (m2, d2, s2) \<Rightarrow>
           fst (copy_down (loop_count ((cnt - tail_len (d + cnt) (s + cnt) cnt) AND lmask)) d2 s2 m2)))"
  by (auto simp: backward_copy_def tail_len_def Let_def split: prod.splits)

lemma forward_copy_copied:
  assumes n: "unat cnt < 2 ^ 31" and safe: "up_safe d s (unat cnt)"
  shows "forward_copy d s cnt m = copied d s (unat cnt) m"
proof -
  let ?len = "head_len d s cnt" let ?l = "unat ?len"
  define cnt1 where "cnt1 = cnt - ?len"
  have l: "?l \<le> unat cnt" using head_len_le by (simp add: word_le_nat_alt)
  have c1: "unat cnt1 = unat cnt - ?l" unfolding cnt1_def by (rule unat_sub [OF head_len_le])
  let ?w = "unat (cnt1 div lsize)" let ?r = "unat (cnt1 AND lmask)"
  have wr: "4 * ?w + ?r = unat cnt1" by (rule words_and_rest)
  have lc: "loop_count ?len = ?l" "loop_count (cnt1 div lsize) = ?w" "loop_count (cnt1 AND lmask) = ?r"
    by (intro loop_count_nat; use l c1 wr n in linarith)+
  have s1: "up_safe d s ?l" by (rule up_safe_less [OF safe l])
  have s2: "up_safe (d + of_nat ?l) (s + of_nat ?l) (4 * ?w + ?r)" using up_safe_shift [OF up_safe_less [OF safe]] l c1 wr by simp
  have s3: "up_safe (d + of_nat ?l) (s + of_nat ?l) (4 * ?w)" using up_safe_less [OF s2] by simp
  have s4: "up_safe (d + of_nat ?l + of_nat (4 * ?w)) (s + of_nat ?l + of_nat (4 * ?w)) ?r" using up_safe_shift [OF up_safe_less [OF s2]] by simp
  have "forward_copy d s cnt m = (case copy_up ?l d s m of (m1, d1, s1) \<Rightarrow> (case copy_words_up ?w d1 s1 m1 of (m2, d2, s2) \<Rightarrow> fst (copy_up ?r d2 s2 m2)))"
    unfolding forward_copy_phases cnt1_def [symmetric] lc ..
  also have "\<dots> = copied (d + of_nat ?l + of_nat (4 * ?w)) (s + of_nat ?l + of_nat (4 * ?w)) ?r
      (copied (d + of_nat ?l) (s + of_nat ?l) (4 * ?w) (copied d s ?l m))"
    by (simp only: copy_up_copied [OF s1] copy_words_up_copied [OF s3] copy_up_copied [OF s4] prod.case fst_conv)
  also have "\<dots> = copied (d + of_nat ?l) (s + of_nat ?l) (unat cnt1) (copied d s ?l m)" using copied_up [OF s2] wr by simp
  also have "\<dots> = copied d s (unat cnt) m" using copied_up [of d s ?l "unat cnt1" m] safe c1 l by simp
  finally show ?thesis .
qed

lemma sub_sum: "r + w = c \<Longrightarrow> d + c - w = d + (r :: uint)"
  by auto

lemma backward_copy_copied:
  assumes n: "unat cnt < 2 ^ 31" and safe: "down_safe d s (unat cnt)"
  shows "backward_copy d s cnt m = copied d s (unat cnt) m"
proof -
  let ?d = "d + cnt" let ?s = "s + cnt"
  let ?len = "tail_len ?d ?s cnt" let ?l = "unat ?len"
  define cnt1 where "cnt1 = cnt - ?len"
  have l: "?l \<le> unat cnt" using tail_len_le by (simp add: word_le_nat_alt)
  have c1: "unat cnt1 = unat cnt - ?l" unfolding cnt1_def by (rule unat_sub [OF tail_len_le])
  let ?w = "unat (cnt1 div lsize)" let ?r = "unat (cnt1 AND lmask)"
  have wr: "4 * ?w + ?r = unat cnt1" by (rule words_and_rest)
  have lc: "loop_count ?len = ?l" "loop_count (cnt1 div lsize) = ?w" "loop_count (cnt1 AND lmask) = ?r"
    by (intro loop_count_nat; use l c1 wr n in linarith)+
  have sh: "down_safe (d + k) (s + k) n" if "n \<le> unat cnt" for k n using down_safe_less [OF safe that] by (simp add: down_safe_def)
  have ad: "?d - of_nat ?l = d + cnt1" "?s - of_nat ?l = s + cnt1" by (simp_all add: cnt1_def)
  have "of_nat ?r + of_nat (4 * ?w) = (of_nat (4 * ?w + ?r) :: uint)" by simp
  then have rw: "of_nat ?r + of_nat (4 * ?w) = cnt1" unfolding wr by simp
  have ad2: "d + cnt1 - of_nat (4 * ?w) = d + of_nat ?r" "s + cnt1 - of_nat (4 * ?w) = s + of_nat ?r"
    by (rule sub_sum [OF rw])+
  have "backward_copy d s cnt m = (case copy_down ?l ?d ?s m of (m1, d1, s1) \<Rightarrow> (case copy_words_down ?w d1 s1 m1 of (m2, d2, s2) \<Rightarrow> fst (copy_down ?r d2 s2 m2)))"
    unfolding backward_copy_phases cnt1_def [symmetric] lc ..
  also have "\<dots> = copied d s ?r (copied (d + of_nat ?r) (s + of_nat ?r) (4 * ?w) (copied (d + cnt1) (s + cnt1) ?l m))"
  proof -
    have "copy_words_down ?w (d + cnt1) (s + cnt1) m' = (copied (d + of_nat ?r) (s + of_nat ?r) (4 * ?w) m', d + of_nat ?r, s + of_nat ?r)" for m'
    proof -
      have "4 * ?w \<le> unat cnt" using wr c1 by linarith
      from copy_words_down_copied [OF sh [OF this], of cnt1 m'] show ?thesis unfolding ad2 .
    qed
    moreover have "copy_down ?r (d + of_nat ?r) (s + of_nat ?r) m' = (copied d s ?r m', d, s)" for m'
      using copy_down_copied [OF sh [of ?r "of_nat ?r"]] wr c1 by simp
    ultimately show ?thesis using copy_down_copied [OF sh [OF l], of cnt m] by (simp only: ad prod.case fst_conv)
  qed
  also have "\<dots> = copied d s (unat cnt1) (copied (d + cnt1) (s + cnt1) ?l m)"
    using copied_down [of d s ?r "4 * ?w"] sh [of "?r + 4 * ?w" 0] wr c1 by (simp add: add.commute)
  also have "\<dots> = copied d s (unat cnt) m" using copied_down [of d s "unat cnt1" ?l m] safe c1 l by (simp add: cnt1_def)
  finally show ?thesis .
qed


section \<open>Filling at once\<close>

definition filled :: "uint \<Rightarrow> byte \<Rightarrow> nat \<Rightarrow> memory \<Rightarrow> memory" where
  "filled s c n m = (\<lambda>x. if unat (x - s) < n then c else m x)"

lemma filled_append:
  assumes "k + n < 2 ^ 32"
  shows "filled (s + of_nat k) c n (filled s c k m) = filled s c (k + n) m"
proof
  fix x
  define j where "j = x - s"
  have x: "x = s + j" by (simp add: j_def)
  have jk: "unat (j - of_nat k) = (if k \<le> unat j then unat j - k else unat j + 2 ^ 32 - k)" using assms by (simp add: sub32 of_nat32)
  have "s + j - (s + of_nat k) = j - of_nat k" by simp
  then show "filled (s + of_nat k) c n (filled s c k m) x = filled s c (k + n) m x"
    using assms jk unfolding x by (auto simp: filled_def)
qed

lemma filled_0 [simp]: "filled s c 0 m = m"
  by (simp add: filled_def)

lemma filled_1: "m(s := c) = filled s c 1 m"
  by (rule ext) (auto simp: filled_def unat_eq_0)

lemma fill_filled: "n < 2 ^ 32 \<Longrightarrow> fill n s c m = (filled s c n m, s + of_nat n)"
proof (induction n arbitrary: s m)
  case (Suc n)
  then show ?case using filled_append [of 1 n s c m] by (simp add: filled_1 algebra_simps)
qed simp

lemma repeated_byte:
  fixes c :: uint
  defines "cc \<equiv> c AND 0xFF" defines "c2 \<equiv> (cc OR push_bit 8 cc) OR push_bit 16 (cc OR push_bit 8 cc)"
  shows "ucast c2 = (ucast c :: byte)" "ucast (drop_bit 8 c2) = (ucast c :: byte)" "ucast (drop_bit 16 c2) = (ucast c :: byte)"
    "ucast (drop_bit 24 c2) = (ucast c :: byte)"
proof -
  have cc: "c AND 0xFF = take_bit 8 c" by (simp add: take_bit_eq_mask mask_eq_exp_minus_1)
  show "ucast c2 = (ucast c :: byte)" unfolding c2_def cc_def cc by (rule bit_word_eqI) (auto simp: bit_simps)
  show "ucast (drop_bit 8 c2) = (ucast c :: byte)" unfolding c2_def cc_def cc by (rule bit_word_eqI) (auto simp: bit_simps)
  show "ucast (drop_bit 16 c2) = (ucast c :: byte)" unfolding c2_def cc_def cc by (rule bit_word_eqI) (auto simp: bit_simps)
  show "ucast (drop_bit 24 c2) = (ucast c :: byte)" unfolding c2_def cc_def cc by (rule bit_word_eqI) (auto simp: bit_simps)
qed

lemma store_word_filled:
  assumes "ucast w = b" "ucast (drop_bit 8 w) = b" "ucast (drop_bit 16 w) = b" "ucast (drop_bit 24 w) = b"
  shows "store_word s w m = filled s b 4 m"
proof
  fix x
  have "x = s \<or> x = s + 1 \<or> x = s + 2 \<or> x = s + 3" if "unat (x - s) < 4"
  proof -
    have "unat (x - s) = 0 \<or> unat (x - s) = 1 \<or> unat (x - s) = 2 \<or> unat (x - s) = 3" using that by linarith
    then have "x - s = 0 \<or> x - s = 1 \<or> x - s = 2 \<or> x - s = 3" by (simp add: word_unat_eq_iff)
    then show ?thesis by (auto simp: diff_eq_eq add.commute)
  qed
  then show "store_word s w m x = filled s b 4 m x" using assms by (auto simp: store_word_def filled_def)
qed

lemma fill_words_filled:
  assumes w: "\<And>s m. store_word s w m = filled s b 4 m"
  shows "4 * n < 2 ^ 32 \<Longrightarrow> fill_words n s w m = (filled s b (4 * n) m, s + of_nat (4 * n))"
proof (induction n arbitrary: s m)
  case (Suc n)
  then show ?case using filled_append [of 4 "4 * n" s b m] by (simp add: w algebra_simps)
qed simp

lemma memset_filled: "memset s c cnt m = filled s (ucast c) (unat cnt) m"
proof (cases "(- s) AND 3 < cnt")
  case False
  have "unat cnt < 2 ^ 32" by (rule unat_32)
  from fill_filled [OF this] False show ?thesis by (simp add: memset_def Let_def)
next
  case True
  let ?len = "(- s) AND 3" let ?l = "unat ?len" let ?c = "cnt - ?len" let ?w = "unat (?c div 4)" let ?r = "unat (?c AND 3)" let ?b = "ucast c :: byte"
  have c: "unat ?c = unat cnt - ?l" by (rule unat_sub) (use True in simp)
  have le: "?l \<le> unat cnt" using True by (simp add: word_less_nat_alt)
  have wr: "4 * ?w + ?r = unat ?c" using words_and_rest [of ?c] by (simp add: lsize_def lmask_def)
  have b32: "unat cnt < 2 ^ 32" by (rule unat_32)
  have bd: "?l < 2 ^ 32" "4 * ?w < 2 ^ 32" "?r < 2 ^ 32" "?l + (4 * ?w + ?r) < 2 ^ 32" "4 * ?w + ?r < 2 ^ 32" using wr c le b32 by linarith+
  have "memset s c cnt m = filled (s + of_nat ?l + of_nat (4 * ?w)) ?b ?r (filled (s + of_nat ?l) ?b (4 * ?w) (filled s ?b ?l m))"
    using True fill_filled [OF bd(1), of s ?b m] fill_words_filled [OF store_word_filled [OF repeated_byte [of c]] bd(2)]
      fill_filled [OF bd(3)] by (simp add: memset_def Let_def)
  also have "\<dots> = filled s ?b (unat cnt) m"
    using filled_append [OF bd(5), of "s + of_nat ?l" ?b] filled_append [OF bd(4), of s ?b m] wr c le by simp
  finally show ?thesis .
qed


section \<open>Properties\<close>

lemma memmove_copied:
  assumes n: "unat cnt < 2 ^ 31" "unat dest + unat cnt \<le> 2 ^ 32" "unat src + unat cnt \<le> 2 ^ 32" and half: "(sint dest < sint src) = (dest < src)"
  shows "memmove dest src cnt m = copied dest src (unat cnt) m"
proof -
  consider "dest = src" | "dest < src" | "src < dest" by (meson antisym_conv3)
  then show ?thesis
  proof cases
    case 1
    then show ?thesis by (simp add: memmove_def copied_same)
  next
    case 2
    then have "unat dest < unat src" by (simp add: word_less_nat_alt)
    then have "unat cnt \<le> unat (dest - src)" using n unfolding sub32 by auto
    then have "up_safe dest src (unat cnt)" using n by (simp add: up_safe_def)
    from forward_copy_copied [OF n(1) this] show ?thesis using 2 half by (auto simp: memmove_def)
  next
    case 3
    then have "unat src < unat dest" by (simp add: word_less_nat_alt)
    then have "unat cnt \<le> unat (src - dest)" using n unfolding sub32 by auto
    then have "down_safe dest src (unat cnt)" using n by (simp add: down_safe_def)
    from backward_copy_copied [OF n(1) this] show ?thesis using 3 half by (auto simp: memmove_def)
  qed
qed

lemma memcpy_copied:
  assumes "unat cnt < 2 ^ 31" "dest = src \<or> unat cnt \<le> unat (dest - src)"
  shows "memcpy dest src cnt m = copied dest src (unat cnt) m"
proof -
  have "up_safe dest src (unat cnt)" using assms by (simp add: up_safe_def)
  from forward_copy_copied [OF assms(1) this] show ?thesis by (auto simp: memcpy_def copied_same)
qed



end
