(* ===== verification/Cstring.thy ===== *)
theory Cstring
  imports Memory
begin

text \<open>
  The string routines of \<^verbatim>\<open>lib/string\<close> and the character classes of \<^verbatim>\<open>lib/phlox/ctype.c\<close> on the memory of
  bytes. A loop that looks for a terminating zero returns \<open>None\<close> when it would run for ever; it is
  shown to end on terminated strings. A \<^verbatim>\<open>char\<close> is signed.
\<close>

section \<open>Character classes\<close>

abbreviation (input) CT_U :: byte where "CT_U \<equiv> 0x01"
abbreviation (input) CT_L :: byte where "CT_L \<equiv> 0x02"
abbreviation (input) CT_D :: byte where "CT_D \<equiv> 0x04"
abbreviation (input) CT_C :: byte where "CT_C \<equiv> 0x08"
abbreviation (input) CT_P :: byte where "CT_P \<equiv> 0x10"
abbreviation (input) CT_S :: byte where "CT_S \<equiv> 0x20"
abbreviation (input) CT_X :: byte where "CT_X \<equiv> 0x40"
abbreviation (input) CT_SP :: byte where "CT_SP \<equiv> 0x80"

text \<open>The table by runs of equal entries: the first byte of the run and its class.\<close>

definition ctype_runs :: "(nat \<times> byte) list" where
  "ctype_runs = [(0, CT_C), (9, CT_C OR CT_S), (14, CT_C), (32, CT_S OR CT_SP), (33, CT_P), (48, CT_D), (58, CT_P), (65, CT_U OR CT_X), (71, CT_U),
     (91, CT_P), (97, CT_L OR CT_X), (103, CT_L), (123, CT_P), (127, CT_C), (128, 0), (160, CT_S OR CT_SP), (161, CT_P), (192, CT_U), (215, CT_P),
     (216, CT_U), (223, CT_L), (247, CT_P), (248, CT_L)]"

definition ctype_tab :: "nat \<Rightarrow> byte" where
  "ctype_tab n = foldl (\<lambda>acc (b, v). if b \<le> n then v else acc) 0 ctype_runs"

definition ismask :: "int \<Rightarrow> byte" where
  "ismask x = ctype_tab (unat (word_of_int x :: byte))"

definition isalnum :: "int \<Rightarrow> bool" where "isalnum c \<longleftrightarrow> ismask c AND (CT_U OR CT_L OR CT_D) \<noteq> 0"
definition isalpha :: "int \<Rightarrow> bool" where "isalpha c \<longleftrightarrow> ismask c AND (CT_U OR CT_L) \<noteq> 0"
definition iscntrl :: "int \<Rightarrow> bool" where "iscntrl c \<longleftrightarrow> ismask c AND CT_C \<noteq> 0"
definition isdigit :: "int \<Rightarrow> bool" where "isdigit c \<longleftrightarrow> ismask c AND CT_D \<noteq> 0"
definition isgraph :: "int \<Rightarrow> bool" where "isgraph c \<longleftrightarrow> ismask c AND (CT_P OR CT_U OR CT_L OR CT_D) \<noteq> 0"
definition islower :: "int \<Rightarrow> bool" where "islower c \<longleftrightarrow> ismask c AND CT_L \<noteq> 0"
definition isprint :: "int \<Rightarrow> bool" where "isprint c \<longleftrightarrow> ismask c AND (CT_P OR CT_U OR CT_L OR CT_D OR CT_SP) \<noteq> 0"
definition ispunct :: "int \<Rightarrow> bool" where "ispunct c \<longleftrightarrow> ismask c AND CT_P \<noteq> 0"
definition isspace :: "int \<Rightarrow> bool" where "isspace c \<longleftrightarrow> ismask c AND CT_S \<noteq> 0"
definition isupper :: "int \<Rightarrow> bool" where "isupper c \<longleftrightarrow> ismask c AND CT_U \<noteq> 0"
definition isxdigit :: "int \<Rightarrow> bool" where "isxdigit c \<longleftrightarrow> ismask c AND (CT_D OR CT_X) \<noteq> 0"
definition isascii :: "int \<Rightarrow> bool" where "isascii c \<longleftrightarrow> (word_of_int c :: byte) \<le> 0x7F"
definition toascii :: "int \<Rightarrow> byte" where "toascii c = word_of_int c AND 0x7F"

definition tolower :: "byte \<Rightarrow> byte" where
  "tolower c = (if isupper (uint c) then c - (65 - 97) else c)"

definition toupper :: "byte \<Rightarrow> byte" where
  "toupper c = (if islower (uint c) then c - (97 - 65) else c)"

section \<open>Length\<close>

partial_function (option) strlen_loop :: "memory \<Rightarrow> uint \<Rightarrow> uint \<Rightarrow> uint option" where
  "strlen_loop m s i = (if m (s + i) = 0 then Some i else strlen_loop m s (i + 1))"

definition strlen :: "memory \<Rightarrow> uint \<Rightarrow> uint option" where
  "strlen m s = strlen_loop m s 0"

primrec strnlen_loop :: "nat \<Rightarrow> memory \<Rightarrow> uint \<Rightarrow> uint" where
  "strnlen_loop 0 m sc = sc"
| "strnlen_loop (Suc n) m sc = (if m sc = 0 then sc else strnlen_loop n m (sc + 1))"

definition strnlen :: "memory \<Rightarrow> uint \<Rightarrow> uint \<Rightarrow> uint" where
  "strnlen m s cnt = strnlen_loop (unat cnt) m s - s"

section \<open>Copying strings\<close>

partial_function (option) strcpy_loop :: "uint \<Rightarrow> uint \<Rightarrow> memory \<Rightarrow> memory option" where
  "strcpy_loop dest src m = (if m src = 0 then Some (m(dest := m src)) else strcpy_loop (dest + 1) (src + 1) (m(dest := m src)))"

definition strcpy :: "uint \<Rightarrow> uint \<Rightarrow> memory \<Rightarrow> memory option" where
  "strcpy dest src m = strcpy_loop dest src m"

partial_function (option) end_loop :: "memory \<Rightarrow> uint \<Rightarrow> uint option" where
  "end_loop m dest = (if m dest = 0 then Some dest else end_loop m (dest + 1))"

definition strcat :: "uint \<Rightarrow> uint \<Rightarrow> memory \<Rightarrow> memory option" where
  "strcat dest src m = (case end_loop m dest of None \<Rightarrow> None | Some d \<Rightarrow> strcpy_loop d src m)"

primrec strncpy_loop :: "nat \<Rightarrow> uint \<Rightarrow> uint \<Rightarrow> memory \<Rightarrow> memory" where
  "strncpy_loop 0 dest src m = m"
| "strncpy_loop (Suc n) dest src m = (let m1 = m(dest := m src) in if m src = 0 then m1 else strncpy_loop n (dest + 1) (src + 1) m1)"

definition strncpy :: "uint \<Rightarrow> uint \<Rightarrow> uint \<Rightarrow> memory \<Rightarrow> memory" where
  "strncpy dest src cnt m = strncpy_loop (unat cnt) dest src m"

text \<open>The counter is positive when the loop is entered.\<close>

primrec strncat_loop :: "nat \<Rightarrow> uint \<Rightarrow> uint \<Rightarrow> memory \<Rightarrow> memory" where
  "strncat_loop 0 dest src m = m(dest := 0)"
| "strncat_loop (Suc n) dest src m = (let m1 = m(dest := m src) in if m src = 0 then m1 else strncat_loop n (dest + 1) (src + 1) m1)"

definition strncat :: "uint \<Rightarrow> uint \<Rightarrow> uint \<Rightarrow> memory \<Rightarrow> memory option" where
  "strncat dest src cnt m =
     (if cnt = 0 then Some m else (case end_loop m dest of None \<Rightarrow> None | Some d \<Rightarrow> Some (strncat_loop (unat cnt) d src m)))"

text \<open>The common loop of \<^verbatim>\<open>strlcpy\<close> and \<^verbatim>\<open>strlcat\<close>: it stops at the bound or at the end of the source.\<close>

function strl_loop :: "uint \<Rightarrow> uint \<Rightarrow> uint \<Rightarrow> uint \<Rightarrow> memory \<Rightarrow> memory \<times> uint" where
  "strl_loop i bound dst src m =
     (if i < bound \<and> m (src + i) \<noteq> 0 then strl_loop (i + 1) bound dst src (m(dst + i := m (src + i))) else (m, i))"
  by pat_completeness auto
termination
proof (relation "measure (\<lambda>(i, bound, _). unat bound - unat i)", goal_cases)
  case (2 i bound dst src m)
  then have "unat i < unat bound" by (simp add: word_less_nat_alt)
  moreover have "unat (i + 1) = unat i + 1" using calculation unat_32 [of bound] by (simp add: unat_word_ariths)
  ultimately show ?case by simp
qed simp

declare strl_loop.simps [simp del]

definition strlcpy :: "uint \<Rightarrow> uint \<Rightarrow> uint \<Rightarrow> memory \<Rightarrow> (memory \<times> uint) option" where
  "strlcpy dst src s m =
     (if s = 0 then map_option (\<lambda>l. (m, l)) (strlen m src)
      else (case strl_loop 0 (s - 1) dst src m of
              (m1, i) \<Rightarrow> (let m2 = m1(dst + i := 0) in map_option (\<lambda>l. (m2, i + l)) (strlen m2 (src + i)))))"

definition strlcat :: "uint \<Rightarrow> uint \<Rightarrow> uint \<Rightarrow> memory \<Rightarrow> (memory \<times> uint) option" where
  "strlcat dst src s m =
     (let j = strnlen m dst s in
      if s = 0 then map_option (\<lambda>l. (m, j + l)) (strlen m src)
      else (case strl_loop 0 (s - 1) (dst + j) src m of
              (m1, i) \<Rightarrow> (let m2 = m1(dst + j + i := 0) in map_option (\<lambda>l. (m2, j + i + l)) (strlen m2 (src + i)))))"

definition strxfrm :: "uint \<Rightarrow> uint \<Rightarrow> uint \<Rightarrow> memory \<Rightarrow> (memory \<times> uint) option" where
  "strxfrm dest src n m =
     map_option (\<lambda>len.
       if n = 0 then (m, len)
       else (let copy_len = (if len < n then len else n - 1); m1 = memcpy dest src copy_len m in (m1(dest + copy_len := 0), len)))
     (strlen m src)"

section \<open>Comparing\<close>

partial_function (option) strcmp_loop :: "memory \<Rightarrow> uint \<Rightarrow> uint \<Rightarrow> byte option" where
  "strcmp_loop m cs ct = (let res = m cs - m ct in if res \<noteq> 0 \<or> m cs = 0 then Some res else strcmp_loop m (cs + 1) (ct + 1))"

definition strcmp :: "memory \<Rightarrow> uint \<Rightarrow> uint \<Rightarrow> int option" where
  "strcmp m cs ct = map_option sint (strcmp_loop m cs ct)"

definition strcoll :: "memory \<Rightarrow> uint \<Rightarrow> uint \<Rightarrow> int option" where
  "strcoll m s1 s2 = strcmp m s1 s2"

primrec strncmp_loop :: "nat \<Rightarrow> byte \<Rightarrow> memory \<Rightarrow> uint \<Rightarrow> uint \<Rightarrow> byte" where
  "strncmp_loop 0 res m cs ct = res"
| "strncmp_loop (Suc n) res m cs ct = (let r = m cs - m ct in if r \<noteq> 0 \<or> m cs = 0 then r else strncmp_loop n r m (cs + 1) (ct + 1))"

definition strncmp :: "memory \<Rightarrow> uint \<Rightarrow> uint \<Rightarrow> uint \<Rightarrow> int" where
  "strncmp m cs ct cnt = sint (strncmp_loop (unat cnt) 0 m cs ct)"

text \<open>The result carries the characters read last.\<close>

primrec strnicmp_loop :: "nat \<Rightarrow> byte \<times> byte \<Rightarrow> memory \<Rightarrow> uint \<Rightarrow> uint \<Rightarrow> byte \<times> byte" where
  "strnicmp_loop 0 r m s1 s2 = r"
| "strnicmp_loop (Suc n) r m s1 s2 =
     (let c1 = m s1; c2 = m s2 in
      if c1 = 0 \<or> c2 = 0 then (c1, c2)
      else if c1 = c2 then strnicmp_loop n (c1, c2) m (s1 + 1) (s2 + 1)
      else (let d1 = tolower c1; d2 = tolower c2 in
            if d1 \<noteq> d2 then (d1, d2) else strnicmp_loop n (d1, d2) m (s1 + 1) (s2 + 1)))"

definition strnicmp :: "memory \<Rightarrow> uint \<Rightarrow> uint \<Rightarrow> uint \<Rightarrow> int" where
  "strnicmp m s1 s2 len = (case strnicmp_loop (unat len) (0, 0) m s1 s2 of (c1, c2) \<Rightarrow> uint c1 - uint c2)"

section \<open>Searching\<close>

partial_function (option) strchr_loop :: "memory \<Rightarrow> uint \<Rightarrow> byte \<Rightarrow> uint option option" where
  "strchr_loop m s c = (if m s = c then Some (Some s) else if m s = 0 then Some None else strchr_loop m (s + 1) c)"

definition strchr :: "memory \<Rightarrow> uint \<Rightarrow> int \<Rightarrow> uint option option" where
  "strchr m s c = strchr_loop m s (word_of_int c)"

partial_function (option) strrchr_loop :: "memory \<Rightarrow> uint \<Rightarrow> int \<Rightarrow> uint option \<Rightarrow> uint option option" where
  "strrchr_loop m s c last_found =
     (if m s = 0 then Some last_found else strrchr_loop m (s + 1) c (if sint (m s) = c then Some s else last_found))"

definition strrchr :: "memory \<Rightarrow> uint \<Rightarrow> int \<Rightarrow> uint option option" where
  "strrchr m s c = strrchr_loop m s c (if c \<noteq> 0 then None else Some s)"

partial_function (option) member_loop :: "memory \<Rightarrow> uint \<Rightarrow> byte \<Rightarrow> bool option" where
  "member_loop m a c = (if m a = 0 then Some False else if c = m a then Some True else member_loop m (a + 1) c)"

partial_function (option) strpbrk_loop :: "memory \<Rightarrow> uint \<Rightarrow> uint \<Rightarrow> uint option option" where
  "strpbrk_loop m sc1 ct =
     (if m sc1 = 0 then Some None
      else (case member_loop m ct (m sc1) of None \<Rightarrow> None | Some b \<Rightarrow> if b then Some (Some sc1) else strpbrk_loop m (sc1 + 1) ct))"

definition strpbrk :: "memory \<Rightarrow> uint \<Rightarrow> uint \<Rightarrow> uint option option" where
  "strpbrk m cs ct = strpbrk_loop m cs ct"

partial_function (option) strspn_loop :: "memory \<Rightarrow> uint \<Rightarrow> uint \<Rightarrow> uint \<Rightarrow> uint option" where
  "strspn_loop m p accept cnt =
     (if m p = 0 then Some cnt
      else (case member_loop m accept (m p) of None \<Rightarrow> None | Some b \<Rightarrow> if b then strspn_loop m (p + 1) accept (cnt + 1) else Some cnt))"

definition strspn :: "memory \<Rightarrow> uint \<Rightarrow> uint \<Rightarrow> uint option" where
  "strspn m s accept = strspn_loop m s accept 0"

text \<open>The lengths are of type \<^verbatim>\<open>int\<close>.\<close>

function strstr_loop :: "memory \<Rightarrow> uint \<Rightarrow> int \<Rightarrow> uint \<Rightarrow> int \<Rightarrow> uint option" where
  "strstr_loop m s1 l1 s2 l2 =
     (if l2 \<le> l1 then (if memcmp s1 s2 (word_of_int l2) m = 0 then Some s1 else strstr_loop m (s1 + 1) (l1 - 1) s2 l2) else None)"
  by pat_completeness auto
termination by (relation "measure (\<lambda>(m, s1, l1, s2, l2). nat (l1 - l2 + 1))") auto

declare strstr_loop.simps [simp del]

definition strstr :: "memory \<Rightarrow> uint \<Rightarrow> uint \<Rightarrow> uint option option" where
  "strstr m s1 s2 =
     (case strlen m s2 of
        None \<Rightarrow> None
      | Some l2 \<Rightarrow> if l2 = 0 then Some (Some s1)
          else map_option (\<lambda>l1. strstr_loop m s1 (sint l1) s2 (sint l2)) (strlen m s1))"

text \<open>The static pointer of \<^verbatim>\<open>strtok\<close> is an argument and part of the result.\<close>

definition strtok :: "uint option \<Rightarrow> uint \<Rightarrow> uint option \<Rightarrow> memory \<Rightarrow> (memory \<times> uint option \<times> uint option) option" where
  "strtok s ct saved m =
     (case (if s \<noteq> None then s else saved) of
        None \<Rightarrow> Some (m, saved, None)
      | Some sbegin \<Rightarrow>
          (case strspn m sbegin ct of
             None \<Rightarrow> None
           | Some n \<Rightarrow>
               (let sb = sbegin + n in
                if m sb = 0 then Some (m, None, None)
                else (case strpbrk m sb ct of
                        None \<Rightarrow> None
                      | Some None \<Rightarrow> Some (m, None, Some sb)
                      | Some (Some send) \<Rightarrow>
                          if m send \<noteq> 0 then Some (m(send := 0), Some (send + 1), Some sb) else Some (m, Some send, Some sb)))))"

declare strlen_loop.simps [code] strcpy_loop.simps [code] end_loop.simps [code] strcmp_loop.simps [code] strchr_loop.simps [code]
  strrchr_loop.simps [code] member_loop.simps [code] strpbrk_loop.simps [code] strspn_loop.simps [code]


section \<open>Terminated strings\<close>

primrec cstr :: "memory \<Rightarrow> uint \<Rightarrow> byte list \<Rightarrow> bool" where
  "cstr m p [] \<longleftrightarrow> m p = 0"
| "cstr m p (x # xs) \<longleftrightarrow> m p = x \<and> x \<noteq> 0 \<and> cstr m (p + 1) xs"

text \<open>The addresses of the first \<open>n + 1\<close> bytes.\<close>

definition span :: "uint \<Rightarrow> nat \<Rightarrow> uint set" where
  "span p n = (\<lambda>i. p + of_nat i) ` {..n}"

lemma all_less_Suc0: "(\<forall>i<Suc n. P i) \<longleftrightarrow> P 0 \<and> (\<forall>i<n. P (Suc i))"
  by (auto simp: less_Suc_eq_0_disj)

lemma cstr_iff: "cstr m p xs \<longleftrightarrow> (\<forall>i<length xs. m (p + of_nat i) = xs ! i \<and> xs ! i \<noteq> 0) \<and> m (p + of_nat (length xs)) = 0"
  by (induction xs arbitrary: p) (auto simp: all_less_Suc0 algebra_simps)

lemma cstr_nonzero: "cstr m p xs \<Longrightarrow> 0 \<notin> set xs"
  by (induction xs arbitrary: p) auto

lemma cstr_length:
  assumes "cstr m p xs"
  shows "length xs < 2 ^ 32"
proof (rule ccontr)
  assume "\<not> ?thesis"
  then have "length xs mod 2 ^ 32 < length xs"
    by (meson linorder_not_less mod_less_divisor order_less_le_trans zero_less_numeral zero_less_power)
  moreover have "(of_nat (length xs mod 2 ^ 32) :: uint) = of_nat (length xs)" by (rule word_unat_eq_iff [THEN iffD2]) (simp add: unat_of_nat)
  ultimately show False using assms unfolding cstr_iff by metis
qed

lemma cstr_append: "cstr m p (xs @ ys) \<longleftrightarrow> (\<forall>i<length xs. m (p + of_nat i) = xs ! i \<and> xs ! i \<noteq> 0) \<and> cstr m (p + of_nat (length xs)) ys"
  by (induction xs arbitrary: p) (auto simp: all_less_Suc0 algebra_simps)

lemma cstr_frame: "cstr m p xs \<Longrightarrow> (\<And>a. a \<in> span p (length xs) \<Longrightarrow> m' a = m a) \<Longrightarrow> cstr m' p xs"
  by (simp add: cstr_iff span_def)

lemma span_shift: "a + b \<le> n \<Longrightarrow> span (p + of_nat a) b \<subseteq> span p n"
  unfolding span_def image_subset_iff Ball_def
  by (intro allI impI rev_image_eqI [of "a + i" for i]) (auto simp: algebra_simps)

lemma of_nat_eq32: "i < 2 ^ 32 \<Longrightarrow> j < 2 ^ 32 \<Longrightarrow> (of_nat i :: uint) = of_nat j \<longleftrightarrow> i = j"
  using of_nat32 by metis

lemma notin_span: "n < k \<Longrightarrow> k < 2 ^ 32 \<Longrightarrow> p + of_nat k \<notin> span p n"
  by (auto simp: span_def of_nat_eq32)

lemma notin_span_after: "k < j \<Longrightarrow> j + n < 2 ^ 32 \<Longrightarrow> p + of_nat k \<notin> span (p + of_nat j) n"
proof
  assume a: "k < j" "j + n < 2 ^ 32" "p + of_nat k \<in> span (p + of_nat j) n"
  then obtain i where "i \<le> n" "p + of_nat k = p + of_nat j + (of_nat i :: uint)" by (auto simp: span_def)
  then have "(of_nat k :: uint) = of_nat (j + i)" by (simp add: add.assoc)
  then show False using a \<open>i \<le> n\<close> of_nat_eq32 [of k "j + i"] by simp
qed

section \<open>What the searches find\<close>

lemma strlen_loop_cstr: "cstr m (s + i) xs \<Longrightarrow> strlen_loop m s i = Some (i + of_nat (length xs))"
  by (induction xs arbitrary: i) (subst strlen_loop.simps, simp add: algebra_simps)+

lemma strlen_cstr: "cstr m s xs \<Longrightarrow> strlen m s = Some (of_nat (length xs))"
  using strlen_loop_cstr [of m s 0 xs] by (simp add: strlen_def)

lemma strnlen_loop_cstr: "cstr m s xs \<Longrightarrow> strnlen_loop n m s = s + of_nat (min n (length xs))"
  by (induction xs arbitrary: s n; case_tac n) (auto simp: algebra_simps)

lemma end_loop_cstr: "cstr m p xs \<Longrightarrow> end_loop m p = Some (p + of_nat (length xs))"
  by (induction xs arbitrary: p) (subst end_loop.simps, simp add: algebra_simps)+

lemma strchr_loop_cstr:
  "cstr m s xs \<Longrightarrow> strchr_loop m s c = Some (if c \<in> set xs \<or> c = 0 then Some (s + of_nat (length (takeWhile (\<lambda>x. x \<noteq> c) xs))) else None)"
  by (induction xs arbitrary: s) (subst strchr_loop.simps, auto simp: algebra_simps)+

lemma member_loop_cstr: "cstr m a as \<Longrightarrow> member_loop m a c = Some (c \<in> set as)"
  by (induction as arbitrary: a) (subst member_loop.simps, auto)+

lemma strspn_loop_cstr:
  "cstr m p xs \<Longrightarrow> cstr m a ds \<Longrightarrow> strspn_loop m p a n = Some (n + of_nat (length (takeWhile (\<lambda>x. x \<in> set ds) xs)))"
  by (induction xs arbitrary: p n) (subst strspn_loop.simps, auto simp: member_loop_cstr algebra_simps)+

lemma strpbrk_loop_cstr:
  "cstr m p xs \<Longrightarrow> cstr m a ds \<Longrightarrow>
   strpbrk_loop m p a = Some (if \<exists>x\<in>set xs. x \<in> set ds then Some (p + of_nat (length (takeWhile (\<lambda>x. x \<notin> set ds) xs))) else None)"
  by (induction xs arbitrary: p) (subst strpbrk_loop.simps, auto simp: member_loop_cstr algebra_simps)+

lemma strrchr_loop_cstr:
  "cstr m s xs \<Longrightarrow> strrchr_loop m s c l =
     Some (if \<exists>x\<in>set xs. sint x = c then Some (s + of_nat (length xs - Suc (length (takeWhile (\<lambda>x. sint x \<noteq> c) (rev xs))))) else l)"
proof (induction xs arbitrary: s l)
  case Nil
  then show ?case by (subst strrchr_loop.simps) simp
next
  case (Cons x xs)
  show ?case
  proof (cases "\<exists>y\<in>set xs. sint y = c")
    case True
    then have "takeWhile (\<lambda>x. sint x \<noteq> c) (rev xs @ [x]) = takeWhile (\<lambda>x. sint x \<noteq> c) (rev xs)" by (auto simp: takeWhile_append1)
    moreover have "length (takeWhile (\<lambda>x. sint x \<noteq> c) (rev xs)) < length xs"
      using True takeWhile_eq_all_conv [of "\<lambda>x. sint x \<noteq> c" "rev xs"] takeWhile_eq_take [of "\<lambda>x. sint x \<noteq> c" "rev xs"]
      by (metis length_rev length_takeWhile_le nat_less_le set_rev take_all)
    ultimately show ?thesis using Cons True
      by (subst strrchr_loop.simps) (auto simp: algebra_simps Suc_diff_Suc of_nat_Suc [symmetric] simp del: of_nat_Suc)
  next
    case False
    then have "takeWhile (\<lambda>x. sint x \<noteq> c) (rev xs @ [x]) = rev xs @ takeWhile (\<lambda>x. sint x \<noteq> c) [x]" by (intro takeWhile_append2) auto
    then show ?thesis using Cons False by (subst strrchr_loop.simps) auto
  qed
qed

section \<open>What the comparisons decide\<close>

fun byte_diff :: "byte list \<Rightarrow> byte list \<Rightarrow> byte" where
  "byte_diff (x # xs) (y # ys) = (if x = y then byte_diff xs ys else x - y)"
| "byte_diff (x # xs) [] = x"
| "byte_diff [] (y # ys) = - y"
| "byte_diff [] [] = 0"

lemma byte_diff_0: "0 \<notin> set xs \<Longrightarrow> 0 \<notin> set ys \<Longrightarrow> byte_diff xs ys = 0 \<longleftrightarrow> xs = ys"
  by (induction xs ys rule: byte_diff.induct) auto

lemma strcmp_loop_cstr: "cstr m p xs \<Longrightarrow> cstr m q ys \<Longrightarrow> strcmp_loop m p q = Some (byte_diff xs ys)"
  by (induction xs ys arbitrary: p q rule: byte_diff.induct) (subst strcmp_loop.simps, auto simp: Let_def)+

lemma strncmp_loop_cstr:
  "cstr m p xs \<Longrightarrow> cstr m q ys \<Longrightarrow> strncmp_loop n 0 m p q = byte_diff (take n xs) (take n ys)"
proof (induction xs ys arbitrary: p q n rule: byte_diff.induct)
  case (1 x xs y ys)
  then show ?case by (cases n) (auto simp: Let_def)
next
  case (2 x xs)
  then show ?case by (cases n) (auto simp: Let_def)
next
  case (3 y ys)
  then show ?case by (cases n) (auto simp: Let_def)
next
  case 4
  then show ?case by (cases n) (auto simp: Let_def)
qed

lemma sint_0_iff: "sint (x :: byte) = 0 \<longleftrightarrow> x = 0"
  using signed_word_eqI [of x 0] by auto

lemma strcmp_cstr: "cstr m p xs \<Longrightarrow> cstr m q ys \<Longrightarrow> \<exists>r. strcmp m p q = Some r \<and> (r = 0 \<longleftrightarrow> xs = ys)"
  using byte_diff_0 [of xs ys] by (auto simp: strcmp_def strcmp_loop_cstr cstr_nonzero sint_0_iff)

lemma strncmp_cstr: "cstr m p xs \<Longrightarrow> cstr m q ys \<Longrightarrow> strncmp m p q n = 0 \<longleftrightarrow> take (unat n) xs = take (unat n) ys"
  using byte_diff_0 [of "take (unat n) xs" "take (unat n) ys"] cstr_nonzero [of m p xs] cstr_nonzero [of m q ys]
  by (simp add: strncmp_def strncmp_loop_cstr sint_0_iff) (metis in_set_takeD)


lemma memcmp_loop_0: "memcmp_loop n 0 p q m = 0 \<longleftrightarrow> (\<forall>i<n. m (p + of_nat i) = m (q + of_nat i))"
  by (induction n arbitrary: p q) (auto simp: Let_def all_less_Suc0 algebra_simps)

lemma memcmp_0: "memcmp p q n m = 0 \<longleftrightarrow> (\<forall>i<unat n. m (p + of_nat i) = m (q + of_nat i))"
  by (simp add: memcmp_def sint_0_iff memcmp_loop_0)

lemma bytes_cstr:
  assumes "cstr m p xs" "cstr m q ys" "i + length ys \<le> length xs"
  shows "(\<forall>j<length ys. m (p + of_nat i + of_nat j) = m (q + of_nat j)) \<longleftrightarrow> take (length ys) (drop i xs) = ys"
proof -
  have "m (p + of_nat i + of_nat j) = drop i xs ! j" "m (q + of_nat j) = ys ! j" if "j < length ys" for j
    using that assms by (auto simp: cstr_iff nth_drop add.assoc simp flip: of_nat_add)
  then show ?thesis using assms(3) by (auto simp: list_eq_iff_nth_eq)
qed

text \<open>The position of the first occurrence of a string in another.\<close>

primrec occurs_at :: "byte list \<Rightarrow> byte list \<Rightarrow> nat option" where
  "occurs_at ys [] = (if ys = [] then Some 0 else None)"
| "occurs_at ys (x # xs) = (if take (length ys) (x # xs) = ys then Some 0 else map_option Suc (occurs_at ys xs))"

lemma occurs_at_short: "length xs < length ys \<Longrightarrow> occurs_at ys xs = None"
  by (induction xs) (auto simp: list_eq_iff_nth_eq [where ?ys = ys])

lemma strstr_loop_cstr:
  "cstr m p xs \<Longrightarrow> cstr m q ys \<Longrightarrow> ys \<noteq> [] \<Longrightarrow> length xs < 2 ^ 31 \<Longrightarrow>
   strstr_loop m p (int (length xs)) q (int (length ys)) = map_option (\<lambda>i. p + of_nat i) (occurs_at ys xs)"
proof (induction xs arbitrary: p)
  case Nil
  then show ?case by (simp add: strstr_loop.simps)
next
  case (Cons x xs)
  have "memcmp p q (of_nat (length ys)) m = 0 \<longleftrightarrow> take (length ys) (x # xs) = ys" if "length ys \<le> length (x # xs)"
    using that bytes_cstr [OF Cons.prems(1,2), of 0] Cons.prems(4) by (simp add: memcmp_0 of_nat32)
  moreover have "strstr_loop m (p + 1) (int (length xs)) q (int (length ys)) = map_option (\<lambda>i. p + 1 + of_nat i) (occurs_at ys xs)"
    using Cons by simp
  ultimately show ?case
    using occurs_at_short [of "x # xs" ys] by (subst strstr_loop.simps) (auto simp: option.map_comp o_def algebra_simps simp del: length_Cons)
qed

lemma sint_of_nat32:
  assumes "n < 2 ^ 31"
  shows "sint (of_nat n :: uint) = int n"
proof -
  have "int n < 2 ^ 31" using assms by (metis of_nat_less_iff of_nat_numeral of_nat_power)
  then show ?thesis by (simp add: signed_of_nat signed_take_bit_int_eq_self)
qed

lemma strstr_cstr:
  assumes "cstr m p xs" "cstr m q ys" "length xs < 2 ^ 31" "length ys < 2 ^ 31"
  shows "strstr m p q = Some (map_option (\<lambda>i. p + of_nat i) (occurs_at ys xs))"
proof (cases "ys = []")
  case True
  then show ?thesis using strlen_cstr [OF assms(2)] by (cases xs; simp add: strstr_def)
next
  case False
  then have "(of_nat (length ys) :: uint) \<noteq> 0" using of_nat_eq32 [of "length ys" 0] cstr_length [OF assms(2)] by simp
  then show ?thesis using False strstr_loop_cstr [OF assms(1,2)] assms(3,4)
    by (simp add: strstr_def strlen_cstr [OF assms(1)] strlen_cstr [OF assms(2)] sint_of_nat32)
qed

lemma occurs_at_first:
  "occurs_at ys xs = Some i \<longleftrightarrow>
   i + length ys \<le> length xs \<and> take (length ys) (drop i xs) = ys \<and> (\<forall>j<i. take (length ys) (drop j xs) \<noteq> ys)"
proof (induction xs arbitrary: i)
  case Nil
  then show ?case by auto
next
  case (Cons x xs)
  have "length ys \<le> Suc (length xs)" if "take (length ys) (x # xs) = ys" using arg_cong [OF that, of length] by simp
  with Cons show ?case by (cases i) (auto simp: all_less_Suc0)
qed

lemma occurs_at_none: "occurs_at ys xs = None \<longleftrightarrow> (\<forall>i. i + length ys \<le> length xs \<longrightarrow> take (length ys) (drop i xs) \<noteq> ys)"
proof (induction xs)
  case Nil
  then show ?case by auto
next
  case (Cons x xs)
  have "(\<forall>i. P i) \<longleftrightarrow> P 0 \<and> (\<forall>i. P (Suc i))" for P by (metis not0_implies_Suc)
  from this [of "\<lambda>i. i + length ys \<le> length (x # xs) \<longrightarrow> take (length ys) (drop i (x # xs)) \<noteq> ys"]
  show ?case using Cons by (auto simp: list_eq_iff_nth_eq [where ?ys = ys])
qed

section \<open>What the copies leave\<close>

lemma strcpy_loop_cstr: "cstr m src xs \<Longrightarrow> up_safe dest src (length xs + 1) \<Longrightarrow> strcpy_loop dest src m = Some (copied dest src (length xs + 1) m)"
proof (induction xs arbitrary: dest src m)
  case Nil
  then show ?case using copied_1 [of m dest src] by (subst strcpy_loop.simps) simp
next
  case (Cons x xs)
  have u: "up_safe (dest + 1) (src + 1) (length xs + 1)"
    using up_safe_shift [OF up_safe_less [OF Cons.prems(2), of "length xs + 1"]] by simp
  have "cstr (copied dest src 1 m) (src + 1) xs"
  proof (rule cstr_frame)
    fix a assume "a \<in> span (src + 1) (length xs)"
    then obtain i where i: "i \<le> length xs" "a = src + of_nat (Suc i)" by (auto simp: span_def algebra_simps)
    show "copied dest src 1 m a = m a"
    proof (cases "dest = src")
      case False
      then have "Suc (Suc (length xs)) \<le> unat (dest - src)" using Cons.prems(2) by (auto simp: up_safe_def)
      moreover have "unat (of_nat (Suc i) :: uint) = Suc i" using i Cons.prems(2) by (intro of_nat32) (auto simp: up_safe_def)
      ultimately have "dest - src \<noteq> of_nat (Suc i)" using i by force
      then have "a \<noteq> dest" using i(2) by auto
      then show ?thesis unfolding copied_1 [symmetric] by simp
    qed (simp add: copied_same)
  qed (use Cons.prems in simp)
  from Cons.IH [OF this u] have "strcpy_loop (dest + 1) (src + 1) (m(dest := m src)) = Some (copied dest src (length (x # xs) + 1) m)"
    using Cons.prems copied_up [of dest src 1 "length xs + 1" m] by (simp only: copied_1) simp
  then show ?case using Cons.prems(1) by (subst strcpy_loop.simps) simp
qed


lemma copied_outside:
  assumes "\<And>j. j < k \<Longrightarrow> a \<noteq> d + of_nat j"
  shows "copied d s k m a = m a"
  using assms [of "unat (a - d)"] by (auto simp: copied_def)

lemma copied_Suc:
  assumes "k < 2 ^ 32"
  shows "(copied d s k m)(d + of_nat k := m (s + of_nat k)) = copied d s (Suc k) m"
proof
  fix x
  have "x = d + of_nat k \<longleftrightarrow> unat (x - d) = k" using of_nat32 [OF assms]
    by (metis add_diff_cancel_left' diff_add_cancel add.commute word_unat_eq_iff)
  then show "((copied d s k m)(d + of_nat k := m (s + of_nat k))) x = copied d s (Suc k) m x"
    by (auto simp: copied_def less_Suc_eq)
qed

lemma strl_loop_cstr:
  assumes "cstr m src xs" and apart: "\<And>a j. a \<in> span src (length xs) \<Longrightarrow> j < unat bound \<Longrightarrow> a \<noteq> dst + of_nat j"
    and "i \<le> min (unat bound) (length xs)"
  shows "strl_loop (of_nat i) bound dst src (copied dst src i m) =
    (copied dst src (min (unat bound) (length xs)) m, of_nat (min (unat bound) (length xs)))"
  using assms(3)
proof (induction "min (unat bound) (length xs) - i" arbitrary: i rule: less_induct)
  case less
  let ?k = "min (unat bound) (length xs)"
  have i32: "i < 2 ^ 32" using less.prems unat_32 [of bound] by simp
  have at: "copied dst src i m (src + of_nat i) = m (src + of_nat i)"
    using apart [of "src + of_nat i"] less.prems by (intro copied_outside) (auto simp: span_def)
  have lt: "of_nat i < bound \<longleftrightarrow> i < unat bound" by (simp add: word_less_nat_alt of_nat32 [OF i32])
  have fin: "m (src + of_nat i) \<noteq> 0 \<longleftrightarrow> i < length xs" if "i \<le> length xs" using assms(1) that by (auto simp: cstr_iff le_less)
  show ?case
  proof (cases "i < ?k")
    case True
    then have "strl_loop (of_nat (Suc i)) bound dst src (copied dst src (Suc i) m) = (copied dst src ?k m, of_nat ?k)"
      by (intro less.hyps) auto
    then show ?thesis using True at lt fin
      by (subst strl_loop.simps) (simp add: copied_Suc [OF i32] add.commute)
  next
    case False
    then have "i = ?k" using less.prems by linarith
    then show ?thesis using at lt fin less.prems by (subst strl_loop.simps) auto
  qed
qed

lemma strlcpy_cstr:
  assumes "cstr m src xs" "s \<noteq> 0" and apart: "span dst (unat s - 1) \<inter> span src (length xs) = {}"
  defines "k \<equiv> min (unat s - 1) (length xs)"
  shows "strlcpy dst src s m = Some ((copied dst src k m)(dst + of_nat k := 0), of_nat (length xs))"
proof -
  let ?m2 = "(copied dst src k m)(dst + of_nat k := 0)"
  have s1: "unat (s - 1) = unat s - 1" using assms(2) by (simp add: unat_minus_one)
  have ap: "a \<noteq> dst + of_nat j" if "a \<in> span src (length xs)" "j \<le> unat s - 1" for a j
    using apart that by (auto simp: span_def)
  have loop: "strl_loop 0 (s - 1) dst src m = (copied dst src k m, of_nat k)"
    using strl_loop_cstr [OF assms(1), of "s - 1" dst 0] ap by (auto simp: s1 k_def)
  have "cstr m (src + of_nat k) (drop k xs)" using assms(1) cstr_append [of m src "take k xs" "drop k xs"] by (simp add: k_def)
  then have "cstr ?m2 (src + of_nat k) (drop k xs)"
  proof (rule cstr_frame)
    fix a assume "a \<in> span (src + of_nat k) (length (drop k xs))"
    then have "a \<in> span src (length xs)" using span_shift [of k "length (drop k xs)" "length xs" src] by (auto simp: k_def)
    from ap [OF this] show "?m2 a = m a" by (simp add: k_def copied_outside)
  qed
  from strlen_cstr [OF this] show ?thesis using assms(2)
    by (simp add: strlcpy_def loop Let_def k_def of_nat_diff)
qed


section \<open>Tokens\<close>

text \<open>The maximal runs of bytes outside a set, in order.\<close>

function tokens :: "byte set \<Rightarrow> byte list \<Rightarrow> byte list list" where
  "tokens D xs =
     (let ys = dropWhile (\<lambda>x. x \<in> D) xs in if ys = [] then [] else takeWhile (\<lambda>x. x \<notin> D) ys # tokens D (dropWhile (\<lambda>x. x \<notin> D) ys))"
  by pat_completeness auto
termination
proof (relation "measure (\<lambda>(D, xs). length xs)", goal_cases)
  case (2 D xs ys)
  then have "hd ys \<notin> D" using hd_dropWhile [of "\<lambda>x. x \<in> D" xs] by auto
  then have "length (dropWhile (\<lambda>x. x \<notin> D) ys) < length ys" using 2(2) by (cases ys) (auto simp: le_imp_less_Suc length_dropWhile_le)
  then show ?case using 2(1) length_dropWhile_le [of "\<lambda>x. x \<in> D" xs] by simp
qed simp

declare tokens.simps [simp del]

text \<open>Calls of \<^verbatim>\<open>strtok\<close>: the first with the string, the others with a null pointer.\<close>

primrec strtok_calls :: "nat \<Rightarrow> uint option \<Rightarrow> uint \<Rightarrow> uint option \<Rightarrow> memory \<Rightarrow> (memory \<times> uint option \<times> uint option list) option" where
  "strtok_calls 0 s ct saved m = Some (m, saved, [])"
| "strtok_calls (Suc n) s ct saved m =
     (case strtok s ct saved m of
        None \<Rightarrow> None
      | Some (m1, saved1, r) \<Rightarrow> map_option (\<lambda>(m2, saved2, rs). (m2, saved2, r # rs)) (strtok_calls n None ct saved1 m1))"

lemma strtok_none: "strtok None ct None m = Some (m, None, None)"
  by (simp add: strtok_def)

lemma strtok_saved: "strtok None ct (Some p) m = strtok (Some p) ct saved m"
  by (simp add: strtok_def)

text \<open>One call on a terminated string: the next token is cut off in place, the rest is kept for the next call.\<close>

lemma strtok_cstr:
  assumes xs: "cstr m p xs" and ds: "cstr m ct ds"
  defines "a \<equiv> length (takeWhile (\<lambda>x. x \<in> set ds) xs)" and "ys \<equiv> dropWhile (\<lambda>x. x \<in> set ds) xs"
  defines "b \<equiv> length (takeWhile (\<lambda>x. x \<notin> set ds) ys)" and "zs \<equiv> dropWhile (\<lambda>x. x \<notin> set ds) ys"
  shows "strtok (Some p) ct saved m =
    (if ys = [] then Some (m, None, None)
     else if zs = [] then Some (m, None, Some (p + of_nat a))
     else Some (m(p + of_nat (a + b) := 0), Some (p + of_nat (a + b) + 1), Some (p + of_nat a)))"
proof -
  have split: "xs = take a xs @ ys" "length (take a xs) = a" unfolding a_def ys_def
    by (simp_all add: takeWhile_eq_take [symmetric] length_takeWhile_le)
  then have ys: "cstr m (p + of_nat a) ys" using xs by (metis cstr_append)
  have split2: "ys = take b ys @ zs" "length (take b ys) = b" unfolding b_def zs_def
    by (simp_all add: takeWhile_eq_take [symmetric] length_takeWhile_le)
  then have zs: "cstr m (p + of_nat a + of_nat b) zs" using ys by (metis cstr_append)
  have "zs = [] \<longleftrightarrow> \<not> (\<exists>x\<in>set ys. x \<in> set ds)" unfolding zs_def by auto
  moreover have "m (p + of_nat a) = 0 \<longleftrightarrow> ys = []" using ys by (cases ys) auto
  moreover have "m (p + of_nat a + of_nat b) = 0 \<longleftrightarrow> zs = []" using zs by (cases zs) auto
  ultimately show ?thesis using strspn_loop_cstr [OF xs ds, of 0] strpbrk_loop_cstr [OF ys ds]
    by (auto simp: strtok_def strspn_def strpbrk_def a_def [symmetric] b_def [symmetric] Let_def add.assoc)
qed

lemma tokens_Nil: "tokens D [] = []"
  by (simp add: tokens.simps)

lemma tokens_delim: "z \<in> D \<Longrightarrow> tokens D (z # xs) = tokens D xs"
  by (simp add: tokens.simps [of D "z # xs"] tokens.simps [of D xs])

lemma tokens_shape:
  assumes "tokens D xs \<noteq> []"
  obtains as ys zs where "xs = as @ ys @ zs" "as = takeWhile (\<lambda>x. x \<in> D) xs" "ys @ zs = dropWhile (\<lambda>x. x \<in> D) xs" "ys @ zs \<noteq> []"
    "ys = takeWhile (\<lambda>x. x \<notin> D) (ys @ zs)" "zs = dropWhile (\<lambda>x. x \<notin> D) (ys @ zs)" "tokens D xs = ys # tokens D (tl zs)"
proof -
  define d where "d = dropWhile (\<lambda>x. x \<in> D) xs"
  let ?y = "takeWhile (\<lambda>x. x \<notin> D) d" and ?z = "dropWhile (\<lambda>x. x \<notin> D) d"
  have d0: "d \<noteq> []" using assms by (auto simp: d_def tokens.simps [of D xs] Let_def split: if_splits)
  have "tokens D xs = ?y # tokens D ?z" using d0 by (subst tokens.simps) (simp add: Let_def d_def)
  moreover have "tokens D ?z = tokens D (tl ?z)"
    using hd_dropWhile [of "\<lambda>x. x \<notin> D" d] by (metis list.collapse list.sel(2) tokens_delim)
  ultimately show thesis using d0 by (intro that [of "takeWhile (\<lambda>x. x \<in> D) xs" ?y ?z]) (simp_all add: d_def)
qed

lemma cstr_cut:
  assumes "cstr m p (ys @ z # zs)"
  shows "cstr (m(p + of_nat (length ys) := 0)) p ys" "cstr (m(p + of_nat (length ys) := 0)) (p + of_nat (length ys) + 1) zs"
proof -
  have len: "length ys + Suc (length zs) < 2 ^ 32" using cstr_length [OF assms] by simp
  have "(p + of_nat i = p + of_nat (length ys)) = (i = length ys)" if "i \<le> length ys" for i
    using that len of_nat_eq32 [of i "length ys"] by simp
  then show "cstr (m(p + of_nat (length ys) := 0)) p ys" using assms by (simp add: cstr_append cstr_iff [of _ _ ys])
  have eq: "p + of_nat (length ys) + 1 = p + of_nat (length ys + 1)" by simp
  have "p + of_nat (length ys) \<notin> span (p + of_nat (length ys + 1)) (length zs)" by (rule notin_span_after) (use len in simp_all)
  then have "\<And>a. a \<in> span (p + of_nat (length ys + 1)) (length zs) \<Longrightarrow> (m(p + of_nat (length ys) := 0)) a = m a" by auto
  moreover have "cstr m (p + of_nat (length ys + 1)) zs" using assms by (simp add: cstr_append ac_simps)
  ultimately show "cstr (m(p + of_nat (length ys) := 0)) (p + of_nat (length ys) + 1) zs" unfolding eq by (rule cstr_frame [rotated])
qed

definition strtok_result :: "memory \<Rightarrow> uint \<Rightarrow> byte list \<Rightarrow> byte set \<Rightarrow> memory \<Rightarrow> uint option \<Rightarrow> uint \<Rightarrow> bool" where
  "strtok_result m p xs D m' saved' q \<longleftrightarrow>
     (\<forall>x. x \<notin> span p (length xs) \<longrightarrow> m' x = m x) \<and> cstr m' q (hd (tokens D xs)) \<and> span q (length (hd (tokens D xs))) \<subseteq> span p (length xs) \<and>
     (case saved' of
        None \<Rightarrow> tl (tokens D xs) = []
      | Some r \<Rightarrow> (\<exists>rest. cstr m' r rest \<and> tl (tokens D xs) = tokens D rest \<and> length rest < length xs \<and>
          span r (length rest) \<subseteq> span p (length xs) \<and> span q (length (hd (tokens D xs))) \<inter> span r (length rest) = {}))"

lemma strtok_step:
  assumes xs: "cstr m p xs" and ds: "cstr m ct ds" and ne: "tokens (set ds) xs \<noteq> []"
  shows "\<exists>m' saved' q. strtok (Some p) ct saved m = Some (m', saved', Some q) \<and> strtok_result m p xs (set ds) m' saved' q"
proof -
  from tokens_shape [OF ne] obtain as ys zs where sh: "xs = as @ ys @ zs" "as = takeWhile (\<lambda>x. x \<in> set ds) xs" "ys @ zs = dropWhile (\<lambda>x. x \<in> set ds) xs"
    "ys @ zs \<noteq> []" "ys = takeWhile (\<lambda>x. x \<notin> set ds) (ys @ zs)" "zs = dropWhile (\<lambda>x. x \<notin> set ds) (ys @ zs)" "tokens (set ds) xs = ys # tokens (set ds) (tl zs)" .
  let ?q = "p + of_nat (length as)"
  note call = strtok_cstr [OF xs ds, of saved, folded sh(2,3), folded sh(5,6)]
  have q: "cstr m ?q (ys @ zs)" using xs unfolding sh(1) by (simp add: cstr_append)
  have sq: "span ?q (length ys) \<subseteq> span p (length xs)" by (rule span_shift) (simp add: sh(1))
  show ?thesis
  proof (cases zs)
    case Nil
    then show ?thesis using call sh(4) q sq by (simp add: strtok_result_def sh(7) tokens_Nil)
  next
    case (Cons z rest)
    let ?m = "m(p + of_nat (length as + length ys) := 0)" and ?r = "p + of_nat (length as + length ys) + 1"
    have len: "length as + length ys + Suc (length rest) < 2 ^ 32" using cstr_length [OF xs] Cons by (simp add: sh(1))
    have r: "?r = p + of_nat (length as + length ys + 1)" by simp
    have "p + of_nat (length as + length ys) \<in> span p (length xs)" unfolding span_def
      by (rule rev_image_eqI [of "length as + length ys"]) (simp_all add: sh(1))
    moreover have "cstr ?m ?q ys" "cstr ?m ?r rest" using cstr_cut [OF q [unfolded Cons]] by (simp_all add: add.assoc)
    moreover have "span ?r (length rest) \<subseteq> span p (length xs)" unfolding r by (rule span_shift) (simp add: sh(1) Cons)
    moreover have "span ?q (length ys) \<inter> span ?r (length rest) = {}"
    proof -
      have "?q + of_nat i \<notin> span ?r (length rest)" if "i \<le> length ys" for i
        using notin_span_after [of "length as + i" "length as + length ys + 1" "length rest" p] that len
        by (simp add: ac_simps)
      then show ?thesis by (auto simp: span_def [of ?q])
    qed
    ultimately show ?thesis using call sh(4) sq Cons unfolding strtok_result_def sh(7)
      by (intro exI [of _ ?m] exI [of _ "Some ?r"] exI [of _ ?q]) (auto simp: sh(1))
  qed
qed


lemma strtok_calls_saved: "strtok_calls (Suc n) None ct (Some r) m = strtok_calls (Suc n) (Some r) ct saved m"
  by (simp add: strtok_saved [of ct r m saved])

lemma strtok_calls_tokens:
  assumes "cstr m p xs" "cstr m ct ds" "span p (length xs) \<inter> span ct (length ds) = {}"
  shows "\<exists>m' ps. strtok_calls (Suc (length (tokens (set ds) xs))) (Some p) ct saved m = Some (m', None, map Some ps @ [None]) \<and>
    list_all2 (cstr m') ps (tokens (set ds) xs) \<and> (\<forall>x. x \<notin> span p (length xs) \<longrightarrow> m' x = m x)"
  using assms
proof (induction "length xs" arbitrary: p xs m saved rule: less_induct)
  case less
  show ?case
  proof (cases "tokens (set ds) xs = []")
    case True
    then have "dropWhile (\<lambda>x. x \<in> set ds) xs = []" by (auto simp: tokens.simps [of _ xs] Let_def split: if_splits)
    then show ?thesis using True strtok_cstr [OF less.prems(1,2), of saved] by simp
  next
    case False
    define t where "t = hd (tokens (set ds) xs)"
    define ts where "ts = tl (tokens (set ds) xs)"
    have toks: "tokens (set ds) xs = t # ts" using False by (simp add: t_def ts_def)
    obtain m1 sv q where call: "strtok (Some p) ct saved m = Some (m1, sv, Some q)" and res: "strtok_result m p xs (set ds) m1 sv q"
      using strtok_step [OF less.prems(1,2) False] by blast
    have out: "\<And>x. x \<notin> span p (length xs) \<Longrightarrow> m1 x = m x" and q: "cstr m1 q t" "span q (length t) \<subseteq> span p (length xs)"
      using res by (auto simp: strtok_result_def t_def)
    show ?thesis
    proof (cases sv)
      case None
      then have "ts = []" using res by (simp add: strtok_result_def ts_def)
      then show ?thesis using call q(1) out None by (intro exI [of _ m1] exI [of _ "[q]"]) (simp add: toks strtok_none)
    next
      case (Some r)
      then obtain rest where rest: "cstr m1 r rest" "ts = tokens (set ds) rest" "length rest < length xs"
        "span r (length rest) \<subseteq> span p (length xs)" "span q (length t) \<inter> span r (length rest) = {}"
        using res by (auto simp: strtok_result_def t_def ts_def)
      have ct: "cstr m1 ct ds" by (rule cstr_frame [OF less.prems(2)]) (use out less.prems(3) in auto)
      obtain m2 ps where ih: "strtok_calls (Suc (length ts)) (Some r) ct sv m1 = Some (m2, None, map Some ps @ [None])"
        "list_all2 (cstr m2) ps ts" "\<And>x. x \<notin> span r (length rest) \<Longrightarrow> m2 x = m1 x"
        using less.hyps [OF rest(3) rest(1) ct, of sv] rest(2,4) less.prems(3) by blast
      have "cstr m2 q t" by (rule cstr_frame [OF q(1)]) (use ih(3) rest(5) in auto)
      moreover have "strtok_calls (Suc (length (t # ts))) (Some p) ct saved m = Some (m2, None, map Some (q # ps) @ [None])"
        using ih(1) call Some by (simp add: strtok_saved [of ct r m1 "Some r"])
      moreover have "m2 x = m x" if "x \<notin> span p (length xs)" for x using that ih(3) [of x] out [of x] rest(4) by auto
      ultimately show ?thesis using ih(2) unfolding toks by (intro exI [of _ m2] exI [of _ "q # ps"]) (simp del: strtok_calls.simps)
    qed
  qed
qed

section \<open>Theorems\<close>

text \<open>
  C20. Calling \<^verbatim>\<open>strtok\<close> with a string and then with null pointers returns the tokens of the string in
  order, each as a terminated string in place, and then a null pointer, with the saved pointer reset;
  nothing outside the string changes. The number of calls is one more than the number of tokens, so
  that the walk over the string ends.
\<close>

theorem strtok_yields_tokens:
  assumes "cstr m p xs" "cstr m ct ds" "span p (length xs) \<inter> span ct (length ds) = {}"
  shows "\<exists>m' ps. strtok_calls (Suc (length (tokens (set ds) xs))) (Some p) ct saved m = Some (m', None, map Some ps @ [None]) \<and>
    list_all2 (cstr m') ps (tokens (set ds) xs) \<and> (\<forall>x. x \<notin> span p (length xs) \<longrightarrow> m' x = m x)"
  using assms by (rule strtok_calls_tokens)

definition demo_mem :: memory where
  "demo_mem = (\<lambda>_. 0)(16 := 97, 17 := 44, 18 := 98, 19 := 99, 32 := 44)"

lemma demo_strings: "cstr demo_mem 16 [97, 44, 98, 99]" "cstr demo_mem 32 [44]"
  by (simp_all add: demo_mem_def)

lemma demo_spans: "span 16 (length [97, 44, 98, 99 :: byte]) \<inter> span 32 (length [44 :: byte]) = {}"
  "tokens (set [44]) [97, 44, 98, 99] = [[97], [98, 99]]"
  by code_simp+

theorem strtok_yields_tokens_witness:
  "\<exists>m' ps. strtok_calls 3 (Some 16) 32 None demo_mem = Some (m', None, map Some ps @ [None]) \<and> list_all2 (cstr m') ps [[97], [98, 99]]"
  using strtok_yields_tokens [OF demo_strings demo_spans(1), of None] unfolding demo_spans(2) by (auto simp: numeral_3_eq_3 simp del: strtok_calls.simps)




text \<open>
  C22. \<^verbatim>\<open>strlcpy\<close> into a buffer of \<open>s > 0\<close> bytes that does not overlap the source writes inside the buffer
  only, leaves there the longest prefix of the source that fits, terminated, and returns the length
  of the source.
\<close>

theorem strlcpy_stays_in_buffer:
  assumes "cstr m src xs" "s \<noteq> 0" "span dst (unat s - 1) \<inter> span src (length xs) = {}"
  shows "\<exists>m'. strlcpy dst src s m = Some (m', of_nat (length xs)) \<and> cstr m' dst (take (unat s - 1) xs) \<and>
    (\<forall>x. x \<notin> span dst (unat s - 1) \<longrightarrow> m' x = m x)"
proof -
  define k where "k = min (unat s - 1) (length xs)"
  let ?m = "(copied dst src k m)(dst + of_nat k := 0)"
  have k32: "k < 2 ^ 32" using unat_32 [of s] by (simp add: k_def)
  have "(dst + of_nat i = dst + of_nat k) = (i = k)" "i < k \<Longrightarrow> copied dst src k m (dst + of_nat i) = m (src + of_nat i)" if "i \<le> k" for i
    using that k32 of_nat_eq32 [of i k] by (simp_all add: copied_def of_nat32)
  moreover have "take (unat s - 1) xs = take k xs" "length (take k xs) = k" by (simp_all add: k_def min_def)
  ultimately have "cstr ?m dst (take (unat s - 1) xs)" using assms(1) by (simp add: cstr_iff k_def)
  moreover have "?m x = m x" if "x \<notin> span dst (unat s - 1)" for x
  proof -
    have "x \<noteq> dst + of_nat j" if "j \<le> k" for j using that \<open>x \<notin> _\<close> by (auto simp: span_def k_def)
    then show ?thesis by (simp add: copied_outside)
  qed
  ultimately show ?thesis using strlcpy_cstr [OF assms] unfolding k_def by blast
qed

theorem strlcpy_stays_in_buffer_witness: "\<exists>m'. strlcpy 64 16 3 demo_mem = Some (m', 4) \<and> cstr m' 64 [97, 44]"
proof -
  have "span 64 (unat (3 :: uint) - 1) \<inter> span 16 (length [97, 44, 98, 99 :: byte]) = {}" by code_simp
  from strlcpy_stays_in_buffer [OF demo_strings(1) _ this] show ?thesis by simp blast
qed

section \<open>Where the routines depart from their contracts\<close>

text \<open>The difference of two characters is cut to a \<^verbatim>\<open>signed char\<close>, so that the order is not antisymmetric.\<close>

lemma strcmp_not_antisymmetric:
  "strcmp ((\<lambda>_. 0)(16 := 0x80)) 16 32 = Some (- 128)" "strcmp ((\<lambda>_. 0)(16 := 0x80)) 32 16 = Some (- 128)"
  by code_simp+

text \<open>The bound of the loop is not reduced by the length of the destination.\<close>

lemma strlcat_overruns:
  "map_option (\<lambda>(m, n). (m 8, m 9, n)) (strlcat 4 16 4 ((\<lambda>_. 0xFF)(4 := 97, 5 := 97, 6 := 97, 7 := 0, 16 := 98, 17 := 98, 18 := 98, 19 := 0))) = Some (98, 98, 6)"
  by code_simp

lemma strrchr_zero_start: "cstr m p xs \<Longrightarrow> strrchr m p 0 = Some (Some p)"
proof -
  assume xs: "cstr m p xs"
  have "sint x \<noteq> 0" if "x \<in> set xs" for x using that cstr_nonzero [OF xs] by (auto simp: sint_0_iff)
  then show ?thesis using strrchr_loop_cstr [OF xs, of 0 "Some p"] by (auto simp: strrchr_def)
qed

lemma strncpy_does_not_pad: "strncpy 4 16 4 ((\<lambda>_. 0xFF)(16 := 98, 17 := 0)) 6 = 0xFF"
  by code_simp

text \<open>The order of two addresses is that of signed integers.\<close>

lemma memmove_overwrites_source:
  "memmove 0x80000002 0x7FFFFFFE 8 ((\<lambda>_. 0)(0x7FFFFFFE := 1, 0x7FFFFFFF := 2, 0x80000000 := 3, 0x80000001 := 4, 0x80000002 := 5)) 0x80000006 = 1"
  by code_simp


section \<open>Case conversion\<close>

text \<open>The letters of the table: ASCII and the accented letters of Latin-1.\<close>

lemma ismask_byte: "ismask (uint (x :: byte)) = ctype_tab (unat x)"
  by (simp add: ismask_def)

lemma isupper_iff: "isupper (uint (x :: byte)) \<longleftrightarrow> 65 \<le> unat x \<and> unat x < 91 \<or> 192 \<le> unat x \<and> unat x < 223 \<and> unat x \<noteq> 215"
  by (auto simp: isupper_def ismask_byte ctype_tab_def ctype_runs_def)

lemma islower_iff: "islower (uint (x :: byte)) \<longleftrightarrow> 97 \<le> unat x \<and> unat x < 123 \<or> 223 \<le> unat x \<and> unat x \<noteq> 247"
  by (auto simp: islower_def ismask_byte ctype_tab_def ctype_runs_def)

lemma isdigit_iff: "isdigit (uint (x :: byte)) \<longleftrightarrow> 48 \<le> unat x \<and> unat x < 58"
  by (auto simp: isdigit_def ismask_byte ctype_tab_def ctype_runs_def)

lemma isalnum_iff: "isalnum (uint (x :: byte)) \<longleftrightarrow> isalpha (uint x) \<or> isdigit (uint x)"
  by (auto simp: isalnum_def isalpha_def isdigit_def ismask_byte ctype_tab_def ctype_runs_def)

lemma unat_byte: "unat (x :: byte) < 256"
  using unsigned_less [of x, where 'a = nat] by simp

lemma unat_tolower: "unat (tolower x) = (if isupper (uint x) then unat x + 32 else unat x)"
  using unat_byte [of x] by (auto simp: tolower_def isupper_iff unat_plus_if')

lemma unat_toupper: "unat (toupper x) = (if islower (uint x) then unat x - 32 else unat x)"
  using unat_byte [of x] by (auto simp: toupper_def islower_iff unat_sub_if')

text \<open>The two conversions undo each other on upper-case letters; two lower-case codes have no upper case.\<close>

lemma case_conversion: "isupper (uint x) \<Longrightarrow> islower (uint (tolower x)) \<and> toupper (tolower x) = x"
  by (auto simp: isupper_iff islower_iff unat_tolower unat_toupper word_unat_eq_iff)

lemma toupper_leaves_letters: "islower (uint x) \<and> \<not> isupper (uint (toupper x)) \<longleftrightarrow> unat x = 223 \<or> unat x = 255"
  using unat_byte [of x] by (auto simp: isupper_iff islower_iff unat_toupper)

end
