(* ===== verification/Sem_Names.thy ===== *)
theory Sem_Names
  imports Cstring Avl_Runs
begin

text \<open>
  The tree of semaphore names compares with \<^verbatim>\<open>strcmp\<close>. For names of ASCII characters this is a comparison
  routine as the AVL tree needs it; for other names it is not.
\<close>

definition compare_sem_name :: "memory \<Rightarrow> ('n \<Rightarrow> uint) \<Rightarrow> 'n \<Rightarrow> 'n \<Rightarrow> int option" where
  "compare_sem_name m name sem1 sem2 =
     map_option (\<lambda>r. if r \<le> 0 then (if r < 0 then - 1 else 0) else 1) (strcmp m (name sem1) (name sem2))"

definition ascii :: "byte list \<Rightarrow> bool" where
  "ascii xs \<longleftrightarrow> (\<forall>x\<in>set xs. 0 < uint x \<and> uint x < 128)"

definition ascii_name :: "memory \<Rightarrow> uint \<Rightarrow> bool" where
  "ascii_name m p \<longleftrightarrow> (\<exists>xs. Cstring.cstr m p xs \<and> ascii xs)"

lemma sint_small: "- 128 \<le> k \<Longrightarrow> k < 128 \<Longrightarrow> sint (word_of_int k :: byte) = k"
  by (simp add: signed_of_int signed_take_bit_int_eq_self)

lemma sint_diff:
  assumes "uint (x :: byte) < 128" "uint y < 128"
  shows "sint (x - y) = uint x - uint y" "sint x = uint x" "sint (- y) = - uint y"
proof -
  have "0 \<le> uint x" "0 \<le> uint y" by simp_all
  then have "sint (word_of_int (uint x - uint y) :: byte) = uint x - uint y" "sint (word_of_int (uint x) :: byte) = uint x"
    "sint (word_of_int (- uint y) :: byte) = - uint y" using assms by (intro sint_small; linarith)+
  then show "sint (x - y) = uint x - uint y" "sint x = uint x" "sint (- y) = - uint y" by simp_all
qed

lemma byte_diff_swap: "ascii xs \<Longrightarrow> ascii ys \<Longrightarrow> sint (byte_diff ys xs) = - sint (byte_diff xs ys)"
  by (induction xs ys rule: byte_diff.induct) (auto simp: ascii_def sint_diff)

lemma byte_diff_trans:
  "ascii xs \<Longrightarrow> ascii ys \<Longrightarrow> ascii zs \<Longrightarrow> sint (byte_diff xs ys) < 0 \<Longrightarrow> sint (byte_diff ys zs) < 0 \<Longrightarrow> sint (byte_diff xs zs) < 0"
proof (induction xs ys arbitrary: zs rule: byte_diff.induct)
  case (1 x xs y ys)
  show ?case
  proof (cases zs)
    case Nil
    then show ?thesis using 1 by (auto simp: ascii_def sint_diff split: if_splits)
  next
    case (Cons z zs')
    then show ?thesis using 1 by (auto simp: ascii_def sint_diff split: if_splits)
  qed
next
  case (2 x xs)
  then show ?case by (auto simp: ascii_def sint_diff)
next
  case (3 y ys)
  then show ?case by (cases zs) (auto simp: ascii_def sint_diff)
qed simp

lemma compare_names:
  assumes "Cstring.cstr m (name a) xs" "Cstring.cstr m (name b) ys"
  shows "the (compare_sem_name m name a b) = sgn (sint (byte_diff xs ys))"
  using assms by (simp add: compare_sem_name_def strcmp_def strcmp_loop_cstr sgn_if)

interpretation sem_names: avl_order "\<lambda>a b. the (compare_sem_name m name a b)" "{p :: addr_t. p \<noteq> 0 \<and> ascii_name m (name p)}" for m name
proof
  let ?S = "{p :: addr_t. p \<noteq> 0 \<and> ascii_name m (name p)}" and ?c = "\<lambda>a b. the (compare_sem_name m name a b)"
  show "finite ?S" "card ?S < 2 ^ 32" by (rule valid_pointers)+
  fix a b assume ab: "a \<in> ?S" "b \<in> ?S"
  then obtain xs ys where n: "Cstring.cstr m (name a) xs" "ascii xs" "Cstring.cstr m (name b) ys" "ascii ys" by (auto simp: ascii_name_def)
  show "?c a b = - 1 \<or> ?c a b = 0 \<or> ?c a b = 1" unfolding compare_names [of m name, OF n(1,3)] by (simp add: sgn_if)
  show "?c b a = - ?c a b" unfolding compare_names [of m name, OF n(1,3)] compare_names [of m name, OF n(3,1)] byte_diff_swap [OF n(2,4)] by (simp add: sgn_if)
  fix c assume "c \<in> ?S" and less: "?c a b = - 1" "?c b c = - 1"
  then obtain zs where z: "Cstring.cstr m (name c) zs" "ascii zs" by (auto simp: ascii_name_def)
  have "sint (byte_diff xs ys) < 0" "sint (byte_diff ys zs) < 0"
    using less unfolding compare_names [of m name, OF n(1,3)] compare_names [of m name, OF n(3) z(1)] by (auto simp: sgn_if split: if_splits)
  from byte_diff_trans [OF n(2,4) z(2) this] show "?c a c = - 1" unfolding compare_names [of m name, OF n(1) z(1)] by (simp add: sgn_if)
qed

text \<open>Two names of one character that are 128 apart: each compares less than the other.\<close>

lemma names_not_ordered:
  "compare_sem_name ((\<lambda>_. 0)(16 := 1, 32 := 0x81)) (\<lambda>p. p) 16 32 = Some (- 1) \<and> compare_sem_name ((\<lambda>_. 0)(16 := 1, 32 := 0x81)) (\<lambda>p. p) 32 16 = Some (- 1)"
  by code_simp

end
