(* ===== verification/Spec2Isabelle.thy ===== *)
theory Spec2Isabelle
  imports Xlist Clist Kqueue Hash_Table Hash_Funcs Klog Kheap Vm_Page Vm_Map_Runs Sem_Runs Sem_Names
begin

text \<open>
  Verification library of the Phlox microkernel.
\<close>

end
